(* ===== verification/Prelude.thy ===== *)
theory Prelude
  imports Complex_Main "HOL-Library.AList" "HOL-Library.Sublist" "HOL-Library.Char_ord" "HOL-Library.List_Lexorder"
begin

text \<open>
  The vocabulary the component theories share: Python's insertion-ordered dictionaries as
  association lists, results of operations that may raise, string helpers of the standard
  library, and the generic facts about them that the component proofs use.

  Conventions of the whole development: a Python \<open>str\<close> is a HOL \<open>string\<close> whose characters
  stand for code points; a Python \<open>int\<close> is \<open>int\<close> (or \<open>nat\<close> where it is a length or a
  position); a finite binary64 \<open>float\<close> is the \<open>rat\<close> it denotes and is only compared, except
  where a theory says otherwise; an instant is the number of microseconds since the epoch in
  UTC; an exception is the left side of a sum.
\<close>

named_theorems dict_simps \<open>reading a dictionary after a write\<close>
named_theorems code_defs \<open>definitions a closed example unfolds\<close>

section \<open>Results that may raise\<close>

type_synonym ('e, 'a) result = "'e + 'a"

fun bindE :: "('e, 'a) result \<Rightarrow> ('a \<Rightarrow> ('e, 'b) result) \<Rightarrow> ('e, 'b) result" where
  "bindE (Inl e) f = Inl e"
| "bindE (Inr a) f = f a"

fun mapE :: "('a \<Rightarrow> ('e, 'b) result) \<Rightarrow> 'a list \<Rightarrow> ('e, 'b list) result" where
  "mapE f [] = Inr []"
| "mapE f (x # xs) = bindE (f x) (\<lambda>y. bindE (mapE f xs) (\<lambda>ys. Inr (y # ys)))"

lemma bindE_Inr: "bindE r f = Inr b \<longleftrightarrow> (\<exists>a. r = Inr a \<and> f a = Inr b)"
  by (cases r) auto

lemma mapE_Inr: "mapE f xs = Inr ys \<longleftrightarrow> list_all2 (\<lambda>x y. f x = Inr y) xs ys"
  by (induction xs arbitrary: ys) (auto simp: bindE_Inr list_all2_Cons1)

section \<open>Dictionaries\<close>

text \<open>
  A Python \<open>dict\<close> is the association list of its items in insertion order. \<open>AList.update\<close>
  is \<open>d[k] = v\<close>: it overwrites in place and appends a new key at the end.
\<close>

type_synonym ('k, 'v) dict = "('k \<times> 'v) list"

definition dict_get :: "('k, 'v) dict \<Rightarrow> 'k \<Rightarrow> 'v \<Rightarrow> 'v" where
  "dict_get d k dflt = (case map_of d k of None \<Rightarrow> dflt | Some v \<Rightarrow> v)"

abbreviation dict_set :: "'k \<Rightarrow> 'v \<Rightarrow> ('k, 'v) dict \<Rightarrow> ('k, 'v) dict" where
  "dict_set \<equiv> AList.update"

abbreviation dict_keys :: "('k, 'v) dict \<Rightarrow> 'k list" where
  "dict_keys d \<equiv> map fst d"

text \<open>\<open>{**a, **b}\<close>, and \<open>a == b\<close> on dictionaries (order does not count).\<close>

fun dict_merge :: "('k, 'v) dict \<Rightarrow> ('k, 'v) dict \<Rightarrow> ('k, 'v) dict" where
  "dict_merge a [] = a"
| "dict_merge a ((k, v) # b) = dict_merge (dict_set k v a) b"

definition dict_eq :: "('k, 'v) dict \<Rightarrow> ('k, 'v) dict \<Rightarrow> bool" where
  "dict_eq a b \<longleftrightarrow> (\<forall>k \<in> set (dict_keys a @ dict_keys b). map_of a k = map_of b k)"

lemma map_of_dict_set [dict_simps, simp]:
  "map_of (dict_set k v d) k' = (if k' = k then Some v else map_of d k')"
  by (simp add: update_conv')

lemma dict_get_set [dict_simps, simp]:
  "dict_get (dict_set k v d) k' dflt = (if k' = k then v else dict_get d k' dflt)"
  by (simp add: dict_get_def)

lemma dict_get_None [simp]: "map_of d k = None \<Longrightarrow> dict_get d k dflt = dflt"
  by (simp add: dict_get_def)

lemma dict_get_Some [simp]: "map_of d k = Some v \<Longrightarrow> dict_get d k dflt = v"
  by (simp add: dict_get_def)

lemma set_dict_keys_set [simp]: "set (dict_keys (dict_set k v d)) = insert k (set (dict_keys d))"
  by (simp add: update_keys insert_absorb)

lemma distinct_dict_set [simp]: "distinct (dict_keys d) \<Longrightarrow> distinct (dict_keys (dict_set k v d))"
  by (rule distinct_update)

lemma map_of_dict_merge [dict_simps]:
  "distinct (dict_keys b) \<Longrightarrow>
    map_of (dict_merge a b) k = (case map_of b k of None \<Rightarrow> map_of a k | Some v \<Rightarrow> Some v)"
  by (induction b arbitrary: a) (auto split: option.splits dest: map_of_SomeD simp: image_iff)

lemma set_keys_dict_merge [simp]:
  "set (dict_keys (dict_merge a b)) = set (dict_keys a) \<union> set (dict_keys b)"
proof (induction b arbitrary: a)
  case (Cons p b)
  then show ?case by (cases p) (simp only: dict_merge.simps set_dict_keys_set, simp)
qed simp

lemma distinct_dict_merge [simp]:
  "distinct (dict_keys a) \<Longrightarrow> distinct (dict_keys (dict_merge a b))"
proof (induction b arbitrary: a)
  case (Cons p b)
  then show ?case by (cases p) (simp only: dict_merge.simps distinct_dict_set)
qed simp

lemma dict_eq_iff: "dict_eq a b \<longleftrightarrow> (\<forall>k. map_of a k = map_of b k)"
proof
  assume eq: "dict_eq a b"
  show "\<forall>k. map_of a k = map_of b k"
  proof
    fix k
    show "map_of a k = map_of b k"
    proof (cases "k \<in> set (dict_keys a @ dict_keys b)")
      case True
      with eq show ?thesis unfolding dict_eq_def by blast
    next
      case False
      then have "k \<notin> fst ` set a" "k \<notin> fst ` set b" by simp_all
      then have "map_of a k = None" "map_of b k = None" by (simp_all add: map_of_eq_None_iff)
      then show ?thesis by simp
    qed
  qed
qed (simp add: dict_eq_def)

section \<open>Lists\<close>

text \<open>\<open>list(dict.fromkeys(xs))\<close>: the first occurrence of every element, in order.\<close>

fun uniq :: "'a list \<Rightarrow> 'a list" where
  "uniq [] = []"
| "uniq (x # xs) = x # filter (\<lambda>y. y \<noteq> x) (uniq xs)"

lemma set_uniq [simp]: "set (uniq xs) = set xs"
  by (induction xs) auto

lemma distinct_uniq [simp]: "distinct (uniq xs)"
  by (induction xs) auto

lemma uniq_id: "distinct xs \<Longrightarrow> uniq xs = xs"
  by (induction xs) (auto simp: filter_id_conv)

text \<open>A \<open>max\<close> over a list with a floor, as the source's accumulating loops compute it.\<close>

definition max_from :: "'a::linorder \<Rightarrow> 'a list \<Rightarrow> 'a" where
  "max_from floor_value xs = foldl max floor_value xs"

lemma max_from_simps [simp]:
  "max_from a [] = a"
  "max_from a (x # xs) = max_from (max a x) xs"
  by (simp_all add: max_from_def)

lemma max_from_le_iff: "max_from a xs \<le> (b :: 'a::linorder) \<longleftrightarrow> a \<le> b \<and> (\<forall>x \<in> set xs. x \<le> b)"
  by (induction xs arbitrary: a) auto

lemma max_from_ge: "(a :: 'a::linorder) \<le> max_from a xs"
  using max_from_le_iff [of a xs "max_from a xs"] by simp

lemma max_from_mono: "(a :: 'a::linorder) \<le> b \<Longrightarrow> set xs \<subseteq> set ys \<Longrightarrow> max_from a xs \<le> max_from b ys"
proof -
  assume ab: "a \<le> b" and sub: "set xs \<subseteq> set ys"
  have "b \<le> max_from b ys \<and> (\<forall>y \<in> set ys. y \<le> max_from b ys)"
    using max_from_le_iff [of b ys "max_from b ys"] by simp
  with ab sub show ?thesis by (auto simp: max_from_le_iff)
qed

lemma max_from_in: "max_from a xs = a \<or> max_from a xs \<in> set xs"
proof (induction xs arbitrary: a)
  case (Cons x xs)
  from Cons [of "max a x"] show ?case by (auto simp: max_def split: if_splits)
qed simp

section \<open>Strings\<close>

definition is_ascii :: "string \<Rightarrow> bool" where
  "is_ascii s \<longleftrightarrow> (\<forall>c \<in> set s. of_char c < (128 :: nat))"

definition is_space :: "char \<Rightarrow> bool" where
  "is_space c \<longleftrightarrow> c \<in> {CHR 0x20, CHR 0x09, CHR 0x0A, CHR 0x0B, CHR 0x0C, CHR 0x0D,
     CHR 0x1C, CHR 0x1D, CHR 0x1E, CHR 0x1F}"

text \<open>\<open>str.split()\<close>: the maximal runs of non-space characters.\<close>

fun words_from :: "string \<Rightarrow> string \<Rightarrow> string list" where
  "words_from cur [] = (if cur = [] then [] else [rev cur])"
| "words_from cur (c # cs) =
     (if is_space c then (if cur = [] then words_from [] cs else rev cur # words_from [] cs)
      else words_from (c # cur) cs)"

definition str_words :: "string \<Rightarrow> string list" where
  "str_words s = words_from [] s"

text \<open>\<open>str.strip()\<close> and \<open>str.split(sep)\<close> for a one-character separator.\<close>

definition str_strip :: "string \<Rightarrow> string" where
  "str_strip s = rev (dropWhile is_space (rev (dropWhile is_space s)))"

fun split_char :: "char \<Rightarrow> string \<Rightarrow> string list" where
  "split_char sep [] = [[]]"
| "split_char sep (c # cs) =
     (if c = sep then [] # split_char sep cs
      else (case split_char sep cs of [] \<Rightarrow> [[c]] | w # ws \<Rightarrow> (c # w) # ws))"

fun str_join :: "string \<Rightarrow> string list \<Rightarrow> string" where
  "str_join sep [] = []"
| "str_join sep [w] = w"
| "str_join sep (w # ws) = w @ sep @ str_join sep ws"

definition lower_char :: "char \<Rightarrow> char" where
  "lower_char c = (let n = of_char c in if 65 \<le> n \<and> n \<le> (90 :: nat) then char_of (n + 32) else c)"

definition str_lower :: "string \<Rightarrow> string" where
  "str_lower s = map lower_char s"

text \<open>\<open>str(n)\<close>\<close>

fun show_nat :: "nat \<Rightarrow> string" where
  "show_nat n = (if n < 10 then [char_of (48 + n)] else show_nat (n div 10) @ [char_of (48 + n mod 10)])"

declare show_nat.simps [simp del]

lemma split_char_nonempty [simp]: "split_char sep s \<noteq> []"
  by (cases s) (auto split: list.splits)

section \<open>Rounding\<close>

text \<open>Python's \<open>round\<close> to an integer and to \<open>d\<close> decimals: to nearest, ties to even.\<close>

definition round_half_even :: "rat \<Rightarrow> int" where
  "round_half_even x =
     (let f = \<lfloor>x\<rfloor>; d = x - of_int f
      in if d < 1/2 then f else if d > 1/2 then f + 1 else if even f then f else f + 1)"

definition round_decimals :: "nat \<Rightarrow> rat \<Rightarrow> rat" where
  "round_decimals d x = of_int (round_half_even (x * 10 ^ d)) / 10 ^ d"

lemma round_half_even_bounds:
  "of_int (round_half_even x) \<le> x + 1/2" "x - 1/2 \<le> of_int (round_half_even x)"
proof -
  have fl: "of_int \<lfloor>x\<rfloor> \<le> x" "x < of_int \<lfloor>x\<rfloor> + 1" by linarith+
  show "of_int (round_half_even x) \<le> x + 1/2"
    unfolding round_half_even_def Let_def using fl
    by (simp only: of_int_add of_int_1 if_distrib [of rat_of_int] split: if_split, intro conjI impI; linarith)
  show "x - 1/2 \<le> of_int (round_half_even x)"
    unfolding round_half_even_def Let_def using fl
    by (simp only: of_int_add of_int_1 if_distrib [of rat_of_int] split: if_split, intro conjI impI; linarith)
qed

lemma round_half_even_int [simp]: "round_half_even (of_int n) = n"
  by (simp add: round_half_even_def)

lemma round_half_even_mono: "x \<le> y \<Longrightarrow> round_half_even x \<le> round_half_even y"
proof -
  assume le: "x \<le> y"
  show ?thesis
  proof (cases "\<lfloor>x\<rfloor> = \<lfloor>y\<rfloor>")
    case True
    with le show ?thesis by (auto simp: round_half_even_def Let_def)
  next
    case False
    then have less: "\<lfloor>x\<rfloor> + 1 \<le> \<lfloor>y\<rfloor>" using floor_mono [OF le] by linarith
    have "round_half_even x \<le> \<lfloor>x\<rfloor> + 1" "\<lfloor>y\<rfloor> \<le> round_half_even y"
      by (auto simp: round_half_even_def Let_def)
    with less show ?thesis by linarith
  qed
qed

end
