(* ===== verification/Entry.thy ===== *)
theory Entry
  imports Prelude
begin

text \<open>
  The memory record of \<^verbatim>\<open>models/memory.py\<close>: its enumerations, the assertion and anchor
  sub-records, the entry itself and the field validators that pydantic runs when a record is
  built. The five \<open>str, Enum\<close> classes share one coercion routine in the source
  (\<open>_coerce_str_enum\<close>); here they share one locale, interpreted on each of them.
\<close>

section \<open>Enumerations\<close>

datatype memory_status = Active | Resolved | Obsolete | ObsoletePoisoned | Archived

datatype assertion_type = GrepPresent | GrepAbsent | GlobExists | GlobAbsent

datatype memory_type = Incident | Pattern | Convention | Hypothesis | Workaround | Decision

datatype confidence_level = Unverified | ConfLow | ConfMedium | ConfHigh | ConfVerified

datatype evidence_level_t = EvObserved | EvVerified | EvInferred | EvUnknown

datatype protection_tier_t = TierCritical | TierHigh | TierNormal | TierLow | TierProtected | TierPermanent

datatype entry_source =
  SrcHuman | SrcAgent | SrcTool | SrcConsolidated | SrcDistill | SrcTeamSync | SrcCompanySync

fun status_value :: "memory_status \<Rightarrow> string" where
  "status_value Active = ''active''"
| "status_value Resolved = ''resolved''"
| "status_value Obsolete = ''obsolete''"
| "status_value ObsoletePoisoned = ''obsolete_poisoned''"
| "status_value Archived = ''archived''"

fun memory_type_value :: "memory_type \<Rightarrow> string" where
  "memory_type_value Incident = ''incident''"
| "memory_type_value Pattern = ''pattern''"
| "memory_type_value Convention = ''convention''"
| "memory_type_value Hypothesis = ''hypothesis''"
| "memory_type_value Workaround = ''workaround''"
| "memory_type_value Decision = ''decision''"

fun confidence_value :: "confidence_level \<Rightarrow> string" where
  "confidence_value Unverified = ''unverified''"
| "confidence_value ConfLow = ''low''"
| "confidence_value ConfMedium = ''medium''"
| "confidence_value ConfHigh = ''high''"
| "confidence_value ConfVerified = ''verified''"

fun evidence_level_value :: "evidence_level_t \<Rightarrow> string" where
  "evidence_level_value EvObserved = ''observed''"
| "evidence_level_value EvVerified = ''verified''"
| "evidence_level_value EvInferred = ''inferred''"
| "evidence_level_value EvUnknown = ''unknown''"

fun tier_value :: "protection_tier_t \<Rightarrow> string" where
  "tier_value TierCritical = ''critical''"
| "tier_value TierHigh = ''high''"
| "tier_value TierNormal = ''normal''"
| "tier_value TierLow = ''low''"
| "tier_value TierProtected = ''protected''"
| "tier_value TierPermanent = ''permanent''"

fun source_value :: "entry_source \<Rightarrow> string" where
  "source_value SrcHuman = ''human''"
| "source_value SrcAgent = ''agent''"
| "source_value SrcTool = ''tool''"
| "source_value SrcConsolidated = ''consolidated''"
| "source_value SrcDistill = ''distill''"
| "source_value SrcTeamSync = ''team_sync''"
| "source_value SrcCompanySync = ''company_sync''"

text \<open>
  What a before-validator is handed: a member of the enumeration, a string, or a value of some
  other type. \<open>enum_cls(v)\<close> is the lookup of the member with that value.
\<close>

datatype 'e enum_input = Member 'e | Text string | OtherType

datatype value_error = NotOneOf | WrongType

definition enum_of_value :: "('e \<Rightarrow> string) \<Rightarrow> 'e list \<Rightarrow> string \<Rightarrow> 'e option" where
  "enum_of_value val members s = find (\<lambda>m. val m = s) members"

fun coerce_str_enum ::
  "('e \<Rightarrow> string) \<Rightarrow> 'e list \<Rightarrow> 'e \<Rightarrow> 'e enum_input \<Rightarrow> (value_error, 'e) result" where
  "coerce_str_enum val members default_member (Member m) = Inr m"
| "coerce_str_enum val members default_member (Text s) =
     (if s = [] then Inr default_member
      else (case enum_of_value val members s of None \<Rightarrow> Inl NotOneOf | Some m \<Rightarrow> Inr m))"
| "coerce_str_enum val members default_member OtherType = Inl WrongType"

definition status_members :: "memory_status list" where
  "status_members = [Active, Resolved, Obsolete, ObsoletePoisoned, Archived]"

definition memory_type_members :: "memory_type list" where
  "memory_type_members = [Incident, Pattern, Convention, Hypothesis, Workaround, Decision]"

definition confidence_members :: "confidence_level list" where
  "confidence_members = [Unverified, ConfLow, ConfMedium, ConfHigh, ConfVerified]"

definition evidence_members :: "evidence_level_t list" where
  "evidence_members = [EvObserved, EvVerified, EvInferred, EvUnknown]"

definition tier_members :: "protection_tier_t list" where
  "tier_members = [TierCritical, TierHigh, TierNormal, TierLow, TierProtected, TierPermanent]"

definition source_members :: "entry_source list" where
  "source_members =
     [SrcHuman, SrcAgent, SrcTool, SrcConsolidated, SrcDistill, SrcTeamSync, SrcCompanySync]"

definition coerce_type :: "memory_type enum_input \<Rightarrow> (value_error, memory_type) result" where
  "coerce_type = coerce_str_enum memory_type_value memory_type_members Pattern"

definition coerce_confidence :: "confidence_level enum_input \<Rightarrow> (value_error, confidence_level) result" where
  "coerce_confidence = coerce_str_enum confidence_value confidence_members Unverified"

definition coerce_evidence_level :: "evidence_level_t enum_input \<Rightarrow> (value_error, evidence_level_t) result" where
  "coerce_evidence_level = coerce_str_enum evidence_level_value evidence_members EvUnknown"

definition coerce_protection_tier :: "protection_tier_t enum_input \<Rightarrow> (value_error, protection_tier_t) result" where
  "coerce_protection_tier = coerce_str_enum tier_value tier_members TierNormal"

text \<open>\<open>_coerce_unknown_source\<close>: anything that is not a known source string is \<open>agent\<close>;
  it never raises. \<open>None\<close> is a value that is not a string.\<close>

fun coerce_unknown_source :: "string option \<Rightarrow> entry_source" where
  "coerce_unknown_source None = SrcAgent"
| "coerce_unknown_source (Some s) =
     (case enum_of_value source_value source_members s of None \<Rightarrow> SrcAgent | Some m \<Rightarrow> m)"

locale str_enum =
  fixes val :: "'e \<Rightarrow> string"
    and members :: "'e list"
    and default_member :: 'e
  assumes value_inj: "val a = val b \<Longrightarrow> a = b"
    and members_complete: "m \<in> set members"
    and value_nonempty: "val m \<noteq> []"
begin

lemma of_value_value [simp]: "enum_of_value val members (val m) = Some m"
proof -
  obtain m' where m': "find (\<lambda>x. val x = val m) members = Some m'"
    using members_complete [of m] by (cases "find (\<lambda>x. val x = val m) members") (auto simp: find_None_iff)
  then have "val m' = val m" by (auto simp: find_Some_iff)
  with m' show ?thesis by (auto simp: enum_of_value_def dest: value_inj)
qed

lemma of_value_SomeD: "enum_of_value val members s = Some m \<Longrightarrow> s = val m"
  by (auto simp: enum_of_value_def find_Some_iff)

lemma coerce_roundtrip: "coerce_str_enum val members default_member (Text (val m)) = Inr m"
  using value_nonempty by simp

lemma coerce_Inr_iff:
  "coerce_str_enum val members default_member v = Inr m \<longleftrightarrow>
    v = Member m \<or> v = Text (val m) \<or> (v = Text [] \<and> m = default_member)"
  by (cases v) (auto simp: value_nonempty value_nonempty [THEN not_sym] dest: of_value_SomeD split: option.splits)

end

interpretation status_enum: str_enum status_value status_members Active
  by unfold_locales (auto simp: status_members_def intro: memory_status.exhaust elim!: status_value.elims)

interpretation type_enum: str_enum memory_type_value memory_type_members Pattern
  by unfold_locales (auto simp: memory_type_members_def intro: memory_type.exhaust elim!: memory_type_value.elims)

interpretation confidence_enum: str_enum confidence_value confidence_members Unverified
  by unfold_locales (auto simp: confidence_members_def intro: confidence_level.exhaust elim!: confidence_value.elims)

interpretation evidence_enum: str_enum evidence_level_value evidence_members EvUnknown
  by unfold_locales (auto simp: evidence_members_def intro: evidence_level_t.exhaust elim!: evidence_level_value.elims)

interpretation tier_enum: str_enum tier_value tier_members TierNormal
  by unfold_locales (auto simp: tier_members_def intro: protection_tier_t.exhaust elim!: tier_value.elims)

interpretation source_enum: str_enum source_value source_members SrcAgent
  by unfold_locales (auto simp: source_members_def intro: entry_source.exhaust elim!: source_value.elims)

section \<open>Assertions and anchors\<close>

record assertion =
  a_type :: assertion_type
  a_pattern :: string
  a_target :: string
  a_last_result :: "bool option"
  a_last_verified_at :: "int option"
  a_last_evidence :: string
  a_first_failed_at :: "int option"
  a_commit_hash :: "string option"
  a_line_range :: "(int \<times> int) option"
  a_git_url :: "string option"

record anchor =
  an_file :: string
  an_symbol_name :: string
  an_symbol_type :: string
  an_signature :: string
  an_line_range :: "(int \<times> int) option"

datatype field_error =
  EmptyPattern | PatternTooLong nat | AbsolutePath | PathTraversal | BlankSymbol
  | WindowHalfClosed | WindowInverted | TooManyDomains | TooManyPhases

definition validate_pattern :: "assertion_type \<Rightarrow> string \<Rightarrow> (field_error, string) result" where
  "validate_pattern t v =
     (if t \<in> {GrepPresent, GrepAbsent} \<and> (v = [] \<or> length (str_strip v) = 0) then Inl EmptyPattern
      else if length v > 500 then Inl (PatternTooLong (length v))
      else Inr v)"

text \<open>\<open>Assertion._validate_target\<close> and \<open>Anchor._validate_file\<close> are the same two checks.\<close>

definition validate_target :: "string \<Rightarrow> (field_error, string) result" where
  "validate_target v =
     (if prefix ''/'' v then Inl AbsolutePath
      else if ''..'' \<in> set (split_char CHR ''/'' v) then Inl PathTraversal
      else Inr v)"

definition validate_file :: "string \<Rightarrow> (field_error, string) result" where
  "validate_file v =
     (if prefix ''/'' v then Inl AbsolutePath
      else if ''..'' \<in> set (split_char CHR ''/'' v) then Inl PathTraversal
      else Inr v)"

definition validate_symbol_name :: "string \<Rightarrow> (field_error, string) result" where
  "validate_symbol_name v = (if str_strip v = [] then Inl BlankSymbol else Inr v)"

definition truncate_signature :: "string \<Rightarrow> string" where
  "truncate_signature v = take 200 v"

section \<open>The entry\<close>

text \<open>
  Every field of \<open>MemoryEntry\<close>, in the source's order (the sync, graph and merge groups come
  where the class declares them). Instants are microseconds in UTC; \<open>type\<close>, \<open>id\<close> and
  \<open>source\<close> are \<open>etype\<close>, \<open>eid\<close> and \<open>src\<close>; of \<open>verification_status\<close>, \<open>Some True\<close> is verified, \<open>Some False\<close>
  stale and \<open>None\<close> no verdict.
\<close>

record memory_entry =
  eid :: string
  content :: string
  detail :: string
  tags :: "string list"
  evidence :: "string list"
  importance :: rat
  status :: memory_status
  recurrence :: int
  namespace :: string
  created_at :: int
  updated_at :: int
  last_accessed_at :: "int option"
  valid_from :: int
  invalid_from :: "int option"
  invalidated_by :: "string option"
  access_count :: int
  session_count :: int
  src :: entry_source
  source_identity :: string
  client_profile :: string
  model_id :: string
  vector_clock :: "(string, int) dict"
  remote_id :: "string option"
  published_to_platform :: bool
  pending_delete :: bool
  sync_hash :: string
  sync_seq :: int
  last_synced_at :: "int option"
  cross_validated :: bool
  outcome_history :: "string list"
  merged_from :: "string list"
  consolidated_from :: "string list"
  consolidated_into :: "string option"
  metadata :: "(string, string) dict"
  etype :: memory_type
  nudge_line :: string
  expires :: string
  confidence :: confidence_level
  evidence_level :: evidence_level_t
  task_type :: string
  domain :: "string list"
  phase_origin :: string
  phase_affinity :: "string list"
  team_origin :: string
  protection_tier :: protection_tier_t
  assertions :: "assertion list"
  anchors :: "anchor list"
  anchor_validity :: "rat option"
  verification_status :: "bool option"
  verification_checked_at :: string
  recall_count :: int

text \<open>
  An entry with the class's defaults, for an id, a content and a creation instant
  (\<open>valid_from\<close> adopts \<open>created_at\<close>).
\<close>

definition new_entry :: "string \<Rightarrow> string \<Rightarrow> int \<Rightarrow> memory_entry" where
  "new_entry i c now =
     \<lparr>eid = i, content = c, detail = [], tags = [], evidence = [], importance = 1/2,
      status = Active, recurrence = 1, namespace = ''default'', created_at = now, updated_at = now,
      last_accessed_at = None, valid_from = now, invalid_from = None, invalidated_by = None,
      access_count = 0, session_count = 0, src = SrcAgent, source_identity = [],
      client_profile = [], model_id = [], vector_clock = [], remote_id = None,
      published_to_platform = False, pending_delete = False, sync_hash = [], sync_seq = 0,
      last_synced_at = None, cross_validated = False, outcome_history = [], merged_from = [],
      consolidated_from = [], consolidated_into = None, metadata = [], etype = Pattern,
      nudge_line = [], expires = [], confidence = Unverified, evidence_level = EvUnknown,
      task_type = [], domain = [], phase_origin = [], phase_affinity = [], team_origin = [],
      protection_tier = TierNormal, assertions = [], anchors = [], anchor_validity = None,
      verification_status = None, verification_checked_at = [], recall_count = 0\<rparr>"

text \<open>
  \<open>_default_valid_from_to_created_at\<close> on the two raw fields of the input: a missing
  \<open>valid_from\<close> adopts a supplied \<open>created_at\<close>; otherwise the field default (now) applies.
\<close>

fun default_valid_from :: "int option \<Rightarrow> int option \<Rightarrow> int \<Rightarrow> int" where
  "default_valid_from None (Some created) now = created"
| "default_valid_from None None now = now"
| "default_valid_from (Some v) _ now = v"

definition validate_validity_window :: "memory_entry \<Rightarrow> (field_error, memory_entry) result" where
  "validate_validity_window e =
     (if (invalid_from e \<noteq> None) \<noteq> (invalidated_by e \<noteq> None) then Inl WindowHalfClosed
      else (case invalid_from e of
              Some t \<Rightarrow> if t < valid_from e then Inl WindowInverted else Inr e
            | None \<Rightarrow> Inr e))"

text \<open>The ellipsis U+2026 the source appends is the one character \<open>CHR 0x85\<close> here.\<close>

definition truncate_nudge_line :: "string \<Rightarrow> string" where
  "truncate_nudge_line v =
     (if length v \<le> 80 then v
      else (case find (\<lambda>i. v ! i = CHR '' '') [60..<80] of
              Some i \<Rightarrow> take i v @ [CHR 0x85]
            | None \<Rightarrow> take 80 v))"

definition validate_domain :: "string list \<Rightarrow> (field_error, string list) result" where
  "validate_domain v = (if length v > 20 then Inl TooManyDomains else Inr v)"

definition validate_phase_affinity :: "string list \<Rightarrow> (field_error, string list) result" where
  "validate_phase_affinity v = (if length v > 6 then Inl TooManyPhases else Inr v)"

text \<open>What the field constraints and validators make true of every constructed entry.\<close>

definition wf_entry :: "memory_entry \<Rightarrow> bool" where
  "wf_entry e \<longleftrightarrow>
     eid e \<noteq> [] \<and> 0 \<le> importance e \<and> importance e \<le> 1 \<and> 0 \<le> recurrence e
     \<and> 0 \<le> access_count e \<and> 0 \<le> session_count e \<and> 0 \<le> recall_count e
     \<and> validate_validity_window e = Inr e
     \<and> length (nudge_line e) \<le> 80 \<and> length (domain e) \<le> 20 \<and> length (phase_affinity e) \<le> 6
     \<and> length (anchors e) \<le> 3"

lemma wf_entry_window:
  "wf_entry e \<Longrightarrow> (invalid_from e = None) = (invalidated_by e = None)
     \<and> (\<forall>t. invalid_from e = Some t \<longrightarrow> valid_from e \<le> t)"
  by (auto simp: wf_entry_def validate_validity_window_def split: if_splits option.splits)

section \<open>Properties\<close>

lemma truncate_nudge_line_cases:
  obtains (short) "length v \<le> 80" "truncate_nudge_line v = v"
  | (word) i where "80 < length v" "60 \<le> i" "i < 80" "v ! i = CHR '' ''"
      "\<forall>j. 60 \<le> j \<and> j < i \<longrightarrow> v ! j \<noteq> CHR '' ''" "truncate_nudge_line v = take i v @ [CHR 0x85]"
  | (cut) "80 < length v" "\<forall>j. 60 \<le> j \<and> j < 80 \<longrightarrow> v ! j \<noteq> CHR '' ''" "truncate_nudge_line v = take 80 v"
proof (cases "length v \<le> 80")
  case True
  then show ?thesis using short by (simp add: truncate_nudge_line_def)
next
  case False
  show ?thesis
  proof (cases "find (\<lambda>i. v ! i = CHR '' '') [60..<80]")
    case None
    then have "\<forall>j. 60 \<le> j \<and> j < 80 \<longrightarrow> v ! j \<noteq> CHR '' ''"
      unfolding find_None_iff by (simp del: upt_rec_numeral)
    then show ?thesis using False None cut by (simp add: truncate_nudge_line_def del: upt_rec_numeral)
  next
    case (Some i)
    then obtain k where k: "k < 20" "i = 60 + k" "v ! i = CHR '' ''"
      "\<forall>j<k. v ! (60 + j) \<noteq> CHR '' ''"
      unfolding find_Some_iff by (auto simp del: upt_rec_numeral)
    then have "\<forall>j. 60 \<le> j \<and> j < i \<longrightarrow> v ! j \<noteq> CHR '' ''"
      by (metis add_diff_inverse_nat add_less_cancel_left not_less)
    with False Some k word [of i] show ?thesis
      by (simp add: truncate_nudge_line_def del: upt_rec_numeral)
  qed
qed

lemma coercions_iff:
  "coerce_type v = Inr t \<longleftrightarrow> v \<in> {Member t, Text (memory_type_value t)} \<or> (v = Text [] \<and> t = Pattern)"
  "coerce_confidence c = Inr k \<longleftrightarrow> c \<in> {Member k, Text (confidence_value k)} \<or> (c = Text [] \<and> k = Unverified)"
  "coerce_evidence_level w = Inr l \<longleftrightarrow> w \<in> {Member l, Text (evidence_level_value l)} \<or> (w = Text [] \<and> l = EvUnknown)"
  "coerce_protection_tier u = Inr r \<longleftrightarrow> u \<in> {Member r, Text (tier_value r)} \<or> (u = Text [] \<and> r = TierNormal)"
  by (auto simp: coerce_type_def coerce_confidence_def coerce_evidence_level_def coerce_protection_tier_def
      type_enum.coerce_Inr_iff confidence_enum.coerce_Inr_iff evidence_enum.coerce_Inr_iff tier_enum.coerce_Inr_iff)

lemma coerce_unknown_source_iff:
  "coerce_unknown_source s = m \<longleftrightarrow>
    s = Some (source_value m) \<or> (m = SrcAgent \<and> s \<notin> Some ` range source_value)"
  by (cases s) (auto simp: image_iff dest: source_enum.of_value_SomeD split: option.splits)

lemma length_truncate_nudge_line: "length (truncate_nudge_line v) \<le> 80"
  by (cases v rule: truncate_nudge_line_cases) auto

text \<open>
  C17: The coercions of the enumerated fields accept exactly a member, its wire value, or the empty
  text for the default; a wire value reads back as the member it was written from. The source of an
  entry never fails: what is no wire value of a source reads as \<open>agent\<close>. A nudge line is cut to at
  most 80 characters, and cutting it again changes nothing, so a stored entry validates to itself.
\<close>

theorem coerced_fields_are_wire_values:
  "(coerce_type v = Inr t \<longleftrightarrow> v \<in> {Member t, Text (memory_type_value t)} \<or> (v = Text [] \<and> t = Pattern))
   \<and> (coerce_confidence c = Inr k \<longleftrightarrow> c \<in> {Member k, Text (confidence_value k)} \<or> (c = Text [] \<and> k = Unverified))
   \<and> (coerce_evidence_level w = Inr l \<longleftrightarrow> w \<in> {Member l, Text (evidence_level_value l)} \<or> (w = Text [] \<and> l = EvUnknown))
   \<and> (coerce_protection_tier u = Inr r \<longleftrightarrow> u \<in> {Member r, Text (tier_value r)} \<or> (u = Text [] \<and> r = TierNormal))
   \<and> (coerce_unknown_source s = m \<longleftrightarrow> s = Some (source_value m) \<or> (m = SrcAgent \<and> s \<notin> Some ` range source_value))
   \<and> length (truncate_nudge_line n) \<le> 80
   \<and> truncate_nudge_line (truncate_nudge_line n) = truncate_nudge_line n"
  using length_truncate_nudge_line [of n]
  by (simp add: coercions_iff coerce_unknown_source_iff truncate_nudge_line_def [of "truncate_nudge_line n"])

end
