(* ===== verification/Clocks.thy ===== *)
theory Clocks
  imports Entry
begin

text \<open>
  Vector clocks and the conflict resolution of \<^verbatim>\<open>sync/conflict.py\<close>. A clock is the
  dictionary from node ids to counters; a node it does not name counts 0.
\<close>

section \<open>Clocks\<close>

type_synonym clock = "(string, int) dict"

datatype clock_order = AWins | BWins | Concurrent

definition clock_at :: "clock \<Rightarrow> string \<Rightarrow> int" where
  "clock_at c k = dict_get c k 0"

definition clock_nodes :: "clock \<Rightarrow> clock \<Rightarrow> string list" where
  "clock_nodes a b = uniq (dict_keys a @ dict_keys b)"

definition compare_clocks :: "clock \<Rightarrow> clock \<Rightarrow> clock_order" where
  "compare_clocks a b =
     (let nodes = clock_nodes a b;
          a_gte_b = list_all (\<lambda>k. clock_at a k \<ge> clock_at b k) nodes;
          a_gt_b = list_ex (\<lambda>k. clock_at a k > clock_at b k) nodes;
          b_gte_a = list_all (\<lambda>k. clock_at b k \<ge> clock_at a k) nodes;
          b_gt_a = list_ex (\<lambda>k. clock_at b k > clock_at a k) nodes
      in if a_gte_b \<and> a_gt_b then AWins
         else if b_gte_a \<and> b_gt_a then BWins
         else Concurrent)"

definition increment_clock :: "clock \<Rightarrow> string \<Rightarrow> clock" where
  "increment_clock c n = dict_set n (clock_at c n + 1) c"

definition init_clock :: "string \<Rightarrow> clock" where
  "init_clock n = [(n, 1)]"

definition merge_clocks :: "clock \<Rightarrow> clock \<Rightarrow> clock" where
  "merge_clocks a b = map (\<lambda>k. (k, max (clock_at a k) (clock_at b k))) (clock_nodes a b)"

section \<open>Resolving a conflict\<close>

definition max_merged_detail_length :: nat where "max_merged_detail_length = 2000"

definition sorted_union :: "'a::linorder list \<Rightarrow> 'a list \<Rightarrow> 'a list" where
  "sorted_union xs ys = sort (uniq (xs @ ys))"

definition merged_detail :: "string \<Rightarrow> string \<Rightarrow> string" where
  "merged_detail local remote =
     (if remote \<noteq> [] \<and> remote \<noteq> local
      then take max_merged_detail_length
             (local @ [CHR 0x0A, CHR 0x0A] @ ''---'' @ [CHR 0x0A, CHR 0x0A] @ remote)
      else local)"

text \<open>\<open>stamp\<close> is the ISO text of the time \<open>now\<close> of the merge.\<close>

definition merged_outcome :: "memory_entry \<Rightarrow> memory_entry \<Rightarrow> string \<Rightarrow> string" where
  "merged_outcome local remote stamp =
     ''conflict_merged:local='' @ eid local @ '':remote='' @ eid remote @ '':timestamp='' @ stamp"

definition merge_entries :: "memory_entry \<Rightarrow> memory_entry \<Rightarrow> int \<Rightarrow> string \<Rightarrow> memory_entry" where
  "merge_entries local remote now stamp =
     local\<lparr>detail := merged_detail (detail local) (detail remote),
       tags := sorted_union (tags local) (tags remote),
       vector_clock := merge_clocks (vector_clock local) (vector_clock remote),
       importance := round_decimals 4 (max (importance local) (importance remote)),
       merged_from := sorted_union (dict_keys (vector_clock local)) (dict_keys (vector_clock remote)),
       outcome_history := outcome_history local @ [merged_outcome local remote stamp],
       updated_at := now\<rparr>"

definition resolve_conflict :: "memory_entry \<Rightarrow> memory_entry \<Rightarrow> int \<Rightarrow> string \<Rightarrow> memory_entry" where
  "resolve_conflict local remote now stamp =
     (case compare_clocks (vector_clock local) (vector_clock remote) of
        AWins \<Rightarrow> local
      | BWins \<Rightarrow> remote
      | Concurrent \<Rightarrow> merge_entries local remote now stamp)"

section \<open>The causal order\<close>

text \<open>
  A value seen through counters, with a join that takes the larger counter everywhere: the
  join is the least upper bound of the pointwise order.
\<close>

locale pointwise_join =
  fixes reads :: "'a \<Rightarrow> 'k \<Rightarrow> 'v::linorder"
    and join :: "'a \<Rightarrow> 'a \<Rightarrow> 'a"
  assumes reads_join: "reads (join a b) k = max (reads a k) (reads b k)"
begin

definition below :: "'a \<Rightarrow> 'a \<Rightarrow> bool" where
  "below a b \<longleftrightarrow> (\<forall>k. reads a k \<le> reads b k)"

lemma below_refl: "below a a"
  by (simp add: below_def)

lemma below_trans: "below a b \<Longrightarrow> below b c \<Longrightarrow> below a c"
  by (auto simp: below_def intro: order_trans)

lemma below_join: "below a (join a b)" "below b (join a b)"
  by (simp_all add: below_def reads_join)

lemma join_least: "below a c \<Longrightarrow> below b c \<Longrightarrow> below (join a b) c"
  by (simp add: below_def reads_join)

lemma join_comm: "reads (join a b) = reads (join b a)"
  by (simp add: fun_eq_iff reads_join max.commute)

lemma join_assoc: "reads (join (join a b) c) = reads (join a (join b c))"
  by (simp add: fun_eq_iff reads_join max.assoc)

lemma join_idem: "reads (join a a) = reads a"
  by (simp add: fun_eq_iff reads_join)

end

lemma clock_nodes_out: "k \<notin> set (clock_nodes a b) \<Longrightarrow> clock_at a k = 0 \<and> clock_at b k = 0"
proof -
  assume "k \<notin> set (clock_nodes a b)"
  then have "map_of a k = None" "map_of b k = None" by (simp_all add: clock_nodes_def map_of_eq_None_iff)
  then show ?thesis by (simp add: clock_at_def)
qed

lemma map_of_tabulate: "map_of (map (\<lambda>k. (k, f k)) ks) k = (if k \<in> set ks then Some (f k) else None)"
  by (induction ks) auto

lemma clock_at_merge: "clock_at (merge_clocks a b) k = max (clock_at a k) (clock_at b k)"
  using clock_nodes_out [of k a b]
  by (auto simp: merge_clocks_def clock_at_def [of "map _ _"] dict_get_def map_of_tabulate)

interpretation clocks: pointwise_join clock_at merge_clocks
  by unfold_locales (rule clock_at_merge)

text \<open>One clock is causally after another: no counter behind it, some counter ahead.\<close>

definition dominates :: "clock \<Rightarrow> clock \<Rightarrow> bool" where
  "dominates a b \<longleftrightarrow> clocks.below b a \<and> \<not> clocks.below a b"

lemma compare_clocks_iff:
  "compare_clocks a b = (if dominates a b then AWins else if dominates b a then BWins else Concurrent)"
proof -
  have all: "list_all (\<lambda>k. clock_at x k \<ge> clock_at y k) (clock_nodes a b) \<longleftrightarrow> clocks.below y x"
    and ex: "list_ex (\<lambda>k. clock_at x k > clock_at y k) (clock_nodes a b) \<longleftrightarrow> \<not> clocks.below x y"
    if "{x, y} = {a, b}" for x y
  proof -
    have out: "k \<notin> set (clock_nodes a b) \<Longrightarrow> clock_at x k = clock_at y k" for k
      using clock_nodes_out [of k a b] that by (auto simp: doubleton_eq_iff)
    then show "list_all (\<lambda>k. clock_at x k \<ge> clock_at y k) (clock_nodes a b) \<longleftrightarrow> clocks.below y x"
      unfolding clocks.below_def list_all_iff by (metis order_refl)
    show "list_ex (\<lambda>k. clock_at x k > clock_at y k) (clock_nodes a b) \<longleftrightarrow> \<not> clocks.below x y"
      using out unfolding clocks.below_def list_ex_iff by (metis not_le order_refl)
  qed
  show ?thesis
    by (simp add: compare_clocks_def Let_def dominates_def all [of a b] all [of b a] ex [of a b] ex [of b a]
        insert_commute)
qed

lemma below_increment: "clocks.below c (increment_clock c n)"
  by (simp add: clocks.below_def clock_at_def increment_clock_def)

lemma dominates_increment: "dominates (increment_clock c n) c"
  using below_increment [of c n] unfolding dominates_def clocks.below_def
  by (auto simp: clock_at_def increment_clock_def intro!: exI [of _ n])

lemma set_sorted_union [simp]: "set (sorted_union xs ys) = set xs \<union> set ys"
  by (simp add: sorted_union_def)

lemma sorted_union_comm: "sorted_union xs ys = sorted_union ys xs"
  by (rule sorted_distinct_set_unique) (auto simp: sorted_union_def)

text \<open>
  Comparing two clocks decides the causal order. One side wins just if no counter of its is
  behind and one is ahead, swapping the arguments swaps the verdict, a local edit always wins
  over the clock it started from, and merging gives the least clock above both.
\<close>

theorem compare_clocks_causal:
  "(compare_clocks a b = AWins
      \<longleftrightarrow> (\<forall>k. clock_at b k \<le> clock_at a k) \<and> (\<exists>k. clock_at b k < clock_at a k))
   \<and> (compare_clocks b a
       = (case compare_clocks a b of AWins \<Rightarrow> BWins | BWins \<Rightarrow> AWins | Concurrent \<Rightarrow> Concurrent))
   \<and> compare_clocks (increment_clock a n) a = AWins
   \<and> ((\<forall>k. clock_at (merge_clocks a b) k \<le> clock_at c k)
      \<longleftrightarrow> (\<forall>k. clock_at a k \<le> clock_at c k) \<and> (\<forall>k. clock_at b k \<le> clock_at c k))"
proof (intro conjI)
  show "compare_clocks a b = AWins \<longleftrightarrow> (\<forall>k. clock_at b k \<le> clock_at a k) \<and> (\<exists>k. clock_at b k < clock_at a k)"
    by (simp add: compare_clocks_iff dominates_def clocks.below_def not_le)
  show "compare_clocks b a
      = (case compare_clocks a b of AWins \<Rightarrow> BWins | BWins \<Rightarrow> AWins | Concurrent \<Rightarrow> Concurrent)"
    by (auto simp: compare_clocks_iff dominates_def)
  show "compare_clocks (increment_clock a n) a = AWins"
    by (simp add: compare_clocks_iff dominates_increment)
  show "(\<forall>k. clock_at (merge_clocks a b) k \<le> clock_at c k)
      \<longleftrightarrow> (\<forall>k. clock_at a k \<le> clock_at c k) \<and> (\<forall>k. clock_at b k \<le> clock_at c k)"
    by (auto simp: clock_at_merge)
qed

lemma length_merged_detail: "length (merged_detail l r) \<le> max (length l) max_merged_detail_length"
proof -
  have cut: "length (take n xs) \<le> max m n" for n m and xs :: string by (simp add: max_def min_def)
  show ?thesis
  proof (cases "r \<noteq> [] \<and> r \<noteq> l")
    case True
    then show ?thesis unfolding merged_detail_def if_P [OF True] by (intro cut)
  next
    case False
    then show ?thesis unfolding merged_detail_def if_not_P [OF False] by simp
  qed
qed

lemma merge_entries_simps [simp]:
  "vector_clock (merge_entries a b t s) = merge_clocks (vector_clock a) (vector_clock b)"
  "tags (merge_entries a b t s) = sorted_union (tags a) (tags b)"
  "importance (merge_entries a b t s) = round_decimals 4 (max (importance a) (importance b))"
  "merged_from (merge_entries a b t s) = sorted_union (dict_keys (vector_clock a)) (dict_keys (vector_clock b))"
  "detail (merge_entries a b t s) = merged_detail (detail a) (detail b)"
  "content (merge_entries a b t s) = content a"
  by (simp_all add: merge_entries_def)


text \<open>
  A merge settles the conflict. When the two clocks really diverge, the merged entry is
  causally after both sides, so meeting either of them again returns the merge unchanged.
\<close>

theorem merge_settles_conflict:
  assumes "compare_clocks (vector_clock a) (vector_clock b) = Concurrent"
    and "clock_at (vector_clock a) \<noteq> clock_at (vector_clock b)"
  shows "resolve_conflict (resolve_conflict a b t s) b t' s' = resolve_conflict a b t s
    \<and> resolve_conflict a (resolve_conflict a b t s) t' s' = resolve_conflict a b t s"
proof -
  let ?a = "vector_clock a" and ?b = "vector_clock b"
  have "\<not> (clocks.below ?a ?b \<and> clocks.below ?b ?a)"
    using assms(2) by (auto simp: clocks.below_def fun_eq_iff intro: antisym)
  with assms(1) have nb: "\<not> clocks.below ?a ?b" "\<not> clocks.below ?b ?a"
    by (auto simp: compare_clocks_iff dominates_def split: if_splits)
  have "clocks.below ?a (merge_clocks ?a ?b)" "clocks.below ?b (merge_clocks ?a ?b)"
    by (rule clocks.below_join)+
  with nb have dom: "dominates (merge_clocks ?a ?b) ?a" "dominates (merge_clocks ?a ?b) ?b"
    unfolding dominates_def by (blast intro: clocks.below_trans)+
  then have "\<not> dominates ?a (merge_clocks ?a ?b)" by (auto simp: dominates_def)
  with dom have "compare_clocks (merge_clocks ?a ?b) ?b = AWins" "compare_clocks ?a (merge_clocks ?a ?b) = BWins"
    by (simp_all add: compare_clocks_iff)
  then show ?thesis using assms(1) by (simp add: resolve_conflict_def)
qed

theorem merge_settles_conflict_witness:
  "let a = (new_entry ''M-1'' ''left'' 1)\<lparr>vector_clock := [(''n1'', 2)]\<rparr>;
       b = (new_entry ''M-1'' ''right'' 1)\<lparr>vector_clock := [(''n1'', 1), (''n2'', 1)]\<rparr>
   in resolve_conflict (resolve_conflict a b 5 ''t5'') b 6 ''t6'' = resolve_conflict a b 5 ''t5''"
proof -
  let ?a = "(new_entry ''M-1'' ''left'' 1)\<lparr>vector_clock := [(''n1'', 2)]\<rparr>"
  let ?b = "(new_entry ''M-1'' ''right'' 1)\<lparr>vector_clock := [(''n1'', 1), (''n2'', 1)]\<rparr>"
  have "compare_clocks (vector_clock ?a) (vector_clock ?b) = Concurrent"
    by (simp add: compare_clocks_def clock_nodes_def clock_at_def)
  moreover have "clock_at (vector_clock ?a) ''n1'' \<noteq> clock_at (vector_clock ?b) ''n1''"
    by (simp add: clock_at_def)
  then have "clock_at (vector_clock ?a) \<noteq> clock_at (vector_clock ?b)" by metis
  ultimately show ?thesis using merge_settles_conflict [of ?a ?b 5 "''t5''" 6 "''t6''"] by (simp add: Let_def)
qed

end
