(* ===== verification/Namespaces.thy ===== *)
theory Namespaces
  imports Prelude
begin

text \<open>
  Namespaces and who may reach them: \<^verbatim>\<open>namespaces/validation.py\<close>,
  \<^verbatim>\<open>namespaces/path_mapping.py\<close>, \<^verbatim>\<open>security/rbac.py\<close> and
  \<^verbatim>\<open>security/namespace_scope.py\<close>. The transport grant is what the request's token carries:
  \<open>None\<close> off the daemon transport.
\<close>

section \<open>Validation\<close>

datatype access_error =
  NamespaceEmpty | NamespaceTooLong nat | NamespaceInvalid string
| NotGranted string | RoleLacks string | NoSuchRole string

text \<open>The errors that \<open>authorize_namespaces\<close> catches: ConfigError and AuthorizationError.\<close>

fun caught :: "access_error \<Rightarrow> bool" where
  "caught (NoSuchRole _) = False"
| "caught _ = True"

definition default_namespace :: string where "default_namespace = ''default''"

definition max_namespace_length :: nat where "max_namespace_length = 128"

definition name_char :: "char \<Rightarrow> bool" where
  "name_char c \<longleftrightarrow>
     (let n = (of_char c :: nat)
      in (97 \<le> n \<and> n \<le> 122) \<or> (65 \<le> n \<and> n \<le> 90) \<or> (48 \<le> n \<and> n \<le> 57) \<or> c = CHR ''_'' \<or> c = CHR ''-'')"

definition scopes :: "string list" where
  "scopes = [''project'', ''team'', ''org'', ''user'']"

text \<open>\<open>_NS_PATTERN.fullmatch\<close>: a bare scope, or \<open>scope:name\<close>.\<close>

definition ns_pattern :: "string \<Rightarrow> bool" where
  "ns_pattern ns \<longleftrightarrow> ns \<in> {''global'', ''default''} \<or>
     list_ex (\<lambda>s. prefix (s @ '':'') ns \<and>
        (let n = drop (Suc (length s)) ns in n \<noteq> [] \<and> list_all name_char n)) scopes"

definition validate_namespace :: "string \<Rightarrow> (access_error, string) result" where
  "validate_namespace ns =
     (if ns = [] then Inl NamespaceEmpty
      else if length ns > max_namespace_length then Inl (NamespaceTooLong (length ns))
      else if \<not> ns_pattern ns then Inl (NamespaceInvalid ns)
      else Inr ns)"

text \<open>The relative path, as its text with \<open>/\<close> between the components.\<close>

definition replace_char :: "char \<Rightarrow> char \<Rightarrow> string \<Rightarrow> string" where
  "replace_char a b s = map (\<lambda>c. if c = a then b else c) s"

definition namespace_to_path :: "string \<Rightarrow> (access_error, string) result" where
  "namespace_to_path ns = bindE (validate_namespace ns) (\<lambda>_. Inr (replace_char CHR '':'' CHR ''/'' ns))"

section \<open>Roles\<close>

datatype role = Reader | Writer | Admin | NoRole

datatype permission = PRead | PWrite | PDelete | PAdmin

fun role_permissions :: "role \<Rightarrow> permission list" where
  "role_permissions Reader = [PRead]"
| "role_permissions Writer = [PWrite]"
| "role_permissions Admin = [PRead, PWrite, PDelete, PAdmin]"
| "role_permissions NoRole = []"

definition check_permission :: "role \<Rightarrow> permission \<Rightarrow> bool" where
  "check_permission r p \<longleftrightarrow> p \<in> set (role_permissions r)"

definition role_names :: "(string, role) dict" where
  "role_names = [(''reader'', Reader), (''writer'', Writer), (''admin'', Admin), (''none'', NoRole)]"

definition role_from_string :: "string \<Rightarrow> (access_error, role) result" where
  "role_from_string v =
     (case map_of role_names (str_lower (str_strip v)) of
        Some r \<Rightarrow> Inr r
      | None \<Rightarrow> Inl (NoSuchRole v))"

record access_config =
  rbac_enabled :: bool
  default_role :: string
  namespace_roles :: "(string, string) dict"

type_synonym grant = "string list option"

definition within_grant :: "grant \<Rightarrow> string \<Rightarrow> bool" where
  "within_grant g ns = (case g of None \<Rightarrow> True | Some granted \<Rightarrow> ns \<in> set granted)"

definition require_namespace_permission ::
  "grant \<Rightarrow> access_config \<Rightarrow> string \<Rightarrow> permission \<Rightarrow> (access_error, unit) result" where
  "require_namespace_permission g c ns p =
     bindE (validate_namespace ns) (\<lambda>ns.
       if \<not> within_grant g ns then Inl (NotGranted ns)
       else if \<not> rbac_enabled c then Inr ()
       else bindE (role_from_string (dict_get (namespace_roles c) ns (default_role c))) (\<lambda>r.
              if check_permission r p then Inr () else Inl (RoleLacks ns)))"

section \<open>The scope of a retrieval call\<close>

record ns_scope =
  sc_namespaces :: "string list"
  sc_denied :: nat

definition in_scope :: "string \<Rightarrow> ns_scope \<Rightarrow> bool" where
  "in_scope ns s \<longleftrightarrow> ns \<in> set (sc_namespaces s)"

definition scope_without :: "string \<Rightarrow> ns_scope \<Rightarrow> ns_scope" where
  "scope_without ns s = s\<lparr>sc_namespaces := filter (\<lambda>n. n \<noteq> ns) (sc_namespaces s)\<rparr>"

fun authorize_loop ::
  "(string \<Rightarrow> (access_error, unit) result) \<Rightarrow> string list \<Rightarrow> ns_scope \<Rightarrow> (access_error, ns_scope) result" where
  "authorize_loop req [] s = Inr s"
| "authorize_loop req (ns # rest) s =
     (case req ns of
        Inr _ \<Rightarrow> authorize_loop req rest (s\<lparr>sc_namespaces := List.insert ns (sc_namespaces s)\<rparr>)
      | Inl e \<Rightarrow> if caught e then authorize_loop req rest (s\<lparr>sc_denied := Suc (sc_denied s)\<rparr>) else Inl e)"

definition authorize_namespaces ::
  "grant \<Rightarrow> access_config \<Rightarrow> string list \<Rightarrow> permission \<Rightarrow> (access_error, ns_scope) result" where
  "authorize_namespaces g c nss p =
     authorize_loop (\<lambda>ns. bindE (validate_namespace ns) (\<lambda>ns. require_namespace_permission g c ns p)) nss
       \<lparr>sc_namespaces = [], sc_denied = 0\<rparr>"

section \<open>What validation guarantees\<close>

lemma validate_Inr_iff:
  "validate_namespace ns = Inr n \<longleftrightarrow> n = ns \<and> ns \<noteq> [] \<and> length ns \<le> max_namespace_length \<and> ns_pattern ns"
  by (auto simp: validate_namespace_def)

lemma name_char_plain: "name_char c \<Longrightarrow> c \<noteq> CHR ''/'' \<and> c \<noteq> CHR '':'' \<and> c \<noteq> CHR ''.''"
  by (auto simp: name_char_def)

lemma ns_pattern_cases:
  assumes "ns_pattern ns"
  obtains (bare) "ns \<in> {''global'', ''default''}"
  | (scoped) s n where "s \<in> set scopes" "ns = s @ '':'' @ n" "n \<noteq> []" "\<forall>c \<in> set n. name_char c"
proof (cases "ns \<in> {''global'', ''default''}")
  case False
  with assms obtain s where "s \<in> set scopes" "prefix (s @ '':'') ns"
    and "drop (Suc (length s)) ns \<noteq> []" "list_all name_char (drop (Suc (length s)) ns)"
    by (auto simp: ns_pattern_def list_ex_iff Let_def)
  then show ?thesis by (intro scoped [of s "drop (Suc (length s)) ns"]) (auto simp: prefix_def list_all_iff)
qed (rule bare)

lemma ns_no_slash: "ns_pattern ns \<Longrightarrow> CHR ''/'' \<notin> set ns"
proof (erule ns_pattern_cases)
  fix s n assume sn: "s \<in> set scopes" "ns = s @ '':'' @ n" "\<forall>c \<in> set n. name_char c"
  have "CHR ''/'' \<notin> set n" using sn(3) name_char_plain by blast
  moreover have "CHR ''/'' \<notin> set s" using sn(1) by (auto simp: scopes_def)
  ultimately show ?thesis using sn(2) by simp
qed auto

lemma split_char_append:
  "c \<notin> set u \<Longrightarrow> split_char c (u @ c # v) = u # split_char c v"
  by (induction u) auto

lemma split_char_free: "c \<notin> set u \<Longrightarrow> split_char c u = [u]"
  by (induction u) auto

lemma replace_char_free: "a \<notin> set s \<Longrightarrow> replace_char a b s = s"
  by (induction s) (auto simp: replace_char_def)

lemma scoped_path:
  assumes "s \<in> set scopes" "\<forall>c \<in> set n. name_char c"
  shows "split_char CHR ''/'' (replace_char CHR '':'' CHR ''/'' (s @ '':'' @ n)) = [s, n]"
proof -
  have s: "CHR '':'' \<notin> set s" "CHR ''/'' \<notin> set s" using assms(1) by (auto simp: scopes_def)
  have n: "CHR '':'' \<notin> set n" "CHR ''/'' \<notin> set n" using assms(2) name_char_plain by blast+
  have "replace_char CHR '':'' CHR ''/'' (s @ '':'' @ n) = s @ CHR ''/'' # n"
    using replace_char_free [OF s(1)] replace_char_free [OF n(1)] by (simp add: replace_char_def)
  then show ?thesis using s n by (simp add: split_char_append split_char_free)
qed

text \<open>The components of the mapped path, and that the mapping can be undone.\<close>

definition path_parts :: "string \<Rightarrow> string list" where
  "path_parts p = split_char CHR ''/'' p"

lemma replace_char_back: "b \<notin> set s \<Longrightarrow> replace_char b a (replace_char a b s) = s"
  by (induction s) (auto simp: replace_char_def)

lemma namespace_path_back:
  "namespace_to_path ns = Inr p \<Longrightarrow> replace_char CHR ''/'' CHR '':'' p = ns"
  by (auto simp: namespace_to_path_def bindE_Inr validate_Inr_iff ns_no_slash replace_char_back)

text \<open>
  A namespace maps to a directory of its own, below the store. The path of an accepted name
  has one or two components, none empty and none \<open>.\<close> or \<open>..\<close>; two names never share a path, and
  what is accepted is returned byte for byte.
\<close>

theorem namespace_paths_are_safe:
  assumes "namespace_to_path ns = Inr p"
  shows "path_parts p \<in> {[ns], [takeWhile (\<lambda>c. c \<noteq> CHR '':'') ns, tl (dropWhile (\<lambda>c. c \<noteq> CHR '':'') ns)]}
    \<and> set (path_parts p) \<inter> {[], ''.'', ''..''} = {}
    \<and> validate_namespace ns = Inr ns
    \<and> (namespace_to_path ns' = Inr p \<longleftrightarrow> ns' = ns)"
proof -
  have ok: "validate_namespace ns = Inr ns" and pat: "ns_pattern ns"
    and p: "p = replace_char CHR '':'' CHR ''/'' ns"
    using assms by (auto simp: namespace_to_path_def bindE_Inr validate_Inr_iff)
  have undone: "namespace_to_path ns' = Inr p \<longleftrightarrow> ns' = ns"
    using assms namespace_path_back by blast
  from pat show ?thesis
  proof (cases rule: ns_pattern_cases)
    case bare
    then have "path_parts p = [ns]" by (auto simp: p path_parts_def replace_char_def)
    with bare ok undone show ?thesis by auto
  next
    case (scoped s n)
    have parts: "path_parts p = [s, n]" unfolding p path_parts_def scoped(2) by (rule scoped_path [OF scoped(1,4)])
    have s: "CHR '':'' \<notin> set s" "s \<notin> {[], ''.'', ''..''}" using scoped(1) by (auto simp: scopes_def)
    have "CHR ''.'' \<notin> set n" using scoped(4) name_char_plain by blast
    then have "n \<notin> {[], ''.'', ''..''}" using scoped(3) by auto
    moreover have "takeWhile (\<lambda>c. c \<noteq> CHR '':'') ns = s" "tl (dropWhile (\<lambda>c. c \<noteq> CHR '':'') ns) = n"
      using s(1) unfolding scoped(2) by (auto simp: takeWhile_append dropWhile_append)
    ultimately show ?thesis using s(2) parts ok undone by simp
  qed
qed

theorem namespace_paths_are_safe_witness:
  "path_parts ''project/repo-a'' = [''project'', ''repo-a'']
    \<and> (namespace_to_path ''user:repo-a'' = Inr ''project/repo-a'' \<longleftrightarrow> ''user:repo-a'' = ''project:repo-a'')"
proof -
  have "namespace_to_path ''project:repo-a'' = Inr ''project/repo-a''"
    by (simp add: namespace_to_path_def validate_namespace_def ns_pattern_def scopes_def name_char_def
        replace_char_def max_namespace_length_def)
  from namespace_paths_are_safe [OF this, of "''user:repo-a''"] show ?thesis by (simp add: path_parts_def)
qed

section \<open>What authorisation guarantees\<close>

lemma valid_examples:
  "validate_namespace ''project:a'' = Inr ''project:a''" "validate_namespace ''project:b'' = Inr ''project:b''"
  by (simp_all add: validate_namespace_def ns_pattern_def scopes_def name_char_def max_namespace_length_def)

lemma role_examples:
  "role_from_string ''reader'' = Inr Reader" "role_from_string ''none'' = Inr NoRole"
  "role_from_string ''admin'' = Inr Admin" "role_from_string ''owner'' = Inl (NoSuchRole ''owner'')"
  by (simp_all add: role_from_string_def role_names_def str_lower_def str_strip_def lower_char_def is_space_def)

lemma authorize_loop_Inr:
  "authorize_loop req nss s0 = Inr s \<Longrightarrow>
    (\<forall>n. in_scope n s \<longleftrightarrow> in_scope n s0 \<or> (n \<in> set nss \<and> req n = Inr ()))
    \<and> sc_denied s = sc_denied s0 + length (filter (\<lambda>n. req n \<noteq> Inr ()) nss)"
proof (induction nss arbitrary: s0)
  case Nil
  then show ?case by simp
next
  case (Cons n nss)
  show ?case
  proof (cases "req n")
    case (Inl e)
    with Cons.prems have "authorize_loop req nss (s0\<lparr>sc_denied := Suc (sc_denied s0)\<rparr>) = Inr s"
      by (simp split: if_splits)
    from Cons.IH [OF this] Inl show ?thesis by (fastforce simp: in_scope_def)
  next
    case (Inr u)
    with Cons.prems have "authorize_loop req nss (s0\<lparr>sc_namespaces := List.insert n (sc_namespaces s0)\<rparr>) = Inr s"
      by simp
    from Cons.IH [OF this] Inr show ?thesis by (fastforce simp: in_scope_def)
  qed
qed

lemma require_twice:
  "bindE (validate_namespace ns) (\<lambda>ns. require_namespace_permission g c ns p) = require_namespace_permission g c ns p"
  by (auto simp: validate_namespace_def require_namespace_permission_def)

lemma require_Inr_iff:
  "require_namespace_permission g c ns p = Inr () \<longleftrightarrow>
    ns_pattern ns \<and> ns \<noteq> [] \<and> length ns \<le> max_namespace_length \<and> within_grant g ns
    \<and> (rbac_enabled c \<longrightarrow> (\<exists>r. role_from_string (dict_get (namespace_roles c) ns (default_role c)) = Inr r
          \<and> check_permission r p))"
  by (auto simp: require_namespace_permission_def bindE_Inr validate_Inr_iff)

text \<open>
  A retrieval scope holds exactly the namespaces the caller may reach. A name is in the scope
  just if it was asked for, is well formed, is within the token's grant and, with RBAC on, its
  role carries the permission; every refused name is counted, and narrowing a scope never
  adds one.
\<close>

theorem scope_is_exactly_authorized:
  assumes "authorize_namespaces g c nss p = Inr s"
  shows "(in_scope ns s \<longleftrightarrow> ns \<in> set nss \<and> validate_namespace ns = Inr ns \<and> within_grant g ns
      \<and> (\<not> rbac_enabled c \<or> (\<exists>r. role_from_string (dict_get (namespace_roles c) ns (default_role c)) = Inr r
            \<and> check_permission r p)))
    \<and> sc_denied s = length (filter (\<lambda>n. require_namespace_permission g c n p \<noteq> Inr ()) nss)
    \<and> (in_scope ns (scope_without out s) \<longleftrightarrow> in_scope ns s \<and> ns \<noteq> out)"
  using authorize_loop_Inr [OF assms [unfolded authorize_namespaces_def]]
  by (auto simp: in_scope_def scope_without_def require_twice require_Inr_iff validate_Inr_iff)

theorem scope_is_exactly_authorized_witness:
  "sc_denied \<lparr>sc_namespaces = [''project:a''], sc_denied = 1\<rparr> = (1 :: nat)
    \<and> in_scope ''project:a'' \<lparr>sc_namespaces = [''project:a''], sc_denied = 1\<rparr>"
proof -
  let ?c = "\<lparr>rbac_enabled = True, default_role = ''reader'', namespace_roles = [(''project:b'', ''none'')]\<rparr>"
  have "authorize_namespaces (Some [''project:a'', ''project:b'']) ?c [''project:a'', ''project:b''] PRead
      = Inr \<lparr>sc_namespaces = [''project:a''], sc_denied = 1\<rparr>"
    by (simp add: authorize_namespaces_def require_namespace_permission_def valid_examples role_examples
        within_grant_def dict_get_def check_permission_def)
  from scope_is_exactly_authorized [OF this, of "''project:a''"] show ?thesis by (simp add: in_scope_def)
qed

text \<open>
  A role name that is none of the four is not a refused namespace: it makes the whole
  authorisation raise, so one misconfigured namespace costs the caller every other one.
\<close>

theorem misconfigured_role_fails_all:
  "authorize_namespaces None
     \<lparr>rbac_enabled = True, default_role = ''admin'', namespace_roles = [(''project:b'', ''owner'')]\<rparr>
     [''project:a'', ''project:b''] PRead = Inl (NoSuchRole ''owner'')"
  by (simp add: authorize_namespaces_def require_namespace_permission_def valid_examples role_examples
      within_grant_def dict_get_def check_permission_def)

end
