(* ===== verification/Lane.thy ===== *)
theory Lane
  imports Prelude "HOL-Library.Product_Lexorder"
begin

text \<open>
  The daemon's one write lane, \<^verbatim>\<open>daemon/_lane.py\<close>. The module's globals are the record
  \<open>lane\<close>; a job's future is its entry in \<open>futures\<close>, keyed on the job's sequence number. Every
  operation that holds the lock is one step. Times are the monotonic clock, in seconds.
\<close>

section \<open>State\<close>

record budget =
  bg_name :: string
  bg_seconds :: rat
  bg_rows :: nat
  bg_background :: bool

record job =
  j_budget :: budget
  j_tenant :: string
  j_queued_at :: rat
  j_seq :: nat

datatype future = Pending | Running | Done | Raised | Cancelled

record lane =
  queue :: "job list"
  served :: "(string, rat) dict"
  running :: "job list"
  shut_down :: bool
  futures :: "(nat, future) dict"
  next_job :: nat

definition empty_lane :: lane where
  "empty_lane = \<lparr>queue = [], served = [], running = [], shut_down = False, futures = [], next_job = 0\<rparr>"

definition statement_deadline_factor :: rat where "statement_deadline_factor = 4"
definition statement_deadline_floor :: rat where "statement_deadline_floor = 5"
definition aging_seconds :: rat where "aging_seconds = 5"
definition call_seconds :: rat where "call_seconds = 60"
definition served_max :: nat where "served_max = 4096"

definition interactive :: budget where
  "interactive = \<lparr>bg_name = ''interactive'', bg_seconds = 10, bg_rows = 10000, bg_background = False\<rparr>"

definition maintenance :: budget where
  "maintenance = \<lparr>bg_name = ''maintenance'', bg_seconds = 1/4, bg_rows = 1000, bg_background = True\<rparr>"

definition import_budget :: budget where
  "import_budget = \<lparr>bg_name = ''import'', bg_seconds = 30, bg_rows = 100000, bg_background = True\<rparr>"

definition allowed_seconds :: "budget \<Rightarrow> rat" where
  "allowed_seconds b = max (bg_seconds b * statement_deadline_factor) statement_deadline_floor"

section \<open>Scheduling\<close>

definition future_of :: "lane \<Rightarrow> job \<Rightarrow> future option" where
  "future_of L j = map_of (futures L) (j_seq j)"

definition set_future :: "job \<Rightarrow> future \<Rightarrow> lane \<Rightarrow> lane" where
  "set_future j f L = L\<lparr>futures := dict_set (j_seq j) f (futures L)\<rparr>"

definition waiting_class :: "rat \<Rightarrow> job \<Rightarrow> bool" where
  "waiting_class now j \<longleftrightarrow> bg_background (j_budget j) \<and> now - j_queued_at j < aging_seconds"

definition rank :: "(string, rat) dict \<Rightarrow> rat \<Rightarrow> job \<Rightarrow> bool \<times> rat \<times> nat" where
  "rank sv now j = (waiting_class now j, dict_get sv (j_tenant j) 0, j_seq j)"

text \<open>\<open>min(xs, key=f)\<close>: the first element of the least key.\<close>

fun first_min :: "('a \<Rightarrow> 'b::linorder) \<Rightarrow> 'a \<Rightarrow> 'a list \<Rightarrow> 'a" where
  "first_min f best [] = best"
| "first_min f best (x # xs) = first_min f (if f x < f best then x else best) xs"

definition live :: "lane \<Rightarrow> job list" where
  "live L = filter (\<lambda>j. future_of L j \<noteq> Some Cancelled) (queue L)"

definition pick :: "lane \<Rightarrow> rat \<Rightarrow> job option" where
  "pick L now = (case live L of [] \<Rightarrow> None | j # js \<Rightarrow> Some (first_min (rank (served L) now) j js))"

definition take_job :: "job \<Rightarrow> rat \<Rightarrow> lane \<Rightarrow> lane" where
  "take_job j now L =
     L\<lparr>queue := remove1 j (live L), running := [j],
       served := dict_set (j_tenant j) now (if length (served L) \<ge> served_max then [] else served L)\<rparr>"

text \<open>
  \<open>_dispatch\<close>, with \<open>pool\<close> saying which jobs the executor still accepts: a job it refuses is
  dropped, which frees the lane and dispatches again.
\<close>

lemma first_min_in: "first_min f best xs \<in> insert best (set xs)"
  by (induction xs arbitrary: best) auto

lemma pick_in: "pick L now = Some j \<Longrightarrow> j \<in> set (live L)"
  using first_min_in by (fastforce simp: pick_def split: list.splits)

function dispatch :: "(job \<Rightarrow> bool) \<Rightarrow> rat \<Rightarrow> lane \<Rightarrow> lane" where
  "dispatch pool now L =
     (if running L \<noteq> [] then L\<lparr>queue := live L\<rparr>
      else (case pick L now of
              None \<Rightarrow> L\<lparr>queue := live L\<rparr>
            | Some j \<Rightarrow>
                if pool j then take_job j now L
                else dispatch pool now ((set_future j Cancelled (take_job j now L))\<lparr>running := []\<rparr>)))"
  by pat_completeness auto
termination
proof (relation "measure (\<lambda>(_, _, L). length (queue L))", goal_cases)
  case 1
  show ?case by simp
next
  case (2 pool now L j)
  from pick_in [OF 2(2)] have "j \<in> set (live L)" .
  then have "length (remove1 j (live L)) < length (live L)"
    using length_pos_if_in_set [of j "live L"] by (simp add: length_remove1)
  also have "\<dots> \<le> length (queue L)" by (simp add: live_def)
  finally show ?case by (simp add: take_job_def set_future_def)
qed

declare dispatch.simps [simp del]

definition release :: "(job \<Rightarrow> bool) \<Rightarrow> rat \<Rightarrow> lane \<Rightarrow> lane" where
  "release pool now L = dispatch pool now (L\<lparr>running := []\<rparr>)"

section \<open>The module's operations\<close>

definition new_job :: "budget \<Rightarrow> string \<Rightarrow> rat \<Rightarrow> lane \<Rightarrow> job" where
  "new_job b t now L = \<lparr>j_budget = b, j_tenant = t, j_queued_at = now, j_seq = next_job L\<rparr>"

definition submit :: "(job \<Rightarrow> bool) \<Rightarrow> rat \<Rightarrow> budget \<Rightarrow> string \<Rightarrow> lane \<Rightarrow> lane" where
  "submit pool now b t L =
     (let j = new_job b t now L; L1 = L\<lparr>next_job := Suc (next_job L)\<rparr>
      in if shut_down L then set_future j Cancelled L1
         else dispatch pool now ((set_future j Pending L1)\<lparr>queue := queue L @ [j]\<rparr>))"

text \<open>\<open>_run\<close> in two steps: the lane's thread takes the job, and later its body returns or raises.\<close>

definition run_start :: "(job \<Rightarrow> bool) \<Rightarrow> rat \<Rightarrow> job \<Rightarrow> lane \<Rightarrow> lane" where
  "run_start pool now j L =
     (if future_of L j = Some Cancelled then release pool now L else set_future j Running L)"

definition run_end :: "(job \<Rightarrow> bool) \<Rightarrow> rat \<Rightarrow> job \<Rightarrow> bool \<Rightarrow> lane \<Rightarrow> lane" where
  "run_end pool now j ok L = release pool now (set_future j (if ok then Done else Raised) L)"

definition overran :: "budget \<Rightarrow> rat \<Rightarrow> rat \<Rightarrow> bool" where
  "overran b started ended \<longleftrightarrow> ended - started > allowed_seconds b"

text \<open>\<open>_drop\<close>, and the caller's \<open>cancel()\<close>, which succeeds only on a job not yet started.\<close>

definition drop_job :: "(job \<Rightarrow> bool) \<Rightarrow> rat \<Rightarrow> job \<Rightarrow> lane \<Rightarrow> lane" where
  "drop_job pool now j L =
     release pool now (if future_of L j = Some Pending then set_future j Cancelled L else L)"

definition cancel_future :: "nat \<Rightarrow> lane \<Rightarrow> lane" where
  "cancel_future s L =
     (if map_of (futures L) s = Some Pending then L\<lparr>futures := dict_set s Cancelled (futures L)\<rparr> else L)"

definition cancel_queued :: "lane \<Rightarrow> lane" where
  "cancel_queued L =
     foldl (\<lambda>M j. cancel_future (j_seq j) M) (L\<lparr>queue := [], served := []\<rparr>) (queue L)"

definition refuse_lane_submissions :: "lane \<Rightarrow> lane" where
  "refuse_lane_submissions L = L\<lparr>shut_down := True\<rparr>"

text \<open>
  \<open>run_slices\<close>: each element is what one pass of the loop sees, the step's reply (a refusal,
  or nothing), whether work is left, the rows so far and the time. \<open>None\<close>: still looping.
\<close>

record slice =
  sl_refused :: "string option"
  sl_unfinished :: bool
  sl_rows :: nat
  sl_time :: rat

fun run_slices :: "nat \<Rightarrow> rat \<Rightarrow> slice list \<Rightarrow> (nat \<times> string option) option" where
  "run_slices max_rows ends [] = None"
| "run_slices max_rows ends (s # ss) =
     (case sl_refused s of
        Some r \<Rightarrow> Some (1, Some r)
      | None \<Rightarrow> if \<not> sl_unfinished s \<or> sl_rows s \<ge> max_rows \<or> sl_time s \<ge> ends then Some (1, None)
                else map_option (\<lambda>(n, r). (Suc n, r)) (run_slices max_rows ends ss))"

section \<open>Reachable lanes\<close>

text \<open>
  The steps, in any order and at any times: a body may start only when its job holds the lane
  and has not started, and end only when it runs; the rest may happen whenever.
\<close>

inductive lane_step :: "lane \<Rightarrow> lane \<Rightarrow> bool" where
  step_submit: "lane_step L (submit pool now b t L)"
| step_start: "running L = [j] \<Longrightarrow> future_of L j \<in> {Some Pending, Some Cancelled} \<Longrightarrow> lane_step L (run_start pool now j L)"
| step_end: "running L = [j] \<Longrightarrow> future_of L j = Some Running \<Longrightarrow> lane_step L (run_end pool now j ok L)"
| step_drop: "running L = [j] \<Longrightarrow> future_of L j \<in> {Some Pending, Some Cancelled} \<Longrightarrow> lane_step L (drop_job pool now j L)"
| step_cancel: "lane_step L (cancel_future s L)"
| step_reset: "lane_step L (cancel_queued L)"
| step_refuse: "lane_step L (refuse_lane_submissions L)"

inductive lane_reach :: "lane \<Rightarrow> bool" where
  reach_init: "lane_reach empty_lane"
| reach_step: "lane_reach L \<Longrightarrow> lane_step L L' \<Longrightarrow> lane_reach L'"

section \<open>What every reachable lane satisfies\<close>

definition held :: "lane \<Rightarrow> job list" where
  "held L = running L @ queue L"

text \<open>\<open>books_ok\<close> is the bookkeeping; \<open>lane_ok\<close> adds that a free lane has nothing left to start.\<close>

definition books_ok :: "lane \<Rightarrow> bool" where
  "books_ok L \<longleftrightarrow>
     length (running L) \<le> 1
     \<and> distinct (map j_seq (held L))
     \<and> (\<forall>s f. map_of (futures L) s = Some f \<longrightarrow> s < next_job L)
     \<and> (\<forall>j \<in> set (queue L). future_of L j \<in> {Some Pending, Some Cancelled})
     \<and> (\<forall>j \<in> set (running L). future_of L j \<in> {Some Pending, Some Running, Some Cancelled})
     \<and> (\<forall>s. map_of (futures L) s = Some Running \<longrightarrow> s \<in> j_seq ` set (running L))
     \<and> (\<forall>s. map_of (futures L) s = Some Pending \<longrightarrow> s \<in> j_seq ` set (held L))"

definition lane_ok :: "lane \<Rightarrow> bool" where
  "lane_ok L \<longleftrightarrow> books_ok L \<and> (running L = [] \<longrightarrow> live L = [])"

lemma lane_simps [simp]:
  "queue (set_future j f L) = queue L" "running (set_future j f L) = running L"
  "served (set_future j f L) = served L" "next_job (set_future j f L) = next_job L"
  "shut_down (set_future j f L) = shut_down L" "futures (set_future j f L) = dict_set (j_seq j) f (futures L)"
  "running (take_job j now L) = [j]" "queue (take_job j now L) = remove1 j (live L)"
  "futures (take_job j now L) = futures L" "next_job (take_job j now L) = next_job L"
  "shut_down (take_job j now L) = shut_down L"
  by (simp_all add: set_future_def take_job_def)

lemma set_live: "set (live L) = {j \<in> set (queue L). future_of L j \<noteq> Some Cancelled}"
  by (auto simp: live_def)

lemma books_prune: "books_ok L \<Longrightarrow> books_ok (L\<lparr>queue := live L\<rparr>)"
  by (auto simp: books_ok_def held_def set_live future_of_def live_def distinct_map_filter distinct_map
      intro: inj_on_subset)

lemma distinct_move_front:
  "distinct (map f xs) \<Longrightarrow> j \<in> set xs \<Longrightarrow> distinct (map f (j # remove1 j xs)) \<and> set (j # remove1 j xs) = set xs"
proof (induction xs)
  case (Cons x xs)
  show ?case
  proof (cases "x = j")
    case False
    have "f x \<notin> f ` set xs" using Cons.prems(1) by simp
    moreover have "f j \<in> f ` set xs" using Cons.prems(2) False by simp
    ultimately have "f j \<noteq> f x" by metis
    then show ?thesis using Cons False by auto
  qed (use Cons in auto)
qed simp

lemma books_take:
  assumes ok: "books_ok L" and idle: "running L = []" and j: "j \<in> set (live L)"
  shows "books_ok (take_job j now L)"
proof -
  from books_prune [OF ok] have ok': "books_ok (L\<lparr>queue := live L\<rparr>)" .
  then have "distinct (map j_seq (live L))" by (simp add: books_ok_def held_def idle)
  from distinct_move_front [OF this j] have front: "distinct (map j_seq (j # remove1 j (live L)))"
    "set (j # remove1 j (live L)) = set (live L)" by blast+
  have sub: "set (remove1 j (live L)) \<subseteq> set (live L)" by (rule set_remove1_subset)
  have fut: "future_of (take_job j now L) k = future_of L k" for k by (simp add: future_of_def)
  show ?thesis
    unfolding books_ok_def held_def lane_simps fut
  proof (intro conjI)
    show "distinct (map j_seq ([j] @ remove1 j (live L)))" using front(1) by simp
    show "\<forall>s f. map_of (futures L) s = Some f \<longrightarrow> s < next_job L" using ok by (simp add: books_ok_def)
    show "\<forall>k \<in> set (remove1 j (live L)). future_of L k \<in> {Some Pending, Some Cancelled}"
      using ok sub set_live [of L] unfolding books_ok_def by blast
    show "\<forall>k \<in> set [j]. future_of L k \<in> {Some Pending, Some Running, Some Cancelled}"
      using ok j set_live [of L] unfolding books_ok_def by auto
    show "\<forall>s. map_of (futures L) s = Some Running \<longrightarrow> s \<in> j_seq ` set [j]"
      using ok idle by (simp add: books_ok_def)
    have "\<forall>s. map_of (futures L) s = Some Pending \<longrightarrow> s \<in> j_seq ` set (live L)"
      using ok' idle by (simp add: books_ok_def held_def)
    then show "\<forall>s. map_of (futures L) s = Some Pending \<longrightarrow> s \<in> j_seq ` set ([j] @ remove1 j (live L))"
      using front(2) by simp
  qed simp
qed

lemma job_seq_inj: "books_ok L \<Longrightarrow> j \<in> set (held L) \<Longrightarrow> k \<in> set (held L) \<Longrightarrow> j_seq j = j_seq k \<Longrightarrow> j = k"
  by (auto simp: books_ok_def distinct_map dest: inj_onD)

text \<open>
  The holder's future may settle, and the lane becomes free: what \<open>release\<close> and the refused
  dispatch do before they look for the next job.
\<close>

lemma books_settle:
  assumes ok: "books_ok L" and run: "running L = [j]"
    and f: "f \<noteq> Pending" "f \<noteq> Running"
  shows "books_ok ((set_future j f L)\<lparr>running := []\<rparr>)"
proof -
  have "j_seq j \<notin> j_seq ` set (queue L)" using ok run by (simp add: books_ok_def held_def)
  then have "j_seq k \<noteq> j_seq j" if "k \<in> set (queue L)" for k using that by (metis imageI)
  moreover have "future_of L j \<noteq> None" using ok run by (auto simp: books_ok_def)
  then obtain g where "map_of (futures L) (j_seq j) = Some g" by (auto simp: future_of_def)
  then have "j_seq j < next_job L" using ok by (simp add: books_ok_def)
  ultimately show ?thesis using ok run f
    by (simp add: books_ok_def held_def future_of_def) blast
qed

lemma books_free:
  assumes ok: "books_ok L" and run: "running L = [j]"
    and f: "future_of L j \<in> {Some Cancelled, Some Done, Some Raised}"
  shows "books_ok (L\<lparr>running := []\<rparr>)"
proof -
  obtain g where g: "map_of (futures L) (j_seq j) = Some g" "g \<noteq> Pending" "g \<noteq> Running"
    using f by (auto simp: future_of_def)
  have no_run: "map_of (futures L) s \<noteq> Some Running" for s
    using ok run g by (auto simp: books_ok_def)
  have pend: "map_of (futures L) s = Some Pending \<Longrightarrow> s \<in> j_seq ` set (queue L)" for s
    using ok run g by (auto simp: books_ok_def held_def)
  show ?thesis using ok run no_run pend by (simp add: books_ok_def held_def future_of_def)
qed

lemma dispatch_ok: "books_ok L \<Longrightarrow> lane_ok (dispatch pool now L)"
proof (induction pool now L rule: dispatch.induct)
  case (1 pool now L)
  show ?case
  proof (cases "running L = []")
    case False
    then show ?thesis using books_prune [OF 1(2)] by (simp add: dispatch.simps lane_ok_def)
  next
    case idle: True
    show ?thesis
    proof (cases "pick L now")
      case None
      then have "live L = []" by (simp add: pick_def split: list.splits)
      then show ?thesis using idle None books_prune [OF 1(2)]
        by (simp add: dispatch.simps lane_ok_def live_def)
    next
      case (Some j)
      note take = books_take [OF 1(2) idle pick_in [OF Some], of now]
      show ?thesis
      proof (cases "pool j")
        case True
        with idle Some take show ?thesis by (simp add: dispatch.simps lane_ok_def)
      next
        case False
        have "books_ok ((set_future j Cancelled (take_job j now L))\<lparr>running := []\<rparr>)"
          by (rule books_settle [OF take]) simp_all
        with 1(1) [OF _ Some False] idle have
          "lane_ok (dispatch pool now ((set_future j Cancelled (take_job j now L))\<lparr>running := []\<rparr>))" by simp
        with idle Some False show ?thesis by (subst dispatch.simps) simp
      qed
    qed
  qed
qed

text \<open>What a step does to the futures: the books need no more of the submit, start and cancel steps.\<close>

lemma books_submit:
  assumes ok: "books_ok L" and j: "j = new_job b t now L"
  shows "books_ok ((set_future j Pending (L\<lparr>next_job := Suc (next_job L)\<rparr>))\<lparr>queue := queue L @ [j]\<rparr>)"
    and "books_ok (set_future j Cancelled (L\<lparr>next_job := Suc (next_job L)\<rparr>))"
proof -
  have fresh: "j_seq k < next_job L" if "k \<in> set (held L)" for k
  proof -
    have "future_of L k \<noteq> None" using ok that by (auto simp: books_ok_def held_def)
    then show ?thesis using ok by (auto simp: books_ok_def future_of_def)
  qed
  have seq: "j_seq j = next_job L" by (simp add: j new_job_def)
  then have old: "j_seq k \<noteq> j_seq j" if "k \<in> set (queue L) \<union> set (running L)" for k
    using fresh [of k] that by (auto simp: held_def)
  have new: "s < next_job L \<Longrightarrow> s \<noteq> j_seq j" for s using seq by simp
  have bound: "map_of (futures L) s = Some f \<Longrightarrow> s < next_job L" for s f using ok by (simp add: books_ok_def)
  have notin: "j_seq j \<notin> j_seq ` (set (queue L) \<union> set (running L))" using old by (metis imageE)
  show "books_ok ((set_future j Pending (L\<lparr>next_job := Suc (next_job L)\<rparr>))\<lparr>queue := queue L @ [j]\<rparr>)"
    using ok old bound notin seq
    by (simp add: books_ok_def held_def future_of_def image_Un less_Suc_eq) blast
  show "books_ok (set_future j Cancelled (L\<lparr>next_job := Suc (next_job L)\<rparr>))"
    using ok old bound seq
    by (simp add: books_ok_def held_def future_of_def less_Suc_eq) blast
qed

lemma books_start:
  assumes ok: "books_ok L" and run: "running L = [j]" and p: "future_of L j = Some Pending"
  shows "books_ok (set_future j Running L)"
proof -
  have notin: "j_seq j \<notin> j_seq ` set (queue L)" using ok run by (simp add: books_ok_def held_def)
  then have old: "j_seq k \<noteq> j_seq j" if "k \<in> set (queue L)" for k using that by (metis imageI)
  have "j_seq j < next_job L" using ok p by (simp add: books_ok_def future_of_def)
  then show ?thesis using ok run old
    by (simp add: books_ok_def held_def future_of_def) blast
qed

lemma cancel_future_frame [simp]:
  "queue (cancel_future s L) = queue L" "running (cancel_future s L) = running L"
  "next_job (cancel_future s L) = next_job L" "shut_down (cancel_future s L) = shut_down L"
  "served (cancel_future s L) = served L"
  by (simp_all add: cancel_future_def)

lemma futures_cancel:
  "map_of (futures (cancel_future s L)) k
    = (if k = s \<and> map_of (futures L) s = Some Pending then Some Cancelled else map_of (futures L) k)"
  by (simp add: cancel_future_def)

lemma futures_cancels:
  "map_of (futures (foldl (\<lambda>M j. cancel_future (j_seq j) M) L js)) k
    = (if k \<in> j_seq ` set js \<and> map_of (futures L) k = Some Pending then Some Cancelled else map_of (futures L) k)"
  by (induction js arbitrary: L) (auto simp: futures_cancel)

lemma cancels_frame [simp]:
  "queue (foldl (\<lambda>M j. cancel_future (j_seq j) M) L js) = queue L"
  "running (foldl (\<lambda>M j. cancel_future (j_seq j) M) L js) = running L"
  "next_job (foldl (\<lambda>M j. cancel_future (j_seq j) M) L js) = next_job L"
  "shut_down (foldl (\<lambda>M j. cancel_future (j_seq j) M) L js) = shut_down L"
  by (induction js arbitrary: L) simp_all

lemma lane_ok_cancel: "lane_ok L \<Longrightarrow> lane_ok (cancel_future s L)"
proof -
  assume ok: "lane_ok L"
  have "live L = [] \<Longrightarrow> live (cancel_future s L) = []"
    by (auto simp: live_def filter_empty_conv future_of_def futures_cancel)
  then show ?thesis using ok
    by (simp add: lane_ok_def books_ok_def held_def future_of_def futures_cancel)
qed

lemma lane_ok_cancel_queued: "lane_ok L \<Longrightarrow> lane_ok (cancel_queued L)"
proof -
  assume ok: "lane_ok L"
  have disj: "j_seq j \<notin> j_seq ` set (queue L)" if "j \<in> set (running L)" for j
    using ok that by (auto simp: lane_ok_def books_ok_def held_def)
  show ?thesis using ok disj
    by (simp add: lane_ok_def books_ok_def held_def future_of_def cancel_queued_def futures_cancels live_def)
      (auto simp: image_Un)
qed

lemma lane_step_ok: "lane_step L L' \<Longrightarrow> lane_ok L \<Longrightarrow> lane_ok L'"
proof (induction rule: lane_step.induct)
  case (step_submit L pool now b t)
  then have "books_ok L" by (simp add: lane_ok_def)
  note sub = books_submit [OF this refl, of b t now]
  show ?case
  proof (cases "shut_down L")
    case True
    have "live (submit pool now b t L) = []" if "live L = []"
      using that \<open>books_ok L\<close> True
      by (auto simp: submit_def live_def filter_empty_conv future_of_def books_ok_def new_job_def)
    then show ?thesis using sub(2) step_submit True by (simp add: submit_def lane_ok_def)
  next
    case False
    then show ?thesis using dispatch_ok [OF sub(1)] by (simp add: submit_def Let_def)
  qed
next
  case (step_start L j pool now)
  then have ok: "books_ok L" by (simp add: lane_ok_def)
  show ?case
  proof (cases "future_of L j = Some Cancelled")
    case True
    then show ?thesis unfolding run_start_def release_def
      using dispatch_ok [OF books_free [OF ok step_start(1)]] by simp
  next
    case False
    then have "future_of L j = Some Pending" using step_start(2) by simp
    with books_start [OF ok step_start(1)] False step_start(1) show ?thesis
      by (simp add: run_start_def lane_ok_def)
  qed
next
  case (step_end L j pool now ok)
  then show ?case
    unfolding run_end_def release_def by (intro dispatch_ok books_settle) (auto simp: lane_ok_def)
next
  case (step_drop L j pool now)
  then have ok: "books_ok L" by (simp add: lane_ok_def)
  show ?case
  proof (cases "future_of L j = Some Pending")
    case True
    then show ?thesis unfolding drop_job_def release_def
      using dispatch_ok [OF books_settle [OF ok step_drop(1), of Cancelled]] by simp
  next
    case False
    then show ?thesis unfolding drop_job_def release_def
      using dispatch_ok [OF books_free [OF ok step_drop(1)]] step_drop(2) by simp
  qed
next
  case (step_cancel L s)
  then show ?case by (rule lane_ok_cancel)
next
  case (step_reset L)
  then show ?case by (rule lane_ok_cancel_queued)
next
  case (step_refuse L)
  then show ?case
    by (simp add: refuse_lane_submissions_def lane_ok_def books_ok_def held_def future_of_def live_def)
qed

lemma lane_reach_ok: "lane_reach L \<Longrightarrow> lane_ok L"
proof (induction rule: lane_reach.induct)
  case reach_init
  show ?case by (simp add: lane_ok_def books_ok_def empty_lane_def held_def live_def)
qed (rule lane_step_ok)

section \<open>What the lane guarantees\<close>



lemma first_min_le: "f (first_min f best xs) \<le> f best \<and> (\<forall>y \<in> set xs. f (first_min f best xs) \<le> f y)"
proof (induction xs arbitrary: best)
  case (Cons x xs)
  let ?m = "if f x < f best then x else best"
  from Cons [of ?m] have "f (first_min f ?m xs) \<le> f ?m" "\<forall>y \<in> set xs. f (first_min f ?m xs) \<le> f y" by blast+
  moreover have "f ?m \<le> f best" "f ?m \<le> f x" by (simp_all add: less_imp_le not_less)
  ultimately show ?case by (auto intro: order_trans)
qed simp

lemma pick_least: "pick L now = Some j \<Longrightarrow> k \<in> set (live L) \<Longrightarrow> rank (served L) now j \<le> rank (served L) now k"
  using first_min_le [of "rank (served L) now"] by (auto simp: pick_def split: list.splits)

text \<open>
  The lane starts the job its schedule promises. Among the jobs not cancelled, one that still
  waits as background never goes before an interactive or aged one; within a class a tenant
  served later never goes before one served earlier; and one tenant's jobs of a class start in
  the order they were submitted.
\<close>

theorem dispatch_is_fair:
  assumes "pick L now = Some j" "k \<in> set (live L)"
  shows "j \<in> set (live L)
    \<and> (waiting_class now j \<longrightarrow> waiting_class now k)
    \<and> (waiting_class now j = waiting_class now k
        \<longrightarrow> dict_get (served L) (j_tenant j) 0 \<le> dict_get (served L) (j_tenant k) 0)
    \<and> (waiting_class now j = waiting_class now k \<and> j_tenant j = j_tenant k \<longrightarrow> j_seq j \<le> j_seq k)"
  using pick_in [OF assms(1)] pick_least [OF assms] by (auto simp: rank_def less_eq_prod_def)

theorem dispatch_is_fair_witness:
  "let a = \<lparr>j_budget = maintenance, j_tenant = ''project:a'', j_queued_at = 1, j_seq = 0\<rparr>;
       b = \<lparr>j_budget = interactive, j_tenant = ''project:b'', j_queued_at = 2, j_seq = 1\<rparr>;
       L = empty_lane\<lparr>queue := [a, b], next_job := 2\<rparr>
   in pick L 3 = Some b \<and> (waiting_class 3 b \<longrightarrow> waiting_class 3 a)"
proof -
  let ?a = "\<lparr>j_budget = maintenance, j_tenant = ''project:a'', j_queued_at = 1, j_seq = 0\<rparr>"
  let ?b = "\<lparr>j_budget = interactive, j_tenant = ''project:b'', j_queued_at = 2, j_seq = 1\<rparr>"
  let ?L = "empty_lane\<lparr>queue := [?a, ?b], next_job := 2\<rparr>"
  have p: "pick ?L 3 = Some ?b"
    by (simp add: pick_def live_def future_of_def empty_lane_def rank_def waiting_class_def maintenance_def
        interactive_def aging_seconds_def less_prod_def)
  have "?a \<in> set (live ?L)" by (simp add: live_def future_of_def empty_lane_def)
  from dispatch_is_fair [OF p this] show ?thesis unfolding Let_def using p by blast
qed

section \<open>Finality\<close>

definition settled :: "future \<Rightarrow> bool" where
  "settled f \<longleftrightarrow> f \<in> {Done, Raised, Cancelled}"

text \<open>A dispatch touches only the futures of jobs it drops, which were pending.\<close>

lemma dispatch_futures:
  "books_ok L \<Longrightarrow> map_of (futures (dispatch pool now L)) s
     \<in> {map_of (futures L) s} \<union> (if map_of (futures L) s = Some Pending then {Some Cancelled} else {})"
proof (induction pool now L rule: dispatch.induct)
  case (1 pool now L)
  show ?case
  proof (cases "running L \<noteq> [] \<or> pick L now = None")
    case True
    then show ?thesis by (auto simp: dispatch.simps)
  next
    case False
    then obtain j where idle: "running L = []" and j: "pick L now = Some j" by auto
    show ?thesis
    proof (cases "pool j")
      case True
      with idle j show ?thesis by (simp add: dispatch.simps)
    next
      case no: False
      let ?M = "(set_future j Cancelled (take_job j now L))\<lparr>running := []\<rparr>"
      note take = books_take [OF 1(2) idle pick_in [OF j], of now]
      have "books_ok ?M" by (rule books_settle [OF take]) simp_all
      with 1(1) [OF _ j no] idle have IH: "map_of (futures (dispatch pool now ?M)) s
          \<in> {map_of (futures ?M) s} \<union> (if map_of (futures ?M) s = Some Pending then {Some Cancelled} else {})"
        by simp
      have "future_of L j = Some Pending"
        using 1(2) pick_in [OF j] by (auto simp: books_ok_def set_live)
      then have "map_of (futures L) (j_seq j) = Some Pending" by (simp add: future_of_def)
      with IH have "map_of (futures (dispatch pool now ?M)) s
          \<in> {map_of (futures L) s} \<union> (if map_of (futures L) s = Some Pending then {Some Cancelled} else {})"
        by (auto split: if_splits)
      with idle j no show ?thesis by (subst (1) dispatch.simps) simp
    qed
  qed
qed

lemma dispatch_frame [simp]:
  "next_job (dispatch pool now L) = next_job L \<and> shut_down (dispatch pool now L) = shut_down L"
  by (induction pool now L rule: dispatch.induct) (subst (1 2) dispatch.simps, simp split: option.split)

lemma dispatch_settled:
  "books_ok L \<Longrightarrow> map_of (futures L) s \<noteq> Some Pending \<Longrightarrow> map_of (futures (dispatch pool now L)) s = map_of (futures L) s"
  using dispatch_futures [of L pool now s] by simp

text \<open>
  One step: a settled future keeps its value, and on a lane that refuses submissions a job
  that did not exist before is cancelled at once.
\<close>

lemma step_final:
  assumes "lane_step L L'" "lane_ok L"
  shows "map_of (futures L) s = Some f \<Longrightarrow> settled f \<Longrightarrow> map_of (futures L') s = Some f"
    and "shut_down L \<Longrightarrow> shut_down L' \<and>
      (\<forall>g. map_of (futures L) s = None \<longrightarrow> map_of (futures L') s = Some g \<longrightarrow> g = Cancelled)"
proof -
  have settled_np: "settled f \<Longrightarrow> f \<noteq> Pending" for f by (auto simp: settled_def)
  have "(map_of (futures L) s = Some f \<longrightarrow> settled f \<longrightarrow> map_of (futures L') s = Some f) \<and>
      (shut_down L \<longrightarrow> shut_down L' \<and>
        (\<forall>g. map_of (futures L) s = None \<longrightarrow> map_of (futures L') s = Some g \<longrightarrow> g = Cancelled))"
    using assms
  proof (induction rule: lane_step.induct)
    case (step_submit L pool now b t)
    then have ok: "books_ok L" by (simp add: lane_ok_def)
    have new: "map_of (futures L) (j_seq (new_job b t now L)) = None"
      using ok by (auto simp: books_ok_def new_job_def)
    note sub = books_submit [OF ok refl, of b t now]
    show ?case
    proof (cases "shut_down L")
      case True
      then show ?thesis using new by (auto simp: submit_def Let_def)
    next
      case False
      then show ?thesis using new settled_np dispatch_settled [OF sub(1), of s pool now]
        by (cases "s = j_seq (new_job b t now L)") (auto simp: submit_def Let_def)
    qed
  next
    case (step_start L j pool now)
    then have ok: "books_ok L" by (simp add: lane_ok_def)
    show ?case
    proof (cases "future_of L j = Some Cancelled")
      case True
      then show ?thesis using settled_np dispatch_settled [OF books_free [OF ok step_start(1)], of s pool now]
        by (auto simp: run_start_def release_def)
    next
      case False
      then have "map_of (futures L) (j_seq j) = Some Pending" using step_start(2) by (simp add: future_of_def)
      then show ?thesis using False by (auto simp: run_start_def settled_def)
    qed
  next
    case (step_end L j pool now r)
    then have ok: "books_ok L" and run: "map_of (futures L) (j_seq j) = Some Running"
      by (auto simp: lane_ok_def future_of_def)
    have "books_ok ((set_future j (if r then Done else Raised) L)\<lparr>running := []\<rparr>)"
      by (rule books_settle [OF ok step_end(1)]) auto
    from dispatch_settled [OF this, of s pool now] run settled_np show ?case
      by (auto simp: run_end_def release_def settled_def)
  next
    case (step_drop L j pool now)
    then have ok: "books_ok L" by (simp add: lane_ok_def)
    show ?case
    proof (cases "future_of L j = Some Pending")
      case True
      have "books_ok ((set_future j Cancelled L)\<lparr>running := []\<rparr>)"
        by (rule books_settle [OF ok step_drop(1)]) auto
      from dispatch_settled [OF this, of s pool now] True settled_np show ?thesis
        by (auto simp: drop_job_def release_def future_of_def)
    next
      case False
      then show ?thesis using step_drop(2) settled_np dispatch_settled [OF books_free [OF ok step_drop(1)], of s pool now]
        by (auto simp: drop_job_def release_def)
    qed
  qed (auto simp: futures_cancel futures_cancels cancel_queued_def refuse_lane_submissions_def settled_def
      split: if_splits)
  then show "map_of (futures L) s = Some f \<Longrightarrow> settled f \<Longrightarrow> map_of (futures L') s = Some f"
    and "shut_down L \<Longrightarrow> shut_down L' \<and>
      (\<forall>g. map_of (futures L) s = None \<longrightarrow> map_of (futures L') s = Some g \<longrightarrow> g = Cancelled)" by blast+
qed

text \<open>
  A job's outcome is final, and shutdown is one-way. Whatever steps follow, a job that was
  cancelled never runs and a job that ran never runs again; once the lane refuses submissions,
  every job submitted later is cancelled.
\<close>

theorem outcomes_are_final:
  assumes "lane_reach L" and "lane_step\<^sup>*\<^sup>* L L'"
  shows "(\<forall>s f. map_of (futures L) s = Some f \<and> settled f \<longrightarrow> map_of (futures L') s = Some f)
    \<and> (shut_down L \<longrightarrow> (\<forall>s f. map_of (futures L) s = None \<and> map_of (futures L') s = Some f \<longrightarrow> f = Cancelled))"
proof -
  have "lane_reach L' \<and> (shut_down L \<longrightarrow> shut_down L')
    \<and> (\<forall>s f. map_of (futures L) s = Some f \<and> settled f \<longrightarrow> map_of (futures L') s = Some f)
    \<and> (shut_down L \<longrightarrow> (\<forall>s f. map_of (futures L) s = None \<and> map_of (futures L') s = Some f \<longrightarrow> f = Cancelled))"
    using assms(2)
  proof (induction rule: rtranclp_induct)
    case base
    show ?case using assms(1) by auto
  next
    case (step M N)
    then have ok: "lane_ok M" and reach: "lane_reach N" by (auto intro: lane_reach_ok reach_step)
    note fin = step_final(1) [OF step(2) ok] and new = step_final(2) [OF step(2) ok]
    have cancelled: "f = Cancelled"
      if sd: "shut_down L" and none: "map_of (futures L) s = None" and f: "map_of (futures N) s = Some f" for s f
    proof (cases "map_of (futures M) s")
      case None
      then show ?thesis using new step.IH sd f by blast
    next
      case (Some g)
      then have "g = Cancelled" using step.IH sd none by blast
      then show ?thesis using fin [OF Some] f by (simp add: settled_def)
    qed
    show ?case using step.IH reach fin new cancelled by blast
  qed
  then show ?thesis by blast
qed

theorem outcomes_are_final_witness:
  "let L = refuse_lane_submissions empty_lane; L' = submit (\<lambda>_. True) 1 interactive ''project:a'' L
   in map_of (futures L') 0 = Some Cancelled"
proof -
  let ?L = "refuse_lane_submissions empty_lane"
  let ?L' = "submit (\<lambda>_. True) 1 interactive ''project:a'' ?L"
  have reach: "lane_reach ?L" by (rule reach_step [OF reach_init step_refuse])
  have steps: "lane_step\<^sup>*\<^sup>* ?L ?L'" by (rule r_into_rtranclp) (rule step_submit)
  have "shut_down ?L" "map_of (futures ?L) 0 = None"
    by (simp_all add: refuse_lane_submissions_def empty_lane_def)
  moreover have "map_of (futures ?L') 0 \<noteq> None"
    by (simp add: submit_def new_job_def refuse_lane_submissions_def empty_lane_def)
  ultimately show ?thesis using outcomes_are_final [OF reach steps] unfolding Let_def by blast
qed

end
