(* ===== verification/Retry.thy ===== *)
theory Retry
  imports Prelude
begin

text \<open>
  The persistent retry queue of \<^verbatim>\<open>sync/retry_queue.py\<close>. The file is the list of its lines, each
  as UTF-8 decoding and \<open>json.loads\<close> see it; writing a line and reading it back gives the same
  JSON. \<open>bytes\<close> is the encoded byte size of a record's line.
\<close>

section \<open>Lines and records\<close>

datatype json =
  JNull | JBool bool | JInt int | JFloat rat | JStr string | JList "json list"
| JObject "(string \<times> json) list"

datatype line = NotUtf8 | Blank | NotJson | Json json

record queue_record =
  qr_entry_id :: string
  qr_payload :: "(string \<times> json) list"
  qr_queued_at :: string
  qr_retry_count :: int
  qr_last_error :: "string option"
  qr_revision :: "(json \<times> json) option"

type_synonym drained = "string \<times> (int \<times> string) option"

definition max_queue_depth :: nat where "max_queue_depth = 500"
definition max_queue_bytes :: nat where "max_queue_bytes = 5 * 1024 * 1024"
definition max_retries :: int where "max_retries = 5"

text \<open>The JSON object \<open>_write_all\<close> dumps for a record, key by key.\<close>

definition record_json :: "queue_record \<Rightarrow> json" where
  "record_json r = JObject
     ([(''entry_id'', JStr (qr_entry_id r)), (''payload'', JObject (qr_payload r)),
       (''queued_at'', JStr (qr_queued_at r)), (''retry_count'', JInt (qr_retry_count r)),
       (''last_error'', (case qr_last_error r of None \<Rightarrow> JNull | Some s \<Rightarrow> JStr s))]
      @ (case qr_revision r of None \<Rightarrow> [] | Some (a, b) \<Rightarrow> [(''revision'', JList [a, b])]))"

text \<open>\<open>raw.get(k)\<close>: a missing key reads as \<open>null\<close>.\<close>

definition json_get :: "(string \<times> json) list \<Rightarrow> string \<Rightarrow> json" where
  "json_get raw k = dict_get raw k JNull"

fun read_error :: "json \<Rightarrow> string option option" where
  "read_error JNull = Some None"
| "read_error (JStr s) = Some (Some s)"
| "read_error _ = None"

fun read_revision :: "json \<Rightarrow> (json \<times> json) option" where
  "read_revision (JList [a, b]) = Some (a, b)"
| "read_revision _ = None"

definition parse_record :: "json \<Rightarrow> queue_record option" where
  "parse_record j =
     (case j of
        JObject raw \<Rightarrow>
          (case (json_get raw ''entry_id'', json_get raw ''payload'', json_get raw ''queued_at'',
                 json_get raw ''retry_count'', read_error (json_get raw ''last_error'')) of
             (JStr e, JObject p, JStr q, JInt n, Some err) \<Rightarrow>
               Some \<lparr>qr_entry_id = e, qr_payload = p, qr_queued_at = q, qr_retry_count = n,
                     qr_last_error = err, qr_revision = read_revision (json_get raw ''revision'')\<rparr>
           | _ \<Rightarrow> None)
      | _ \<Rightarrow> None)"

definition read_line :: "line \<Rightarrow> queue_record option" where
  "read_line l = (case l of Json j \<Rightarrow> parse_record j | _ \<Rightarrow> None)"

definition read_all :: "line list \<Rightarrow> queue_record list" where
  "read_all ls = List.map_filter read_line ls"

definition write_all :: "queue_record list \<Rightarrow> line list" where
  "write_all rs = map (\<lambda>r. Json (record_json r)) rs"

definition queued_revision :: "queue_record \<Rightarrow> (int \<times> string) option" where
  "queued_revision r =
     (case qr_revision r of
        Some (JInt n, JStr h) \<Rightarrow> Some (n, h)
      | Some (JBool b, JStr h) \<Rightarrow> Some (if b then 1 else 0, h)
      | _ \<Rightarrow> None)"

definition record_key :: "queue_record \<Rightarrow> string \<times> string" where
  "record_key r = (qr_entry_id r, qr_queued_at r)"

section \<open>Enqueue, clear, depth\<close>

definition new_record ::
  "string \<Rightarrow> (string \<times> json) list \<Rightarrow> (int \<times> string) option \<Rightarrow> string \<Rightarrow> queue_record" where
  "new_record e p revision now =
     \<lparr>qr_entry_id = e, qr_payload = p, qr_queued_at = now, qr_retry_count = 0, qr_last_error = None,
      qr_revision = map_option (\<lambda>(s, h). (JInt s, JStr h)) revision\<rparr>"

definition enqueue ::
  "(queue_record \<Rightarrow> nat) \<Rightarrow> string \<Rightarrow> (string \<times> json) list \<Rightarrow> (int \<times> string) option \<Rightarrow> string
     \<Rightarrow> line list \<Rightarrow> line list \<times> bool" where
  "enqueue bytes e p revision now file =
     (let entries = read_all file; r = new_record e p revision now
      in if length entries \<ge> max_queue_depth then (file, False)
         else if sum_list (map bytes entries) + bytes r > max_queue_bytes then (file, False)
         else (write_all (entries @ [r]), True))"

definition clear_queue :: "line list \<Rightarrow> line list" where
  "clear_queue file = write_all []"

definition depth :: "line list \<Rightarrow> nat" where
  "depth file = length (read_all file)"

section \<open>Draining\<close>

text \<open>
  What one call of the publish function did: returned its flag, or raised one of the exceptions
  the drain catches. \<open>publish i p\<close> is what the call for the \<open>i\<close>-th record of the snapshot did;
  \<open>owns\<close> accepts everything when the caller gave none.
\<close>

datatype outcome = Returned bool | Threw string

record drain_state =
  ds_remaining :: "queue_record list"
  ds_drained :: nat
  ds_failed :: nat
  ds_skipped :: nat
  ds_records :: "drained list"

definition bump_failure :: "string \<Rightarrow> queue_record \<Rightarrow> queue_record" where
  "bump_failure err r = r\<lparr>qr_retry_count := qr_retry_count r + 1, qr_last_error := Some err\<rparr>"

definition backoff_seconds :: "int \<Rightarrow> rat" where
  "backoff_seconds n = min (2 ^ nat (n - 1)) 30"

fun drain_loop ::
  "(nat \<Rightarrow> (string \<times> json) list \<Rightarrow> outcome) \<Rightarrow> ((string \<times> json) list \<Rightarrow> bool) \<Rightarrow> nat
     \<Rightarrow> queue_record list \<Rightarrow> drain_state \<Rightarrow> drain_state" where
  "drain_loop publish owns i [] s = s"
| "drain_loop publish owns i (r # rs) s =
     drain_loop publish owns (Suc i) rs
       (if qr_retry_count r \<ge> max_retries then s\<lparr>ds_skipped := ds_skipped s + 1\<rparr>
        else if \<not> owns (qr_payload r) then s\<lparr>ds_remaining := ds_remaining s @ [r]\<rparr>
        else (case publish i (qr_payload r) of
                Threw e \<Rightarrow> s\<lparr>ds_remaining := ds_remaining s @ [bump_failure e r], ds_failed := ds_failed s + 1\<rparr>
              | Returned True \<Rightarrow>
                  s\<lparr>ds_drained := ds_drained s + 1,
                    ds_records := ds_records s @ [(qr_entry_id r, queued_revision r)]\<rparr>
              | Returned False \<Rightarrow>
                  s\<lparr>ds_remaining := ds_remaining s @ [bump_failure ''publish returned False'' r],
                    ds_failed := ds_failed s + 1\<rparr>))"

definition empty_drain :: drain_state where
  "empty_drain = \<lparr>ds_remaining = [], ds_drained = 0, ds_failed = 0, ds_skipped = 0, ds_records = []\<rparr>"

text \<open>
  \<open>_drain_serialized\<close>. \<open>window\<close> is what the other users of the queue do to the file between the
  snapshot and the write-back, while no lock is held.
\<close>

definition drain ::
  "(nat \<Rightarrow> (string \<times> json) list \<Rightarrow> outcome) \<Rightarrow> ((string \<times> json) list \<Rightarrow> bool) \<Rightarrow> (line list \<Rightarrow> line list)
     \<Rightarrow> line list \<Rightarrow> line list \<times> drain_state" where
  "drain publish owns window file =
     (let entries = read_all file
      in if entries = [] then (window file, empty_drain)
         else (let s = drain_loop publish owns 0 entries empty_drain;
                   processed = map record_key entries;
                   arrivals = filter (\<lambda>r. record_key r \<notin> set processed) (read_all (window file))
               in (write_all (ds_remaining s @ arrivals), s)))"

section \<open>What the file keeps\<close>

lemma read_written: "read_line (Json (record_json r)) = Some r"
  by (cases r) (auto simp: read_line_def parse_record_def record_json_def json_get_def dict_get_def
      split: option.splits)

lemma read_write [simp]: "read_all (write_all rs) = rs"
  by (induction rs) (simp_all add: read_all_def write_all_def List.map_filter_simps read_written)

text \<open>
  What one process writes another reads. Every list of records survives the file unchanged and in
  order, the revision of a publish and the text of its last error included; enqueueing appends the new
  record behind every readable one and drops only lines that never were a record; clearing leaves none.
\<close>

theorem queue_file_roundtrip:
  "read_all (write_all rs) = rs \<and> write_all (read_all (write_all rs)) = write_all rs
   \<and> read_all (fst (enqueue bytes e p revision now file))
     = (if snd (enqueue bytes e p revision now file) then read_all file @ [new_record e p revision now]
        else read_all file)
   \<and> queued_revision (new_record e p revision now) = revision
   \<and> depth (clear_queue file) = 0"
  by (cases revision)
    (auto simp: enqueue_def Let_def queued_revision_def new_record_def clear_queue_def depth_def)

lemma read_all_append: "read_all (a @ b) = read_all a @ read_all b"
  by (induction a) (simp_all add: read_all_def List.map_filter_simps split: option.split)

text \<open>What becomes of the \<open>i\<close>-th record: dropped, kept, or sent again later.\<close>

datatype verdict = Evicted | Foreign | Sent | Failed string

definition verdict_of ::
  "(nat \<Rightarrow> (string \<times> json) list \<Rightarrow> outcome) \<Rightarrow> ((string \<times> json) list \<Rightarrow> bool) \<Rightarrow> nat \<times> queue_record \<Rightarrow> verdict" where
  "verdict_of publish owns ir =
     (if qr_retry_count (snd ir) \<ge> max_retries then Evicted
      else if \<not> owns (qr_payload (snd ir)) then Foreign
      else (case publish (fst ir) (qr_payload (snd ir)) of
              Threw e \<Rightarrow> Failed e
            | Returned True \<Rightarrow> Sent
            | Returned False \<Rightarrow> Failed ''publish returned False''))"

definition kept_as :: "verdict \<Rightarrow> queue_record \<Rightarrow> queue_record option" where
  "kept_as v r = (case v of Evicted \<Rightarrow> None | Sent \<Rightarrow> None | Foreign \<Rightarrow> Some r | Failed e \<Rightarrow> Some (bump_failure e r))"

definition drain_spec ::
  "(nat \<Rightarrow> (string \<times> json) list \<Rightarrow> outcome) \<Rightarrow> ((string \<times> json) list \<Rightarrow> bool) \<Rightarrow> nat
     \<Rightarrow> queue_record list \<Rightarrow> drain_state" where
  "drain_spec publish owns i rs =
     (let irs = enumerate i rs; v = verdict_of publish owns
      in \<lparr>ds_remaining = List.map_filter (\<lambda>ir. kept_as (v ir) (snd ir)) irs,
          ds_drained = length (filter (\<lambda>ir. v ir = Sent) irs),
          ds_failed = length (filter (\<lambda>ir. v ir \<notin> {Sent, Foreign, Evicted}) irs),
          ds_skipped = length (filter (\<lambda>ir. v ir = Evicted) irs),
          ds_records = map (\<lambda>ir. (qr_entry_id (snd ir), queued_revision (snd ir))) (filter (\<lambda>ir. v ir = Sent) irs)\<rparr>)"

definition add_drain :: "drain_state \<Rightarrow> drain_state \<Rightarrow> drain_state" where
  "add_drain s t =
     \<lparr>ds_remaining = ds_remaining s @ ds_remaining t, ds_drained = ds_drained s + ds_drained t,
      ds_failed = ds_failed s + ds_failed t, ds_skipped = ds_skipped s + ds_skipped t,
      ds_records = ds_records s @ ds_records t\<rparr>"

lemma add_empty [simp]: "add_drain empty_drain t = t" "add_drain s empty_drain = s"
  by (simp_all add: add_drain_def empty_drain_def)

lemma add_assoc: "add_drain (add_drain s t) u = add_drain s (add_drain t u)"
  by (simp add: add_drain_def)

definition one_step :: "verdict \<Rightarrow> queue_record \<Rightarrow> drain_state" where
  "one_step v r =
     \<lparr>ds_remaining = (case kept_as v r of None \<Rightarrow> [] | Some k \<Rightarrow> [k]), ds_drained = (if v = Sent then 1 else 0),
      ds_failed = (if v \<in> {Sent, Foreign, Evicted} then 0 else 1), ds_skipped = (if v = Evicted then 1 else 0),
      ds_records = (if v = Sent then [(qr_entry_id r, queued_revision r)] else [])\<rparr>"

lemma drain_spec_Cons:
  "drain_spec publish owns i (r # rs)
    = add_drain (one_step (verdict_of publish owns (i, r)) r) (drain_spec publish owns (Suc i) rs)"
  by (simp add: drain_spec_def one_step_def add_drain_def List.map_filter_simps Let_def split: option.split)

lemma drain_loop_spec: "drain_loop publish owns i rs s = add_drain s (drain_spec publish owns i rs)"
proof (induction rs arbitrary: i s)
  case Nil
  show ?case by (simp add: drain_spec_def add_drain_def List.map_filter_simps Let_def)
next
  case (Cons r rs)
  have "drain_loop publish owns i (r # rs) s
      = drain_loop publish owns (Suc i) rs (add_drain s (one_step (verdict_of publish owns (i, r)) r))"
    by (cases s) (simp add: verdict_of_def one_step_def kept_as_def add_drain_def split: outcome.split bool.split)
  then show ?case by (simp add: Cons.IH add_assoc drain_spec_Cons)
qed

text \<open>
  C14: a drain accounts for every record, and loses no arrival. It leaves the file with exactly the
  snapshot's records that were neither published nor evicted, in order, failures counted on
  them, followed by whatever others added meanwhile under a key of its own; what it reports
  as published is what the publish function accepted; and the counters add up.
\<close>

theorem drain_accounts_for_all:
  assumes "drain publish owns window file = (file', s)" and "read_all file \<noteq> []"
  shows "read_all file' = List.map_filter (\<lambda>ir. kept_as (verdict_of publish owns ir) (snd ir))
            (enumerate 0 (read_all file))
          @ filter (\<lambda>r. record_key r \<notin> record_key ` set (read_all file)) (read_all (window file))
    \<and> ds_records s = map (\<lambda>ir. (qr_entry_id (snd ir), queued_revision (snd ir)))
          (filter (\<lambda>ir. verdict_of publish owns ir = Sent) (enumerate 0 (read_all file)))
    \<and> ds_drained s + ds_failed s + ds_skipped s
        + length (filter (\<lambda>ir. verdict_of publish owns ir = Foreign) (enumerate 0 (read_all file)))
      = length (read_all file)"
proof -
  have s: "s = drain_spec publish owns 0 (read_all file)"
    and file': "read_all file' = ds_remaining s @ filter (\<lambda>r. record_key r \<notin> record_key ` set (read_all file)) (read_all (window file))"
    using assms by (auto simp: drain_def Let_def drain_loop_spec)
  have count: "length (filter (\<lambda>x. v x = Sent) xs) + length (filter (\<lambda>x. v x \<notin> {Sent, Foreign, Evicted}) xs)
      + length (filter (\<lambda>x. v x = Evicted) xs) + length (filter (\<lambda>x. v x = Foreign) xs) = length xs"
    for v :: "nat \<times> queue_record \<Rightarrow> verdict" and xs
    by (induction xs) auto
  show ?thesis
    using count [of "verdict_of publish owns" "enumerate 0 (read_all file)"] file'
    by (simp add: s drain_spec_def Let_def)
qed

definition sample_record :: "string \<Rightarrow> int \<Rightarrow> queue_record" where
  "sample_record i n = (new_record i [] (Some (3, ''h'')) ''t1'')\<lparr>qr_retry_count := n\<rparr>"

theorem drain_accounts_for_all_witness:
  "read_all (fst (drain (\<lambda>_ _. Returned False) (\<lambda>_. True) (\<lambda>f. f)
      (write_all [sample_record ''M-1'' 5, sample_record ''M-2'' 1]))) = [bump_failure ''publish returned False'' (sample_record ''M-2'' 1)]"
proof -
  let ?f = "write_all [sample_record ''M-1'' 5, sample_record ''M-2'' 1]"
  obtain f' s where d: "drain (\<lambda>_ _. Returned False) (\<lambda>_. True) (\<lambda>f. f) ?f = (f', s)" by fastforce
  have "read_all ?f \<noteq> []" by simp
  from drain_accounts_for_all [OF d this] d show ?thesis
    by (simp add: List.map_filter_simps verdict_of_def kept_as_def sample_record_def new_record_def max_retries_def
        record_key_def)
qed

text \<open>What one drain does to a record that is its own: gone, or one retry closer to eviction.\<close>

lemma kept_retry:
  "kept_as (verdict_of publish owns ir) (snd ir) = Some k \<Longrightarrow> owns (qr_payload (snd ir)) \<Longrightarrow>
    qr_retry_count k = qr_retry_count (snd ir) + 1 \<and> qr_retry_count (snd ir) < max_retries
    \<and> qr_payload k = qr_payload (snd ir)"
  by (auto simp: kept_as_def verdict_of_def bump_failure_def split: if_splits outcome.splits bool.splits)

fun drains :: "(nat \<Rightarrow> nat \<Rightarrow> (string \<times> json) list \<Rightarrow> outcome) \<Rightarrow> nat \<Rightarrow> line list \<Rightarrow> line list" where
  "drains publish 0 file = file"
| "drains publish (Suc n) file = fst (drain (publish n) (\<lambda>_. True) (\<lambda>f. f) (drains publish n file))"

lemma drain_retry_step:
  assumes "k \<in> set (read_all (fst (drain publish (\<lambda>_. True) (\<lambda>f. f) file)))"
  shows "\<exists>r \<in> set (read_all file). qr_retry_count k = qr_retry_count r + 1 \<and> qr_retry_count r < max_retries"
proof -
  have ne: "read_all file \<noteq> []" using assms by (auto simp: drain_def)
  obtain f' s where d: "drain publish (\<lambda>_. True) (\<lambda>f. f) file = (f', s)" by fastforce
  have "read_all f' = List.map_filter (\<lambda>ir. kept_as (verdict_of publish (\<lambda>_. True) ir) (snd ir)) (enumerate 0 (read_all file))"
    using d ne by (auto simp: drain_def Let_def drain_loop_spec drain_spec_def)
  then obtain ir where ir: "ir \<in> set (enumerate 0 (read_all file))"
    "kept_as (verdict_of publish (\<lambda>_. True) ir) (snd ir) = Some k"
    using assms d by (auto simp: List.map_filter_def)
  from ir(1) have "snd ir \<in> set (read_all file)"
    by (simp add: in_set_enumerate_eq) (metis nth_mem)
  then show ?thesis using kept_retry [OF ir(2) TrueI] by blast
qed

text \<open>
  No publish is retried forever. A record whose publish keeps failing is sent at most
  \<open>MAX_RETRIES\<close> times: after six drains of a queue nobody adds to, nothing that was in it is left,
  whatever the publish function did each time.
\<close>

theorem retries_are_bounded:
  assumes "\<forall>r \<in> set (read_all file). 0 \<le> qr_retry_count r"
  shows "read_all (drains publish 6 file) = []
    \<and> (\<forall>n. \<forall>r \<in> set (read_all (drains publish n file)). n = 0 \<or> qr_retry_count r \<le> max_retries)"
proof -
  have age: "\<forall>r \<in> set (read_all (drains publish n file)). int n \<le> qr_retry_count r" for n
  proof (induction n)
    case 0
    show ?case using assms by simp
  next
    case (Suc n)
    show ?case using drain_retry_step [of _ "publish n" "drains publish n file"] Suc by fastforce
  qed
  have cap: "n = 0 \<or> qr_retry_count r \<le> max_retries" if "r \<in> set (read_all (drains publish n file))" for n r
    using that by (cases n) (auto dest: drain_retry_step)
  have "\<not> r \<in> set (read_all (drains publish 6 file))" for r
    using age [of 6] cap [of r 6] by (fastforce simp: max_retries_def)
  then have "read_all (drains publish 6 file) = []" by (metis last_in_set)
  with cap show ?thesis by blast
qed

theorem retries_are_bounded_witness:
  "read_all (drains (\<lambda>_ _ _. Threw ''offline'') 6 (write_all [sample_record ''M-1'' 0])) = []"
proof -
  have "\<forall>r \<in> set (read_all (write_all [sample_record ''M-1'' 0])). 0 \<le> qr_retry_count r"
    by (simp add: sample_record_def)
  from retries_are_bounded [OF this] show ?thesis by blast
qed

section \<open>The caps, and a clear in the window\<close>

type_synonym enqueue_args = "string \<times> (string \<times> json) list \<times> (int \<times> string) option \<times> string"

fun enqueues :: "(queue_record \<Rightarrow> nat) \<Rightarrow> enqueue_args list \<Rightarrow> line list \<Rightarrow> line list" where
  "enqueues bytes [] file = file"
| "enqueues bytes ((e, p, v, now) # rest) file = enqueues bytes rest (fst (enqueue bytes e p v now file))"

lemma enqueue_read:
  "\<exists>new. read_all (fst (enqueue bytes e p v now file)) = read_all file @ new
    \<and> (depth file \<le> max_queue_depth \<longrightarrow> depth (fst (enqueue bytes e p v now file)) \<le> max_queue_depth)"
  by (auto simp: enqueue_def Let_def depth_def)

lemma enqueues_read:
  "\<exists>new. read_all (enqueues bytes args file) = read_all file @ new
    \<and> (depth file \<le> max_queue_depth \<longrightarrow> depth (enqueues bytes args file) \<le> max_queue_depth)"
proof (induction args arbitrary: "file")
  case (Cons a args)
  obtain e p v now where a: "a = (e, p, v, now)" by (cases a)
  from enqueue_read [of bytes e p v now "file"] Cons.IH [of "fst (enqueue bytes e p v now file)"] show ?case
    unfolding a enqueues.simps by (metis append_assoc)
qed simp

lemma length_remaining: "length (ds_remaining (drain_spec publish owns i rs)) \<le> length rs"
proof (induction rs arbitrary: i)
  case (Cons r rs)
  from Cons [of "Suc i"] show ?case
    by (simp add: drain_spec_Cons add_drain_def one_step_def split: option.split)
qed (simp add: drain_spec_def List.map_filter_simps)

text \<open>
  C24: the queue stays within its caps. An enqueue that answers yes leaves at most \<open>MAX_QUEUE_DEPTH\<close>
  records of at most \<open>MAX_QUEUE_BYTES\<close> bytes, one that answers no changes nothing, and neither a
  drain with enqueues going on beside it nor a clear exceeds the depth.
\<close>

theorem queue_is_bounded:
  assumes "depth file \<le> max_queue_depth"
  shows "(case enqueue bytes e p v now file of
        (file', True) \<Rightarrow> depth file' \<le> max_queue_depth \<and> sum_list (map bytes (read_all file')) \<le> max_queue_bytes
          \<and> read_all file' = read_all file @ [new_record e p v now]
      | (file', False) \<Rightarrow> file' = file)
    \<and> depth (fst (drain publish owns (enqueues bytes args) file)) \<le> max_queue_depth
    \<and> depth (clear_queue file) = 0"
proof (intro conjI)
  show "case enqueue bytes e p v now file of
        (file', True) \<Rightarrow> depth file' \<le> max_queue_depth \<and> sum_list (map bytes (read_all file')) \<le> max_queue_bytes
          \<and> read_all file' = read_all file @ [new_record e p v now]
      | (file', False) \<Rightarrow> file' = file"
    by (auto simp: enqueue_def Let_def depth_def)
  from enqueues_read [of bytes args "file"] obtain new
    where new: "read_all (enqueues bytes args file) = read_all file @ new"
      and cap: "length (read_all file @ new) \<le> max_queue_depth"
    using assms by (auto simp: depth_def)
  have "length (filter (\<lambda>r. record_key r \<notin> record_key ` set (read_all file)) new) \<le> length new"
    by (rule length_filter_le)
  moreover have "length (ds_remaining (drain_spec publish owns 0 (read_all file))) \<le> length (read_all file)"
    by (rule length_remaining)
  ultimately have "length (ds_remaining (drain_spec publish owns 0 (read_all file)))
      + length (filter (\<lambda>r. record_key r \<notin> record_key ` set (read_all file)) new) \<le> max_queue_depth"
    using cap by (simp only: length_append)
  moreover have "length new \<le> max_queue_depth" using cap by simp
  ultimately show "depth (fst (drain publish owns (enqueues bytes args) file)) \<le> max_queue_depth"
    using new by (simp add: drain_def Let_def depth_def drain_loop_spec)
  show "depth (clear_queue file) = 0" by (simp add: depth_def clear_queue_def)
qed

theorem queue_is_bounded_witness:
  "depth (fst (drain (\<lambda>_ _. Returned True) (\<lambda>_. True) (enqueues (\<lambda>_. 9) [(''M-3'', [], None, ''t3'')])
      (write_all [sample_record ''M-1'' 0]))) \<le> max_queue_depth"
proof -
  have "depth (write_all [sample_record ''M-1'' 0]) \<le> max_queue_depth"
    by (simp add: depth_def max_queue_depth_def)
  from queue_is_bounded [OF this, of "\<lambda>_. 9" _ _ _ _ "\<lambda>_ _. Returned True"] show ?thesis by blast
qed

text \<open>
  A clear that falls into a drain's window does not clear. The drain writes the records it
  could not publish back over the emptied file.
\<close>

theorem clear_during_drain_is_undone:
  "read_all (fst (drain (\<lambda>_ _. Returned False) (\<lambda>_. True) clear_queue (write_all [sample_record ''M-1'' 0])))
     = [bump_failure ''publish returned False'' (sample_record ''M-1'' 0)]"
  by (simp add: drain_def Let_def clear_queue_def sample_record_def new_record_def max_retries_def empty_drain_def)

end
