(* ===== verification/Validity.thy ===== *)
theory Validity
  imports Entry "HOL-Library.Product_Lexorder"
begin

text \<open>
  Validity windows at recall: \<^verbatim>\<open>retrieval/validity_prior.py\<close>,
  \<^verbatim>\<open>retrieval/temporal_selection.py\<close> and the remote window check of
  \<^verbatim>\<open>retrieval/recall_selection.py\<close>. Instants are microseconds in UTC, a naive datetime being
  read as UTC. \<open>iso\<close> is \<open>datetime.fromisoformat\<close> and \<open>iso_date\<close> \<open>date.fromisoformat\<close> (in days),
  \<open>None\<close> where they raise ValueError.
\<close>

section \<open>Expiry\<close>

record clock_text =
  iso :: "string \<Rightarrow> int option"
  iso_date :: "string \<Rightarrow> int option"

definition day_micros :: int where "day_micros = 86400 * 1000000"

definition day_of :: "int \<Rightarrow> int" where
  "day_of t = t div day_micros"

text \<open>\<open>raw.replace("Z", "+00:00")\<close>\<close>

definition replace_z :: "string \<Rightarrow> string" where
  "replace_z s = concat (map (\<lambda>c. if c = CHR ''Z'' then ''+00:00'' else [c]) s)"

definition parse_expires_date :: "clock_text \<Rightarrow> string \<Rightarrow> int option" where
  "parse_expires_date ct raw =
     (if raw = [] then None
      else (case iso ct (replace_z raw) of Some t \<Rightarrow> Some (day_of t) | None \<Rightarrow> iso_date ct raw))"

definition parse_expires_instant :: "clock_text \<Rightarrow> string \<Rightarrow> int option" where
  "parse_expires_instant ct raw =
     (if raw = [] then None
      else (case iso ct (replace_z raw) of
              None \<Rightarrow> None
            | Some t \<Rightarrow> if length (str_strip raw) \<le> 10 then None else Some t))"

definition expiry_has_passed :: "clock_text \<Rightarrow> string \<Rightarrow> int \<Rightarrow> bool" where
  "expiry_has_passed ct raw now =
     (case parse_expires_instant ct raw of
        Some t \<Rightarrow> t < now
      | None \<Rightarrow> (case parse_expires_date ct raw of None \<Rightarrow> False | Some d \<Rightarrow> day_of now > d))"

section \<open>The window test\<close>

record validity_window =
  w_from :: int
  w_until :: "int option"
  w_expires :: string

definition window_of :: "memory_entry \<Rightarrow> validity_window" where
  "window_of e = \<lparr>w_from = valid_from e, w_until = invalid_from e, w_expires = expires e\<rparr>"

definition is_open_at :: "clock_text \<Rightarrow> validity_window \<Rightarrow> int option \<Rightarrow> int \<Rightarrow> bool" where
  "is_open_at ct w as_of now =
     (if expiry_has_passed ct (w_expires w) (case as_of of Some t \<Rightarrow> t | None \<Rightarrow> now) then False
      else (case as_of of
              None \<Rightarrow> w_until w = None
            | Some t \<Rightarrow> if w_from w > t then False
                      else (case w_until w of None \<Rightarrow> True | Some u \<Rightarrow> t < u)))"

section \<open>The prior over a fused list\<close>

definition close_to :: "rat \<Rightarrow> rat \<Rightarrow> bool" where
  "close_to a b \<longleftrightarrow> \<bar>a - b\<bar> \<le> 1 / 10 ^ 12"

definition flush_bucket :: "memory_entry list \<Rightarrow> memory_entry list" where
  "flush_bucket bucket = sort_key (\<lambda>e. - valid_from e) bucket"

fun age_decay_loop ::
  "(string, rat) dict \<Rightarrow> memory_entry list \<Rightarrow> rat option \<Rightarrow> memory_entry list \<Rightarrow> memory_entry list" where
  "age_decay_loop scores bucket bscore [] = flush_bucket bucket"
| "age_decay_loop scores bucket bscore (e # es) =
     (case map_of scores (eid e) of
        None \<Rightarrow> flush_bucket bucket @ [e] @ age_decay_loop scores [] None es
      | Some s \<Rightarrow>
          (case bscore of
             None \<Rightarrow> age_decay_loop scores (bucket @ [e]) (Some s) es
           | Some b \<Rightarrow> if close_to s b then age_decay_loop scores (bucket @ [e]) (Some b) es
                     else flush_bucket bucket @ age_decay_loop scores [e] (Some s) es))"

definition apply_age_decay :: "(string, rat) dict \<Rightarrow> memory_entry list \<Rightarrow> memory_entry list" where
  "apply_age_decay scores es = (if scores = [] then es else age_decay_loop scores [] None es)"

definition in_window :: "clock_text \<Rightarrow> int option \<Rightarrow> int \<Rightarrow> int option \<Rightarrow> memory_entry \<Rightarrow> bool" where
  "in_window ct as_of now from_min e =
     (is_open_at ct (window_of e) as_of now \<and> (case from_min of None \<Rightarrow> True | Some m \<Rightarrow> \<not> valid_from e < m))"

definition apply_validity_prior ::
  "clock_text \<Rightarrow> int option \<Rightarrow> int \<Rightarrow> int option \<Rightarrow> bool \<Rightarrow> bool \<Rightarrow> (string, rat) dict
     \<Rightarrow> memory_entry list \<Rightarrow> memory_entry list" where
  "apply_validity_prior ct as_of now from_min superseded decay scores es =
     (let eligible = filter (in_window ct as_of now from_min) es;
          ineligible = filter (\<lambda>e. \<not> in_window ct as_of now from_min e) es;
          ranked = (if decay then apply_age_decay scores eligible else eligible)
      in if superseded then ranked @ ineligible else ranked)"

section \<open>Bounded selection\<close>

record temporal =
  t_as_of :: "int option"
  t_superseded :: bool
  t_no_canaries :: bool
  t_now :: int

definition eligible :: "clock_text \<Rightarrow> temporal \<Rightarrow> memory_entry \<Rightarrow> bool" where
  "eligible ct t e = is_open_at ct (window_of e) (t_as_of t) (t_now t)"

definition is_canary :: "temporal \<Rightarrow> memory_entry \<Rightarrow> bool" where
  "is_canary t e \<longleftrightarrow> t_no_canaries t \<and> map_of (metadata e) ''system_canary'' = Some ''true''"

datatype selection_error = LimitNotPositive

fun select_loop ::
  "clock_text \<Rightarrow> temporal \<Rightarrow> nat \<Rightarrow> memory_entry list \<Rightarrow> memory_entry list \<Rightarrow> memory_entry list
     \<Rightarrow> memory_entry list \<times> memory_entry list" where
  "select_loop ct t limit elig deferred [] = (elig, deferred)"
| "select_loop ct t limit elig deferred (e # es) =
     (if is_canary t e then select_loop ct t limit elig deferred es
      else if eligible ct t e then
        (if length (elig @ [e]) = limit then (elig @ [e], deferred)
         else select_loop ct t limit (elig @ [e]) deferred es)
      else if t_superseded t \<and> length deferred < limit then select_loop ct t limit elig (deferred @ [e]) es
      else select_loop ct t limit elig deferred es)"

definition select_entries ::
  "clock_text \<Rightarrow> temporal \<Rightarrow> int \<Rightarrow> memory_entry list \<Rightarrow> (selection_error, memory_entry list) result" where
  "select_entries ct t limit es =
     (if limit \<le> 0 then Inl LimitNotPositive
      else (let (elig, deferred) = select_loop ct t (nat limit) [] [] es
            in Inr (elig @ take (nat limit - length elig) deferred)))"

text \<open>
  \<open>heapq.nlargest(n, xs, key)\<close> is \<open>sorted(xs, key=key, reverse=True)[:n]\<close>: stable, largest first.
\<close>

definition nlargest :: "nat \<Rightarrow> ('a \<Rightarrow> 'k::linorder) \<Rightarrow> 'a list \<Rightarrow> 'a list" where
  "nlargest n key xs = take n (rev (sort_key key (rev xs)))"

definition select_ranked ::
  "clock_text \<Rightarrow> temporal \<Rightarrow> int \<Rightarrow> (memory_entry \<Rightarrow> 'k::linorder) \<Rightarrow> memory_entry list
     \<Rightarrow> (selection_error, memory_entry list) result" where
  "select_ranked ct t limit rank_key es =
     (if limit \<le> 0 then Inl LimitNotPositive
      else Inr (nlargest (nat limit) (\<lambda>e. (eligible ct t e, rank_key e))
             (filter (\<lambda>e. \<not> is_canary t e \<and> (eligible ct t e \<or> t_superseded t)) es)))"

section \<open>Remote evidence\<close>

text \<open>
  A remote result's window fields: absent, null, or a value of which only a readable instant
  counts. \<open>temporal_eligibility\<close> answers \<open>None\<close> for missing evidence.
\<close>

datatype remote_field = Absent | Null | Unreadable | Instant int

fun instant_of :: "remote_field \<Rightarrow> int option" where
  "instant_of (Instant t) = Some t"
| "instant_of _ = None"

definition temporal_eligibility ::
  "clock_text \<Rightarrow> temporal \<Rightarrow> string \<Rightarrow> remote_field \<Rightarrow> remote_field \<Rightarrow> bool option" where
  "temporal_eligibility ct t expiry valid_from_field invalid_from_field =
     (let vf = instant_of valid_from_field; inv = instant_of invalid_from_field; as_of = t_as_of t
      in if expiry_has_passed ct expiry (case as_of of Some x \<Rightarrow> x | None \<Rightarrow> t_now t) then Some False
         else if (case inv of None \<Rightarrow> False | Some u \<Rightarrow> (case as_of of None \<Rightarrow> True | Some x \<Rightarrow> x \<ge> u)) then Some False
         else if (case (vf, as_of) of (Some f, Some x) \<Rightarrow> x < f | _ \<Rightarrow> False) then Some False
         else (case vf of
                 None \<Rightarrow> None
               | Some f \<Rightarrow> if invalid_from_field \<noteq> Absent \<and> (invalid_from_field = Null \<or> inv \<noteq> None)
                         then Some (is_open_at ct \<lparr>w_from = f, w_until = inv, w_expires = expiry\<rparr> as_of (t_now t))
                         else None))"

section \<open>Selection\<close>

definition shown :: "clock_text \<Rightarrow> temporal \<Rightarrow> memory_entry list \<Rightarrow> memory_entry list" where
  "shown ct t es =
     (let cands = filter (\<lambda>e. \<not> is_canary t e) es
      in filter (eligible ct t) cands @ (if t_superseded t then filter (\<lambda>e. \<not> eligible ct t e) cands else []))"

lemma select_loop_spec:
  "length elig < limit \<Longrightarrow> length deferred \<le> limit \<Longrightarrow> select_loop ct t limit elig deferred es = (elig', deferred') \<Longrightarrow>
    elig' = take limit (elig @ filter (\<lambda>e. \<not> is_canary t e \<and> eligible ct t e) es)
    \<and> (length elig' < limit \<longrightarrow> deferred' = (if t_superseded t
         then take limit (deferred @ filter (\<lambda>e. \<not> is_canary t e \<and> \<not> eligible ct t e) es) else deferred))"
proof (induction es arbitrary: elig deferred)
  case (Cons e es)
  show ?case
  proof (cases "is_canary t e")
    case True
    from Cons.IH [OF Cons.prems(1,2)] Cons.prems(3) True show ?thesis by simp
  next
    case nc: False
    show ?thesis
    proof (cases "eligible ct t e")
      case True
      show ?thesis
      proof (cases "length (elig @ [e]) = limit")
        case full: True
        with Cons.prems nc True show ?thesis by auto
      next
        case False
        then have "length (elig @ [e]) < limit" using Cons.prems(1) by simp
        from Cons.IH [OF this Cons.prems(2)] Cons.prems(3) nc True False show ?thesis by simp
      qed
    next
      case ne: False
      show ?thesis
      proof (cases "t_superseded t \<and> length deferred < limit")
        case True
        then have "length (deferred @ [e]) \<le> limit" by simp
        from Cons.IH [OF Cons.prems(1) this] Cons.prems(3) nc ne True show ?thesis by simp
      next
        case False
        then have "t_superseded t \<longrightarrow> length deferred = limit" using Cons.prems(2) by auto
        with Cons.IH [OF Cons.prems(1,2)] Cons.prems(3) nc ne False show ?thesis by auto
      qed
    qed
  qed
qed simp

lemma select_entries_shown:
  assumes "0 < limit"
  shows "select_entries ct t limit es = Inr (take (nat limit) (shown ct t es))"
proof -
  obtain elig deferred where loop: "select_loop ct t (nat limit) [] [] es = (elig, deferred)" by fastforce
  let ?E = "filter (\<lambda>e. \<not> is_canary t e \<and> eligible ct t e) es"
  let ?D = "filter (\<lambda>e. \<not> is_canary t e \<and> \<not> eligible ct t e) es"
  from select_loop_spec [OF _ _ loop] assms have e: "elig = take (nat limit) ?E"
    and d: "length elig < nat limit \<Longrightarrow> deferred = (if t_superseded t then take (nat limit) ?D else [])" by auto
  have sh: "shown ct t es = ?E @ (if t_superseded t then ?D else [])"
    by (simp add: shown_def Let_def conj_commute)
  show ?thesis
  proof (cases "length ?E < nat limit")
    case True
    with e d assms loop sh show ?thesis by (simp add: select_entries_def min_def)
  next
    case False
    with e assms loop sh show ?thesis by (simp add: select_entries_def min_def)
  qed
qed


definition plain_clock :: clock_text where
  "plain_clock = \<lparr>iso = (\<lambda>_. None), iso_date = (\<lambda>_. None)\<rparr>"

definition note_at :: "string \<Rightarrow> int \<Rightarrow> int option \<Rightarrow> memory_entry" where
  "note_at i from until = (new_entry i ''fact'' from)\<lparr>invalid_from := until\<rparr>"

lemma note_at_simps [simp]:
  "valid_from (note_at i f u) = f" "invalid_from (note_at i f u) = u" "expires (note_at i f u) = []"
  "metadata (note_at i f u) = []" "eid (note_at i f u) = i"
  by (simp_all add: note_at_def new_entry_def)

lemma no_expiry [simp]: "expiry_has_passed ct [] now = False"
  by (simp add: expiry_has_passed_def parse_expires_instant_def parse_expires_date_def)


lemma ranked_spec:
  "select_ranked ct t limit rank_key es = Inr r \<Longrightarrow>
    length r \<le> nat limit \<and> set r \<subseteq> {e \<in> set es. \<not> is_canary t e \<and> (eligible ct t e \<or> t_superseded t)}"
  by (auto simp: select_ranked_def nlargest_def split: if_splits dest: in_set_takeD)

section \<open>The prior preserves the fused order\<close>

text \<open>
  A run the age preference may reorder: rows whose fused scores tie with one score, or a single
  row.
\<close>

definition tie_run :: "(string, rat) dict \<Rightarrow> memory_entry list \<Rightarrow> bool" where
  "tie_run scores run \<longleftrightarrow>
     length run \<le> 1 \<or> (\<exists>b. \<forall>e \<in> set run. \<exists>s. map_of scores (eid e) = Some s \<and> close_to s b)"

lemma close_refl [simp]: "close_to s s"
  by (simp add: close_to_def)

lemma flush_short [simp]: "length run \<le> 1 \<Longrightarrow> flush_bucket run = run"
  by (cases run) (auto simp: flush_bucket_def)

lemma age_loop_runs:
  "(bscore = None \<longrightarrow> bucket = []) \<Longrightarrow>
   (\<forall>b. bscore = Some b \<longrightarrow> (\<forall>e \<in> set bucket. \<exists>s. map_of scores (eid e) = Some s \<and> close_to s b)) \<Longrightarrow>
    \<exists>runs. concat runs = bucket @ es \<and> (\<forall>run \<in> set runs. tie_run scores run)
      \<and> age_decay_loop scores bucket bscore es = concat (map flush_bucket runs)"
proof (induction scores bucket bscore es rule: age_decay_loop.induct)
  case (1 scores bucket bscore)
  have "tie_run scores bucket" using 1 by (cases bscore) (auto simp: tie_run_def)
  then show ?case by (intro exI [of _ "[bucket]"]) simp
next
  case (2 scores bucket bscore e es)
  have tied: "tie_run scores bucket" using "2.prems" by (cases bscore) (auto simp: tie_run_def)
  show ?case
  proof (cases "map_of scores (eid e)")
    case None
    with 2 obtain runs where "concat runs = es" "\<forall>run \<in> set runs. tie_run scores run"
      "age_decay_loop scores [] None es = concat (map flush_bucket runs)" by force
    with None tied show ?thesis
      by (intro exI [of _ "bucket # [e] # runs"]) (simp add: tie_run_def)
  next
    case (Some s)
    show ?thesis
    proof (cases bscore)
      case None
      with 2 Some obtain runs where "concat runs = (bucket @ [e]) @ es" "\<forall>run \<in> set runs. tie_run scores run"
        "age_decay_loop scores (bucket @ [e]) (Some s) es = concat (map flush_bucket runs)" by force
      with None Some show ?thesis by (intro exI [of _ runs]) simp
    next
      case b: (Some b)
      show ?thesis
      proof (cases "close_to s b")
        case True
        with 2 Some b obtain runs where "concat runs = (bucket @ [e]) @ es" "\<forall>run \<in> set runs. tie_run scores run"
          "age_decay_loop scores (bucket @ [e]) (Some b) es = concat (map flush_bucket runs)" by force
        with True Some b show ?thesis by (intro exI [of _ runs]) simp
      next
        case False
        with 2 Some b obtain runs where "concat runs = [e] @ es" "\<forall>run \<in> set runs. tie_run scores run"
          "age_decay_loop scores [e] (Some s) es = concat (map flush_bucket runs)" by force
        with False Some b tied show ?thesis by (intro exI [of _ "bucket # runs"]) simp
      qed
    qed
  qed
qed

text \<open>
  The validity prior never lets a closed record outrank an open one, and disturbs the fused
  order only inside true ties. The result is the open rows, cut into consecutive runs of tied
  score and each run sorted newest first, followed (when superseded rows are asked for) by the
  closed rows in fused order.
\<close>

theorem prior_keeps_fused_order:
  "\<exists>runs. concat runs = filter (in_window ct as_of now from_min) es
     \<and> (\<forall>run \<in> set runs. tie_run scores run)
     \<and> apply_validity_prior ct as_of now from_min superseded decay scores es
       = concat (map flush_bucket runs)
         @ (if superseded then filter (\<lambda>e. \<not> in_window ct as_of now from_min e) es else [])"
proof -
  let ?open = "filter (in_window ct as_of now from_min) es"
  have "\<exists>runs. concat runs = ?open \<and> (\<forall>run \<in> set runs. tie_run scores run)
      \<and> (if decay then apply_age_decay scores ?open else ?open) = concat (map flush_bucket runs)"
  proof (cases "decay \<and> scores \<noteq> []")
    case True
    from age_loop_runs [of None "[]" scores ?open] True show ?thesis by (simp add: apply_age_decay_def)
  next
    case False
    have flush: "concat (map (flush_bucket \<circ> (\<lambda>e. [e])) xs) = xs" for xs
      by (induction xs) simp_all
    have "concat (map (\<lambda>e. [e]) xs) = xs" for xs :: "memory_entry list" by (induction xs) simp_all
    with False flush show ?thesis
      by (intro exI [of _ "map (\<lambda>e. [e]) ?open"]) (auto simp: tie_run_def apply_age_decay_def)
  qed
  then show ?thesis by (auto simp: apply_validity_prior_def Let_def)
qed

theorem prior_keeps_fused_order_witness:
  "\<exists>runs. concat runs = [note_at ''M-2'' 5 None, note_at ''M-3'' 6 None]
     \<and> (\<forall>run \<in> set runs. tie_run [(''M-2'', 1), (''M-3'', 1)] run)
     \<and> apply_validity_prior plain_clock None 9 None True True [(''M-2'', 1), (''M-3'', 1)]
         [note_at ''M-1'' 1 (Some 5), note_at ''M-2'' 5 None, note_at ''M-3'' 6 None]
       = concat (map flush_bucket runs) @ [note_at ''M-1'' 1 (Some 5)]"
  using prior_keeps_fused_order [where ct = plain_clock and as_of = None and now = 9 and from_min = None
      and superseded = True and decay = True and scores = "[(''M-2'', 1), (''M-3'', 1)]"
      and es = "[note_at ''M-1'' 1 (Some 5), note_at ''M-2'' 5 None, note_at ''M-3'' 6 None]"]
  by (simp add: in_window_def is_open_at_def window_of_def)

section \<open>Windows and expiry\<close>

lemma day_mono: "t \<le> t' \<Longrightarrow> day_of t \<le> day_of t'"
  by (simp add: day_of_def day_micros_def zdiv_mono1)

lemma expiry_mono: "expiry_has_passed ct raw t \<Longrightarrow> t \<le> t' \<Longrightarrow> expiry_has_passed ct raw t'"
  by (auto simp: expiry_has_passed_def split: option.splits dest: day_mono)

text \<open>
  expiry is one rule for both shapes of the field, and permanent. A value with a time expires
  right after that instant, a bare date with the end of its UTC day, a value nobody can read
  never; what has expired stays expired, whatever its window says.
\<close>

theorem expiry_is_permanent:
  assumes "expiry_has_passed ct raw t" and "t \<le> t'"
  shows "expiry_has_passed ct raw t'
    \<and> \<not> is_open_at ct \<lparr>w_from = f, w_until = u, w_expires = raw\<rparr> (Some t') now
    \<and> (case iso ct (replace_z raw) of
         Some x \<Rightarrow> if length (str_strip raw) \<le> 10 then day_of x < day_of t else x < t
       | None \<Rightarrow> (case iso_date ct raw of Some d \<Rightarrow> d < day_of t | None \<Rightarrow> False))"
proof -
  have "raw \<noteq> []" using assms(1) by auto
  then show ?thesis using assms expiry_mono [OF assms]
    by (auto simp: is_open_at_def expiry_has_passed_def parse_expires_instant_def parse_expires_date_def
        split: option.splits if_splits)
qed

theorem expiry_is_permanent_witness:
  "let ct = \<lparr>iso = (\<lambda>s. if s = ''2026-07-01'' then Some (20635 * day_micros) else None), iso_date = (\<lambda>_. None)\<rparr>
   in expiry_has_passed ct ''2026-07-01'' (20637 * day_micros)"
proof -
  let ?ct = "\<lparr>iso = (\<lambda>s. if s = ''2026-07-01'' then Some (20635 * day_micros) else None), iso_date = (\<lambda>_. None)\<rparr>"
  have "expiry_has_passed ?ct ''2026-07-01'' (20636 * day_micros)"
    by (simp add: expiry_has_passed_def parse_expires_instant_def parse_expires_date_def replace_z_def str_strip_def
        is_space_def day_of_def day_micros_def)
  from expiry_is_permanent [OF this, of "20637 * day_micros"] show ?thesis by (simp add: Let_def day_micros_def)
qed

text \<open>
  supersession is seamless. When the replacement's window opens as the replaced record's
  closes and neither expires, then at every instant from the first record's start until the
  replacement itself closes, exactly one of the two is open, and the default view shows only
  the replacement.
\<close>

theorem supersession_is_seamless:
  assumes "invalid_from old = Some c" "valid_from new = c" "invalid_from new = None"
    and "expires old = []" "expires new = []" "valid_from old \<le> t"
  shows "is_open_at ct (window_of old) (Some t) now = (\<not> is_open_at ct (window_of new) (Some t) now)
    \<and> \<not> is_open_at ct (window_of old) None now \<and> is_open_at ct (window_of new) None now"
  using assms by (auto simp: is_open_at_def window_of_def)

theorem supersession_is_seamless_witness:
  "is_open_at plain_clock (window_of (note_at ''M-1'' 1 (Some 5))) (Some 3) 9
    = (\<not> is_open_at plain_clock (window_of (note_at ''M-2'' 5 None)) (Some 3) 9)"
  using supersession_is_seamless [of "note_at ''M-1'' 1 (Some 5)" 5 "note_at ''M-2'' 5 None" 3 plain_clock 9] by simp

end
