(* ===== verification/Fusion.thy ===== *)
theory Fusion
  imports Prelude "HOL-Library.Product_Lexorder" "HOL-Library.List_Lexorder" "HOL-Library.Char_ord"
begin

text \<open>
  Rank fusion, the recency blend, the re-ranker's floor and the token budget of a recall
  (\<^verbatim>\<open>retrieval/fusion.py\<close>, \<^verbatim>\<open>retrieval/_adaptive_floor.py\<close>, \<^verbatim>\<open>retrieval/token_budget.py\<close>).
  Scores are exact rationals where the code has floats.
\<close>

type_synonym scored = "(string \<times> rat) list"

section \<open>Reciprocal rank fusion\<close>

text \<open>
  The inner loop of \<open>rrf_fuse\<close> over one ranking: the 1-based \<open>rank\<close>, the rank the score counts
  with (\<open>evidence_rank\<close>, kept across equal scores when \<open>tie_scores\<close> is set) and the previous
  score, accumulating into \<open>fused_scores\<close>.
\<close>

fun rank_loop :: "nat \<Rightarrow> bool \<Rightarrow> nat \<Rightarrow> nat \<Rightarrow> rat option \<Rightarrow> scored \<Rightarrow> (string, rat) dict \<Rightarrow> (string, rat) dict" where
  "rank_loop k ties rank evidence_rank previous [] fused = fused"
| "rank_loop k ties rank evidence_rank previous ((i, s) # rest) fused =
     (let r = (if \<not> ties \<or> rank = 1 \<or> Some s \<noteq> previous then rank else evidence_rank)
      in rank_loop k ties (Suc rank) r (Some s) rest
           (dict_set i (dict_get fused i 0 + 1 / of_nat (k + r)) fused))"

definition fused_scores :: "nat \<Rightarrow> bool \<Rightarrow> scored list \<Rightarrow> (string, rat) dict" where
  "fused_scores k ties rankings = foldl (\<lambda>fused r. rank_loop k ties 1 1 None r fused) [] rankings"

definition max_score :: "scored \<Rightarrow> rat" where
  "max_score d = (case map snd d of [] \<Rightarrow> 0 | x # xs \<Rightarrow> max_from x xs)"

definition blend_importance :: "(string, rat) dict option \<Rightarrow> rat \<Rightarrow> (string, rat) dict \<Rightarrow> (string, rat) dict" where
  "blend_importance importances alpha fused =
     (let a = max 0 (min 1 alpha)
      in case importances of
           None \<Rightarrow> fused
         | Some imps \<Rightarrow>
             if a < 1 \<and> max_score fused > 0
             then map (\<lambda>(i, s). (i, a * (s / max_score fused) + (1 - a) * dict_get imps i 0)) fused
             else fused)"

text \<open>\<open>sort(key=score, reverse=True)\<close> is stable: equal scores keep their order.\<close>

definition by_score :: "scored \<Rightarrow> scored" where
  "by_score d = sort_key (\<lambda>x. - snd x) d"

definition rrf_fuse :: "scored list \<Rightarrow> int \<Rightarrow> (string, rat) dict option \<Rightarrow> rat \<Rightarrow> bool \<Rightarrow> scored" where
  "rrf_fuse rankings k importances alpha tie_scores =
     (if rankings = [] then []
      else by_score (blend_importance importances alpha
             (fused_scores (nat (if k < 1 then 5 else k)) tie_scores rankings)))"

fun best_loop :: "nat \<Rightarrow> nat \<Rightarrow> scored \<Rightarrow> (string, rat) dict \<Rightarrow> (string, rat) dict" where
  "best_loop k rank [] best = best"
| "best_loop k rank ((i, _) # rest) best =
     (let rr = 1 / of_nat (k + rank + 1)
      in best_loop k (Suc rank) rest (if rr > dict_get best i 0 then dict_set i rr best else best))"

definition combmax_fuse :: "scored list \<Rightarrow> int \<Rightarrow> scored" where
  "combmax_fuse rankings k =
     (if rankings = [] then []
      else by_score (foldl (\<lambda>best r. best_loop (nat (if k < 1 then 60 else k)) 0 r best) [] rankings))"

section \<open>The recency blend\<close>

text \<open>A dictionary comprehension over \<open>enumerate\<close>: a later occurrence of an id overwrites.\<close>

fun rank_map :: "nat \<Rightarrow> scored \<Rightarrow> (string, nat) dict \<Rightarrow> (string, nat) dict" where
  "rank_map n [] d = d"
| "rank_map n ((i, _) # rest) d = rank_map (Suc n) rest (dict_set i n d)"

definition blend_recency :: "scored \<Rightarrow> scored \<Rightarrow> rat \<Rightarrow> scored" where
  "blend_recency fused recency w =
     (if w \<le> 0 \<or> fused = [] \<or> recency = [] then fused
      else
        (let rel_max = max_score fused;
             rel_norm = (if rel_max > 0 then dict_merge [] (map (\<lambda>(i, s). (i, s / rel_max)) fused) else []);
             rec_map = dict_merge [] recency;
             rel_rank = rank_map 0 fused [];
             rec_rank = rank_map 0 recency [];
             all_ids = map fst fused @ filter (\<lambda>i. map_of rel_rank i = None) (map fst recency);
             blended = map (\<lambda>i. (i, (1 - w) * dict_get rel_norm i 0 + w * dict_get rec_map i 0)) all_ids;
             sentinel = length all_ids + 1
         in sort_key (\<lambda>(i, s). (- s, dict_get rel_rank i sentinel, dict_get rec_rank i sentinel, i)) blended))"

section \<open>The re-ranker's floor\<close>

definition rerank_min_score :: rat where "rerank_min_score = - 8"

definition base_min_keep :: int where "base_min_keep = 5"

definition adaptive_rerank_floor :: "int \<Rightarrow> rat \<times> int" where
  "adaptive_rerank_floor limit =
     (rerank_min_score, if limit \<le> 0 then 0 else max base_min_keep \<lceil>rat_of_int limit * (1/2)\<rceil>)"

section \<open>The token budget\<close>

definition token_multiplier :: rat where "token_multiplier = 13/10"

definition metadata_overhead :: int where "metadata_overhead = 20"

definition estimate_tokens :: "string option \<Rightarrow> int" where
  "estimate_tokens txt =
     (case txt of None \<Rightarrow> 0
      | Some s \<Rightarrow> if str_words s = [] then 0
                 else max 1 (round_half_even (of_nat (length (str_words s)) * token_multiplier)))"

text \<open>The fields of a result dictionary the estimate reads; \<open>None\<close> tags are not a list.\<close>

record result_text =
  rt_content :: string
  rt_detail :: string
  rt_tags :: "string list option"

definition estimate_entry_tokens :: "result_text \<Rightarrow> int" where
  "estimate_entry_tokens r =
     (let tags_text = (case rt_tags r of None \<Rightarrow> [] | Some ts \<Rightarrow> str_join '' '' ts)
      in estimate_tokens (Some (str_strip (rt_content r @ '' '' @ rt_detail r @ '' '' @ tags_text)))
         + metadata_overhead)"

datatype budget_error = BudgetNotPositive

fun budget_loop :: "('a \<Rightarrow> int) \<Rightarrow> int \<Rightarrow> 'a list \<Rightarrow> int \<Rightarrow> 'a list \<Rightarrow> 'a list \<times> int \<times> bool" where
  "budget_loop estimate token_budget filtered used [] = (filtered, used, False)"
| "budget_loop estimate token_budget filtered used (e # es) =
     (if used + estimate e > token_budget \<and> filtered \<noteq> [] then (filtered, used, True)
      else budget_loop estimate token_budget (filtered @ [e]) (used + estimate e) es)"

definition apply_token_budget ::
  "('a \<Rightarrow> int) \<Rightarrow> 'a list \<Rightarrow> int \<Rightarrow> (budget_error, 'a list \<times> int \<times> bool) result" where
  "apply_token_budget estimate results token_budget =
     (if token_budget \<le> 0 then Inl BudgetNotPositive
      else if results = [] then Inr ([], 0, False)
      else Inr (budget_loop estimate token_budget [] 0 results))"

section \<open>The score a document earns\<close>

text \<open>What one ranking adds to a document's score: \<open>1 / (k + rank)\<close> at each place it stands.\<close>

fun earned :: "nat \<Rightarrow> nat \<Rightarrow> scored \<Rightarrow> string \<Rightarrow> rat" where
  "earned k rank [] i = 0"
| "earned k rank ((j, _) # rest) i = (if j = i then 1 / of_nat (k + rank) else 0) + earned k (Suc rank) rest i"

fun precedes :: "'a list \<Rightarrow> 'a \<Rightarrow> 'a \<Rightarrow> bool" where
  "precedes [] a b \<longleftrightarrow> False"
| "precedes (x # xs) a b \<longleftrightarrow> (if x = a then b \<in> set xs else precedes xs a b)"

lemma rank_loop_keys [simp]:
  "fst ` set (rank_loop k t r e p xs d) = fst ` set d \<union> fst ` set xs"
proof (induction xs arbitrary: r e p d)
  case (Cons x xs)
  show ?case by (cases x) (simp add: Let_def Cons dom_update)
qed simp

lemma rank_loop_distinct [simp]:
  "distinct (dict_keys d) \<Longrightarrow> distinct (dict_keys (rank_loop k t r e p xs d))"
proof (induction xs arbitrary: r e p d)
  case (Cons x xs)
  show ?case by (cases x) (simp add: Let_def Cons)
qed simp

lemma rank_loop_score:
  "dict_get (rank_loop k False r e p xs d) i 0 = dict_get d i 0 + earned k r xs i"
proof (induction xs arbitrary: r e p d)
  case (Cons x xs)
  show ?case by (cases x) (simp add: Let_def Cons)
qed simp

lemma fused_scores_props:
  "fst ` set (fused_scores k t rs) = (\<Union>r \<in> set rs. fst ` set r)"
  "distinct (dict_keys (fused_scores k t rs))"
  "dict_get (fused_scores k False rs) i 0 = (\<Sum>r\<leftarrow>rs. earned k 1 r i)"
  by (induction rs rule: rev_induct) (auto simp: fused_scores_def rank_loop_score)

lemma dict_get_member:
  assumes "i \<in> fst ` set d"
  shows "map_of d i = Some (dict_get d i x)"
  using assms by (cases "map_of d i") (auto simp: map_of_eq_None_iff)

lemma earned_absent: "i \<notin> fst ` set xs \<Longrightarrow> earned k r xs i = 0"
  by (induction k r xs i rule: earned.induct) auto

lemma earned_nonneg: "0 \<le> earned k r xs i"
  by (induction k r xs i rule: earned.induct) auto

lemma earned_le: "distinct (map fst xs) \<Longrightarrow> 0 < r \<Longrightarrow> earned k r xs i \<le> 1 / of_nat (k + r)"
proof (induction k r xs i rule: earned.induct)
  case (2 k r j s rest i)
  show ?case
  proof (cases "j = i")
    case True
    with 2(2) have "earned k (Suc r) rest i = 0" by (intro earned_absent) auto
    with True show ?thesis by simp
  next
    case False
    from 2 have "earned k (Suc r) rest i \<le> 1 / of_nat (k + Suc r)" by simp
    also have "\<dots> \<le> 1 / of_nat (k + r)" using 2(3) by (intro divide_left_mono) auto
    finally show ?thesis using False by simp
  qed
qed simp

lemma precedes_in: "precedes xs a b \<Longrightarrow> b \<in> set xs"
  by (induction xs) (auto split: if_splits)

lemma earned_precedes:
  "distinct (map fst xs) \<Longrightarrow> 0 < r \<Longrightarrow> precedes (map fst xs) a b \<Longrightarrow> earned k r xs b < earned k r xs a"
proof (induction xs arbitrary: r)
  case (Cons x xs)
  obtain j s where x: "x = (j, s)" by (cases x)
  show ?case
  proof (cases "j = a")
    case True
    with Cons.prems x have "b \<noteq> a" by auto
    have "earned k (Suc r) xs b \<le> 1 / of_nat (k + Suc r)" using Cons.prems x by (intro earned_le) auto
    also have "\<dots> < 1 / of_nat (k + r)" using Cons.prems(2) by (intro divide_strict_left_mono) auto
    finally show ?thesis using x True \<open>b \<noteq> a\<close> earned_nonneg [of k "Suc r" xs a] by simp
  next
    case False
    with Cons.prems x have pre: "precedes (map fst xs) a b" by simp
    then have "b \<in> fst ` set xs"
      by (metis precedes_in image_set)
    with Cons.prems x have "j \<noteq> b" by auto
    with False x Cons.IH [of "Suc r"] Cons.prems pre show ?thesis by simp
  qed
qed simp


section \<open>Fused order\<close>

lemma map_of_map_items: "map_of (map (\<lambda>(i, s). (i, f i s)) d) j = map_option (f j) (map_of d j)"
  by (induction d) auto

lemma by_score_simps [simp]:
  "set (by_score d) = set d" "distinct (map fst (by_score d)) = distinct (map fst d)"
  by (simp_all add: by_score_def distinct_map inj_on_def)

lemma map_of_by_score: "distinct (map fst d) \<Longrightarrow> map_of (by_score d) i = map_of d i"
  using map_of_inject_set [of "by_score d" d] by simp

lemma by_score_sorted: "sorted (map (\<lambda>x. - snd x) (by_score d))"
  by (simp add: by_score_def)

lemma precedes_sorted:
  fixes f :: "'a \<times> 'b \<Rightarrow> 'c::linorder"
  shows "sorted (map f xs) \<Longrightarrow> x \<in> set xs \<Longrightarrow> y \<in> set xs \<Longrightarrow> f x < f y \<Longrightarrow> distinct (map fst xs)
    \<Longrightarrow> precedes (map fst xs) (fst x) (fst y)"
proof (induction xs)
  case (Cons z zs)
  show ?case
  proof (cases "fst z = fst x")
    case True
    with Cons.prems have "z = x" by (metis eq_key_imp_eq_value list.set_intros(1) prod.collapse)
    with Cons.prems True show ?thesis by auto
  next
    case False
    then have "x \<in> set zs" using Cons.prems(2) by auto
    moreover from this Cons.prems have "y \<noteq> z" by auto
    ultimately show ?thesis using Cons False by auto
  qed
qed simp

lemma by_score_precedes:
  assumes "distinct (map fst d)" "map_of d a = Some sa" "map_of d b = Some sb" "sb < sa"
  shows "precedes (map fst (by_score d)) a b"
  using precedes_sorted [OF by_score_sorted [of d], of "(a, sa)" "(b, sb)"] assms
    map_of_SomeD [OF assms(2)] map_of_SomeD [OF assms(3)] by simp

lemma blend_keys [simp]: "dict_keys (blend_importance imps alpha d) = dict_keys d"
  by (auto simp: blend_importance_def Let_def split: option.splits)

lemma blend_strict:
  assumes "map_of d a = Some sa" "map_of d b = Some sb" "sb < sa" "0 < alpha"
    and imps: "\<And>im. imps = Some im \<Longrightarrow> dict_get im b 0 \<le> dict_get im a 0"
  shows "\<exists>ta tb. map_of (blend_importance imps alpha d) a = Some ta
    \<and> map_of (blend_importance imps alpha d) b = Some tb \<and> tb < ta"
proof (cases imps)
  case None
  with assms show ?thesis by (simp add: blend_importance_def)
next
  case (Some im)
  define w where "w = max 0 (min 1 alpha)"
  show ?thesis
  proof (cases "w < 1 \<and> max_score d > 0")
    case True
    have w: "0 < w" "w < 1" using True assms(4) by (auto simp: w_def)
    have "w * (sb / max_score d) < w * (sa / max_score d)"
      using w True assms(3) by (intro mult_strict_left_mono divide_strict_right_mono) auto
    moreover have "(1 - w) * dict_get im b 0 \<le> (1 - w) * dict_get im a 0"
      using w imps [OF Some] by (intro mult_left_mono) auto
    ultimately have less: "w * (sb / max_score d) + (1 - w) * dict_get im b 0
        < w * (sa / max_score d) + (1 - w) * dict_get im a 0" by simp
    have "blend_importance imps alpha d
        = map (\<lambda>(i, s). (i, w * (s / max_score d) + (1 - w) * dict_get im i 0)) d"
      using True by (simp add: blend_importance_def Some w_def [symmetric])
    with less assms(1,2) show ?thesis by (simp add: map_of_map_items)
  next
    case False
    then have "blend_importance imps alpha d = d"
      by (auto simp: blend_importance_def Some w_def [symmetric] Let_def)
    with assms show ?thesis by simp
  qed
qed

text \<open>
  reciprocal rank fusion is the documented formula. The fused list holds each document of the
  rankings once and no other, by descending score, and without importances a document's score is
  the sum over the rankings of \<open>1 / (k + rank)\<close>, an invalid \<open>k\<close> counting as five.
\<close>

theorem rrf_scores_are_sums:
  "distinct (map fst (rrf_fuse rankings k imps alpha ties))
   \<and> sorted (map (\<lambda>x. - snd x) (rrf_fuse rankings k imps alpha ties))
   \<and> fst ` set (rrf_fuse rankings k imps alpha ties) = (\<Union>r \<in> set rankings. fst ` set r)
   \<and> map_of (rrf_fuse rankings k None alpha False) i
       = (if i \<in> (\<Union>r \<in> set rankings. fst ` set r)
          then Some (\<Sum>r\<leftarrow>rankings. earned (nat (if k < 1 then 5 else k)) 1 r i) else None)"
proof -
  let ?k = "nat (if k < 1 then 5 else k)"
  have keys: "fst ` set (blend_importance imps alpha d) = fst ` set d" for imps d
    by (metis blend_keys list.set_map)
  have "map_of (by_score (fused_scores n False rankings)) i
      = (if i \<in> (\<Union>r \<in> set rankings. fst ` set r)
         then Some (\<Sum>r\<leftarrow>rankings. earned n 1 r i) else None)" for n
    using dict_get_member [of i "fused_scores n False rankings" 0]
    by (simp add: map_of_by_score fused_scores_props map_of_eq_None_iff)
  then have "map_of (rrf_fuse rankings k None alpha False) i
      = (if i \<in> (\<Union>r \<in> set rankings. fst ` set r)
         then Some (\<Sum>r\<leftarrow>rankings. earned ?k 1 r i) else None)"
    unfolding rrf_fuse_def blend_importance_def Let_def by (cases "rankings = []") auto
  then show ?thesis
    by (simp add: rrf_fuse_def by_score_sorted keys fused_scores_props)
qed

lemma sum_list_strict:
  fixes f g :: "'a \<Rightarrow> rat"
  assumes "\<And>x. x \<in> set xs \<Longrightarrow> f x \<le> g x" and "y \<in> set xs" "f y < g y"
  shows "(\<Sum>x\<leftarrow>xs. f x) < (\<Sum>x\<leftarrow>xs. g x)"
  using assms
proof (induction xs)
  case (Cons x xs)
  show ?case
  proof (cases "y = x")
    case True
    moreover have "(\<Sum>x\<leftarrow>xs. f x) \<le> (\<Sum>x\<leftarrow>xs. g x)"
      using Cons.prems(1) by (intro sum_list_mono) auto
    ultimately show ?thesis using Cons.prems(3) by simp
  next
    case False
    with Cons show ?thesis by (simp add: add_le_less_mono)
  qed
qed simp

text \<open>
  Fusion respects unanimity. When every ranking that lists document \<open>b\<close> lists \<open>a\<close> above it,
  and \<open>a\<close> is no less important, \<open>a\<close> stands above \<open>b\<close> in the fused list, whatever the smoothing
  constant, the other documents and the positive weight of the position score.
\<close>

theorem rrf_respects_unanimity:
  assumes "\<forall>r \<in> set rankings. distinct (map fst r)"
    and "\<forall>r \<in> set rankings. b \<in> fst ` set r \<longrightarrow> precedes (map fst r) a b"
    and "r0 \<in> set rankings" "b \<in> fst ` set r0"
    and "0 < alpha" and imps: "\<forall>im. importances = Some im \<longrightarrow> dict_get im b 0 \<le> dict_get im a 0"
  shows "precedes (map fst (rrf_fuse rankings k importances alpha False)) a b"
proof -
  let ?k = "nat (if k < 1 then 5 else k)"
  let ?d = "fused_scores ?k False rankings"
  have le: "earned ?k 1 r b \<le> earned ?k 1 r a" if "r \<in> set rankings" for r
  proof (cases "b \<in> fst ` set r")
    case True
    with that assms(1,2) show ?thesis by (intro less_imp_le earned_precedes) auto
  next
    case False
    then show ?thesis using earned_nonneg [of ?k 1 r a] by (simp add: earned_absent)
  qed
  have less: "earned ?k 1 r0 b < earned ?k 1 r0 a"
    using assms(1-4) by (intro earned_precedes) auto
  have "(\<Sum>r\<leftarrow>rankings. earned ?k 1 r b) < (\<Sum>r\<leftarrow>rankings. earned ?k 1 r a)"
    using le assms(3) less by (rule sum_list_strict)
  then have less': "dict_get ?d b 0 < dict_get ?d a 0"
    by (simp add: fused_scores_props)
  have "a \<in> fst ` set r0"
    using less earned_nonneg [of ?k 1 r0 b] earned_absent [of a r0 ?k 1] by fastforce
  with assms(3,4) have mem: "a \<in> fst ` set ?d" "b \<in> fst ` set ?d"
    unfolding fused_scores_props(1) by auto
  obtain ta tb where "map_of (blend_importance importances alpha ?d) a = Some ta"
      "map_of (blend_importance importances alpha ?d) b = Some tb" "tb < ta"
    using blend_strict [OF dict_get_member [OF mem(1)] dict_get_member [OF mem(2)] less' assms(5)] imps
    by blast
  then have "precedes (map fst (by_score (blend_importance importances alpha ?d))) a b"
    by (intro by_score_precedes) (auto simp: fused_scores_props)
  moreover have "rankings \<noteq> []" using assms(3) by auto
  ultimately show ?thesis by (simp add: rrf_fuse_def)
qed


definition lexical_ranking :: scored where
  "lexical_ranking = [(''a'', 9), (''b'', 4), (''c'', 4)]"

definition dense_ranking :: scored where
  "dense_ranking = [(''c'', 3/4), (''a'', 1/2), (''b'', 1/4)]"

theorem rrf_respects_unanimity_witness:
  "precedes (map fst (rrf_fuse [lexical_ranking, dense_ranking] 5 (Some [(''a'', 1/2), (''b'', 1/4)]) (1/2) False))
     ''a'' ''b''"
  by (rule rrf_respects_unanimity [where ?r0.0 = lexical_ranking])
    (auto simp: lexical_ranking_def dense_ranking_def dict_get_def)

section \<open>What the recency blend may do\<close>

text \<open>
  The blend sorts all ids by the blended score, so a document that only the recency list names is
  not appended after the fused ones: here it overtakes one of them.
\<close>

lemma recency_only_overtakes:
  "map fst (blend_recency [(''old'', 1), (''older'', 1/10)] [(''fresh'', 1)] (1/2)) = [''old'', ''fresh'', ''older'']"
  by (simp add: blend_recency_def max_score_def dict_get_def)

lemma blend_recency_off: "w \<le> 0 \<Longrightarrow> blend_recency fused recency w = fused"
  by (simp add: blend_recency_def)

section \<open>The budget is spent on the longest prefix\<close>

lemma floor_keeps_small_limits:
  "snd (adaptive_rerank_floor limit) = (if limit \<le> 0 then 0 else max 5 ((limit + 1) div 2))"
proof -
  have "\<lceil>rat_of_int limit * (1/2)\<rceil> = (limit + 1) div 2"
    by (rule ceiling_unique) (auto simp: field_simps)
  then show ?thesis by (simp add: adaptive_rerank_floor_def base_min_keep_def)
qed


lemma budget_loop_spec:
  assumes "budget_loop est B acc used es = (kept, spent, truncated)"
    and "used = (\<Sum>e\<leftarrow>acc. est e)" and "length acc \<le> 1 \<or> used \<le> B"
  shows "\<exists>n. kept = acc @ take n es \<and> spent = (\<Sum>e\<leftarrow>kept. est e) \<and> (truncated \<longleftrightarrow> n < length es)
    \<and> (acc = [] \<and> es \<noteq> [] \<longrightarrow> 0 < n) \<and> (length kept \<le> 1 \<or> spent \<le> B)
    \<and> (truncated \<longrightarrow> spent + est (es ! n) > B)"
  using assms
proof (induction es arbitrary: acc used)
  case Nil
  then show ?case by auto
next
  case (Cons e es)
  show ?case
  proof (cases "used + est e > B \<and> acc \<noteq> []")
    case True
    with Cons.prems show ?thesis by (intro exI [of _ 0]) auto
  next
    case False
    with Cons.prems(1) have rec: "budget_loop est B (acc @ [e]) (used + est e) es = (kept, spent, truncated)"
      by auto
    have "length (acc @ [e]) \<le> 1 \<or> used + est e \<le> B" using False by auto
    with Cons.IH [OF rec] Cons.prems(2) obtain n where
      "kept = (acc @ [e]) @ take n es" "spent = (\<Sum>e\<leftarrow>kept. est e)" "truncated \<longleftrightarrow> n < length es"
      "length kept \<le> 1 \<or> spent \<le> B" "truncated \<longrightarrow> spent + est (es ! n) > B" by auto
    then show ?thesis by (intro exI [of _ "Suc n"]) simp
  qed
qed

text \<open>
  The token budget keeps the longest prefix that fits. With a positive budget the kept rows
  are the first rows of the results, their reported cost is the sum of their estimates, at least
  one row is kept when there is one, a cost above the budget is only ever that of a single row,
  and rows are dropped exactly when the truncation flag says so, the next row not fitting.
\<close>

theorem budget_keeps_longest_prefix:
  assumes "0 < token_budget"
  shows "\<exists>n. let kept = take n results; used = (\<Sum>e\<leftarrow>kept. estimate e) in
    apply_token_budget estimate results token_budget = Inr (kept, used, n < length results)
    \<and> n \<le> length results \<and> (results \<noteq> [] \<longrightarrow> 0 < n) \<and> (n \<le> 1 \<or> used \<le> token_budget)
    \<and> (n < length results \<longrightarrow> used + estimate (results ! n) > token_budget)"
proof (cases "results = []")
  case True
  with assms show ?thesis by (intro exI [of _ 0]) (simp add: apply_token_budget_def)
next
  case False
  obtain kept used truncated where loop: "budget_loop estimate token_budget [] 0 results = (kept, used, truncated)"
    by (cases "budget_loop estimate token_budget [] 0 results") auto
  from budget_loop_spec [OF loop] obtain n where n: "kept = take n results"
      "used = (\<Sum>e\<leftarrow>kept. estimate e)" "truncated \<longleftrightarrow> n < length results" "0 < n"
      "length kept \<le> 1 \<or> used \<le> token_budget" "truncated \<longrightarrow> used + estimate (results ! n) > token_budget"
    using False by auto
  have "apply_token_budget estimate results token_budget = Inr (kept, used, truncated)"
    using assms False loop by (simp add: apply_token_budget_def)
  moreover have "take (min n (length results)) results = take n results" by (simp add: min_def)
  ultimately show ?thesis
    using n False by (intro exI [of _ "min n (length results)"]) (auto simp: Let_def min_def split: if_splits)
qed

definition recalled_texts :: "result_text list" where
  "recalled_texts = [\<lparr>rt_content = ''use the lane'', rt_detail = [], rt_tags = Some [''daemon'']\<rparr>,
     \<lparr>rt_content = ''never block'', rt_detail = ''the loop'', rt_tags = None\<rparr>]"

theorem budget_keeps_longest_prefix_witness:
  "\<exists>n. let kept = take n recalled_texts; used = (\<Sum>e\<leftarrow>kept. estimate_entry_tokens e) in
    apply_token_budget estimate_entry_tokens recalled_texts 30 = Inr (kept, used, n < length recalled_texts)
    \<and> n \<le> length recalled_texts \<and> (recalled_texts \<noteq> [] \<longrightarrow> 0 < n) \<and> (n \<le> 1 \<or> used \<le> 30)
    \<and> (n < length recalled_texts \<longrightarrow> used + estimate_entry_tokens (recalled_texts ! n) > 30)"
  by (rule budget_keeps_longest_prefix) simp

end
