(* ===== verification/Evidence.thy ===== *)
theory Evidence
  imports Entry
begin

text \<open>
  The evidence invariant of \<^verbatim>\<open>security/_evidence_invariant.py\<close>: an entry that claims
  \<open>confidence = verified\<close> must carry \<open>observed\<close> or \<open>verified\<close> evidence. A write may not
  introduce a violation, and a row that already violates it is served demoted.
\<close>

datatype schema_error =
  Unsubstantiated evidence_level_t bool  \<comment> \<open>the level, and whether the stored row already violates\<close>
| EntryIdTooLong nat
| InvalidUtf8 "string list"
| TextFieldTooLong "string list"

definition violates_evidence_invariant :: "memory_entry \<Rightarrow> bool" where
  "violates_evidence_invariant e \<longleftrightarrow>
     confidence e = ConfVerified \<and> evidence_level e \<notin> {EvObserved, EvVerified}"

definition same_claim :: "memory_entry \<Rightarrow> memory_entry \<Rightarrow> bool" where
  "same_claim a b \<longleftrightarrow> (content a, detail a) = (content b, detail b)"

definition refuse_new_violation ::
  "memory_entry option \<Rightarrow> memory_entry \<Rightarrow> (schema_error, unit) result" where
  "refuse_new_violation existing e =
     (if \<not> violates_evidence_invariant e then Inr ()
      else (case existing of
              Some old \<Rightarrow>
                if violates_evidence_invariant old \<and> same_claim old e then Inr ()
                else Inl (Unsubstantiated (evidence_level e) (violates_evidence_invariant old))
            | None \<Rightarrow> Inl (Unsubstantiated (evidence_level e) False)))"

definition demoted_key :: string where
  "demoted_key = ''served_confidence_demoted''"

definition served_view :: "memory_entry \<Rightarrow> memory_entry" where
  "served_view e =
     (if \<not> violates_evidence_invariant e then e
      else e\<lparr>confidence := Unverified, metadata := dict_set demoted_key ''true'' (metadata e)\<rparr>)"

text \<open>
  A read boundary of this shape (show a safe copy, leave safe values alone) is an interface of
  its own: what it shows is safe, and showing it twice shows the same.
\<close>

locale safe_view =
  fixes unsafe :: "'a \<Rightarrow> bool"
    and view :: "'a \<Rightarrow> 'a"
  assumes view_safe: "\<not> unsafe (view a)"
    and view_id: "\<not> unsafe a \<Longrightarrow> view a = a"
begin

lemma view_view [simp]: "view (view a) = view a"
  by (rule view_id [OF view_safe])

lemma map_view_safe: "x \<in> set (map view xs) \<Longrightarrow> \<not> unsafe x"
  by (auto simp: view_safe)

lemma view_eq_self_iff: "view a = a \<longleftrightarrow> \<not> unsafe a"
  by (metis view_safe view_id)

end

interpretation served: safe_view violates_evidence_invariant served_view
  by unfold_locales (auto simp: served_view_def violates_evidence_invariant_def)

lemma served_view_frame [simp]:
  "eid (served_view e) = eid e" "namespace (served_view e) = namespace e"
  "content (served_view e) = content e" "detail (served_view e) = detail e"
  "tags (served_view e) = tags e" "status (served_view e) = status e"
  "remote_id (served_view e) = remote_id e" "sync_seq (served_view e) = sync_seq e"
  "sync_hash (served_view e) = sync_hash e" "invalid_from (served_view e) = invalid_from e"
  "last_synced_at (served_view e) = last_synced_at e" "evidence_level (served_view e) = evidence_level e"
  by (simp_all add: served_view_def)

lemma refuse_new_violation_Inr_iff:
  "refuse_new_violation existing e = Inr () \<longleftrightarrow>
    (violates_evidence_invariant e \<longrightarrow>
      (\<exists>old. existing = Some old \<and> violates_evidence_invariant old \<and> same_claim old e))"
  by (auto simp: refuse_new_violation_def split: option.splits)

end
