(* ===== verification/Database.thy ===== *)
theory Database
  imports Evidence
begin

text \<open>
  The SQLite row operations of \<^verbatim>\<open>storage/_crud_ops.py\<close>, \<^verbatim>\<open>_crud_index_ops.py\<close>,
  \<^verbatim>\<open>_crud_counters.py\<close> and \<^verbatim>\<open>_bulk_write_support.py\<close>. A table is the association list of its
  rows keyed on its primary key; a row of \<open>memories\<close> is the entry it decodes to (the row mapper
  is not modelled). SQLite itself does not fail here, so the errors left are the ones the code
  raises. Statements that are chunked to stay under the bind limit are one statement.

  Parameters: \<open>utf8\<close> decides whether a string encodes as UTF-8, and \<open>sha\<close> is the hexadecimal
  SHA-256 of the canonical JSON of a hash view.
\<close>

section \<open>Tables\<close>

type_synonym key = "string \<times> string"   \<comment> \<open>namespace, id\<close>

record fts_row =
  f_id :: string
  f_namespace :: string
  f_content :: string
  f_detail :: string
  f_tags :: "string list"

record graph_edge =
  g_namespace :: string
  g_source :: string
  g_target :: string
  g_type :: string
  g_weight :: rat

record db =
  rows :: "(key, memory_entry) dict"
  vectors :: "(key, rat list) dict"
  fts :: "(nat, fts_row) dict"
  fts_rowid :: "(key, nat) dict"
  memory_tags :: "(string \<times> string \<times> string) list"       \<comment> \<open>namespace, tag, entry id\<close>
  anchor_postings :: "(string \<times> string \<times> string) list"   \<comment> \<open>namespace, file, entry id\<close>
  edges :: "graph_edge list"
  delete_epoch :: nat

definition empty_db :: db where
  "empty_db = \<lparr>rows = [], vectors = [], fts = [], fts_rowid = [], memory_tags = [],
     anchor_postings = [], edges = [], delete_epoch = 0\<rparr>"

definition entry_key :: "memory_entry \<Rightarrow> key" where
  "entry_key e = (namespace e, eid e)"

definition drop_key :: "'k \<Rightarrow> ('k, 'v) dict \<Rightarrow> ('k, 'v) dict" where
  "drop_key k d = filter (\<lambda>(k', _). k' \<noteq> k) d"

lemma map_of_drop_key [simp]: "map_of (drop_key k d) k' = (if k' = k then None else map_of d k')"
  by (induction d) (auto simp: drop_key_def)

lemma set_keys_drop_key [simp]: "set (dict_keys (drop_key k d)) = set (dict_keys d) - {k}"
  by (auto simp: drop_key_def image_iff)

lemma distinct_drop_key [simp]: "distinct (dict_keys d) \<Longrightarrow> distinct (dict_keys (drop_key k d))"
  by (induction d) (auto simp: drop_key_def)

section \<open>The sync hash\<close>

text \<open>
  The fields of \<open>_HASH_FIELDS\<close>, normalised as \<open>_normalize_hash_value\<close> does: floats to six
  decimals, dictionaries in key order.
\<close>

record hash_view =
  h_content :: string
  h_detail :: string
  h_tags :: "string list"
  h_evidence :: "string list"
  h_importance :: rat
  h_status :: memory_status
  h_type :: memory_type
  h_confidence :: confidence_level
  h_domain :: "string list"
  h_phase_affinity :: "string list"
  h_metadata :: "(string, string) dict"
  h_invalid_from :: "int option"
  h_invalidated_by :: "string option"

definition hash_view_of :: "memory_entry \<Rightarrow> hash_view" where
  "hash_view_of e =
     \<lparr>h_content = content e, h_detail = detail e, h_tags = tags e, h_evidence = evidence e,
      h_importance = round_decimals 6 (importance e), h_status = status e, h_type = etype e,
      h_confidence = confidence e, h_domain = domain e, h_phase_affinity = phase_affinity e,
      h_metadata = sort_key fst (metadata e), h_invalid_from = invalid_from e,
      h_invalidated_by = invalidated_by e\<rparr>"

definition compute_sync_hash :: "(hash_view \<Rightarrow> string) \<Rightarrow> memory_entry \<Rightarrow> string" where
  "compute_sync_hash sha e = sha (hash_view_of e)"

section \<open>Validation before a write\<close>

definition entry_text_fields :: "memory_entry \<Rightarrow> (string \<times> string option) list" where
  "entry_text_fields e =
     [(''id'', Some (eid e)), (''content'', Some (content e)), (''detail'', Some (detail e)),
      (''nudge_line'', Some (nudge_line e)), (''type'', Some (memory_type_value (etype e))),
      (''namespace'', Some (namespace e)), (''source'', Some (source_value (src e))),
      (''source_identity'', Some (source_identity e)), (''client_profile'', Some (client_profile e)),
      (''model_id'', Some (model_id e)), (''consolidated_into'', consolidated_into e),
      (''remote_id'', remote_id e), (''expires_at'', Some (expires e)),
      (''task_type'', Some (task_type e)), (''phase_origin'', Some (phase_origin e)),
      (''team_origin'', Some (team_origin e)), (''sync_hash'', Some (sync_hash e)),
      (''invalidated_by'', invalidated_by e)]"

definition validate_utf8_fields ::
  "(string \<Rightarrow> bool) \<Rightarrow> (string \<times> string option) list \<Rightarrow> (schema_error, unit) result" where
  "validate_utf8_fields utf8 cols =
     (let failed = map fst (filter (\<lambda>(_, v). case v of Some s \<Rightarrow> \<not> utf8 s | None \<Rightarrow> False) cols)
      in if failed \<noteq> [] then Inl (InvalidUtf8 failed) else Inr ())"

definition max_entry_id_chars :: nat where "max_entry_id_chars = 4096"

definition validate_entry_for_write ::
  "(string \<Rightarrow> bool) \<Rightarrow> memory_entry \<Rightarrow> (schema_error, unit) result" where
  "validate_entry_for_write utf8 e =
     (if length (eid e) > max_entry_id_chars then Inl (EntryIdTooLong (length (eid e)))
      else validate_utf8_fields utf8 (entry_text_fields e))"

definition max_text_field_chars :: nat where "max_text_field_chars = 64 * 1024"

definition refuse_overlong_text_fields ::
  "(string \<times> string option) list \<Rightarrow> (schema_error, unit) result" where
  "refuse_overlong_text_fields cols =
     (let failed = map fst (filter (\<lambda>(_, v). case v of Some s \<Rightarrow> length s > max_text_field_chars | None \<Rightarrow> False) cols)
      in if failed \<noteq> [] then Inl (TextFieldTooLong failed) else Inr ())"

section \<open>The sidecar indexes\<close>

definition fts_row_of :: "memory_entry \<Rightarrow> fts_row" where
  "fts_row_of e = \<lparr>f_id = eid e, f_namespace = namespace e, f_content = content e,
     f_detail = detail e, f_tags = tags e\<rparr>"

definition fts_delete_row :: "key \<Rightarrow> db \<Rightarrow> db" where
  "fts_delete_row k d =
     (case map_of (fts_rowid d) k of
        None \<Rightarrow> d
      | Some r \<Rightarrow> d\<lparr>fts := drop_key r (fts d), fts_rowid := drop_key k (fts_rowid d)\<rparr>)"

definition fts_insert_row :: "key \<Rightarrow> fts_row \<Rightarrow> db \<Rightarrow> db" where
  "fts_insert_row k row d =
     (let r = Suc (max_from 0 (dict_keys (fts d)))
      in d\<lparr>fts := fts d @ [(r, row)], fts_rowid := dict_set k r (fts_rowid d)\<rparr>)"

definition insert_or_ignore :: "'a list \<Rightarrow> 'a list \<Rightarrow> 'a list" where
  "insert_or_ignore table new = table @ filter (\<lambda>r. r \<notin> set table) (uniq new)"

definition replace_tag_postings :: "key \<Rightarrow> string list \<Rightarrow> db \<Rightarrow> db" where
  "replace_tag_postings k ts d =
     (let kept = filter (\<lambda>(ns, _, i). (ns, i) \<noteq> k) (memory_tags d)
      in d\<lparr>memory_tags := insert_or_ignore kept
             (map (\<lambda>t. (fst k, t, snd k)) (filter (\<lambda>t. str_strip t \<noteq> []) (uniq ts)))\<rparr>)"

text \<open>
  \<open>normalize_anchor_file\<close>: \<open>posixpath.normpath\<close> of a relative path without \<open>..\<close> drops the
  empty and \<open>.\<close> components.
\<close>

definition normalize_anchor_file :: "string \<Rightarrow> string option" where
  "normalize_anchor_file v =
     (if str_strip v = [] \<or> prefix ''/'' v then None
      else if ''..'' \<in> set (split_char CHR ''/'' v) then None
      else (let parts = filter (\<lambda>p. p \<noteq> [] \<and> p \<noteq> ''.'') (split_char CHR ''/'' v)
            in if parts = [] then None else Some (str_join ''/'' parts)))"

definition anchor_files :: "anchor list \<Rightarrow> string list" where
  "anchor_files as = uniq (List.map_filter (normalize_anchor_file \<circ> an_file) as)"

definition replace_anchor_postings :: "key \<Rightarrow> anchor list \<Rightarrow> db \<Rightarrow> db" where
  "replace_anchor_postings k as d =
     (let kept = filter (\<lambda>(ns, _, i). (ns, i) \<noteq> k) (anchor_postings d)
      in d\<lparr>anchor_postings := insert_or_ignore kept (map (\<lambda>f. (fst k, f, snd k)) (anchor_files as))\<rparr>)"

definition replace_postings :: "key \<Rightarrow> string list option \<Rightarrow> anchor list option \<Rightarrow> db \<Rightarrow> db" where
  "replace_postings k ts as d =
     (let d1 = (case ts of Some t \<Rightarrow> replace_tag_postings k t d | None \<Rightarrow> d)
      in case as of Some a \<Rightarrow> replace_anchor_postings k a d1 | None \<Rightarrow> d1)"

definition purge_edges_for :: "string \<Rightarrow> string list \<Rightarrow> db \<Rightarrow> db" where
  "purge_edges_for ns ids d =
     d\<lparr>edges := filter (\<lambda>g. \<not> (g_namespace g = ns \<and> (g_source g \<in> set ids \<or> g_target g \<in> set ids))) (edges d)\<rparr>"

definition purge_postings_for :: "string \<Rightarrow> string list \<Rightarrow> db \<Rightarrow> db" where
  "purge_postings_for ns ids d =
     d\<lparr>memory_tags := filter (\<lambda>(n, _, i). \<not> (n = ns \<and> i \<in> set ids)) (memory_tags d),
       anchor_postings := filter (\<lambda>(n, _, i). \<not> (n = ns \<and> i \<in> set ids)) (anchor_postings d)\<rparr>"

definition purge_fts_rows_for :: "string \<Rightarrow> string list \<Rightarrow> db \<Rightarrow> db" where
  "purge_fts_rows_for ns ids d =
     (let hit = filter (\<lambda>((n, i), _). n = ns \<and> i \<in> set ids) (fts_rowid d)
      in d\<lparr>fts := filter (\<lambda>(r, _). r \<notin> snd ` set hit) (fts d),
           fts_rowid := filter (\<lambda>((n, i), _). \<not> (n = ns \<and> i \<in> set ids)) (fts_rowid d)\<rparr>)"

definition delete_vector :: "key \<Rightarrow> db \<Rightarrow> db" where
  "delete_vector k d = d\<lparr>vectors := drop_key k (vectors d)\<rparr>"

definition purge_vectors_for :: "string \<Rightarrow> string list \<Rightarrow> db \<Rightarrow> db" where
  "purge_vectors_for ns ids d = d\<lparr>vectors := filter (\<lambda>((n, i), _). \<not> (n = ns \<and> i \<in> set ids)) (vectors d)\<rparr>"

definition note_delete :: "db \<Rightarrow> db" where
  "note_delete d = d\<lparr>delete_epoch := Suc (delete_epoch d)\<rparr>"

section \<open>Reading and storing rows\<close>

definition db_get :: "string \<Rightarrow> string \<Rightarrow> db \<Rightarrow> memory_entry option" where
  "db_get i ns d = map_of (rows d) (ns, i)"

text \<open>
  \<open>store\<close>: validate, refuse a violation the replaced row did not carry, stamp the sync
  bookkeeping, then write the row, its full-text row and its postings. The stamped entry is
  what the caller's object holds afterwards.
\<close>

definition stamp_sync :: "(hash_view \<Rightarrow> string) \<Rightarrow> memory_entry \<Rightarrow> memory_entry" where
  "stamp_sync sha e =
     e\<lparr>sync_seq := sync_seq e + 1, sync_hash := compute_sync_hash sha e, last_synced_at := None\<rparr>"

definition write_row :: "memory_entry \<Rightarrow> db \<Rightarrow> db" where
  "write_row e d =
     (let k = entry_key e;
          d1 = d\<lparr>rows := dict_set k e (rows d)\<rparr>;
          d2 = fts_insert_row k (fts_row_of e) (fts_delete_row k d1)
      in replace_postings k (Some (tags e)) (Some (anchors e)) d2)"

definition db_store ::
  "(string \<Rightarrow> bool) \<Rightarrow> (hash_view \<Rightarrow> string) \<Rightarrow> memory_entry \<Rightarrow> db \<Rightarrow> (schema_error, db) result" where
  "db_store utf8 sha e d =
     bindE (validate_entry_for_write utf8 e) (\<lambda>_.
     bindE (refuse_new_violation (db_get (eid e) (namespace e) d) e) (\<lambda>_.
       Inr (write_row (stamp_sync sha e) d)))"

text \<open>
  \<open>store_many\<close>: every entry is validated and checked against the rows the batch replaces
  before any row is written; the last occurrence of an identity is the one that stays.
\<close>

definition final_entries :: "memory_entry list \<Rightarrow> memory_entry list" where
  "final_entries es = map snd (dict_merge [] (map (\<lambda>e. (entry_key e, e)) es))"

fun check_all :: "('a \<Rightarrow> ('e, unit) result) \<Rightarrow> 'a list \<Rightarrow> ('e, unit) result" where
  "check_all f [] = Inr ()"
| "check_all f (x # xs) = bindE (f x) (\<lambda>_. check_all f xs)"

definition refuse_new_violations ::
  "memory_entry list \<Rightarrow> (memory_entry \<Rightarrow> memory_entry option) \<Rightarrow> (schema_error, unit) result" where
  "refuse_new_violations es read =
     check_all (\<lambda>e. if violates_evidence_invariant e then refuse_new_violation (read e) e else Inr ()) es"

definition db_store_many ::
  "(string \<Rightarrow> bool) \<Rightarrow> (hash_view \<Rightarrow> string) \<Rightarrow> memory_entry list \<Rightarrow> db \<Rightarrow> (schema_error, db) result" where
  "db_store_many utf8 sha es d =
     (if es = [] then Inr d
      else bindE (check_all (validate_entry_for_write utf8) es) (\<lambda>_.
           bindE (refuse_new_violations (map (stamp_sync sha) es) (\<lambda>e. db_get (eid e) (namespace e) d)) (\<lambda>_.
             Inr (foldl (\<lambda>acc e. write_row e acc) d (final_entries (map (stamp_sync sha) es))))))"

section \<open>Partial updates\<close>

text \<open>
  The keyword arguments of \<open>update\<close>: one constructor per column the code under study writes,
  named by \<open>field_name\<close>. \<open>set_field\<close> is the \<open>setattr\<close> of the copied row.
\<close>

datatype field_update =
  UStatus memory_status | UContent string | UDetail string | UTags "string list"
| UEvidence "string list" | UImportance rat | UType memory_type | UConfidence confidence_level
| UEvidenceLevel evidence_level_t | UProtectionTier protection_tier_t | UPhaseOrigin string
| UPhaseAffinity "string list" | UNudgeLine string | UExpires string | UTaskType string
| UDomain "string list" | UTeamOrigin string | UAssertions "assertion list" | UAnchors "anchor list"
| UAnchorValidity "rat option" | URecurrence int | UMergedFrom "string list"
| UMetadata "(string, string) dict" | UInvalidFrom "int option" | UInvalidatedBy "string option"
| UUpdatedAt int | ULastAccessedAt "int option" | ULastSyncedAt "int option" | USyncSeq int
| USyncHash string | UAccessCount int | URecallCount int | USessionCount int
| URemoteId "string option" | UPublished bool
| UVerificationStatus "bool option" | UVerificationCheckedAt string | UConsolidatedInto "string option"

fun field_name :: "field_update \<Rightarrow> string" where
  "field_name (UStatus _) = ''status''"
| "field_name (UContent _) = ''content''"
| "field_name (UDetail _) = ''detail''"
| "field_name (UTags _) = ''tags''"
| "field_name (UEvidence _) = ''evidence''"
| "field_name (UImportance _) = ''importance''"
| "field_name (UType _) = ''type''"
| "field_name (UConfidence _) = ''confidence''"
| "field_name (UEvidenceLevel _) = ''evidence_level''"
| "field_name (UProtectionTier _) = ''protection_tier''"
| "field_name (UPhaseOrigin _) = ''phase_origin''"
| "field_name (UPhaseAffinity _) = ''phase_affinity''"
| "field_name (UNudgeLine _) = ''nudge_line''"
| "field_name (UExpires _) = ''expires''"
| "field_name (UTaskType _) = ''task_type''"
| "field_name (UDomain _) = ''domain''"
| "field_name (UTeamOrigin _) = ''team_origin''"
| "field_name (UAssertions _) = ''assertions''"
| "field_name (UAnchors _) = ''anchors''"
| "field_name (UAnchorValidity _) = ''anchor_validity''"
| "field_name (URecurrence _) = ''recurrence''"
| "field_name (UMergedFrom _) = ''merged_from''"
| "field_name (UMetadata _) = ''metadata''"
| "field_name (UInvalidFrom _) = ''invalid_from''"
| "field_name (UInvalidatedBy _) = ''invalidated_by''"
| "field_name (UUpdatedAt _) = ''updated_at''"
| "field_name (ULastAccessedAt _) = ''last_accessed_at''"
| "field_name (ULastSyncedAt _) = ''last_synced_at''"
| "field_name (USyncSeq _) = ''sync_seq''"
| "field_name (USyncHash _) = ''sync_hash''"
| "field_name (UAccessCount _) = ''access_count''"
| "field_name (URecallCount _) = ''recall_count''"
| "field_name (USessionCount _) = ''session_count''"
| "field_name (URemoteId _) = ''remote_id''"
| "field_name (UPublished _) = ''published_to_platform''"
| "field_name (UVerificationStatus _) = ''verification_status''"
| "field_name (UVerificationCheckedAt _) = ''verification_checked_at''"
| "field_name (UConsolidatedInto _) = ''consolidated_into''"

fun set_field :: "memory_entry \<Rightarrow> field_update \<Rightarrow> memory_entry" where
  "set_field e (UStatus v) = e\<lparr>status := v\<rparr>"
| "set_field e (UContent v) = e\<lparr>content := v\<rparr>"
| "set_field e (UDetail v) = e\<lparr>detail := v\<rparr>"
| "set_field e (UTags v) = e\<lparr>tags := v\<rparr>"
| "set_field e (UEvidence v) = e\<lparr>evidence := v\<rparr>"
| "set_field e (UImportance v) = e\<lparr>importance := v\<rparr>"
| "set_field e (UType v) = e\<lparr>etype := v\<rparr>"
| "set_field e (UConfidence v) = e\<lparr>confidence := v\<rparr>"
| "set_field e (UEvidenceLevel v) = e\<lparr>evidence_level := v\<rparr>"
| "set_field e (UProtectionTier v) = e\<lparr>protection_tier := v\<rparr>"
| "set_field e (UPhaseOrigin v) = e\<lparr>phase_origin := v\<rparr>"
| "set_field e (UPhaseAffinity v) = e\<lparr>phase_affinity := v\<rparr>"
| "set_field e (UNudgeLine v) = e\<lparr>nudge_line := v\<rparr>"
| "set_field e (UExpires v) = e\<lparr>expires := v\<rparr>"
| "set_field e (UTaskType v) = e\<lparr>task_type := v\<rparr>"
| "set_field e (UDomain v) = e\<lparr>domain := v\<rparr>"
| "set_field e (UTeamOrigin v) = e\<lparr>team_origin := v\<rparr>"
| "set_field e (UAssertions v) = e\<lparr>assertions := v\<rparr>"
| "set_field e (UAnchors v) = e\<lparr>anchors := v\<rparr>"
| "set_field e (UAnchorValidity v) = e\<lparr>anchor_validity := v\<rparr>"
| "set_field e (URecurrence v) = e\<lparr>recurrence := v\<rparr>"
| "set_field e (UMergedFrom v) = e\<lparr>merged_from := v\<rparr>"
| "set_field e (UMetadata v) = e\<lparr>metadata := v\<rparr>"
| "set_field e (UInvalidFrom v) = e\<lparr>invalid_from := v\<rparr>"
| "set_field e (UInvalidatedBy v) = e\<lparr>invalidated_by := v\<rparr>"
| "set_field e (UUpdatedAt v) = e\<lparr>updated_at := v\<rparr>"
| "set_field e (ULastAccessedAt v) = e\<lparr>last_accessed_at := v\<rparr>"
| "set_field e (ULastSyncedAt v) = e\<lparr>last_synced_at := v\<rparr>"
| "set_field e (USyncSeq v) = e\<lparr>sync_seq := v\<rparr>"
| "set_field e (USyncHash v) = e\<lparr>sync_hash := v\<rparr>"
| "set_field e (UAccessCount v) = e\<lparr>access_count := v\<rparr>"
| "set_field e (URecallCount v) = e\<lparr>recall_count := v\<rparr>"
| "set_field e (USessionCount v) = e\<lparr>session_count := v\<rparr>"
| "set_field e (URemoteId v) = e\<lparr>remote_id := v\<rparr>"
| "set_field e (UPublished v) = e\<lparr>published_to_platform := v\<rparr>"
| "set_field e (UVerificationStatus v) = e\<lparr>verification_status := v\<rparr>"
| "set_field e (UVerificationCheckedAt v) = e\<lparr>verification_checked_at := v\<rparr>"
| "set_field e (UConsolidatedInto v) = e\<lparr>consolidated_into := v\<rparr>"

definition set_fields :: "memory_entry \<Rightarrow> field_update list \<Rightarrow> memory_entry" where
  "set_fields e us = foldl set_field e us"

definition names :: "field_update list \<Rightarrow> string \<Rightarrow> bool" where
  "names us f \<longleftrightarrow> f \<in> field_name ` set us"

definition bookkeeping_fields :: "string list" where
  "bookkeeping_fields = [''access_count'', ''last_accessed_at'', ''last_synced_at'', ''recall_count'',
     ''session_count'', ''sync_hash'', ''sync_seq'']"

text \<open>The text columns an update names, which \<open>validate_utf8_fields\<close> checks with the id.\<close>

fun text_value :: "field_update \<Rightarrow> (string \<times> string option) list" where
  "text_value (UContent v) = [(''content'', Some v)]"
| "text_value (UType v) = [(''type'', Some (memory_type_value v))]"
| "text_value (UDetail v) = [(''detail'', Some v)]"
| "text_value (UNudgeLine v) = [(''nudge_line'', Some v)]"
| "text_value (UExpires v) = [(''expires_at'', Some v)]"
| "text_value (UTaskType v) = [(''task_type'', Some v)]"
| "text_value (UPhaseOrigin v) = [(''phase_origin'', Some v)]"
| "text_value (UTeamOrigin v) = [(''team_origin'', Some v)]"
| "text_value (USyncHash v) = [(''sync_hash'', Some v)]"
| "text_value (UInvalidatedBy v) = [(''invalidated_by'', v)]"
| "text_value (URemoteId v) = [(''remote_id'', v)]"
| "text_value (UConsolidatedInto v) = [(''consolidated_into'', v)]"
| "text_value _ = []"

definition text_columns :: "string list" where
  "text_columns = [''id'', ''content'', ''detail'', ''nudge_line'', ''type'', ''namespace'', ''source'',
     ''source_identity'', ''client_profile'', ''model_id'', ''consolidated_into'', ''remote_id'',
     ''expires_at'', ''task_type'', ''phase_origin'', ''team_origin'', ''sync_hash'', ''invalidated_by'']"

definition updated_text_fields :: "string \<Rightarrow> field_update list \<Rightarrow> (string \<times> string option) list" where
  "updated_text_fields i us =
     (let named = (''id'', Some i) # concat (map text_value us)
      in map (\<lambda>c. (c, Option.bind (map_of (rev named) c) (\<lambda>v. v))) text_columns)"

definition terminal_statuses :: "memory_status list" where
  "terminal_statuses = [Obsolete, ObsoletePoisoned, Archived, Resolved]"

definition new_status :: "field_update list \<Rightarrow> memory_status option" where
  "new_status us = (case filter (\<lambda>u. field_name u = ''status'') us of [] \<Rightarrow> None
     | _ \<Rightarrow> (case last (filter (\<lambda>u. field_name u = ''status'') us) of UStatus s \<Rightarrow> Some s | _ \<Rightarrow> None))"

definition stamped_updates :: "int \<Rightarrow> field_update list \<Rightarrow> field_update list" where
  "stamped_updates now us =
     (if \<not> names us ''updated_at'' \<and> \<not> field_name ` set us \<subseteq> set bookkeeping_fields
      then us @ [UUpdatedAt now] else us)"

text \<open>
  The row an update writes: the named fields set, and the row marked dirty for the sync
  pipeline unless the caller names one of the sync fields itself.
\<close>

definition updated_row ::
  "(hash_view \<Rightarrow> string) \<Rightarrow> field_update list \<Rightarrow> memory_entry \<Rightarrow> memory_entry" where
  "updated_row sha us existing =
     (let updated = set_fields existing us
      in if names us ''sync_seq'' \<or> names us ''sync_hash'' \<or> names us ''last_synced_at'' then updated
         else updated\<lparr>sync_seq := sync_seq existing + 1,
                sync_hash := compute_sync_hash sha (updated\<lparr>sync_seq := sync_seq existing + 1\<rparr>),
                last_synced_at := None\<rparr>)"

definition prunes_vector :: "field_update list \<Rightarrow> memory_entry \<Rightarrow> bool" where
  "prunes_vector us existing =
     (case new_status us of
        Some s \<Rightarrow> s \<in> set terminal_statuses \<and> status existing \<noteq> s
      | None \<Rightarrow> False)"

definition put_updated :: "key \<Rightarrow> field_update list \<Rightarrow> memory_entry \<Rightarrow> bool \<Rightarrow> db \<Rightarrow> db" where
  "put_updated k us row prune d =
     (let d1 = d\<lparr>rows := dict_set k row (rows d)\<rparr>;
          d2 = (if prune then delete_vector k d1 else d1);
          d3 = (if names us ''content'' \<or> names us ''detail'' \<or> names us ''tags''
                then fts_insert_row k (fts_row_of row) (fts_delete_row k d2) else d2)
      in replace_postings k (if names us ''tags'' then Some (tags row) else None)
           (if names us ''anchors'' then Some (anchors row) else None) d3)"

definition db_update ::
  "(string \<Rightarrow> bool) \<Rightarrow> (hash_view \<Rightarrow> string) \<Rightarrow> int \<Rightarrow> string \<Rightarrow> string \<Rightarrow> field_update list \<Rightarrow> db
     \<Rightarrow> (schema_error, db \<times> memory_entry option) result" where
  "db_update utf8 sha now i ns us d =
     (if us = [] then Inr (d, db_get i ns d)
      else (case db_get i ns d of
        None \<Rightarrow> Inr (d, None)
      | Some existing \<Rightarrow>
          (let us1 = stamped_updates now us
           in bindE (validate_utf8_fields utf8 (updated_text_fields i us1)) (\<lambda>_.
              bindE (refuse_new_violation (Some existing) (set_fields existing us1)) (\<lambda>_.
                (let d' = put_updated (ns, i) us (updated_row sha us1 existing) (prunes_vector us existing) d
                 in Inr (d', db_get i ns d')))))))"

section \<open>Deletes and counters\<close>

definition db_delete :: "string \<Rightarrow> string \<Rightarrow> db \<Rightarrow> db \<times> bool" where
  "db_delete i ns d =
     (let deleted = map_of (rows d) (ns, i) \<noteq> None;
          d1 = d\<lparr>rows := drop_key (ns, i) (rows d)\<rparr>
      in if deleted
         then (purge_postings_for ns [i] (purge_edges_for ns [i]
                 (fts_delete_row (ns, i) (delete_vector (ns, i) (note_delete d1)))), True)
         else (d1, False))"

definition existing_ids :: "string list \<Rightarrow> string \<Rightarrow> db \<Rightarrow> string list" where
  "existing_ids ids ns d = filter (\<lambda>i. map_of (rows d) (ns, i) \<noteq> None) (uniq ids)"

definition db_delete_many :: "string list \<Rightarrow> string \<Rightarrow> db \<Rightarrow> db \<times> nat" where
  "db_delete_many ids ns d =
     (let gone = sort (existing_ids ids ns d)
      in if gone = [] then (d, 0)
         else (let d1 = d\<lparr>rows := filter (\<lambda>((n, i), _). \<not> (n = ns \<and> i \<in> set gone)) (rows d)\<rparr>
               in (purge_postings_for ns gone (purge_edges_for ns gone (purge_fts_rows_for ns gone
                     (purge_vectors_for ns gone (note_delete d1)))), length gone)))"

definition max_counter :: int where "max_counter = 1000000000"

definition touch_row :: "(memory_entry \<Rightarrow> memory_entry) \<Rightarrow> key \<Rightarrow> db \<Rightarrow> db" where
  "touch_row f k d =
     (case map_of (rows d) k of None \<Rightarrow> d | Some e \<Rightarrow> d\<lparr>rows := dict_set k (f e) (rows d)\<rparr>)"

definition recall_bump :: "int \<Rightarrow> memory_entry \<Rightarrow> memory_entry" where
  "recall_bump now e =
     e\<lparr>access_count := min (access_count e + 1) max_counter,
       recall_count := min (recall_count e + 1) max_counter, last_accessed_at := Some now\<rparr>"

definition session_bump :: "memory_entry \<Rightarrow> memory_entry" where
  "session_bump e = e\<lparr>session_count := min (session_count e + 1) max_counter\<rparr>"

definition increment_recall_access :: "string list \<Rightarrow> string \<Rightarrow> int \<Rightarrow> db \<Rightarrow> db \<times> nat" where
  "increment_recall_access ids ns now d =
     (let hit = filter (\<lambda>i. map_of (rows d) (ns, i) \<noteq> None) (uniq ids)
      in (foldl (\<lambda>acc i. touch_row (recall_bump now) (ns, i) acc) d hit, length hit))"

definition increment_session_counts :: "string list \<Rightarrow> string \<Rightarrow> db \<Rightarrow> db \<times> nat" where
  "increment_session_counts ids ns d =
     (let hit = filter (\<lambda>i. map_of (rows d) (ns, i) \<noteq> None) ids
      in (foldl (\<lambda>acc i. touch_row session_bump (ns, i) acc) d hit, length hit))"

end
