(* ===== verification/Ledger.thy ===== *)
theory Ledger
  imports Evidence
begin

text \<open>
  The append-only quarantine ledger of \<^verbatim>\<open>security/quarantine_ledger.py\<close>. The table is the list of
  its rows in the order of their \<open>seq\<close>; the triggers that refuse UPDATE, DELETE and REPLACE
  leave \<open>append\<close> as the only write. The SHA-256 content hash is the parameter \<open>chash\<close>. The
  process-wide index cache keyed on the file's identity is not modelled: \<open>build_index\<close> is what
  a rebuild computes.
\<close>

section \<open>Identities and rows\<close>

datatype ledger_decision = Quarantined | Approved | Rejected

datatype ledger_key = IdKey string string | SrcKey string | HashKey string

record ledger_identity =
  li_namespace :: string
  li_entry_id :: string
  li_source_id :: string
  li_derived :: "string list"
  li_hash :: string

record ledger_row =
  lr_seq :: nat
  lr_identity :: ledger_identity
  lr_episode :: nat
  lr_decision :: ledger_decision
  lr_reason :: string
  lr_actor :: string
  lr_recorded_at :: int

definition row_blocks :: "ledger_row \<Rightarrow> bool" where
  "row_blocks r \<longleftrightarrow> lr_decision r \<in> {Quarantined, Rejected}"

definition source_of :: "memory_entry \<Rightarrow> string" where
  "source_of e = dict_get (metadata e) ''source_learning_id'' []"

definition identity_of ::
  "(string \<Rightarrow> string) \<Rightarrow> memory_entry \<Rightarrow> string \<Rightarrow> string list \<Rightarrow> ledger_identity" where
  "identity_of chash e source derived =
     \<lparr>li_namespace = namespace e, li_entry_id = eid e,
      li_source_id = (if source \<noteq> [] then source else source_of e),
      li_derived = derived, li_hash = chash (content e @ detail e)\<rparr>"

definition identity_keys :: "ledger_identity \<Rightarrow> ledger_key list" where
  "identity_keys i =
     [IdKey (li_namespace i) (li_entry_id i)]
     @ map (IdKey (li_namespace i)) (filter (\<lambda>d. d \<noteq> []) (li_derived i))
     @ (if li_source_id i \<noteq> [] then [SrcKey (li_source_id i)] else [])
     @ (if li_hash i \<noteq> [] then [HashKey (li_hash i)] else [])"

definition entry_identity_keys :: "(string \<Rightarrow> string) \<Rightarrow> memory_entry \<Rightarrow> ledger_key list" where
  "entry_identity_keys chash e =
     [IdKey (namespace e) (eid e)]
     @ (if source_of e \<noteq> [] then [SrcKey (source_of e)] else [])
     @ (case remote_id e of Some r \<Rightarrow> if r \<noteq> [] then [SrcKey r] else [] | None \<Rightarrow> [])
     @ [HashKey (chash (content e @ detail e))]"

text \<open>
  The \<open>derived_ids\<close> column holds the ids joined by newlines, and \<open>_row\<close> splits it again,
  dropping empty parts: this is the identity a stored row reads back as.
\<close>

definition reload_derived :: "string list \<Rightarrow> string list" where
  "reload_derived ds = filter (\<lambda>p. p \<noteq> []) (split_char CHR 0x0A (str_join [CHR 0x0A] ds))"

definition stored_identity :: "ledger_identity \<Rightarrow> ledger_identity" where
  "stored_identity i = i\<lparr>li_derived := reload_derived (li_derived i)\<rparr>"

section \<open>The ledger's operations\<close>

type_synonym ledger = "ledger_row list"

text \<open>\<open>_latest_in\<close>: the scan under the write lock, keeping the row of the highest \<open>seq\<close>.\<close>

definition names_any :: "ledger_key list \<Rightarrow> ledger_row \<Rightarrow> bool" where
  "names_any keys r \<longleftrightarrow> set keys \<inter> set (identity_keys (lr_identity r)) \<noteq> {}"

fun latest_scan :: "ledger_key list \<Rightarrow> ledger_row option \<Rightarrow> ledger \<Rightarrow> ledger_row option" where
  "latest_scan keys best [] = best"
| "latest_scan keys best (r # rs) =
     latest_scan keys
       (if (case best of None \<Rightarrow> True | Some b \<Rightarrow> lr_seq b < lr_seq r) \<and> names_any keys r
        then Some r else best) rs"

definition latest_in :: "ledger \<Rightarrow> ledger_key list \<Rightarrow> ledger_row option" where
  "latest_in L keys = latest_scan keys None L"

definition next_seq :: "ledger \<Rightarrow> nat" where
  "next_seq L = Suc (max_from 0 (map lr_seq L))"

definition append_episode :: "ledger \<Rightarrow> ledger_identity \<Rightarrow> ledger_decision \<Rightarrow> nat" where
  "append_episode L i d =
     (case latest_in L (identity_keys i) of
        None \<Rightarrow> 1
      | Some r \<Rightarrow> (if d = Quarantined \<and> lr_decision r \<noteq> Quarantined then Suc (lr_episode r)
                  else lr_episode r))"

definition ledger_append ::
  "ledger \<Rightarrow> ledger_identity \<Rightarrow> ledger_decision \<Rightarrow> string \<Rightarrow> string \<Rightarrow> int \<Rightarrow> ledger" where
  "ledger_append L i d actor reason now =
     L @ [\<lparr>lr_seq = next_seq L, lr_identity = stored_identity i, lr_episode = append_episode L i d,
           lr_decision = d, lr_reason = reason, lr_actor = actor, lr_recorded_at = now\<rparr>]"

text \<open>\<open>_build_index\<close>: ascending \<open>seq\<close>, a later row replaces an earlier one per key.\<close>

type_synonym ledger_index = "(ledger_key, ledger_row) dict"

fun index_row :: "ledger_row \<Rightarrow> ledger_key list \<Rightarrow> ledger_index \<Rightarrow> ledger_index" where
  "index_row r [] ix = ix"
| "index_row r (k # ks) ix = index_row r ks (dict_set k r ix)"

fun index_rows :: "ledger \<Rightarrow> ledger_index \<Rightarrow> ledger_index" where
  "index_rows [] ix = ix"
| "index_rows (r # rs) ix = index_rows rs (index_row r (identity_keys (lr_identity r)) ix)"

definition build_index :: "ledger \<Rightarrow> ledger_index" where
  "build_index L = index_rows L []"

fun max_seq_row :: "ledger_row option \<Rightarrow> ledger_row list \<Rightarrow> ledger_row option" where
  "max_seq_row best [] = best"
| "max_seq_row best (r # rs) =
     max_seq_row (case best of None \<Rightarrow> Some r | Some b \<Rightarrow> Some (if lr_seq b < lr_seq r then r else b)) rs"

definition latest_decision :: "ledger \<Rightarrow> ledger_key list \<Rightarrow> ledger_row option" where
  "latest_decision L keys = max_seq_row None (List.map_filter (map_of (build_index L)) keys)"

definition blocks_keys :: "ledger \<Rightarrow> ledger_key list \<Rightarrow> bool" where
  "blocks_keys L keys \<longleftrightarrow>
     list_ex (\<lambda>k. case map_of (build_index L) k of Some r \<Rightarrow> row_blocks r | None \<Rightarrow> False) keys"

definition blocks :: "(string \<Rightarrow> string) \<Rightarrow> ledger \<Rightarrow> memory_entry \<Rightarrow> bool" where
  "blocks chash L e = blocks_keys L (entry_identity_keys chash e)"

definition ledger_filter ::
  "(string \<Rightarrow> string) \<Rightarrow> ledger \<Rightarrow> memory_entry list \<Rightarrow> memory_entry list" where
  "ledger_filter chash L es =
     (if build_index L = [] then es else filter (\<lambda>e. \<not> blocks chash L e) es)"

definition entry_filter ::
  "(string \<Rightarrow> string) \<Rightarrow> ledger \<Rightarrow> (memory_entry \<Rightarrow> bool) option \<Rightarrow> (memory_entry \<Rightarrow> bool) option" where
  "entry_filter chash L inner =
     (if build_index L = [] then inner
      else (case inner of
              None \<Rightarrow> Some (\<lambda>e. \<not> blocks chash L e)
            | Some f \<Rightarrow> Some (\<lambda>e. \<not> blocks chash L e \<and> f e)))"

text \<open>The ledgers a process can see: the empty file, then appends.\<close>

inductive recorded :: "ledger \<Rightarrow> bool" where
  recorded_empty: "recorded []"
| recorded_append: "recorded L \<Longrightarrow> recorded (ledger_append L i d actor reason now)"

section \<open>The index and the scan agree\<close>

lemma max_from_Suc_greater: "r \<in> set L \<Longrightarrow> lr_seq r < next_seq L"
proof -
  assume "r \<in> set L"
  then have "lr_seq r \<le> max_from 0 (map lr_seq L)"
    using max_from_le_iff [of 0 "map lr_seq L" "max_from 0 (map lr_seq L)"] by auto
  then show ?thesis by (simp add: next_seq_def)
qed

lemma recorded_sorted: "recorded L \<Longrightarrow> sorted_wrt (\<lambda>a b. lr_seq a < lr_seq b) L"
proof (induction rule: recorded.induct)
  case recorded_empty
  show ?case by simp
next
  case (recorded_append L i d actor reason now)
  then show ?case by (auto simp: ledger_append_def sorted_wrt_append dest: max_from_Suc_greater)
qed

text \<open>The last row that satisfies a predicate: what both the scan and the index look up.\<close>

definition last_row :: "(ledger_row \<Rightarrow> bool) \<Rightarrow> ledger \<Rightarrow> ledger_row option" where
  "last_row p L = find p (rev L)"

lemma last_row_append [simp]:
  "last_row p (L @ [r]) = (if p r then Some r else last_row p L)" "last_row p [] = None"
  by (simp_all add: last_row_def)

lemma last_row_SomeD: "last_row p L = Some r \<Longrightarrow> r \<in> set L \<and> p r"
  by (induction L rule: rev_induct) (auto split: if_splits)

lemma last_row_None_iff: "last_row p L = None \<longleftrightarrow> (\<forall>r \<in> set L. \<not> p r)"
  by (auto simp: last_row_def find_None_iff)

lemma latest_scan_append:
  "latest_scan keys best (L @ [r]) =
    (let b = latest_scan keys best L
     in if (case b of None \<Rightarrow> True | Some x \<Rightarrow> lr_seq x < lr_seq r) \<and> names_any keys r then Some r else b)"
  by (induction L arbitrary: best) (simp_all add: Let_def)

lemma latest_in_last_row:
  "sorted_wrt (\<lambda>a b. lr_seq a < lr_seq b) L \<Longrightarrow> latest_in L keys = last_row (names_any keys) L"
proof (induction L rule: rev_induct)
  case Nil
  show ?case by (simp add: latest_in_def)
next
  case (snoc r L)
  then have "latest_scan keys None L = last_row (names_any keys) L"
    and "\<forall>x \<in> set L. lr_seq x < lr_seq r"
    by (simp_all add: latest_in_def sorted_wrt_append)
  then show ?case
    by (auto simp: latest_in_def latest_scan_append Let_def split: option.splits dest: last_row_SomeD)
qed

lemma map_of_index_row: "map_of (index_row r ks ix) k = (if k \<in> set ks then Some r else map_of ix k)"
  by (induction ks arbitrary: ix) auto

lemma index_rows_append: "index_rows (L @ [r]) ix = index_row r (identity_keys (lr_identity r)) (index_rows L ix)"
  by (induction L arbitrary: ix) simp_all

lemma map_of_build_index: "map_of (build_index L) k = last_row (\<lambda>r. k \<in> set (identity_keys (lr_identity r))) L"
  by (induction L rule: rev_induct) (auto simp: build_index_def index_rows_append map_of_index_row)

lemma build_index_empty_iff: "build_index L = [] \<longleftrightarrow> L = []"
proof (cases L)
  case (Cons r rs)
  then have "last_row (\<lambda>x. IdKey (li_namespace (lr_identity r)) (li_entry_id (lr_identity r))
      \<in> set (identity_keys (lr_identity x))) L \<noteq> None"
    by (auto simp: last_row_None_iff identity_keys_def)
  with Cons show ?thesis
    using map_of_build_index [of L "IdKey (li_namespace (lr_identity r)) (li_entry_id (lr_identity r))"]
    by (cases "build_index L") auto
qed (simp add: build_index_def)

lemma max_seq_row_spec:
  assumes "max_seq_row best rs = m"
  shows "(m = None \<longleftrightarrow> best = None \<and> rs = [])
    \<and> (\<forall>x. m = Some x \<longrightarrow> (best = Some x \<or> x \<in> set rs)
        \<and> (\<forall>y. best = Some y \<or> y \<in> set rs \<longrightarrow> lr_seq y \<le> lr_seq x))"
  using assms
proof (induction rs arbitrary: best)
  case (Cons r rs)
  have "max_seq_row (Some (case best of None \<Rightarrow> r | Some b \<Rightarrow> if lr_seq b < lr_seq r then r else b)) rs = m"
    using Cons.prems by (cases best) simp_all
  from Cons.IH [OF this] show ?case by (cases best) (fastforce split: if_splits)+
qed auto

lemma seq_inj:
  "sorted_wrt (\<lambda>a b. lr_seq a < lr_seq b) L \<Longrightarrow> a \<in> set L \<Longrightarrow> b \<in> set L \<Longrightarrow> lr_seq a = lr_seq b \<Longrightarrow> a = b"
  by (induction L) auto

lemma last_row_max:
  "sorted_wrt (\<lambda>a b. lr_seq a < lr_seq b) L \<Longrightarrow> last_row p L = Some r \<Longrightarrow> x \<in> set L \<Longrightarrow> p x
    \<Longrightarrow> lr_seq x \<le> lr_seq r"
  by (induction L rule: rev_induct) (auto simp: sorted_wrt_append split: if_splits dest: last_row_SomeD less_imp_le)

lemma latest_decision_last_row:
  assumes sorted: "sorted_wrt (\<lambda>a b. lr_seq a < lr_seq b) L"
  shows "latest_decision L keys = last_row (names_any keys) L"
proof -
  let ?hits = "List.map_filter (map_of (build_index L)) keys"
  have hit_iff: "r \<in> set ?hits \<longleftrightarrow>
      (\<exists>k \<in> set keys. last_row (\<lambda>x. k \<in> set (identity_keys (lr_identity x))) L = Some r)" for r
    by (force simp: map_filter_def map_of_build_index)
  show ?thesis
  proof (cases "last_row (names_any keys) L")
    case None
    then have "?hits = []"
      using hit_iff by (metis (mono_tags, lifting) IntI empty_iff last_row_None_iff last_row_SomeD
          names_any_def list.set_intros(1) neq_Nil_conv)
    then show ?thesis using None by (simp add: latest_decision_def)
  next
    case (Some r)
    then have r: "r \<in> set L" "names_any keys r" by (auto dest: last_row_SomeD)
    then obtain k where k: "k \<in> set keys" "k \<in> set (identity_keys (lr_identity r))"
      by (auto simp: names_any_def)
    obtain r' where r': "last_row (\<lambda>x. k \<in> set (identity_keys (lr_identity x))) L = Some r'"
      using k(2) r(1) by (metis (mono_tags, lifting) last_row_None_iff not_None_eq)
    then have "r' \<in> set L" "names_any keys r'"
      using k(1) by (auto dest!: last_row_SomeD simp: names_any_def)
    with Some sorted have "lr_seq r' \<le> lr_seq r" by (blast intro: last_row_max)
    moreover have "lr_seq r \<le> lr_seq r'" using last_row_max [OF sorted r'] r(1) k(2) by blast
    ultimately have "r' = r" using seq_inj [OF sorted \<open>r' \<in> set L\<close> r(1)] by simp
    with r' k(1) have "r \<in> set ?hits" using hit_iff by blast
    moreover have "x \<in> set L \<and> lr_seq x \<le> lr_seq r" if "x \<in> set ?hits" for x
    proof -
      from that obtain k' where "k' \<in> set keys"
        "last_row (\<lambda>y. k' \<in> set (identity_keys (lr_identity y))) L = Some x"
        using hit_iff by blast
      then have "x \<in> set L" "names_any keys x" by (auto dest!: last_row_SomeD simp: names_any_def)
      with Some sorted show ?thesis by (blast intro: last_row_max)
    qed
    ultimately show ?thesis
      using max_seq_row_spec [OF refl, of None ?hits] Some seq_inj [OF sorted _ r(1)]
      unfolding latest_decision_def
      by (metis (no_types, lifting) empty_iff le_antisym list.set(1) not_None_eq option.distinct(1))
  qed
qed

section \<open>Blocking\<close>

lemma blocks_keys_iff:
  "blocks_keys L keys \<longleftrightarrow>
    (\<exists>k \<in> set keys. \<exists>r. last_row (\<lambda>x. k \<in> set (identity_keys (lr_identity x))) L = Some r \<and> row_blocks r)"
  by (auto simp: blocks_keys_def list_ex_iff map_of_build_index split: option.splits)

lemma blocks_keys_append:
  "blocks_keys (ledger_append L i d actor reason now) keys \<longleftrightarrow>
    (d \<noteq> Approved \<and> set keys \<inter> set (identity_keys (stored_identity i)) \<noteq> {})
    \<or> blocks_keys L (filter (\<lambda>k. k \<notin> set (identity_keys (stored_identity i))) keys)"
  by (cases d) (auto simp: blocks_keys_iff ledger_append_def row_blocks_def)

lemma ledger_filter_iff: "e \<in> set (ledger_filter chash L es) \<longleftrightarrow> e \<in> set es \<and> \<not> blocks chash L e"
  by (auto simp: ledger_filter_def blocks_def blocks_keys_iff build_index_empty_iff)

lemma ledger_filter_eq: "ledger_filter chash L es = filter (\<lambda>e. \<not> blocks chash L e) es"
  by (auto simp: ledger_filter_def blocks_def blocks_keys_iff build_index_empty_iff)

lemma split_join_newline:
  "\<forall>w \<in> set ws. CHR 0x0A \<notin> set w \<Longrightarrow> reload_derived ws = filter (\<lambda>d. d \<noteq> []) ws"
proof -
  have split_plain: "split_char c w = [w]" if "c \<notin> set w" for c w
    using that by (induction w) auto
  have split_app: "split_char c (w @ c # s) = w # split_char c s" if "c \<notin> set w" for c w s
    using that by (induction w) auto
  assume "\<forall>w \<in> set ws. CHR 0x0A \<notin> set w"
  then show ?thesis
    unfolding reload_derived_def
    by (induction "[CHR 0x0A]" ws rule: str_join.induct) (simp_all add: split_plain split_app)
qed

lemma identity_keys_stored:
  "\<forall>d \<in> set (li_derived i). CHR 0x0A \<notin> set d \<Longrightarrow> identity_keys (stored_identity i) = identity_keys i"
  by (simp add: identity_keys_def stored_identity_def split_join_newline)

section \<open>Properties\<close>

type_synonym ledger_event = "ledger_identity \<times> ledger_decision \<times> string \<times> string \<times> int"

fun ledger_run :: "ledger \<Rightarrow> ledger_event list \<Rightarrow> ledger" where
  "ledger_run L [] = L"
| "ledger_run L ((i, d, actor, reason, now) # evs) = ledger_run (ledger_append L i d actor reason now) evs"

lemma recorded_run: "recorded L \<Longrightarrow> recorded (ledger_run L evs)"
  by (induction L evs rule: ledger_run.induct) (auto intro: recorded_append)

text \<open>
  The two ways the source finds the latest decision for an identity - the scan that
  \<open>append\<close> makes under the write lock and the per-key index every read uses - return the same
  row on every ledger that appends can produce.
\<close>

theorem ledger_lookup_agrees:
  assumes "recorded L"
  shows "latest_decision L keys = latest_in L keys"
  using recorded_sorted [OF assms] by (simp add: latest_decision_last_row latest_in_last_row)

definition id_x :: ledger_identity where
  "id_x = \<lparr>li_namespace = ''default'', li_entry_id = ''M-1'', li_source_id = ''L-9'',
           li_derived = [''M-2''], li_hash = ''h1''\<rparr>"

theorem ledger_lookup_agrees_witness:
  "latest_decision (ledger_run [] [(id_x, Quarantined, ''a'', ''r'', 1), (id_x, Approved, ''b'', [], 2)]) [SrcKey ''L-9'']
     = latest_in (ledger_run [] [(id_x, Quarantined, ''a'', ''r'', 1), (id_x, Approved, ''b'', [], 2)]) [SrcKey ''L-9'']"
  using ledger_lookup_agrees [OF recorded_run [OF recorded_empty]] .

lemma blocks_append_mono:
  assumes "blocks chash L e"
    and "d \<noteq> Approved \<or> set (entry_identity_keys chash e) \<inter> set (identity_keys (stored_identity i)) = {}"
  shows "blocks chash (ledger_append L i d actor reason now) e"
proof (cases "set (entry_identity_keys chash e) \<inter> set (identity_keys (stored_identity i)) = {}")
  case True
  then have "filter (\<lambda>k. k \<notin> set (identity_keys (stored_identity i))) (entry_identity_keys chash e)
      = entry_identity_keys chash e"
    by (auto simp: filter_id_conv)
  with assms(1) show ?thesis by (simp add: blocks_def blocks_keys_append)
next
  case False
  with assms(2) show ?thesis by (auto simp: blocks_def blocks_keys_append)
qed

text \<open>
  C3: a blocking decision blocks, at once and durably. After a quarantine or a rejection every
  entry that answers to any key of the recorded identity is blocked, and it stays blocked
  through any later appends as long as none of them approves an identity that shares a key
  with it.
\<close>

theorem quarantine_blocks_until_approved:
  assumes "d \<noteq> Approved" and "\<forall>x \<in> set (li_derived i). CHR 0x0A \<notin> set x"
    and "set (entry_identity_keys chash e) \<inter> set (identity_keys i) \<noteq> {}"
    and "\<forall>(j, d', _) \<in> set evs. d' \<noteq> Approved
           \<or> set (entry_identity_keys chash e) \<inter> set (identity_keys (stored_identity j)) = {}"
  shows "blocks chash (ledger_run (ledger_append L i d actor reason now) evs) e"
proof -
  have "blocks chash (ledger_append L i d actor reason now) e"
    using assms(1,3) identity_keys_stored [OF assms(2)] by (auto simp: blocks_def blocks_keys_append)
  then show ?thesis using assms(4)
    by (induction "ledger_append L i d actor reason now" evs arbitrary: L i d actor reason now
          rule: ledger_run.induct) (force intro: blocks_append_mono)+
qed

theorem quarantine_blocks_until_approved_witness:
  "blocks (\<lambda>s. ''h1'')
     (ledger_run (ledger_append [] id_x Quarantined ''a'' ''r'' 1)
        [(id_x\<lparr>li_entry_id := ''M-7'', li_source_id := [], li_derived := [], li_hash := ''h9''\<rparr>,
          Approved, ''b'', [], 2)])
     (new_entry ''M-5'' ''text'' 0)"
  by (rule quarantine_blocks_until_approved)
    (simp_all add: id_x_def entry_identity_keys_def identity_keys_def new_entry_def source_of_def
      stored_identity_def reload_derived_def)

text \<open>
  An approval releases exactly what it names. An entry all of whose keys the approved
  identity covers is no longer blocked; an entry that shares no key with it is blocked
  precisely if it was before.
\<close>

theorem approval_releases_only_named:
  "(set (entry_identity_keys chash e) \<subseteq> set (identity_keys (stored_identity i))
      \<longrightarrow> \<not> blocks chash (ledger_append L i Approved actor reason now) e)
   \<and> (set (entry_identity_keys chash e) \<inter> set (identity_keys (stored_identity i)) = {}
      \<longrightarrow> blocks chash (ledger_append L i d actor reason now) e = blocks chash L e)"
proof (intro conjI impI)
  assume "set (entry_identity_keys chash e) \<subseteq> set (identity_keys (stored_identity i))"
  then have "filter (\<lambda>k. k \<notin> set (identity_keys (stored_identity i))) (entry_identity_keys chash e) = []"
    by (auto simp: filter_empty_conv)
  then show "\<not> blocks chash (ledger_append L i Approved actor reason now) e"
    by (simp add: blocks_def blocks_keys_append) (simp add: blocks_keys_iff)
next
  assume "set (entry_identity_keys chash e) \<inter> set (identity_keys (stored_identity i)) = {}"
  then have "filter (\<lambda>k. k \<notin> set (identity_keys (stored_identity i))) (entry_identity_keys chash e)
      = entry_identity_keys chash e" "set (entry_identity_keys chash e) \<inter> set (identity_keys (stored_identity i)) = {}"
    by (auto simp: filter_id_conv)
  then show "blocks chash (ledger_append L i d actor reason now) e = blocks chash L e"
    by (simp add: blocks_def blocks_keys_append)
qed

theorem approval_releases_only_named_witness:
  "\<not> blocks (\<lambda>s. ''h1'')
     (ledger_append (ledger_append [] id_x Quarantined ''a'' ''r'' 1) id_x Approved ''b'' [] 2)
     (new_entry ''M-1'' ''text'' 0)"
  using approval_releases_only_named [of "\<lambda>s. ''h1''" "new_entry ''M-1'' ''text'' 0" id_x]
  by (auto simp: id_x_def entry_identity_keys_def identity_keys_def new_entry_def source_of_def
      stored_identity_def)

end
