(* ===== verification/Backend.thy ===== *)
theory Backend
  imports Database Ledger
begin

text \<open>
  The SQLite backend as its callers see it (\<^verbatim>\<open>storage/sqlite_backend.py\<close>): the row operations of
  \<^verbatim>\<open>Database\<close> behind the quarantine ledger and the served view. A body run inside
  \<open>transaction()\<close> either commits its state or raises and leaves the old state, which is what
  returning the new state on the right and an error on the left of a sum says.
\<close>

record env =
  env_utf8 :: "string \<Rightarrow> bool"
  env_sha :: "hash_view \<Rightarrow> string"
  env_chash :: "string \<Rightarrow> string"
  env_rev :: "memory_entry \<Rightarrow> string"

record backend =
  b_db :: db
  b_ledger :: "ledger option"

definition quarantine_blocks :: "env \<Rightarrow> backend \<Rightarrow> memory_entry \<Rightarrow> bool" where
  "quarantine_blocks v b e = (case b_ledger b of None \<Rightarrow> False | Some L \<Rightarrow> blocks (env_chash v) L e)"

definition quarantine_admits :: "env \<Rightarrow> backend \<Rightarrow> memory_entry \<Rightarrow> memory_entry option" where
  "quarantine_admits v b e = (if quarantine_blocks v b e then None else Some e)"

definition filter_quarantined :: "env \<Rightarrow> backend \<Rightarrow> memory_entry list \<Rightarrow> memory_entry list" where
  "filter_quarantined v b es =
     (case b_ledger b of None \<Rightarrow> es | Some L \<Rightarrow> ledger_filter (env_chash v) L es)"

definition backend_get :: "env \<Rightarrow> backend \<Rightarrow> string \<Rightarrow> string \<Rightarrow> memory_entry option" where
  "backend_get v b i ns =
     (case db_get i ns (b_db b) of None \<Rightarrow> None | Some e \<Rightarrow> quarantine_admits v b (served_view e))"

definition backend_store :: "env \<Rightarrow> backend \<Rightarrow> memory_entry \<Rightarrow> (schema_error, backend) result" where
  "backend_store v b e = bindE (db_store (env_utf8 v) (env_sha v) e (b_db b)) (\<lambda>d. Inr (b\<lparr>b_db := d\<rparr>))"

definition backend_update ::
  "env \<Rightarrow> int \<Rightarrow> backend \<Rightarrow> string \<Rightarrow> string \<Rightarrow> field_update list
     \<Rightarrow> (schema_error, backend \<times> memory_entry option) result" where
  "backend_update v now b i ns us =
     (if b_ledger b \<noteq> None \<and> backend_get v b i ns = None then Inr (b, None)
      else bindE (db_update (env_utf8 v) (env_sha v) now i ns us (b_db b)) (\<lambda>(d, r).
             (let b' = b\<lparr>b_db := d\<rparr>
              in Inr (b', Option.bind r (\<lambda>e. quarantine_admits v b' (served_view e))))))"

definition backend_delete :: "backend \<Rightarrow> string \<Rightarrow> string \<Rightarrow> backend \<times> bool" where
  "backend_delete b i ns = (let (d, r) = db_delete i ns (b_db b) in (b\<lparr>b_db := d\<rparr>, r))"

text \<open>
  \<open>revision_of\<close>: the hash of the row less its bookkeeping fields, which \<open>model_dump\<close> excludes.
\<close>

definition revision_view :: "memory_entry \<Rightarrow> memory_entry" where
  "revision_view e = e\<lparr>access_count := 0, last_accessed_at := None, last_synced_at := None,
     recall_count := 0, session_count := 0, sync_hash := [], sync_seq := 0\<rparr>"

definition revision_of :: "env \<Rightarrow> memory_entry option \<Rightarrow> string option" where
  "revision_of v e = map_option (\<lambda>x. env_rev v (revision_view x)) e"

text \<open>The vector side of the store (\<open>vector_exists\<close>, \<open>upsert_vector\<close>, \<open>delete_vector\<close>).\<close>

definition vector_exists :: "backend \<Rightarrow> string \<Rightarrow> string \<Rightarrow> bool" where
  "vector_exists b i ns \<longleftrightarrow> map_of (vectors (b_db b)) (ns, i) \<noteq> None"

definition upsert_vector :: "backend \<Rightarrow> string \<Rightarrow> string \<Rightarrow> rat list \<Rightarrow> backend" where
  "upsert_vector b i ns vec = b\<lparr>b_db := (b_db b)\<lparr>vectors := dict_set (ns, i) vec (vectors (b_db b))\<rparr>\<rparr>"

definition remove_vector :: "backend \<Rightarrow> string \<Rightarrow> string \<Rightarrow> backend" where
  "remove_vector b i ns = b\<lparr>b_db := Database.delete_vector (ns, i) (b_db b)\<rparr>"

section \<open>What a reader can see\<close>

lemma backend_get_SomeD:
  "backend_get v b i ns = Some e \<Longrightarrow>
    (\<exists>raw. db_get i ns (b_db b) = Some raw \<and> e = served_view raw) \<and> \<not> quarantine_blocks v b e"
  by (auto simp: backend_get_def quarantine_admits_def split: option.splits if_splits)

lemma backend_update_get:
  "backend_update v now b i ns us = Inr (b', r) \<Longrightarrow> r = backend_get v b' i ns"
proof -
  assume upd: "backend_update v now b i ns us = Inr (b', r)"
  show ?thesis
  proof (cases "b_ledger b \<noteq> None \<and> backend_get v b i ns = None")
    case True
    with upd show ?thesis by (simp add: backend_update_def)
  next
    case False
    let ?raw = "db_update (env_utf8 v) (env_sha v) now i ns us (b_db b)"
    from False upd obtain p where p: "?raw = Inr p"
      "(case p of (d, r) \<Rightarrow> let b' = b\<lparr>b_db := d\<rparr>
         in Inr (b', Option.bind r (\<lambda>e. quarantine_admits v b' (served_view e)))) =
         (Inr (b', r) :: (schema_error, backend \<times> memory_entry option) result)"
      by (cases ?raw) (auto simp: backend_update_def)
    obtain d x where "p = (d, x)" by (cases p)
    with p have d: "?raw = Inr (d, x)" and b': "b' = b\<lparr>b_db := d\<rparr>"
      and r: "r = Option.bind x (\<lambda>e. quarantine_admits v b' (served_view e))"
      by (auto simp: Let_def)
    have "x = db_get i ns d" using d
      by (auto simp: db_update_def Let_def bindE_Inr db_get_def split: if_splits option.splits)
    then show ?thesis by (simp add: r b' backend_get_def split: option.split)
  qed
qed

lemma quarantine_blocks_cong [simp]: "quarantine_blocks v (b\<lparr>b_db := d\<rparr>) e = quarantine_blocks v b e"
  by (simp add: quarantine_blocks_def)

lemma blocks_served [simp]: "quarantine_blocks v b (served_view e) = quarantine_blocks v b e"
proof -
  have "source_of (served_view e) = source_of e" by (simp add: source_of_def served_view_def demoted_key_def)
  then have "entry_identity_keys c (served_view e) = entry_identity_keys c e" for c by (simp add: entry_identity_keys_def)
  then show ?thesis by (simp add: quarantine_blocks_def blocks_def split: option.split)
qed

lemma filter_quarantined_eq: "filter_quarantined v b es = filter (\<lambda>e. \<not> quarantine_blocks v b e) es"
  by (simp add: filter_quarantined_def quarantine_blocks_def ledger_filter_eq split: option.split)

text \<open>
  C4: no read serves what the two read gates withhold. An entry that \<open>get\<close> or \<open>update\<close>
  hands out, or that survives \<open>filter_quarantined\<close>, is not blocked by the ledger, and what
  \<open>get\<close> and \<open>update\<close> hand out never presents an unsubstantiated claim as verified.
\<close>

theorem reads_serve_only_admitted:
  "(case backend_get v b i ns of Some e \<Rightarrow> \<not> quarantine_blocks v b e \<and> \<not> violates_evidence_invariant e
      | None \<Rightarrow> True)
   \<and> (case backend_update v now b i ns us of
        Inr (b', Some e) \<Rightarrow> \<not> quarantine_blocks v b' e \<and> \<not> violates_evidence_invariant e
      | _ \<Rightarrow> True)
   \<and> filter_quarantined v b es = filter (\<lambda>e. \<not> quarantine_blocks v b e) es"
proof -
  have get: "\<not> quarantine_blocks v c e \<and> \<not> violates_evidence_invariant e" if "backend_get v c i ns = Some e" for c e
    using backend_get_SomeD [OF that] served.view_safe by auto
  have upd: "case backend_update v now b i ns us of
        Inr (b', Some e) \<Rightarrow> \<not> quarantine_blocks v b' e \<and> \<not> violates_evidence_invariant e
      | _ \<Rightarrow> True"
  proof (cases "backend_update v now b i ns us")
    case (Inr p)
    obtain b' r where p: "p = (b', r)" by (cases p)
    with Inr have "r = backend_get v b' i ns" by (simp add: backend_update_get)
    with Inr p get [of b'] show ?thesis by (simp split: option.split)
  qed simp
  show ?thesis using get [of b] upd filter_quarantined_eq by (simp split: option.split)
qed

end
