(* ===== verification/DatabaseInv.thy ===== *)
theory DatabaseInv
  imports Database
begin

text \<open>
  What the row operations of \<^verbatim>\<open>Database\<close> keep true: the full-text rows with their rowid map, the
  tag postings and the anchor postings always mirror the rows, and no vector outlives its row.
\<close>

section \<open>The indexes mirror the rows\<close>

definition rows_ok :: "db \<Rightarrow> bool" where
  "rows_ok d \<longleftrightarrow> distinct (dict_keys (rows d)) \<and> (\<forall>k e. map_of (rows d) k = Some e \<longrightarrow> entry_key e = k)"

definition vectors_ok :: "db \<Rightarrow> bool" where
  "vectors_ok d \<longleftrightarrow> (\<forall>k. map_of (vectors d) k \<noteq> None \<longrightarrow> map_of (rows d) k \<noteq> None)"

definition fts_index :: "db \<Rightarrow> key \<Rightarrow> fts_row option" where
  "fts_index d k = Option.bind (map_of (fts_rowid d) k) (map_of (fts d))"

text \<open>A table of rows and a map from keys to row numbers agree: a bijection between keys and rows.\<close>

definition agree :: "('row \<Rightarrow> 'key) \<Rightarrow> ('n \<rightharpoonup> 'row) \<Rightarrow> ('key \<rightharpoonup> 'n) \<Rightarrow> bool" where
  "agree kf t m \<longleftrightarrow> (\<forall>k r. m k = Some r \<longrightarrow> (\<exists>row. t r = Some row \<and> kf row = k))
     \<and> (\<forall>r row. t r = Some row \<longrightarrow> m (kf row) = Some r)"

definition fts_key :: "fts_row \<Rightarrow> key" where
  "fts_key row = (f_namespace row, f_id row)"

definition fts_ok :: "db \<Rightarrow> bool" where
  "fts_ok d \<longleftrightarrow> distinct (dict_keys (fts d)) \<and> distinct (dict_keys (fts_rowid d))
     \<and> agree fts_key (map_of (fts d)) (map_of (fts_rowid d))"

definition fts_mirrors :: "db \<Rightarrow> bool" where
  "fts_mirrors d \<longleftrightarrow> (\<forall>k. fts_index d k = map_option fts_row_of (map_of (rows d) k))"

definition tags_mirror :: "db \<Rightarrow> bool" where
  "tags_mirror d \<longleftrightarrow> (\<forall>ns t i. (ns, t, i) \<in> set (memory_tags d)
     \<longleftrightarrow> (\<exists>e. map_of (rows d) (ns, i) = Some e \<and> t \<in> set (tags e) \<and> str_strip t \<noteq> []))"

definition anchors_mirror :: "db \<Rightarrow> bool" where
  "anchors_mirror d \<longleftrightarrow> (\<forall>ns f i. (ns, f, i) \<in> set (anchor_postings d)
     \<longleftrightarrow> (\<exists>e. map_of (rows d) (ns, i) = Some e \<and> f \<in> set (anchor_files (anchors e))))"

definition db_ok :: "db \<Rightarrow> bool" where
  "db_ok d \<longleftrightarrow> rows_ok d \<and> vectors_ok d \<and> fts_ok d \<and> fts_mirrors d \<and> tags_mirror d \<and> anchors_mirror d"

lemma db_ok_empty: "db_ok empty_db"
  by (simp add: db_ok_def empty_db_def rows_ok_def vectors_ok_def fts_ok_def fts_mirrors_def
      tags_mirror_def anchors_mirror_def fts_index_def agree_def)

subsection \<open>The full-text index\<close>

lemma max_from_0_ge: "x \<in> set xs \<Longrightarrow> x \<le> max_from (0::nat) xs"
  using max_from_le_iff [of 0 xs "max_from 0 xs"] by simp

lemma fresh_rowid: "map_of (fts d) (Suc (max_from 0 (dict_keys (fts d)))) = None"
proof -
  have "Suc (max_from 0 (dict_keys (fts d))) \<notin> set (dict_keys (fts d))"
    using max_from_0_ge by fastforce
  then show ?thesis by (metis map_of_eq_None_iff set_map)
qed

lemma fts_delete_row_frame [simp]:
  "rows (fts_delete_row k d) = rows d" "vectors (fts_delete_row k d) = vectors d"
  "memory_tags (fts_delete_row k d) = memory_tags d" "anchor_postings (fts_delete_row k d) = anchor_postings d"
  "edges (fts_delete_row k d) = edges d"
  by (simp_all add: fts_delete_row_def split: option.split)

lemma fts_insert_row_frame [simp]:
  "rows (fts_insert_row k r d) = rows d" "vectors (fts_insert_row k r d) = vectors d"
  "memory_tags (fts_insert_row k r d) = memory_tags d" "anchor_postings (fts_insert_row k r d) = anchor_postings d"
  "edges (fts_insert_row k r d) = edges d"
  by (simp_all add: fts_insert_row_def Let_def)

lemma fts_ok_cong:
  "fts d' = fts d \<Longrightarrow> fts_rowid d' = fts_rowid d \<Longrightarrow> fts_ok d' = fts_ok d"
  "fts d' = fts d \<Longrightarrow> fts_rowid d' = fts_rowid d \<Longrightarrow> fts_index d' = fts_index d"
  by (simp_all add: fts_ok_def fts_index_def fun_eq_iff)

lemma agreeI:
  "(\<And>k r. m k = Some r \<Longrightarrow> \<exists>row. t r = Some row \<and> kf row = k)
    \<Longrightarrow> (\<And>r row. t r = Some row \<Longrightarrow> m (kf row) = Some r) \<Longrightarrow> agree kf t m"
  by (simp add: agree_def)

lemma agree_row: "agree kf t m \<Longrightarrow> m k = Some r \<Longrightarrow> \<exists>row. t r = Some row \<and> kf row = k"
  by (simp add: agree_def)

lemma agree_num: "agree kf t m \<Longrightarrow> t r = Some row \<Longrightarrow> m (kf row) = Some r"
  by (simp add: agree_def)

lemma agree_inj: "agree kf t m \<Longrightarrow> m k1 = Some r \<Longrightarrow> m k2 = Some r \<Longrightarrow> k1 = k2"
  using agree_row [of kf t m k1 r] agree_row [of kf t m k2 r] by auto

lemma agree_delete:
  assumes ag: "agree kf t m" and k: "m k = Some r"
  shows "agree kf (t(r := None)) (m(k := None))"
proof (rule agreeI)
  fix k' r'
  assume "(m(k := None)) k' = Some r'"
  then have "k' \<noteq> k" "m k' = Some r'" by (auto split: if_splits)
  moreover from this have "r' \<noteq> r" using agree_inj [OF ag _ k] by blast
  ultimately show "\<exists>row. (t(r := None)) r' = Some row \<and> kf row = k'" using agree_row [OF ag] by simp
next
  fix r' row
  assume "(t(r := None)) r' = Some row"
  then have "r' \<noteq> r" "m (kf row) = Some r'" using agree_num [OF ag] by (auto split: if_splits)
  then show "(m(k := None)) (kf row) = Some r'" using k by auto
qed

lemma agree_insert:
  assumes ag: "agree kf t m" and free: "m k = None" "t r = None" and key: "kf row = k"
  shows "agree kf (t(r := Some row)) (m(k := Some r))"
proof (rule agreeI)
  fix k' r'
  assume "(m(k := Some r)) k' = Some r'"
  then show "\<exists>x. (t(r := Some row)) r' = Some x \<and> kf x = k'"
    using key free agree_row [OF ag, of k' r'] by (auto split: if_splits)
next
  fix r' x
  assume "(t(r := Some row)) r' = Some x"
  then show "(m(k := Some r)) (kf x) = Some r'"
    using key free agree_num [OF ag, of r' x] by (auto split: if_splits)
qed

lemma agree_purge:
  assumes ag: "agree kf t m"
  shows "agree kf (\<lambda>r. if \<exists>k. P k \<and> m k = Some r then None else t r) (\<lambda>k. if P k then None else m k)"
proof (rule agreeI)
  fix k r
  assume "(if P k then None else m k) = Some r"
  then have "\<not> P k" "m k = Some r" by (auto split: if_splits)
  moreover from this have "\<not> (\<exists>k'. P k' \<and> m k' = Some r)" using agree_inj [OF ag] by blast
  ultimately show "\<exists>row. (if \<exists>k. P k \<and> m k = Some r then None else t r) = Some row \<and> kf row = k"
    using agree_row [OF ag] by simp
next
  fix r row
  assume "(if \<exists>k. P k \<and> m k = Some r then None else t r) = Some row"
  then have "\<not> (\<exists>k. P k \<and> m k = Some r)" "t r = Some row" by (auto split: if_splits)
  then show "(if P (kf row) then None else m (kf row)) = Some r" using agree_num [OF ag] by auto
qed
lemma map_of_drop_key_fun: "map_of (drop_key k d) = (map_of d)(k := None)"
  by (simp add: fun_eq_iff)

lemma fts_delete_row_ok:
  assumes ok: "fts_ok d"
  shows "fts_ok (fts_delete_row k d)"
    and "fts_index (fts_delete_row k d) k' = (if k' = k then None else fts_index d k')"
    and "map_of (fts_rowid (fts_delete_row k d)) k = None"
proof -
  have "fts_ok (fts_delete_row k d)
      \<and> fts_index (fts_delete_row k d) k' = (if k' = k then None else fts_index d k')
      \<and> map_of (fts_rowid (fts_delete_row k d)) k = None"
  proof (cases "map_of (fts_rowid d) k")
    case None
    with ok show ?thesis by (simp add: fts_delete_row_def fts_index_def)
  next
    case (Some r)
    have ag: "agree fts_key (map_of (fts d)) (map_of (fts_rowid d))" using ok by (simp add: fts_ok_def)
    have "fts_index (fts_delete_row k d) k' = (if k' = k then None else fts_index d k')"
      using Some agree_inj [OF ag Some, of k'] by (cases "map_of (fts_rowid d) k'") (auto simp: fts_delete_row_def fts_index_def)
    moreover have "fts_ok (fts_delete_row k d)"
      using ok Some agree_delete [OF ag Some] by (simp add: fts_ok_def fts_delete_row_def map_of_drop_key_fun)
    ultimately show ?thesis using Some by (simp add: fts_delete_row_def)
  qed
  then show "fts_ok (fts_delete_row k d)"
    and "fts_index (fts_delete_row k d) k' = (if k' = k then None else fts_index d k')"
    and "map_of (fts_rowid (fts_delete_row k d)) k = None" by blast+
qed

lemma map_of_snoc_fresh: "map_of d k = None \<Longrightarrow> map_of (d @ [(k, v)]) = (map_of d)(k := Some v)"
  by (auto simp: fun_eq_iff map_add_def split: option.splits)

lemma map_of_dict_set_fun: "map_of (dict_set k v d) = (map_of d)(k := Some v)"
  by (simp add: fun_eq_iff)

lemma fts_insert_row_ok:
  assumes ok: "fts_ok d" and free: "map_of (fts_rowid d) k = None"
    and key: "fts_key row = k"
  shows "fts_ok (fts_insert_row k row d)"
    and "fts_index (fts_insert_row k row d) k' = (if k' = k then Some row else fts_index d k')"
proof -
  let ?r = "Suc (max_from 0 (dict_keys (fts d)))"
  have fresh: "map_of (fts d) ?r = None" by (rule fresh_rowid)
  then have notin: "?r \<notin> set (dict_keys (fts d))" by (metis map_of_eq_None_iff set_map)
  have ag: "agree fts_key (map_of (fts d)) (map_of (fts_rowid d))" using ok by (simp add: fts_ok_def)
  have unused: "map_of (fts_rowid d) k' \<noteq> Some ?r"
    using agree_row [OF ag, of k' ?r] fresh by auto
  have "distinct (dict_keys (fts d @ [(?r, row)]))" using ok notin by (simp add: fts_ok_def del: set_map)
  then show "fts_ok (fts_insert_row k row d)"
    using ok agree_insert [OF ag free fresh key]
    unfolding fts_ok_def fts_insert_row_def Let_def
    by (simp add: map_of_snoc_fresh [OF fresh] map_of_dict_set_fun del: map_of_append map_append)
  show "fts_index (fts_insert_row k row d) k' = (if k' = k then Some row else fts_index d k')"
    using unused unfolding fts_index_def fts_insert_row_def Let_def
    by (cases "map_of (fts_rowid d) k'") (simp_all add: map_of_snoc_fresh [OF fresh] del: map_of_append)
qed

text \<open>Replacing the full-text row of one key: what \<open>store\<close> and \<open>update\<close> do.\<close>

lemma fts_replace_ok:
  assumes "fts_ok d" and "fts_key row = k"
  shows "fts_ok (fts_insert_row k row (fts_delete_row k d))"
    and "fts_index (fts_insert_row k row (fts_delete_row k d)) k' = (if k' = k then Some row else fts_index d k')"
  using fts_insert_row_ok [OF fts_delete_row_ok(1,3) [OF assms(1)] assms(2)] fts_delete_row_ok(2) [OF assms(1)]
  by simp_all

lemma map_of_filter_key: "map_of (filter (\<lambda>(k, _). P k) d) k = (if P k then map_of d k else None)"
  by (induction d) auto

lemma purge_fts_rows_for_ok:
  assumes ok: "fts_ok d"
  shows "fts_ok (purge_fts_rows_for ns ids d)"
    and "fts_index (purge_fts_rows_for ns ids d) k'
          = (if fst k' = ns \<and> snd k' \<in> set ids then None else fts_index d k')"
proof -
  let ?gone = "\<lambda>k. fst k = ns \<and> snd k \<in> set ids"
  let ?hit = "filter (\<lambda>((n, i), _). n = ns \<and> i \<in> set ids) (fts_rowid d)"
  have ag: "agree fts_key (map_of (fts d)) (map_of (fts_rowid d))" and dist: "distinct (dict_keys (fts_rowid d))"
    using ok by (simp_all add: fts_ok_def)
  have hit: "r \<in> snd ` set ?hit \<longleftrightarrow> (\<exists>k. ?gone k \<and> map_of (fts_rowid d) k = Some r)" for r
    using dist by (force simp: image_iff)
  have rid: "map_of (fts_rowid (purge_fts_rows_for ns ids d)) = (\<lambda>k. if ?gone k then None else map_of (fts_rowid d) k)"
    using map_of_filter_key [of "\<lambda>(n, i). \<not> (n = ns \<and> i \<in> set ids)" "fts_rowid d"]
    by (auto simp: fun_eq_iff purge_fts_rows_for_def Let_def case_prod_unfold)
  have tab: "map_of (fts (purge_fts_rows_for ns ids d))
      = (\<lambda>r. if \<exists>k. ?gone k \<and> map_of (fts_rowid d) k = Some r then None else map_of (fts d) r)"
    unfolding purge_fts_rows_for_def Let_def hit [symmetric]
    using map_of_filter_key [of "\<lambda>r. r \<notin> snd ` set ?hit" "fts d"] by (simp add: fun_eq_iff del: set_filter)
  have "distinct (dict_keys (fts (purge_fts_rows_for ns ids d)))"
    "distinct (dict_keys (fts_rowid (purge_fts_rows_for ns ids d)))"
    using ok by (auto simp: fts_ok_def purge_fts_rows_for_def Let_def distinct_map_filter)
  then show "fts_ok (purge_fts_rows_for ns ids d)"
    unfolding fts_ok_def tab rid using agree_purge [OF ag, of ?gone] by simp
  show "fts_index (purge_fts_rows_for ns ids d) k' = (if ?gone k' then None else fts_index d k')"
    unfolding fts_index_def tab rid
    using agree_inj [OF ag, of k'] by (cases "map_of (fts_rowid d) k'") force+
qed

subsection \<open>The postings\<close>

lemma set_insert_or_ignore [simp]: "set (insert_or_ignore t new) = set t \<union> set new"
  by (auto simp: insert_or_ignore_def)

lemma replace_tag_postings_iff:
  "(ns, t, i) \<in> set (memory_tags (replace_tag_postings k ts d)) \<longleftrightarrow>
    (if (ns, i) = k then t \<in> set ts \<and> str_strip t \<noteq> [] else (ns, t, i) \<in> set (memory_tags d))"
  by (cases k) (auto simp: replace_tag_postings_def Let_def image_iff)

lemma replace_anchor_postings_iff:
  "(ns, f, i) \<in> set (anchor_postings (replace_anchor_postings k as d)) \<longleftrightarrow>
    (if (ns, i) = k then f \<in> set (anchor_files as) else (ns, f, i) \<in> set (anchor_postings d))"
  by (cases k) (auto simp: replace_anchor_postings_def Let_def image_iff)

lemma replace_postings_frame [simp]:
  "rows (replace_postings k ts as d) = rows d" "vectors (replace_postings k ts as d) = vectors d"
  "fts (replace_postings k ts as d) = fts d" "fts_rowid (replace_postings k ts as d) = fts_rowid d"
  "edges (replace_postings k ts as d) = edges d"
  by (simp_all add: replace_postings_def replace_tag_postings_def replace_anchor_postings_def Let_def split: option.split)

lemma memory_tags_replace:
  "memory_tags (replace_postings k ts as d) =
    (case ts of None \<Rightarrow> memory_tags d | Some t \<Rightarrow> memory_tags (replace_tag_postings k t d))"
  by (simp add: replace_postings_def replace_anchor_postings_def Let_def split: option.split)

lemma anchor_postings_replace:
  "anchor_postings (replace_postings k ts as d) =
    (case as of None \<Rightarrow> anchor_postings d | Some a \<Rightarrow> anchor_postings (replace_anchor_postings k a d))"
  by (simp add: replace_postings_def replace_anchor_postings_def replace_tag_postings_def Let_def split: option.split)

lemma fts_index_cong [simp]: "fts_index (replace_postings k ts as d) = fts_index d"
  "fts_ok (replace_postings k ts as d) = fts_ok d"
  by (rule fts_ok_cong; simp)+

text \<open>
  Putting one row: the indexes mirror the new rows when each of them either was rewritten from
  the new row or did not need to be, the old row having had the same text, tags or anchors.
\<close>

lemma db_ok_put:
  assumes ok: "db_ok d" and key: "entry_key row = k"
    and rows': "rows d' = dict_set k row (rows d)"
    and vecs: "\<And>k'. map_of (vectors d') k' \<noteq> None \<Longrightarrow> map_of (vectors d) k' \<noteq> None"
    and fts': "fts_ok d'" "\<And>k'. fts_index d' k' = (if k' = k then Some (fts_row_of row) else fts_index d k')"
    and tags': "\<And>ns t i. (ns, t, i) \<in> set (memory_tags d') \<longleftrightarrow>
          (if (ns, i) = k then t \<in> set (tags row) \<and> str_strip t \<noteq> [] else (ns, t, i) \<in> set (memory_tags d))"
    and anchors': "\<And>ns f i. (ns, f, i) \<in> set (anchor_postings d') \<longleftrightarrow>
          (if (ns, i) = k then f \<in> set (anchor_files (anchors row)) else (ns, f, i) \<in> set (anchor_postings d))"
  shows "db_ok d'"
proof -
  have "rows_ok d'" using ok key by (auto simp: db_ok_def rows_ok_def rows' simp del: set_map)
  moreover have "vectors_ok d'" using ok vecs by (fastforce simp: db_ok_def vectors_ok_def rows')
  moreover have "fts_mirrors d'" using ok by (auto simp: db_ok_def fts_mirrors_def rows' fts'(2))
  moreover have "tags_mirror d'"
    using ok unfolding db_ok_def tags_mirror_def tags' rows' by (auto split: if_splits)
  moreover have "anchors_mirror d'"
    using ok unfolding db_ok_def anchors_mirror_def anchors' rows' by (auto split: if_splits)
  ultimately show ?thesis using fts'(1) by (simp add: db_ok_def)
qed

lemma fts_key_row_of [simp]: "fts_key (fts_row_of e) = entry_key e"
  by (simp add: fts_key_def fts_row_of_def entry_key_def)

lemma fts_ok_rows [simp]: "fts_ok (d\<lparr>rows := r\<rparr>) = fts_ok d" "fts_index (d\<lparr>rows := r\<rparr>) = fts_index d"
  by (rule fts_ok_cong; simp)+

lemma write_row_ok: "db_ok d \<Longrightarrow> db_ok (write_row e d)"
proof -
  assume ok: "db_ok d"
  let ?k = "entry_key e"
  let ?d1 = "d\<lparr>rows := dict_set ?k e (rows d)\<rparr>"
  have f1: "fts_ok ?d1" using ok by (simp add: db_ok_def)
  show ?thesis
  proof (rule db_ok_put [OF ok refl])
    show "fts_ok (write_row e d)"
      using fts_replace_ok(1) [OF f1, of "fts_row_of e" ?k] by (simp add: write_row_def Let_def)
    show "fts_index (write_row e d) k' = (if k' = ?k then Some (fts_row_of e) else fts_index d k')" for k'
      using fts_replace_ok(2) [OF f1, of "fts_row_of e" ?k k'] by (simp add: write_row_def Let_def)
  qed (simp_all add: write_row_def Let_def memory_tags_replace anchor_postings_replace
        replace_tag_postings_iff replace_anchor_postings_iff)
qed

lemma foldl_write_row_ok: "db_ok d \<Longrightarrow> db_ok (foldl (\<lambda>acc e. write_row e acc) d es)"
  by (induction es arbitrary: d) (simp_all add: write_row_ok)

subsection \<open>Updates\<close>

lemma set_field_frame [simp]:
  "eid (set_field e u) = eid e" "namespace (set_field e u) = namespace e"
  "created_at (set_field e u) = created_at e" "src (set_field e u) = src e"
  by (cases u; simp)+

lemma set_fields_frame [simp]:
  "eid (set_fields e us) = eid e" "namespace (set_fields e us) = namespace e"
  "created_at (set_fields e us) = created_at e"
  by (induction us arbitrary: e) (simp_all add: set_fields_def)

lemma set_field_unnamed:
  "field_name u \<noteq> ''content'' \<Longrightarrow> content (set_field e u) = content e"
  "field_name u \<noteq> ''detail'' \<Longrightarrow> detail (set_field e u) = detail e"
  "field_name u \<noteq> ''tags'' \<Longrightarrow> tags (set_field e u) = tags e"
  "field_name u \<noteq> ''anchors'' \<Longrightarrow> anchors (set_field e u) = anchors e"
  "field_name u \<noteq> ''status'' \<Longrightarrow> status (set_field e u) = status e"
  "field_name u \<noteq> ''sync_seq'' \<Longrightarrow> sync_seq (set_field e u) = sync_seq e"
  "field_name u \<noteq> ''sync_hash'' \<Longrightarrow> sync_hash (set_field e u) = sync_hash e"
  "field_name u \<noteq> ''last_synced_at'' \<Longrightarrow> last_synced_at (set_field e u) = last_synced_at e"
  "field_name u \<noteq> ''updated_at'' \<Longrightarrow> updated_at (set_field e u) = updated_at e"
  "field_name u \<noteq> ''invalid_from'' \<Longrightarrow> invalid_from (set_field e u) = invalid_from e"
  "field_name u \<noteq> ''confidence'' \<Longrightarrow> confidence (set_field e u) = confidence e"
  "field_name u \<noteq> ''evidence_level'' \<Longrightarrow> evidence_level (set_field e u) = evidence_level e"
  "field_name u \<noteq> ''metadata'' \<Longrightarrow> metadata (set_field e u) = metadata e"
  by (cases u; simp)+

lemma names_simps [simp]:
  "\<not> names [] f" "names (u # us) f \<longleftrightarrow> field_name u = f \<or> names us f"
  "names (us @ vs) f \<longleftrightarrow> names us f \<or> names vs f"
  by (auto simp: names_def)

lemma set_fields_simps [simp]: "set_fields e [] = e" "set_fields e (u # us) = set_fields (set_field e u) us"
  by (simp_all add: set_fields_def)

lemma set_fields_unnamed:
  "\<not> names us ''content'' \<Longrightarrow> content (set_fields e us) = content e"
  "\<not> names us ''detail'' \<Longrightarrow> detail (set_fields e us) = detail e"
  "\<not> names us ''tags'' \<Longrightarrow> tags (set_fields e us) = tags e"
  "\<not> names us ''anchors'' \<Longrightarrow> anchors (set_fields e us) = anchors e"
  "\<not> names us ''status'' \<Longrightarrow> status (set_fields e us) = status e"
  "\<not> names us ''sync_seq'' \<Longrightarrow> sync_seq (set_fields e us) = sync_seq e"
  "\<not> names us ''sync_hash'' \<Longrightarrow> sync_hash (set_fields e us) = sync_hash e"
  "\<not> names us ''last_synced_at'' \<Longrightarrow> last_synced_at (set_fields e us) = last_synced_at e"
  "\<not> names us ''updated_at'' \<Longrightarrow> updated_at (set_fields e us) = updated_at e"
  "\<not> names us ''invalid_from'' \<Longrightarrow> invalid_from (set_fields e us) = invalid_from e"
  "\<not> names us ''confidence'' \<Longrightarrow> confidence (set_fields e us) = confidence e"
  "\<not> names us ''evidence_level'' \<Longrightarrow> evidence_level (set_fields e us) = evidence_level e"
  "\<not> names us ''metadata'' \<Longrightarrow> metadata (set_fields e us) = metadata e"
  by (induction us arbitrary: e; simp add: set_field_unnamed)+

lemma names_stamped [simp]: "f \<noteq> ''updated_at'' \<Longrightarrow> names (stamped_updates now us) f = names us f"
  by (simp add: stamped_updates_def)

lemma updated_row_frame [simp]:
  "eid (updated_row sha us e) = eid e" "namespace (updated_row sha us e) = namespace e"
  "content (updated_row sha us e) = content (set_fields e us)"
  "detail (updated_row sha us e) = detail (set_fields e us)"
  "tags (updated_row sha us e) = tags (set_fields e us)"
  "anchors (updated_row sha us e) = anchors (set_fields e us)"
  "status (updated_row sha us e) = status (set_fields e us)"
  "confidence (updated_row sha us e) = confidence (set_fields e us)"
  "evidence_level (updated_row sha us e) = evidence_level (set_fields e us)"
  "metadata (updated_row sha us e) = metadata (set_fields e us)"
  "updated_at (updated_row sha us e) = updated_at (set_fields e us)"
  "invalid_from (updated_row sha us e) = invalid_from (set_fields e us)"
  by (simp_all add: updated_row_def Let_def)

lemma hash_view_sync_free [simp]:
  "hash_view_of (e\<lparr>sync_seq := a\<rparr>) = hash_view_of e"
  "hash_view_of (e\<lparr>sync_hash := b\<rparr>) = hash_view_of e"
  "hash_view_of (e\<lparr>last_synced_at := c\<rparr>) = hash_view_of e"
  by (simp_all add: hash_view_of_def)

lemma entry_key_updated [simp]: "entry_key (updated_row sha us e) = entry_key e"
  by (simp add: entry_key_def)

lemma delete_vector_frame [simp]:
  "rows (delete_vector k d) = rows d" "memory_tags (delete_vector k d) = memory_tags d"
  "anchor_postings (delete_vector k d) = anchor_postings d" "edges (delete_vector k d) = edges d"
  "fts (delete_vector k d) = fts d" "fts_rowid (delete_vector k d) = fts_rowid d"
  "map_of (vectors (delete_vector k d)) k' = (if k' = k then None else map_of (vectors d) k')"
  by (simp_all add: delete_vector_def)

lemma fts_delete_vector [simp]: "fts_ok (delete_vector k d) = fts_ok d" "fts_index (delete_vector k d) = fts_index d"
  by (rule fts_ok_cong; simp)+

lemma put_updated_rows [simp]: "rows (put_updated k us row prune d) = dict_set k row (rows d)"
  by (simp add: put_updated_def Let_def)

lemma put_updated_vectors:
  "map_of (vectors (put_updated k us row prune d)) k' =
    (if prune \<and> k' = k then None else map_of (vectors d) k')"
  by (simp add: put_updated_def Let_def)

lemma put_updated_ok:
  assumes ok: "db_ok d" and old: "map_of (rows d) k = Some old" and key: "entry_key row = k"
    and same_text: "\<not> (names us ''content'' \<or> names us ''detail'' \<or> names us ''tags'')
          \<Longrightarrow> fts_row_of row = fts_row_of old"
    and same_tags: "\<not> names us ''tags'' \<Longrightarrow> tags row = tags old"
    and same_anchors: "\<not> names us ''anchors'' \<Longrightarrow> anchors row = anchors old"
  shows "db_ok (put_updated k us row prune d)"
proof (rule db_ok_put [OF ok key put_updated_rows])
  let ?d1 = "d\<lparr>rows := dict_set k row (rows d)\<rparr>"
  let ?d2 = "if prune then delete_vector k ?d1 else ?d1"
  have f2: "fts_ok ?d2" "fts_index ?d2 = fts_index d" using ok by (simp_all add: db_ok_def)
  have here: "fts_index d k = Some (fts_row_of old)" using ok old by (cases k) (simp add: db_ok_def fts_mirrors_def)
  show "fts_ok (put_updated k us row prune d)"
    using fts_replace_ok(1) [OF f2(1), of "fts_row_of row" k] f2(1) key by (simp add: put_updated_def Let_def)
  show "fts_index (put_updated k us row prune d) k' = (if k' = k then Some (fts_row_of row) else fts_index d k')" for k'
    using fts_replace_ok(2) [OF f2(1), of "fts_row_of row" k k'] f2(2) key here same_text
    by (auto simp: put_updated_def Let_def)
  show "map_of (vectors (put_updated k us row prune d)) k' \<noteq> None \<Longrightarrow> map_of (vectors d) k' \<noteq> None" for k'
    by (simp add: put_updated_vectors split: if_splits)
  have frames: "memory_tags (if t then fts_insert_row k r (fts_delete_row k ?d2) else ?d2) = memory_tags d"
    "anchor_postings (if t then fts_insert_row k r (fts_delete_row k ?d2) else ?d2) = anchor_postings d" for t r
    by simp_all
  show "((ns, t, i) \<in> set (memory_tags (put_updated k us row prune d))) =
      (if (ns, i) = k then t \<in> set (tags row) \<and> str_strip t \<noteq> [] else (ns, t, i) \<in> set (memory_tags d))" for ns t i
    using ok old same_tags
    by (auto simp: put_updated_def Let_def memory_tags_replace replace_tag_postings_iff db_ok_def tags_mirror_def)
  show "((ns, f, i) \<in> set (anchor_postings (put_updated k us row prune d))) =
      (if (ns, i) = k then f \<in> set (anchor_files (anchors row)) else (ns, f, i) \<in> set (anchor_postings d))" for ns f i
    using ok old same_anchors
    by (auto simp: put_updated_def Let_def anchor_postings_replace replace_anchor_postings_iff db_ok_def anchors_mirror_def)
qed

lemma db_update_ok:
  assumes ok: "db_ok d" and upd: "db_update utf8 sha now i ns us d = Inr (d', r)"
  shows "db_ok d'"
proof (cases "us = [] \<or> db_get i ns d = None")
  case True
  with upd ok show ?thesis by (auto simp: db_update_def split: option.splits if_splits)
next
  case False
  then obtain old where old: "db_get i ns d = Some old" and us: "us \<noteq> []" by auto
  let ?row = "updated_row sha (stamped_updates now us) old"
  have d': "d' = put_updated (ns, i) us ?row (prunes_vector us old) d"
    using upd old us by (simp add: db_update_def Let_def bindE_Inr)
  have key: "entry_key old = (ns, i)" using ok old by (simp add: db_ok_def rows_ok_def db_get_def)
  show ?thesis unfolding d'
    by (rule put_updated_ok [OF ok, of _ old])
      (use old key in \<open>simp_all add: db_get_def fts_row_of_def set_fields_unnamed\<close>)
qed

subsection \<open>Deletes and counters\<close>

lemma note_delete_frame [simp]:
  "rows (note_delete d) = rows d" "vectors (note_delete d) = vectors d" "fts (note_delete d) = fts d"
  "fts_rowid (note_delete d) = fts_rowid d" "memory_tags (note_delete d) = memory_tags d"
  "anchor_postings (note_delete d) = anchor_postings d"
  by (simp_all add: note_delete_def)

lemma purge_edges_frame [simp]:
  "rows (purge_edges_for ns ids d) = rows d" "vectors (purge_edges_for ns ids d) = vectors d"
  "fts (purge_edges_for ns ids d) = fts d" "fts_rowid (purge_edges_for ns ids d) = fts_rowid d"
  "memory_tags (purge_edges_for ns ids d) = memory_tags d"
  "anchor_postings (purge_edges_for ns ids d) = anchor_postings d"
  by (simp_all add: purge_edges_for_def)

lemma purge_postings_frame [simp]:
  "rows (purge_postings_for ns ids d) = rows d" "vectors (purge_postings_for ns ids d) = vectors d"
  "fts (purge_postings_for ns ids d) = fts d" "fts_rowid (purge_postings_for ns ids d) = fts_rowid d"
  "edges (purge_postings_for ns ids d) = edges d"
  by (simp_all add: purge_postings_for_def)

lemma purge_postings_iff:
  "(n, t, i) \<in> set (memory_tags (purge_postings_for ns ids d)) \<longleftrightarrow>
     (n, t, i) \<in> set (memory_tags d) \<and> \<not> (n = ns \<and> i \<in> set ids)"
  "(n, t, i) \<in> set (anchor_postings (purge_postings_for ns ids d)) \<longleftrightarrow>
     (n, t, i) \<in> set (anchor_postings d) \<and> \<not> (n = ns \<and> i \<in> set ids)"
  by (auto simp: purge_postings_for_def)

text \<open>Removing a set of keys from every table at once.\<close>

lemma db_ok_remove:
  assumes ok: "db_ok d"
    and rows': "\<And>k. map_of (rows d') k = (if k \<in> G then None else map_of (rows d) k)" "distinct (dict_keys (rows d'))"
    and vecs: "\<And>k. map_of (vectors d') k = (if k \<in> G then None else map_of (vectors d) k)"
    and fts': "fts_ok d'" "\<And>k. fts_index d' k = (if k \<in> G then None else fts_index d k)"
    and tags': "\<And>ns t i. (ns, t, i) \<in> set (memory_tags d') \<longleftrightarrow> (ns, t, i) \<in> set (memory_tags d) \<and> (ns, i) \<notin> G"
    and anchors': "\<And>ns f i. (ns, f, i) \<in> set (anchor_postings d') \<longleftrightarrow> (ns, f, i) \<in> set (anchor_postings d) \<and> (ns, i) \<notin> G"
  shows "db_ok d'"
proof -
  have "rows_ok d'"
    unfolding rows_ok_def using ok rows' by (simp add: db_ok_def rows_ok_def del: set_map)
  moreover have "vectors_ok d'" using ok by (simp add: db_ok_def vectors_ok_def rows'(1) vecs)
  moreover have "fts_mirrors d'" using ok by (simp add: db_ok_def fts_mirrors_def rows'(1) fts'(2))
  moreover have "tags_mirror d'"
    using ok unfolding db_ok_def tags_mirror_def tags' rows'(1) by (auto split: if_splits)
  moreover have "anchors_mirror d'"
    using ok unfolding db_ok_def anchors_mirror_def anchors' rows'(1) by (auto split: if_splits)
  ultimately show ?thesis using fts'(1) by (simp add: db_ok_def)
qed

lemma map_of_filter_pair:
  "map_of (filter (\<lambda>((n, i), _). \<not> (n = ns \<and> i \<in> set ids)) d) k
     = (if fst k = ns \<and> snd k \<in> set ids then None else map_of d k)"
  using map_of_filter_key [of "\<lambda>(n, i). \<not> (n = ns \<and> i \<in> set ids)" d k]
  by (cases k) (simp add: case_prod_unfold)

lemma db_delete_ok: "db_ok d \<Longrightarrow> db_ok (fst (db_delete i ns d))"
proof -
  assume ok: "db_ok d"
  show ?thesis
  proof (cases "map_of (rows d) (ns, i)")
    case None
    then have "drop_key (ns, i) (rows d) = rows d"
      by (auto simp: drop_key_def map_of_eq_None_iff filter_id_conv image_iff)
    with None ok show ?thesis by (simp add: db_delete_def)
  next
    case (Some e)
    let ?d = "delete_vector (ns, i) (note_delete (d\<lparr>rows := drop_key (ns, i) (rows d)\<rparr>))"
    have f: "fts_ok ?d" "fts_index ?d = fts_index d"
      using ok fts_ok_cong [of ?d d] by (simp_all add: db_ok_def)
    have eq: "fst (db_delete i ns d) = purge_postings_for ns [i] (purge_edges_for ns [i] (fts_delete_row (ns, i) ?d))"
      using Some by (simp add: db_delete_def Let_def)
    show ?thesis unfolding eq
      using fts_delete_row_ok [OF f(1), of "(ns, i)"] f(2) ok
        fts_ok_cong [of "purge_postings_for ns [i] (purge_edges_for ns [i] (fts_delete_row (ns, i) ?d))"
          "fts_delete_row (ns, i) ?d"]
      by (intro db_ok_remove [OF ok, of _ "{(ns, i)}"])
        (auto simp: purge_postings_iff db_ok_def rows_ok_def simp del: set_map)
  qed
qed

lemma db_delete_many_ok: "db_ok d \<Longrightarrow> db_ok (fst (db_delete_many ids ns d))"
proof -
  assume ok: "db_ok d"
  let ?gone = "sort (existing_ids ids ns d)"
  let ?G = "{k. fst k = ns \<and> snd k \<in> set ?gone}"
  let ?d = "purge_vectors_for ns ?gone (note_delete
     (d\<lparr>rows := filter (\<lambda>((n, i), _). \<not> (n = ns \<and> i \<in> set ?gone)) (rows d)\<rparr>))"
  show ?thesis
  proof (cases "?gone = []")
    case True
    with ok show ?thesis by (simp add: db_delete_many_def del: sort_key_simps)
  next
    case False
    have f: "fts_ok ?d" "fts_index ?d = fts_index d"
      using ok fts_ok_cong [of ?d d] by (simp_all add: db_ok_def purge_vectors_for_def)
    let ?d' = "purge_postings_for ns ?gone (purge_edges_for ns ?gone (purge_fts_rows_for ns ?gone ?d))"
    have eq: "fst (db_delete_many ids ns d) = ?d'"
      unfolding db_delete_many_def Let_def using False by (simp only: if_False fst_conv)
    have g: "fts_ok ?d'" "fts_index ?d' k = (if k \<in> ?G then None else fts_index d k)" for k
      using purge_fts_rows_for_ok [OF f(1)] f(2) fts_ok_cong [of ?d' "purge_fts_rows_for ns ?gone ?d"] by simp_all
    show ?thesis unfolding eq
    proof (rule db_ok_remove [OF ok, of _ ?G])
      show "map_of (rows ?d') k = (if k \<in> ?G then None else map_of (rows d) k)" for k
        using map_of_filter_pair [of ns ?gone "rows d" k]
        by (simp add: purge_fts_rows_for_def purge_vectors_for_def Let_def del: set_sort)
      show "distinct (dict_keys (rows ?d'))"
        using ok by (simp add: purge_fts_rows_for_def purge_vectors_for_def Let_def db_ok_def rows_ok_def distinct_map_filter)
      show "map_of (vectors ?d') k = (if k \<in> ?G then None else map_of (vectors d) k)" for k
        using map_of_filter_pair [of ns ?gone "vectors d" k]
        by (simp add: purge_fts_rows_for_def purge_vectors_for_def Let_def del: set_sort)
    qed (use g in \<open>simp_all add: purge_postings_iff purge_fts_rows_for_def purge_vectors_for_def Let_def\<close>)
  qed
qed

lemma row_key: "db_ok d \<Longrightarrow> map_of (rows d) k = Some e \<Longrightarrow> entry_key e = k"
  by (cases k) (simp add: db_ok_def rows_ok_def)

lemma touch_row_ok:
  assumes ok: "db_ok d"
    and f: "\<And>e. fts_row_of (f e) = fts_row_of e" "\<And>e. anchors (f e) = anchors e"
  shows "db_ok (touch_row f k d)"
proof (cases "map_of (rows d) k")
  case None
  with ok show ?thesis by (simp add: touch_row_def)
next
  case (Some e)
  have t: "tags (f e) = tags e" "entry_key (f e) = entry_key e"
    using f(1) [of e] by (simp_all add: fts_row_of_def entry_key_def)
  note k = row_key [OF ok Some]
  have mir: "fts_index d k = Some (fts_row_of e)" using ok Some by (cases k) (simp add: db_ok_def fts_mirrors_def)
  have eq: "touch_row f k d = d\<lparr>rows := dict_set k (f e) (rows d)\<rparr>" using Some by (simp add: touch_row_def)
  show ?thesis unfolding eq
    by (rule db_ok_put [OF ok, of "f e" k])
      (use ok Some f t k mir in \<open>auto simp: db_ok_def tags_mirror_def anchors_mirror_def\<close>)
qed

lemma foldl_touch_ok:
  "db_ok d \<Longrightarrow> (\<And>e. fts_row_of (f e) = fts_row_of e) \<Longrightarrow> (\<And>e. anchors (f e) = anchors e)
    \<Longrightarrow> db_ok (foldl (\<lambda>acc i. touch_row f (ns, i) acc) d ids)"
  by (induction ids arbitrary: d) (simp_all add: touch_row_ok)

lemma bump_frame [simp]:
  "fts_row_of (recall_bump now e) = fts_row_of e" "anchors (recall_bump now e) = anchors e"
  "fts_row_of (session_bump e) = fts_row_of e" "anchors (session_bump e) = anchors e"
  by (simp_all add: recall_bump_def session_bump_def fts_row_of_def)

section \<open>Runs of operations\<close>

datatype db_op =
  OpStore memory_entry | OpStoreMany "memory_entry list" | OpUpdate string string "field_update list"
| OpDelete string string | OpDeleteMany "string list" string
| OpRecall "string list" string | OpSession "string list" string

fun run_op ::
  "(string \<Rightarrow> bool) \<Rightarrow> (hash_view \<Rightarrow> string) \<Rightarrow> int \<Rightarrow> db_op \<Rightarrow> db \<Rightarrow> (schema_error, db) result" where
  "run_op utf8 sha now (OpStore e) d = db_store utf8 sha e d"
| "run_op utf8 sha now (OpStoreMany es) d = db_store_many utf8 sha es d"
| "run_op utf8 sha now (OpUpdate i ns us) d = bindE (db_update utf8 sha now i ns us d) (\<lambda>r. Inr (fst r))"
| "run_op utf8 sha now (OpDelete i ns) d = Inr (fst (db_delete i ns d))"
| "run_op utf8 sha now (OpDeleteMany ids ns) d = Inr (fst (db_delete_many ids ns d))"
| "run_op utf8 sha now (OpRecall ids ns) d = Inr (fst (increment_recall_access ids ns now d))"
| "run_op utf8 sha now (OpSession ids ns) d = Inr (fst (increment_session_counts ids ns d))"

inductive db_reach :: "(string \<Rightarrow> bool) \<Rightarrow> (hash_view \<Rightarrow> string) \<Rightarrow> db \<Rightarrow> bool" for utf8 sha where
  reach_empty: "db_reach utf8 sha empty_db"
| reach_op: "db_reach utf8 sha d \<Longrightarrow> run_op utf8 sha now op d = Inr d' \<Longrightarrow> db_reach utf8 sha d'"

lemma run_op_ok: "run_op utf8 sha now op d = Inr d' \<Longrightarrow> db_ok d \<Longrightarrow> db_ok d'"
proof (cases op)
  case (OpUpdate i ns us)
  moreover assume "run_op utf8 sha now op d = Inr d'" "db_ok d"
  ultimately show ?thesis by (auto simp: bindE_Inr intro: db_update_ok)
qed (auto simp: db_store_def db_store_many_def bindE_Inr write_row_ok foldl_write_row_ok db_delete_ok
      db_delete_many_ok increment_recall_access_def increment_session_counts_def Let_def foldl_touch_ok split: if_splits)


definition note_1 :: memory_entry where
  "note_1 = (new_entry ''M-1'' ''use WAL'' 7)\<lparr>tags := [''db'', '' '', ''db''], namespace := ''project:a''\<rparr>"


section \<open>No write introduces an unsubstantiated claim\<close>

lemma write_row_get: "map_of (rows (write_row e d)) k = (if k = entry_key e then Some e else map_of (rows d) k)"
  by (simp add: write_row_def Let_def)

lemma check_all_Inr: "check_all f xs = Inr u \<longleftrightarrow> (\<forall>x \<in> set xs. f x = Inr ())"
  by (induction xs) (auto simp: bindE_Inr)

lemma stamp_sync_frame [simp]:
  "eid (stamp_sync sha e) = eid e" "namespace (stamp_sync sha e) = namespace e"
  "content (stamp_sync sha e) = content e" "detail (stamp_sync sha e) = detail e"
  "violates_evidence_invariant (stamp_sync sha e) = violates_evidence_invariant e"
  "entry_key (stamp_sync sha e) = entry_key e"
  by (simp_all add: stamp_sync_def violates_evidence_invariant_def entry_key_def)

lemma foldl_write_row_get:
  "map_of (rows (foldl (\<lambda>acc e. write_row e acc) d es)) k = Some e
    \<Longrightarrow> e \<in> set es \<and> entry_key e = k \<or> map_of (rows d) k = Some e"
  by (induction es arbitrary: d) (fastforce simp: write_row_get split: if_splits)+

lemma set_final_entries: "set (final_entries es) \<subseteq> set es"
proof -
  have "snd ` set (dict_merge a ps) \<subseteq> snd ` set a \<union> snd ` set ps" for a :: "(key, memory_entry) dict" and ps
  proof (induction a ps rule: dict_merge.induct)
    case (2 a k v b)
    have "snd ` set (dict_set k v a) \<subseteq> insert v (snd ` set a)" by (induction a) auto
    with 2 show ?case by auto
  qed simp
  from this [of "[]" "map (\<lambda>e. (entry_key e, e)) es"] show ?thesis
    by (auto simp: final_entries_def image_image)
qed

lemma touch_row_get:
  "map_of (rows (touch_row f k d)) k' =
    (if k' = k then map_option f (map_of (rows d) k') else map_of (rows d) k')"
  by (auto simp: touch_row_def split: option.split)

lemma foldl_touch_claims:
  assumes "\<And>e. violates_evidence_invariant (f e) = violates_evidence_invariant e"
    and "\<And>e. content (f e) = content e \<and> detail (f e) = detail e"
    and "map_of (rows (foldl (\<lambda>acc i. touch_row f (ns, i) acc) d ids)) k = Some e"
    and "violates_evidence_invariant e"
  shows "\<exists>old. map_of (rows d) k = Some old \<and> violates_evidence_invariant old \<and> same_claim old e"
  using assms(3)
proof (induction ids arbitrary: d)
  case Nil
  with assms(4) show ?case by (simp add: same_claim_def)
next
  case (Cons i ids)
  then obtain mid where mid: "map_of (rows (touch_row f (ns, i) d)) k = Some mid"
    "violates_evidence_invariant mid" "same_claim mid e" by auto
  with assms(1,2) show ?case by (auto simp: touch_row_get same_claim_def split: if_splits)
qed

lemma bump_claims [simp]:
  "violates_evidence_invariant (recall_bump now e) = violates_evidence_invariant e"
  "violates_evidence_invariant (session_bump e) = violates_evidence_invariant e"
  "content (recall_bump now e) = content e" "detail (recall_bump now e) = detail e"
  "content (session_bump e) = content e" "detail (session_bump e) = detail e"
  by (simp_all add: violates_evidence_invariant_def recall_bump_def session_bump_def)

lemma unsubstantiated_origin:
  assumes ok: "db_ok d" and run: "run_op utf8 sha now op d = Inr d'"
    and row: "map_of (rows d') k = Some e" and bad: "violates_evidence_invariant e"
  shows "\<exists>old. map_of (rows d) k = Some old \<and> violates_evidence_invariant old \<and> same_claim old e"
proof (cases op)
  case (OpStore x)
  with run row bad show ?thesis
    by (auto simp: db_store_def bindE_Inr write_row_get refuse_new_violation_Inr_iff db_get_def
        same_claim_def entry_key_def split: if_splits)
next
  case (OpStoreMany xs)
  show ?thesis
  proof (cases "xs = []")
    case True
    with OpStoreMany run row bad show ?thesis by (auto simp: db_store_many_def same_claim_def)
  next
    case False
    let ?ys = "map (stamp_sync sha) xs"
    have d': "d' = foldl (\<lambda>acc e. write_row e acc) d (final_entries ?ys)"
      and chk: "\<forall>y \<in> set ?ys. violates_evidence_invariant y \<longrightarrow>
          refuse_new_violation (db_get (eid y) (namespace y) d) y = Inr ()"
      using run OpStoreMany False
      by (auto simp: db_store_many_def bindE_Inr refuse_new_violations_def check_all_Inr split: if_splits)
    have "e \<in> set ?ys \<and> entry_key e = k \<or> map_of (rows d) k = Some e"
      using foldl_write_row_get [OF row [unfolded d']] set_final_entries [of ?ys] by blast
    then show ?thesis
    proof
      assume "e \<in> set ?ys \<and> entry_key e = k"
      with chk bad show ?thesis by (auto simp: refuse_new_violation_Inr_iff db_get_def entry_key_def simp del: set_map)
    qed (use bad in \<open>simp add: same_claim_def\<close>)
  qed
next
  case (OpUpdate i ns us)
  then obtain r where upd: "db_update utf8 sha now i ns us d = Inr (d', r)" using run by (auto simp: bindE_Inr)
  show ?thesis
  proof (cases "us = [] \<or> db_get i ns d = None")
    case True
    with upd row bad show ?thesis by (auto simp: db_update_def same_claim_def split: option.splits if_splits)
  next
    case False
    then obtain old where old: "db_get i ns d = Some old" and us: "us \<noteq> []" by auto
    let ?us = "stamped_updates now us"
    have d': "d' = put_updated (ns, i) us (updated_row sha ?us old) (prunes_vector us old) d"
      and chk: "refuse_new_violation (Some old) (set_fields old ?us) = Inr ()"
      using upd old us by (simp_all add: db_update_def Let_def bindE_Inr)
    show ?thesis
      using row bad chk old unfolding d'
      by (auto simp: refuse_new_violation_Inr_iff violates_evidence_invariant_def same_claim_def db_get_def split: if_splits)
  qed
next
  case (OpDelete i ns)
  with run row bad show ?thesis
    by (auto simp: db_delete_def Let_def same_claim_def split: if_splits)
next
  case (OpDeleteMany ids ns)
  have "map_of (rows (fst (db_delete_many ids ns d))) k = Some e \<Longrightarrow> map_of (rows d) k = Some e"
    using map_of_filter_pair [of ns "sort (existing_ids ids ns d)" "rows d" k]
    by (auto simp: db_delete_many_def Let_def purge_fts_rows_for_def purge_vectors_for_def split: if_splits)
  with run row bad OpDeleteMany show ?thesis by (simp add: same_claim_def)
next
  case (OpRecall ids ns)
  with run row have "map_of (rows (foldl (\<lambda>acc i. touch_row (recall_bump now) (ns, i) acc) d
      (filter (\<lambda>i. map_of (rows d) (ns, i) \<noteq> None) (uniq ids)))) k = Some e"
    by (simp add: increment_recall_access_def Let_def)
  from foldl_touch_claims [OF _ _ this bad] show ?thesis by simp
next
  case (OpSession ids ns)
  with run row have "map_of (rows (foldl (\<lambda>acc i. touch_row session_bump (ns, i) acc) d
      (filter (\<lambda>i. map_of (rows d) (ns, i) \<noteq> None) ids))) k = Some e"
    by (simp add: increment_session_counts_def Let_def)
  from foldl_touch_claims [OF _ _ this bad] show ?thesis by simp
qed

text \<open>
  C2: no operation introduces an unsubstantiated verified claim. Any row that violates the
  evidence invariant after an operation was there before it, already violating it, with the same
  content and detail: a new claim, a changed claim and a promoted confidence are all refused.
\<close>

theorem no_new_unsubstantiated_claim:
  assumes "db_ok d" and "run_op utf8 sha now op d = Inr d'"
    and "map_of (rows d') k = Some e" and "violates_evidence_invariant e"
  shows "\<exists>old. map_of (rows d) k = Some old \<and> violates_evidence_invariant old
           \<and> (content old, detail old) = (content e, detail e)"
  using unsubstantiated_origin [OF assms] by (simp add: same_claim_def)

definition legacy_note :: memory_entry where
  "legacy_note = note_1\<lparr>confidence := ConfVerified\<rparr>"

definition legacy_db :: db where
  "legacy_db = write_row legacy_note empty_db"

lemma legacy_db_ok: "db_ok legacy_db"
  by (simp add: legacy_db_def write_row_ok db_ok_empty)

lemma legacy_get: "map_of (rows legacy_db) (''project:a'', ''M-1'') = Some legacy_note"
  by (simp add: legacy_db_def write_row_get entry_key_def legacy_note_def note_1_def new_entry_def)

lemma legacy_violates: "violates_evidence_invariant legacy_note"
  by (simp add: violates_evidence_invariant_def legacy_note_def note_1_def new_entry_def)

lemma utf8_all [simp]: "validate_utf8_fields (\<lambda>_. True) cols = Inr ()"
  by (auto simp: validate_utf8_fields_def Let_def filter_empty_conv split: option.splits)

lemma retag_legacy:
  "run_op (\<lambda>_. True) (\<lambda>_. ''h'') 9 (OpUpdate ''M-1'' ''project:a'' [UTags [''x'']]) legacy_db
    = Inr (put_updated (''project:a'', ''M-1'') [UTags [''x'']]
        (updated_row (\<lambda>_. ''h'') [UTags [''x''], UUpdatedAt 9] legacy_note) False legacy_db)"
proof -
  have st: "stamped_updates 9 [UTags [''x'']] = [UTags [''x''], UUpdatedAt 9]"
    by (simp add: stamped_updates_def bookkeeping_fields_def)
  have ok: "refuse_new_violation (Some legacy_note) (set_fields legacy_note [UTags [''x''], UUpdatedAt 9]) = Inr ()"
    using legacy_violates by (simp add: refuse_new_violation_Inr_iff same_claim_def violates_evidence_invariant_def)
  have pr: "prunes_vector [UTags [''x'']] legacy_note = False"
    by (simp add: prunes_vector_def new_status_def)
  show ?thesis by (simp add: db_update_def db_get_def legacy_get st ok pr Let_def del: set_fields_simps)
qed

theorem no_new_unsubstantiated_claim_witness:
  "\<exists>old. map_of (rows legacy_db) (''project:a'', ''M-1'') = Some old \<and> violates_evidence_invariant old
     \<and> (content old, detail old) = (''use WAL'', [])"
  using no_new_unsubstantiated_claim [OF legacy_db_ok retag_legacy, of "(''project:a'', ''M-1'')"
      "updated_row (\<lambda>_. ''h'') [UTags [''x''], UUpdatedAt 9] legacy_note"] legacy_violates
  by (simp add: violates_evidence_invariant_def legacy_get) (simp add: legacy_note_def note_1_def new_entry_def)

section \<open>Isolation of identities\<close>

fun op_keys :: "db_op \<Rightarrow> key set" where
  "op_keys (OpStore e) = {entry_key e}"
| "op_keys (OpStoreMany es) = entry_key ` set es"
| "op_keys (OpUpdate i ns us) = {(ns, i)}"
| "op_keys (OpDelete i ns) = {(ns, i)}"
| "op_keys (OpDeleteMany ids ns) = {ns} \<times> set ids"
| "op_keys (OpRecall ids ns) = {ns} \<times> set ids"
| "op_keys (OpSession ids ns) = {ns} \<times> set ids"

lemma write_row_vectors [simp]: "vectors (write_row e d) = vectors d"
  by (simp add: write_row_def Let_def)

lemma foldl_write_row_frame:
  "k \<notin> entry_key ` set es \<Longrightarrow> map_of (rows (foldl (\<lambda>acc e. write_row e acc) d es)) k = map_of (rows d) k"
  "vectors (foldl (\<lambda>acc e. write_row e acc) d es) = vectors d"
  by (induction es arbitrary: d) (simp_all add: write_row_get)

lemma touch_row_vectors [simp]: "vectors (touch_row f k d) = vectors d"
  by (simp add: touch_row_def split: option.split)

lemma foldl_touch_frame:
  "\<not> (fst k = ns \<and> snd k \<in> set ids) \<Longrightarrow>
    map_of (rows (foldl (\<lambda>acc i. touch_row f (ns, i) acc) d ids)) k = map_of (rows d) k"
  "vectors (foldl (\<lambda>acc i. touch_row f (ns, i) acc) d ids) = vectors d"
  by (induction ids arbitrary: d) (auto simp: touch_row_get)

lemma run_op_frame:
  assumes run: "run_op utf8 sha now op d = Inr d'" and k: "k \<notin> op_keys op"
  shows "map_of (rows d') k = map_of (rows d) k \<and> map_of (vectors d') k = map_of (vectors d) k"
proof (cases op)
  case (OpStore e)
  with run k show ?thesis by (auto simp: db_store_def bindE_Inr write_row_get)
next
  case (OpStoreMany es)
  have "k \<notin> entry_key ` set (final_entries (map (stamp_sync sha) es))"
    using k OpStoreMany set_final_entries [of "map (stamp_sync sha) es"] by fastforce
  with run OpStoreMany show ?thesis
    by (auto simp: db_store_many_def bindE_Inr foldl_write_row_frame split: if_splits)
next
  case (OpUpdate i ns us)
  with run k show ?thesis
    by (auto simp: bindE_Inr db_update_def Let_def put_updated_vectors split: if_splits option.splits)
next
  case (OpDelete i ns)
  with run k show ?thesis by (auto simp: db_delete_def Let_def)
next
  case (OpDeleteMany ids ns)
  have keep: "\<not> (fst k = ns \<and> snd k \<in> set (sort (existing_ids ids ns d)))"
    using k OpDeleteMany by (cases k) (auto simp: existing_ids_def)
  have "map_of (rows (fst (db_delete_many ids ns d))) k = map_of (rows d) k
      \<and> map_of (vectors (fst (db_delete_many ids ns d))) k = map_of (vectors d) k"
    using map_of_filter_pair [of ns "sort (existing_ids ids ns d)" "rows d" k]
      map_of_filter_pair [of ns "sort (existing_ids ids ns d)" "vectors d" k] keep
    by (simp add: db_delete_many_def Let_def purge_fts_rows_for_def purge_vectors_for_def del: set_sort)
  with run OpDeleteMany show ?thesis by simp
next
  case (OpRecall ids ns)
  with run k show ?thesis
    by (cases k) (auto simp: increment_recall_access_def Let_def foldl_touch_frame)
next
  case (OpSession ids ns)
  with run k show ?thesis
    by (cases k) (auto simp: increment_session_counts_def Let_def foldl_touch_frame)
qed

text \<open>
  Operations are confined to the (namespace, id) identities they name. The row, the vector,
  the full-text row and the tag postings of every other identity - the same id in another
  namespace included - are left as they were.
\<close>

theorem operations_are_isolated:
  assumes "db_ok d" and "run_op utf8 sha now op d = Inr d'" and "(ns, i) \<notin> op_keys op"
  shows "db_get i ns d' = db_get i ns d \<and> map_of (vectors d') (ns, i) = map_of (vectors d) (ns, i)
    \<and> fts_index d' (ns, i) = fts_index d (ns, i)
    \<and> (\<forall>t. (ns, t, i) \<in> set (memory_tags d') \<longleftrightarrow> (ns, t, i) \<in> set (memory_tags d))"
  using run_op_frame [OF assms(2,3)] run_op_ok [OF assms(2,1)] assms(1)
  by (simp add: db_get_def db_ok_def fts_mirrors_def tags_mirror_def)

theorem operations_are_isolated_witness:
  "db_get ''M-1'' ''project:a'' (fst (db_delete ''M-1'' ''project:b'' legacy_db)) = Some legacy_note"
  using operations_are_isolated [OF legacy_db_ok, of "\<lambda>_. True" "\<lambda>_. ''h''" 9 "OpDelete ''M-1'' ''project:b''"
      "fst (db_delete ''M-1'' ''project:b'' legacy_db)" "''project:a''" "''M-1''"]
  by (simp add: db_get_def legacy_get)

end
