(* ===== verification/Sync.thy ===== *)
theory Sync
  imports Backend DatabaseInv "HOL-Library.Product_Lexorder"
begin

text \<open>
  The sync pipeline of \<^verbatim>\<open>sync/delta.py\<close> on the SQLite backend: paging the dirty rows out,
  acknowledging what was published, and applying a pulled row conditionally. The rows do not
  change while one paging call runs.
\<close>

section \<open>Paging the dirty rows\<close>

type_synonym position = "int \<times> string"   \<comment> \<open>sync_seq, id\<close>

definition pos_of :: "memory_entry \<Rightarrow> position" where
  "pos_of e = (sync_seq e, eid e)"

text \<open>
  The WHERE, ORDER BY and LIMIT of the page query. \<open>after\<close> is the keyset position that takes
  the place of \<open>since\<close>.
\<close>

definition behind :: "int \<Rightarrow> position option \<Rightarrow> memory_entry \<Rightarrow> bool" where
  "behind since after e =
     (case after of
        None \<Rightarrow> sync_seq e > since
      | Some (s, i) \<Rightarrow> sync_seq e > s \<or> (sync_seq e = s \<and> i < eid e))"

definition dirty_in :: "string option \<Rightarrow> memory_entry \<Rightarrow> bool" where
  "dirty_in ns e \<longleftrightarrow> last_synced_at e = None \<and> (ns = None \<or> ns = Some (namespace e))"

definition page_hits ::
  "memory_entry list \<Rightarrow> int \<Rightarrow> string option \<Rightarrow> position option \<Rightarrow> memory_entry list" where
  "page_hits table since ns after =
     sort_key pos_of (filter (\<lambda>e. behind since after e \<and> dirty_in ns e) table)"

definition page_query ::
  "memory_entry list \<Rightarrow> int \<Rightarrow> string option \<Rightarrow> nat option \<Rightarrow> position option \<Rightarrow> memory_entry list" where
  "page_query table since ns cap after =
     (case cap of None \<Rightarrow> page_hits table since ns after | Some n \<Rightarrow> take n (page_hits table since ns after))"

lemma page_progress:
  assumes "xs = page_query table since ns (Some n) after" and "xs \<noteq> []"
  shows "length (page_hits table since ns (Some (pos_of (last xs)))) < length (page_hits table since ns after)"
proof -
  have l: "last xs \<in> set table" "behind since after (last xs)" "dirty_in ns (last xs)"
    using assms(1) set_take_subset [of n "page_hits table since ns after"] last_in_set [OF assms(2)]
    by (auto simp: page_query_def page_hits_def)
  have sub: "behind since (Some (pos_of (last xs))) e \<Longrightarrow> behind since after e" for e
    using l(2) by (auto simp: behind_def pos_of_def split: option.splits)
  have "\<not> behind since (Some (pos_of (last xs))) (last xs)" by (simp add: behind_def pos_of_def)
  then have "length (filter (\<lambda>e. behind since (Some (pos_of (last xs))) e \<and> dirty_in ns e) table)
      < length (filter (\<lambda>e. behind since after e \<and> dirty_in ns e) table)"
  proof -
    have "filter (\<lambda>e. behind since (Some (pos_of (last xs))) e \<and> dirty_in ns e) table
        = filter (behind since (Some (pos_of (last xs)))) (filter (\<lambda>e. behind since after e \<and> dirty_in ns e) table)"
      using sub by (auto simp: intro!: filter_cong)
    also have "length \<dots> < length (filter (\<lambda>e. behind since after e \<and> dirty_in ns e) table)"
      using l \<open>\<not> behind since (Some (pos_of (last xs))) (last xs)\<close> by (intro length_filter_less [of "last xs"]) auto
    finally show ?thesis .
  qed
  then show ?thesis by (simp add: page_hits_def)
qed

text \<open>
  The \<open>while True\<close> loop of \<open>get_dirty_entries\<close>: \<open>admit\<close> is the quarantine filter. The cursor
  moves to the last row fetched, served or not.
\<close>

function dirty_loop ::
  "(memory_entry \<Rightarrow> bool) \<Rightarrow> memory_entry list \<Rightarrow> int \<Rightarrow> string option \<Rightarrow> nat option \<Rightarrow> position option
     \<Rightarrow> memory_entry list \<Rightarrow> memory_entry list" where
  "dirty_loop admit table since ns limit after page =
     (let fetched = page_query table since ns limit after;
          page' = page @ filter admit (map served_view fetched)
      in case limit of
           None \<Rightarrow> page'
         | Some n \<Rightarrow> if length fetched < n \<or> n \<le> length page' then take n page'
                    else dirty_loop admit table since ns limit (Some (pos_of (last fetched))) page')"
  by pat_completeness auto
termination
proof (relation "measure (\<lambda>(admit, table, since, ns, limit, after, page). length (page_hits table since ns after))", goal_cases)
  case 1
  show ?case by simp
next
  case (2 admit table since ns limit after page xs ys n)
  then have "xs \<noteq> []" by auto
  with 2 page_progress [of xs table since ns n after] show ?case by simp
qed

declare dirty_loop.simps [simp del]

definition get_dirty_entries ::
  "env \<Rightarrow> backend \<Rightarrow> int \<Rightarrow> string option \<Rightarrow> nat option \<Rightarrow> position option \<Rightarrow> memory_entry list" where
  "get_dirty_entries v b since ns limit after =
     dirty_loop (\<lambda>e. \<not> quarantine_blocks v b e) (map snd (rows (b_db b))) since ns limit after []"

text \<open>What a caller wants: the first \<open>limit\<close> dirty rows the ledger admits, oldest first.\<close>

definition dirty_spec ::
  "(memory_entry \<Rightarrow> bool) \<Rightarrow> memory_entry list \<Rightarrow> int \<Rightarrow> string option \<Rightarrow> nat option \<Rightarrow> position option
     \<Rightarrow> memory_entry list" where
  "dirty_spec admit table since ns limit after =
     (let wanted = filter admit (map served_view (page_hits table since ns after))
      in case limit of None \<Rightarrow> wanted | Some n \<Rightarrow> take n wanted)"

lemma strict_sorted_hits:
  assumes "distinct (map pos_of (filter (dirty_in ns) table))"
  shows "sorted_wrt (<) (map pos_of (page_hits table since ns after))"
proof -
  let ?ys = "filter (\<lambda>e. behind since after e \<and> dirty_in ns e) table"
  have "?ys = filter (behind since after) (filter (dirty_in ns) table)" by (simp add: conj_commute)
  then have "distinct (map pos_of ?ys)" using assms by (simp only: distinct_map_filter)
  then have "distinct (map pos_of (sort_key pos_of ?ys))" by (simp add: distinct_map)
  then show ?thesis by (simp add: page_hits_def strict_sorted_iff)
qed

lemma next_page_is_rest:
  assumes dist: "distinct (map pos_of (filter (dirty_in ns) table))"
    and n: "0 < n" "n \<le> length (page_hits table since ns after)"
  shows "page_hits table since ns (Some (pos_of (last (take n (page_hits table since ns after)))))
     = drop n (page_hits table since ns after)"
proof -
  let ?H = "page_hits table since ns after"
  let ?l = "last (take n ?H)"
  have "take n ?H \<noteq> []" using n by auto
  then have l: "?l = ?H ! (n - 1)" using n by (subst last_conv_nth) (auto simp: min_def)
  have lin: "?l \<in> set ?H" using n l by simp
  then have bl: "behind since after ?l" by (simp add: page_hits_def)
  have beh: "behind since (Some (pos_of ?l)) e \<longleftrightarrow> pos_of ?l < pos_of e" for e
    by (auto simp: behind_def pos_of_def)
  have sub: "behind since (Some (pos_of ?l)) e \<Longrightarrow> behind since after e" for e
    using bl by (auto simp: behind_def pos_of_def split: option.splits)
  have "filter (\<lambda>e. behind since (Some (pos_of ?l)) e \<and> dirty_in ns e) table
      = filter (\<lambda>e. pos_of ?l < pos_of e) (filter (\<lambda>e. behind since after e \<and> dirty_in ns e) table)"
    unfolding filter_filter using sub by (intro filter_cong) (simp_all only: beh, blast)
  then have "page_hits table since ns (Some (pos_of ?l)) = filter (\<lambda>e. pos_of ?l < pos_of e) ?H"
    by (simp only: page_hits_def filter_sort)
  also have "\<dots> = drop n ?H"
  proof -
    have sw: "sorted_wrt (\<lambda>a b. pos_of a < pos_of b) ?H"
      using strict_sorted_hits [OF dist, of since after] by (simp add: sorted_wrt_map)
    have "filter (\<lambda>e. pos_of ?l < pos_of e) ?H
        = filter (\<lambda>e. pos_of ?l < pos_of e) (take n ?H) @ filter (\<lambda>e. pos_of ?l < pos_of e) (drop n ?H)"
      by (metis append_take_drop_id filter_append)
    moreover have "filter (\<lambda>e. pos_of ?l < pos_of e) (take n ?H) = []"
    proof -
      have "\<not> pos_of ?l < pos_of (?H ! j)" if "j < n" for j
      proof (cases "j = n - 1")
        case False
        then have "pos_of (?H ! j) < pos_of ?l" using sorted_wrt_nth_less [OF sw, of j "n - 1"] that n l by simp
        then show ?thesis by (rule order_less_not_sym)
      qed (use l in simp)
      then show ?thesis using n by (auto simp: filter_empty_conv in_set_conv_nth)
    qed
    moreover have "filter (\<lambda>e. pos_of ?l < pos_of e) (drop n ?H) = drop n ?H"
    proof -
      have "pos_of ?l < pos_of (?H ! j)" if "n \<le> j" "j < length ?H" for j
        using sorted_wrt_nth_less [OF sw, of "n - 1" j] that n l by simp
      then show ?thesis using n by (auto simp: filter_id_conv in_set_conv_nth)
    qed
    ultimately show ?thesis by simp
  qed
  finally show ?thesis .
qed

lemma dirty_loop_spec:
  "distinct (map pos_of (filter (dirty_in ns) table)) \<Longrightarrow> dirty_loop admit table since ns (Some n) after page
    = take n (page @ filter admit (map served_view (page_hits table since ns after)))"
proof (induction admit table since ns "Some n" after page rule: dirty_loop.induct)
  case (1 admit table since ns after page)
  let ?H = "page_hits table since ns after"
  let ?f = "page_query table since ns (Some n) after"
  let ?p = "page @ filter admit (map served_view ?f)"
  have f: "?f = take n ?H" by (simp add: page_query_def)
  have whole: "filter admit (map served_view ?H)
      = filter admit (map served_view (take n ?H)) @ filter admit (map served_view (drop n ?H))"
    by (metis append_take_drop_id filter_append map_append)
  show ?case
  proof (cases "length ?f < n \<or> n \<le> length ?p")
    case True
    then have "take n ?p = take n (page @ filter admit (map served_view ?H))"
      unfolding whole f by (auto simp: page_query_def)
    with True show ?thesis by (subst dirty_loop.simps) (simp add: Let_def)
  next
    case False
    then have n: "0 < n" "n \<le> length ?H" by (auto simp: f)
    have "dirty_loop admit table since ns (Some n) (Some (pos_of (last ?f))) ?p
        = take n (?p @ filter admit (map served_view (drop n ?H)))"
      using "1.hyps" [of ?f ?p n] False "1.prems" next_page_is_rest [OF "1.prems" n] by (simp add: f)
    then show ?thesis using False whole by (subst dirty_loop.simps) (simp add: Let_def f)
  qed
qed

section \<open>Acknowledging what was published\<close>

text \<open>
  \<open>mark_synced\<close>: an update that raises is logged and passed over, leaving the rows as they
  were. \<open>expected_seq\<close> is the conditional acknowledgement.
\<close>

definition mark_one ::
  "env \<Rightarrow> int \<Rightarrow> string \<Rightarrow> (string, int) dict option \<Rightarrow> string \<Rightarrow> backend \<times> nat \<Rightarrow> backend \<times> nat" where
  "mark_one v now ns expected i acc =
     (let b = fst acc;
          due = (case expected of None \<Rightarrow> True
                 | Some m \<Rightarrow> (case backend_get v b i ns of None \<Rightarrow> False
                            | Some cur \<Rightarrow> map_of m i = Some (sync_seq cur)))
      in if \<not> due then acc
         else (case backend_update v now b i ns [ULastSyncedAt (Some now)] of
                 Inl _ \<Rightarrow> acc
               | Inr (b', None) \<Rightarrow> (b', snd acc)
               | Inr (b', Some _) \<Rightarrow> (b', Suc (snd acc))))"

definition mark_synced ::
  "env \<Rightarrow> int \<Rightarrow> string list \<Rightarrow> backend \<Rightarrow> string \<Rightarrow> (string, int) dict option \<Rightarrow> backend \<times> nat" where
  "mark_synced v now ids b ns expected = fold (mark_one v now ns expected) ids (b, 0)"

definition ack_revision ::
  "env \<Rightarrow> int \<Rightarrow> backend \<Rightarrow> string \<Rightarrow> string \<Rightarrow> (int \<times> string) option \<Rightarrow> field_update list
     \<Rightarrow> (schema_error, backend \<times> bool) result" where
  "ack_revision v now b i ns revision us =
     (case backend_get v b i ns of
        None \<Rightarrow> Inr (b, False)
      | Some current \<Rightarrow>
          (let clean = (revision = Some (sync_seq current, sync_hash current))
           in bindE (backend_update v now b i ns (us @ (if clean then [ULastSyncedAt (Some now)] else [])))
                (\<lambda>(b', _). Inr (b', clean))))"

definition ack_publish ::
  "env \<Rightarrow> int \<Rightarrow> backend \<Rightarrow> memory_entry \<Rightarrow> field_update list \<Rightarrow> (schema_error, backend \<times> bool) result" where
  "ack_publish v now b e us =
     ack_revision v now b (eid e) (namespace e) (Some (sync_seq e, sync_hash e)) us"

section \<open>Applying a pulled row\<close>

definition find_synced_entry :: "backend \<Rightarrow> string \<Rightarrow> string \<Rightarrow> string list \<Rightarrow> memory_entry option" where
  "find_synced_entry b ns remote ids =
     map_option served_view
       (find (\<lambda>e. namespace e = ns \<and> (remote_id e = Some remote \<or> eid e \<in> set ids)) (map snd (rows (b_db b))))"

text \<open>
  The write gate (\<open>prepare_entry_for_store\<close>) is a parameter here: what it answers for the
  entry is one of its three decisions. \<open>encode\<close> is the embedding provider, failures included.
\<close>

datatype gate_decision = GateAdmits memory_entry | GateQuarantines memory_entry | GateBlocks string

datatype apply_result = Stored | Quarantined memory_entry | Blocked string | Conflict

definition embed_text :: "memory_entry \<Rightarrow> string" where
  "embed_text e = content e @ '' '' @ detail e"

definition apply_synced_entry ::
  "env \<Rightarrow> int \<Rightarrow> (backend \<Rightarrow> memory_entry \<Rightarrow> gate_decision) \<Rightarrow> (string \<Rightarrow> rat list option)
     \<Rightarrow> backend \<Rightarrow> memory_entry \<Rightarrow> string option \<Rightarrow> bool \<Rightarrow> (schema_error, backend \<times> apply_result) result" where
  "apply_synced_entry v now gate encode b e if_revision synced =
     (case gate b e of
        GateBlocks reason \<Rightarrow> Inr (b, Blocked reason)
      | GateQuarantines q \<Rightarrow> Inr (b, Quarantined q)
      | GateAdmits row \<Rightarrow>
          (let current = backend_get v b (eid e) (namespace e)
           in if revision_of v current \<noteq> if_revision then Inr (b, Conflict)
              else bindE (backend_store v b row) (\<lambda>b1.
                (let b2 = (case encode (embed_text row) of
                             Some vec \<Rightarrow> upsert_vector b1 (eid row) (namespace row) vec
                           | None \<Rightarrow> (case current of
                                 Some c \<Rightarrow> if embed_text c \<noteq> embed_text row
                                           then remove_vector b1 (eid row) (namespace row) else b1
                               | None \<Rightarrow> b1));
                     b3 = (if synced then fst (mark_synced v now [eid e] b2 (namespace e) None) else b2)
                 in Inr (b3, Stored)))))"

section \<open>What the sync pipeline guarantees\<close>

lemma positions_distinct:
  assumes "rows_ok d"
  shows "distinct (map pos_of (filter (dirty_in (Some ns)) (map snd (rows d))))"
proof -
  have inj: "inj_on (pos_of \<circ> snd) {r \<in> set (rows d). namespace (snd r) = ns}"
  proof (rule inj_onI)
    fix r1 r2
    assume r: "r1 \<in> {r \<in> set (rows d). namespace (snd r) = ns}" "r2 \<in> {r \<in> set (rows d). namespace (snd r) = ns}"
      and eq: "(pos_of \<circ> snd) r1 = (pos_of \<circ> snd) r2"
    have get: "map_of (rows d) (fst r) = Some (snd r)" if "r \<in> set (rows d)" for r
      using assms that by (intro map_of_is_SomeI) (simp_all add: rows_ok_def)
    then have key: "entry_key (snd r) = fst r" if "r \<in> set (rows d)" for r
      using assms that unfolding rows_ok_def by blast
    have "fst r1 = fst r2" using key [of r1] key [of r2] r eq by (simp add: entry_key_def pos_of_def)
    moreover have "Some (snd r1) = Some (snd r2)" using get [of r1] get [of r2] r calculation by (simp del: prod.inject)
    ultimately show "r1 = r2" by (intro prod_eqI) simp_all
  qed
  have "distinct (rows d)" using assms by (auto simp: rows_ok_def distinct_map)
  then have "distinct (map (pos_of \<circ> snd) (filter (\<lambda>r. dirty_in (Some ns) (snd r)) (rows d)))"
    using inj by (auto simp: distinct_map dirty_in_def intro: inj_on_subset)
  then show ?thesis by (simp add: filter_map comp_def)
qed

text \<open>A small store for the examples: rows of revision 1, with \<open>project:a/M-1\<close> quarantined.\<close>

definition plain_env :: env where
  "plain_env = \<lparr>env_utf8 = (\<lambda>_. True), env_sha = (\<lambda>_. ''h''), env_chash = (\<lambda>s. s),
     env_rev = (\<lambda>e. content e)\<rparr>"

definition row_of :: "key \<Rightarrow> memory_entry" where
  "row_of k = stamp_sync (\<lambda>_. ''h'') ((new_entry (snd k) (''note '' @ fst k @ snd k) 7)\<lparr>namespace := fst k\<rparr>)"

definition held_store :: "key list \<Rightarrow> backend" where
  "held_store ks =
     \<lparr>b_db = foldl (\<lambda>d e. write_row e d) empty_db (map row_of ks),
      b_ledger = Some (ledger_append []
        \<lparr>li_namespace = ''project:a'', li_entry_id = ''M-1'', li_source_id = [], li_derived = [], li_hash = []\<rparr>
        ledger_decision.Quarantined ''admin'' ''poisoned'' 1)\<rparr>"

lemma row_of_simps [simp]:
  "entry_key (row_of k) = k" "eid (row_of k) = snd k" "namespace (row_of k) = fst k"
  "sync_seq (row_of k) = 1" "last_synced_at (row_of k) = None" "sync_hash (row_of k) = ''h''"
  "\<not> violates_evidence_invariant (row_of k)" "served_view (row_of k) = row_of k"
  "source_of (row_of k) = []" "remote_id (row_of k) = None"
  by (simp_all add: row_of_def entry_key_def stamp_sync_def compute_sync_hash_def new_entry_def
      violates_evidence_invariant_def served_view_def source_of_def dict_get_def)

lemma write_row_rows [simp]: "rows (write_row e d) = dict_set (entry_key e) e (rows d)"
  by (simp add: write_row_def Let_def)

lemma foldl_write_row_rows:
  "rows (foldl (\<lambda>d e. write_row e d) d es) = foldl (\<lambda>r e. dict_set (entry_key e) e r) (rows d) es"
  by (induction es arbitrary: d) simp_all

lemma held_rows [simp]:
  "rows (b_db (held_store [k])) = [(k, row_of k)]"
  "k \<noteq> l \<Longrightarrow> rows (b_db (held_store [k, l])) = [(k, row_of k), (l, row_of l)]"
  by (simp_all add: held_store_def foldl_write_row_rows empty_db_def)

lemma held_blocks [simp]:
  "quarantine_blocks plain_env (held_store ks) (row_of k) \<longleftrightarrow> k = (''project:a'', ''M-1'')"
  by (cases k) (simp add: quarantine_blocks_def held_store_def plain_env_def blocks_def blocks_keys_def
      build_index_def ledger_append_def entry_identity_keys_def identity_keys_def stored_identity_def
      reload_derived_def row_blocks_def eq_commute)

text \<open>
  C5: a sync page of one namespace is exactly the first \<open>limit\<close> dirty rows that the quarantine
  ledger admits, in queue order, as they are served. However many blocked rows stand in front,
  the paging loop ends, skips none that is admitted and repeats none.
\<close>

theorem dirty_page_is_exact:
  assumes "db_ok (b_db b)"
  shows "get_dirty_entries v b since (Some ns) limit after
    = dirty_spec (\<lambda>e. \<not> quarantine_blocks v b e) (map snd (rows (b_db b))) since (Some ns) limit after"
proof (cases limit)
  case None
  then show ?thesis by (simp add: get_dirty_entries_def dirty_spec_def dirty_loop.simps page_query_def Let_def)
next
  case (Some n)
  have "rows_ok (b_db b)" using assms by (simp add: db_ok_def)
  from dirty_loop_spec [OF positions_distinct [OF this]] show ?thesis
    by (simp add: Some get_dirty_entries_def dirty_spec_def Let_def)
qed

theorem dirty_page_is_exact_witness:
  "get_dirty_entries plain_env (held_store [(''project:a'', ''M-1''), (''project:a'', ''M-2'')]) 0
     (Some ''project:a'') (Some 1) None
   = dirty_spec (\<lambda>e. \<not> quarantine_blocks plain_env (held_store [(''project:a'', ''M-1''), (''project:a'', ''M-2'')]) e)
       [row_of (''project:a'', ''M-1''), row_of (''project:a'', ''M-2'')] 0 (Some ''project:a'') (Some 1) None"
proof -
  have "db_ok (b_db (held_store [(''project:a'', ''M-1''), (''project:a'', ''M-2'')]))"
    by (simp add: held_store_def write_row_ok db_ok_empty)
  from dirty_page_is_exact [OF this, of plain_env 0 "''project:a''" "Some 1" None] show ?thesis
    by (simp add: held_rows)
qed

text \<open>
  Across all namespaces a page can lose a row. Two namespaces hold dirty rows of the same id
  and revision, the first is blocked, and a page of one comes back empty although the second is
  dirty and admitted: the keyset position \<open>(sync_seq, id)\<close> is unique only within a namespace.
\<close>

theorem unscoped_page_skips_a_row:
  "get_dirty_entries plain_env (held_store [(''project:a'', ''M-1''), (''project:b'', ''M-1'')]) 0 None (Some 1) None = []
   \<and> dirty_spec (\<lambda>e. \<not> quarantine_blocks plain_env
          (held_store [(''project:a'', ''M-1''), (''project:b'', ''M-1'')]) e)
       [row_of (''project:a'', ''M-1''), row_of (''project:b'', ''M-1'')] 0 None (Some 1) None
     = [row_of (''project:b'', ''M-1'')]"
proof -
  have hits: "page_hits [row_of (''project:a'', ''M-1''), row_of (''project:b'', ''M-1'')] 0 None None
      = [row_of (''project:a'', ''M-1''), row_of (''project:b'', ''M-1'')]"
    "page_hits [row_of (''project:a'', ''M-1''), row_of (''project:b'', ''M-1'')] 0 None (Some (1, ''M-1'')) = []"
    by (simp_all add: page_hits_def behind_def dirty_in_def pos_of_def)
  show ?thesis
    by (simp add: get_dirty_entries_def dirty_loop.simps dirty_spec_def page_query_def hits pos_of_def Let_def)
qed

lemma updated_row_unsynced:
  "\<not> names us ''sync_seq'' \<Longrightarrow> \<not> names us ''sync_hash'' \<Longrightarrow> \<not> names us ''last_synced_at'' \<Longrightarrow>
    sync_seq (updated_row sha us e) = sync_seq e + 1 \<and> last_synced_at (updated_row sha us e) = None"
  by (simp add: updated_row_def Let_def)

lemma backend_update_row:
  assumes "backend_update v t b i ns us = Inr (b', r)"
  shows "b' = b \<or> (us \<noteq> [] \<and> (\<exists>old. db_get i ns (b_db b) = Some old
           \<and> db_get i ns (b_db b') = Some (updated_row (env_sha v) (stamped_updates t us) old)))"
    and "backend_get v b i ns \<noteq> None \<Longrightarrow> us \<noteq> [] \<Longrightarrow> \<exists>old. db_get i ns (b_db b) = Some old
           \<and> db_get i ns (b_db b') = Some (updated_row (env_sha v) (stamped_updates t us) old)"
  using assms
  by (auto simp: backend_update_def bindE_Inr db_update_def db_get_def Let_def backend_get_def
      split: if_splits option.splits)

text \<open>The edits of one row between a publish and its acknowledgement, with their times.\<close>

fun run_edits ::
  "env \<Rightarrow> string \<Rightarrow> string \<Rightarrow> (int \<times> field_update list) list \<Rightarrow> backend \<Rightarrow> (schema_error, backend) result" where
  "run_edits v i ns [] b = Inr b"
| "run_edits v i ns ((t, us) # rest) b =
     bindE (backend_update v t b i ns us) (\<lambda>(b', _). run_edits v i ns rest b')"

definition sync_free :: "field_update list \<Rightarrow> bool" where
  "sync_free us \<longleftrightarrow> \<not> names us ''sync_seq'' \<and> \<not> names us ''sync_hash'' \<and> \<not> names us ''last_synced_at''"

lemma sync_free_stamped [simp]: "sync_free (stamped_updates t us) = sync_free us"
  by (simp add: sync_free_def)

definition revised :: "int \<Rightarrow> backend \<Rightarrow> string \<Rightarrow> string \<Rightarrow> bool" where
  "revised s b i ns \<longleftrightarrow>
     (\<exists>row. db_get i ns (b_db b) = Some row \<and> s < sync_seq row \<and> last_synced_at row = None)"

lemma update_revises:
  assumes "backend_update v t b i ns us = Inr (b', r)" "sync_free us"
    and "revised s b i ns \<or> (us \<noteq> [] \<and> (\<exists>e. backend_get v b i ns = Some e \<and> s \<le> sync_seq e))"
  shows "revised s b' i ns"
proof -
  have up: "sync_seq (updated_row sha (stamped_updates t us) old) = sync_seq old + 1
      \<and> last_synced_at (updated_row sha (stamped_updates t us) old) = None" for sha old
    using assms(2) sync_free_stamped updated_row_unsynced unfolding sync_free_def by blast
  show ?thesis
  proof (cases "revised s b i ns")
    case True
    then show ?thesis using backend_update_row(1) [OF assms(1)] up by (fastforce simp: revised_def)
  next
    case False
    with assms(3) obtain e where e: "backend_get v b i ns = Some e" "s \<le> sync_seq e" "us \<noteq> []" by blast
    from e(1) obtain raw where "db_get i ns (b_db b) = Some raw" "sync_seq raw = sync_seq e"
      by (auto dest!: backend_get_SomeD simp: served_view_frame)
    then show ?thesis using backend_update_row(2) [OF assms(1)] e up by (fastforce simp: revised_def)
  qed
qed

lemma edits_revise:
  "run_edits v i ns edits b = Inr b' \<Longrightarrow> \<forall>(t, us) \<in> set edits. sync_free us \<Longrightarrow> revised s b i ns
    \<Longrightarrow> revised s b' i ns"
proof (induction edits arbitrary: b)
  case (Cons x edits)
  obtain t us where x: "x = (t, us)" by (cases x)
  with Cons.prems(1) obtain b1 r where "backend_update v t b i ns us = Inr (b1, r)"
    and rest: "run_edits v i ns edits b1 = Inr b'" by (auto simp: bindE_Inr)
  with Cons.prems x have "revised s b1 i ns" by (auto intro: update_revises)
  with Cons rest show ?case by simp
qed simp


text \<open>
  The acknowledgement of an unedited row does clean it: \<open>ack_publish\<close> of the very snapshot
  the store still serves reports the stamp, and the row leaves the dirty pages.
\<close>

theorem ack_cleans_published:
  assumes "backend_get v b (eid e) (namespace e) = Some e"
    and "ack_publish v now b e acks = Inr (b', stamped)"
  shows "stamped \<and> (\<exists>row. db_get (eid e) (namespace e) (b_db b') = Some row
      \<and> last_synced_at row = Some now \<and> \<not> dirty_in ns row)"
proof -
  from assms obtain r where st: stamped
    and upd: "backend_update v now b (eid e) (namespace e) (acks @ [ULastSyncedAt (Some now)]) = Inr (b', r)"
    by (auto simp: ack_publish_def ack_revision_def Let_def bindE_Inr)
  have "last_synced_at (updated_row sha (stamped_updates now (acks @ [ULastSyncedAt (Some now)])) old) = Some now"
    for sha old by (simp add: updated_row_def Let_def names_def stamped_updates_def set_fields_def)
  then show ?thesis using st backend_update_row(2) [OF upd] assms(1) by (fastforce simp: dirty_in_def)
qed

lemma held_get [simp]:
  "backend_get plain_env (held_store [k]) (snd k) (fst k)
    = (if k = (''project:a'', ''M-1'') then None else Some (row_of k))"
  by (simp add: backend_get_def db_get_def quarantine_admits_def)

lemma set_fields_row_of [simp]: "eid (set_fields (row_of k) us) = snd k" "namespace (set_fields (row_of k) us) = fst k"
  by simp_all

lemma utf8_plain [simp]: "env_utf8 plain_env = (\<lambda>_. True)" "env_sha plain_env = (\<lambda>_. ''h'')"
  by (simp_all add: plain_env_def)

lemma held_update:
  assumes "k \<noteq> (''project:a'', ''M-1'')" "us \<noteq> []"
    and "refuse_new_violation (Some (row_of k)) (set_fields (row_of k) (stamped_updates t us)) = Inr ()"
  shows "\<exists>b' r. backend_update plain_env t (held_store [k]) (snd k) (fst k) us = Inr (b', r)"
  using assms by (simp add: backend_update_def db_update_def db_get_def bindE_Inr Let_def)

theorem ack_cleans_published_witness:
  "\<exists>b'. ack_publish plain_env 9 (held_store [(''project:b'', ''M-1'')]) (row_of (''project:b'', ''M-1'')) [UPublished True]
      = Inr (b', True)
    \<and> (\<exists>row. db_get ''M-1'' ''project:b'' (b_db b') = Some row \<and> last_synced_at row = Some 9)"
proof -
  have "violates_evidence_invariant (set_fields (row_of (''project:b'', ''M-1''))
      (stamped_updates 9 [UPublished True, ULastSyncedAt (Some 9)])) = False"
    by (simp add: stamped_updates_def names_def bookkeeping_fields_def set_fields_def violates_evidence_invariant_def
        row_of_def stamp_sync_def new_entry_def)
  then obtain b' r where "backend_update plain_env 9 (held_store [(''project:b'', ''M-1'')]) ''M-1'' ''project:b''
      [UPublished True, ULastSyncedAt (Some 9)] = Inr (b', r)"
    using held_update [of "(''project:b'', ''M-1'')" "[UPublished True, ULastSyncedAt (Some 9)]" 9]
    by (auto simp: refuse_new_violation_Inr_iff)
  then have ack: "ack_publish plain_env 9 (held_store [(''project:b'', ''M-1'')]) (row_of (''project:b'', ''M-1''))
      [UPublished True] = Inr (b', True)"
    using held_get [of "(''project:b'', ''M-1'')"] by (simp add: ack_publish_def ack_revision_def Let_def bindE_Inr)
  have "backend_get plain_env (held_store [(''project:b'', ''M-1'')]) (eid (row_of (''project:b'', ''M-1'')))
      (namespace (row_of (''project:b'', ''M-1''))) = Some (row_of (''project:b'', ''M-1''))"
    using held_get [of "(''project:b'', ''M-1'')"] by simp
  from ack_cleans_published [OF this ack, of None] show ?thesis using ack by auto
qed

lemma mark_updates [simp]: "stamped_updates t [ULastSyncedAt u] = [ULastSyncedAt u]"
  by (simp add: stamped_updates_def bookkeeping_fields_def)

lemma mark_not_refused [simp]: "refuse_new_violation (Some x) (x\<lparr>last_synced_at := u\<rparr>) = Inr ()"
  by (simp add: refuse_new_violation_Inr_iff violates_evidence_invariant_def same_claim_def)

lemma mark_set_fields [simp]: "set_fields x [ULastSyncedAt u] = x\<lparr>last_synced_at := u\<rparr>"
  by (simp add: set_fields_def)


lemma backend_store_SomeD:
  "backend_store v b e = Inr b' \<Longrightarrow>
    b_ledger b' = b_ledger b \<and> db_get (eid e) (namespace e) (b_db b') = Some (stamp_sync (env_sha v) e)
    \<and> validate_entry_for_write (env_utf8 v) e = Inr ()"
  by (auto simp: backend_store_def db_store_def bindE_Inr db_get_def write_row_get entry_key_def)

lemma validated_id_utf8: "validate_entry_for_write utf8 e = Inr () \<Longrightarrow> utf8 (eid e)"
  by (auto simp: validate_entry_for_write_def validate_utf8_fields_def entry_text_fields_def Let_def split: if_splits)

lemma mark_text_ok: "utf8 i \<Longrightarrow> validate_utf8_fields utf8 (updated_text_fields i [ULastSyncedAt u]) = Inr ()"
  by (simp add: validate_utf8_fields_def updated_text_fields_def text_columns_def)

lemma marked_row [simp]: "updated_row sha [ULastSyncedAt u] x = x\<lparr>last_synced_at := u\<rparr>"
  by (simp add: updated_row_def)

lemma served_mark [simp]: "served_view (x\<lparr>last_synced_at := u\<rparr>) = (served_view x)\<lparr>last_synced_at := u\<rparr>"
  by (simp add: served_view_def violates_evidence_invariant_def)

lemma blocks_mark [simp]: "quarantine_blocks v b (x\<lparr>last_synced_at := u\<rparr>) = quarantine_blocks v b x"
proof -
  have "blocks ch L (x\<lparr>last_synced_at := u\<rparr>) = blocks ch L x" for ch L
    by (simp add: blocks_def entry_identity_keys_def source_of_def)
  then show ?thesis by (simp add: quarantine_blocks_def split: option.split)
qed

lemma mark_db_update:
  assumes "db_get i ns d = Some row" "utf8 i"
  shows "\<exists>d'. db_update utf8 sha t i ns [ULastSyncedAt u] d = Inr (d', Some (row\<lparr>last_synced_at := u\<rparr>))
    \<and> db_get i ns d' = Some (row\<lparr>last_synced_at := u\<rparr>)"
  using assms by (simp add: db_update_def Let_def mark_text_ok db_get_def)

lemma mark_single:
  assumes "db_get i ns (b_db b) = Some row" "env_utf8 v i"
  shows "\<exists>b'. mark_synced v now [i] b ns None = (b', if backend_get v b i ns = None then 0 else 1)
    \<and> b_ledger b' = b_ledger b
    \<and> db_get i ns (b_db b')
       = Some (if backend_get v b i ns = None then row else row\<lparr>last_synced_at := Some now\<rparr>)"
proof (cases "backend_get v b i ns = None")
  case True
  then have "b_ledger b \<noteq> None"
    using assms(1) by (auto simp: backend_get_def quarantine_admits_def quarantine_blocks_def
        split: if_splits option.splits)
  with True assms(1) show ?thesis by (simp add: mark_synced_def mark_one_def backend_update_def Let_def)
next
  case False
  then have admit: "\<not> quarantine_blocks v b (served_view row)"
    using assms(1) by (auto simp: backend_get_def quarantine_admits_def)
  from mark_db_update [of i ns "b_db b" row "env_utf8 v", OF assms] obtain d'
    where d: "db_update (env_utf8 v) (env_sha v) now i ns [ULastSyncedAt (Some now)] (b_db b)
        = Inr (d', Some (row\<lparr>last_synced_at := Some now\<rparr>))"
      and get: "db_get i ns d' = Some (row\<lparr>last_synced_at := Some now\<rparr>)" by blast
  have "quarantine_blocks v (b\<lparr>b_db := d'\<rparr>) (served_view row) = False" using admit by simp
  then have "backend_update v now b i ns [ULastSyncedAt (Some now)]
      = Inr (b\<lparr>b_db := d'\<rparr>, Some ((served_view row)\<lparr>last_synced_at := Some now\<rparr>))"
    using False d by (simp add: backend_update_def quarantine_admits_def del: quarantine_blocks_cong)
  then have "mark_synced v now [i] b ns None = (b\<lparr>b_db := d'\<rparr>, 1)"
    by (simp add: mark_synced_def mark_one_def)
  then show ?thesis using False get by simp
qed

lemma upsert_vector_frame [simp]:
  "rows (b_db (upsert_vector b i ns vec)) = rows (b_db b)" "b_ledger (upsert_vector b i ns vec) = b_ledger b"
  "rows (b_db (remove_vector b i ns)) = rows (b_db b)" "b_ledger (remove_vector b i ns) = b_ledger b"
  by (simp_all add: upsert_vector_def remove_vector_def)

text \<open>
  C7: a pulled row is applied only over the revision its merge read. A row that moved since, or
  appeared meanwhile, answers \<open>Conflict\<close> and nothing is written; otherwise the stored row carries
  the merged claim, and it is left clean just if the caller asked so and the store serves it.
\<close>

theorem pulled_apply_is_conditional:
  assumes "gate b e = GateAdmits row" "entry_key row = entry_key e"
    and "apply_synced_entry v now gate encode b e seen synced = Inr (b', r)"
  shows "if revision_of v (backend_get v b (eid e) (namespace e)) = seen
    then r = Stored \<and> db_get (eid e) (namespace e) (b_db b')
      = Some ((stamp_sync (env_sha v) row)\<lparr>last_synced_at :=
           if synced \<and> backend_get v b' (eid e) (namespace e) \<noteq> None then Some now else None\<rparr>)
    else r = Conflict \<and> b' = b"
proof (cases "revision_of v (backend_get v b (eid e) (namespace e)) = seen")
  case False
  with assms(1,3) show ?thesis by (simp add: apply_synced_entry_def)
next
  case True
  let ?cur = "backend_get v b (eid e) (namespace e)" and ?row = "stamp_sync (env_sha v) row"
  have key: "eid row = eid e" "namespace row = namespace e" using assms(2) by (auto simp: entry_key_def)
  from True assms(1,3) obtain b1 where st: "backend_store v b row = Inr b1"
    by (auto simp: apply_synced_entry_def Let_def bindE_Inr)
  define b2 where "b2 = (case encode (embed_text row) of
       Some vec \<Rightarrow> upsert_vector b1 (eid row) (namespace row) vec
     | None \<Rightarrow> (case ?cur of Some c \<Rightarrow> if embed_text c \<noteq> embed_text row
           then remove_vector b1 (eid row) (namespace row) else b1 | None \<Rightarrow> b1))"
  have b': "r = Stored" "b' = (if synced then fst (mark_synced v now [eid e] b2 (namespace e) None) else b2)"
    using True assms(1,3) st by (auto simp: apply_synced_entry_def Let_def b2_def)
  have "rows (b_db b2) = rows (b_db b1)" "b_ledger b2 = b_ledger b1"
    by (auto simp: b2_def split: option.splits)
  then have row: "db_get (eid e) (namespace e) (b_db b2) = Some ?row" and utf8: "env_utf8 v (eid e)"
    using backend_store_SomeD [OF st] key by (auto simp: db_get_def dest: validated_id_utf8)
  have clean: "?row\<lparr>last_synced_at := None\<rparr> = ?row" by (simp add: stamp_sync_def)
  have served: "backend_get v c (eid e) (namespace e) = None \<longleftrightarrow> quarantine_blocks v c (served_view x)"
    if "db_get (eid e) (namespace e) (b_db c) = Some x" for c x
    using that by (simp add: backend_get_def quarantine_admits_def)
  have block: "b_ledger c = b_ledger b2 \<Longrightarrow> quarantine_blocks v c x = quarantine_blocks v b2 x" for c x
    by (simp add: quarantine_blocks_def)
  show ?thesis
  proof (cases synced)
    case False
    with True b' row clean show ?thesis by simp
  next
    case True
    from mark_single [OF row utf8, of now] obtain c
      where c: "b' = c" "b_ledger c = b_ledger b2" "db_get (eid e) (namespace e) (b_db c)
        = Some (if backend_get v b2 (eid e) (namespace e) = None then ?row else ?row\<lparr>last_synced_at := Some now\<rparr>)"
      using b' True by auto
    then have "backend_get v b' (eid e) (namespace e) = None \<longleftrightarrow> backend_get v b2 (eid e) (namespace e) = None"
      using served [OF c(3)] served [OF row] block [OF c(2)] by simp
    then show ?thesis using True \<open>revision_of v ?cur = seen\<close> b'(1) c clean by simp
  qed
qed

theorem pulled_apply_is_conditional_witness:
  "\<exists>b'. apply_synced_entry plain_env 9 (\<lambda>_. GateAdmits) (\<lambda>_. None) (held_store [(''project:b'', ''M-1'')])
       (row_of (''project:b'', ''M-1'')) (Some ''stale'') True = Inr (b', Conflict)
    \<and> b' = held_store [(''project:b'', ''M-1'')]"
proof -
  let ?e = "row_of (''project:b'', ''M-1'')" and ?b = "held_store [(''project:b'', ''M-1'')]"
  have get: "backend_get plain_env ?b (eid ?e) (namespace ?e) = Some ?e"
    using held_get [of "(''project:b'', ''M-1'')"] by simp
  have moved: "revision_of plain_env (Some ?e) \<noteq> Some ''stale''"
    by (simp add: revision_of_def revision_view_def plain_env_def row_of_def stamp_sync_def new_entry_def)
  have run: "apply_synced_entry plain_env 9 (\<lambda>_. GateAdmits) (\<lambda>_. None) ?b ?e (Some ''stale'') True
      = Inr (?b, Conflict)"
    using moved get by (simp add: apply_synced_entry_def Let_def)
  show ?thesis
    using pulled_apply_is_conditional [where gate = "\<lambda>_. GateAdmits" and row = ?e, OF refl refl run] get moved run
    by simp
qed

end
