(* ===== verification/Labels.thy ===== *)
theory Labels
  imports Entry
begin

text \<open>
  Confidentiality labels, \<^verbatim>\<open>labels/\<close>: the levels, the validation of the user's labels.yaml, the
  policy built from it, stamps, admission to a surface or sink, and the session's high-water
  mark. The parameters are \<open>ufold\<close>, the Unicode part of \<open>tag_key\<close> (NFKC, invisible characters
  dropped, casefolded), and \<open>glob\<close>, \<open>fnmatchcase\<close>. A policy is immutable, so its namespace cache
  is not modelled.
\<close>

section \<open>Levels\<close>

datatype level = Public | Team | Personal | Sensitive

fun level_number :: "level \<Rightarrow> nat" where
  "level_number Public = 0"
| "level_number Team = 1"
| "level_number Personal = 2"
| "level_number Sensitive = 3"

lemma level_number_inject: "level_number a = level_number b \<Longrightarrow> a = b"
  by (cases a; cases b) simp_all

instantiation level :: linorder
begin

definition less_eq_level :: "level \<Rightarrow> level \<Rightarrow> bool" where
  "less_eq_level a b \<longleftrightarrow> level_number a \<le> level_number b"

definition less_level :: "level \<Rightarrow> level \<Rightarrow> bool" where
  "less_level a b \<longleftrightarrow> level_number a < level_number b"

instance
  by standard (auto simp: less_eq_level_def less_level_def intro: level_number_inject)

end

fun level_name :: "level \<Rightarrow> string" where
  "level_name Public = ''public''"
| "level_name Team = ''team''"
| "level_name Personal = ''personal''"
| "level_name Sensitive = ''sensitive''"

datatype destination = AutoSurface | AgentSurface | PlatformSink | ProjectFilesSink

definition stamp_values :: "(string, level) dict" where
  "stamp_values = map (\<lambda>l. (level_name l, l)) [Public, Team, Personal, Sensitive]"

definition stamp_level :: "string \<Rightarrow> level" where
  "stamp_level s = dict_get stamp_values s Sensitive"

definition tag_key :: "(string \<Rightarrow> string) \<Rightarrow> string \<Rightarrow> string" where
  "tag_key ufold tag = str_join '' '' (str_words (if is_ascii tag then str_lower tag else ufold tag))"

section \<open>The policy file\<close>

datatype yaml =
  YNull | YBool bool | YInt int | YFloat rat | YStr string | YList "yaml list" | YMap "(yaml \<times> yaml) list"

datatype labels_error =
  Unreadable | ChangedWhileReading | NotRegularFile | WritableByOthers | Oversize | Unparseable
| EmptyFile | UnknownKey | BadVersion | BadSurfaceLevel | AutoAboveAgent | BadRule | BadRuleLevel | TooManyRules

definition max_bytes :: nat where "max_bytes = 64 * 1024"
definition max_rules :: nat where "max_rules = 200"
definition max_tags :: nat where "max_tags = 64"
definition max_text :: nat where "max_text = 256"

record rule =
  ru_namespace :: "string option"
  ru_tags :: "string list"
  ru_level :: level

record file_data =
  fd_auto :: level
  fd_agent :: level
  fd_rules :: "rule list"

record file_stat =
  st_regular :: bool
  st_mode :: nat
  st_dev_ino :: "nat \<times> nat"
  st_size :: nat

definition check_stat :: "file_stat \<Rightarrow> (labels_error, unit) result" where
  "check_stat st =
     (if \<not> st_regular st then Inl NotRegularFile
      else if odd (st_mode st div 2) \<or> odd (st_mode st div 16) then Inl WritableByOthers
      else if st_size st > max_bytes then Inl Oversize
      else Inr ())"

text \<open>What opening the file gave: its \<open>fstat\<close>, how many bytes it holds, and its text if that is UTF-8.\<close>

definition read_text :: "file_stat \<Rightarrow> (file_stat \<times> nat \<times> string option) option \<Rightarrow> (labels_error, string) result" where
  "read_text st opening =
     bindE (check_stat st) (\<lambda>_.
       case opening of
         None \<Rightarrow> Inl Unreadable
       | Some (opened, bytes, decoded) \<Rightarrow>
           if st_dev_ino opened \<noteq> st_dev_ino st then Inl ChangedWhileReading
           else bindE (check_stat opened) (\<lambda>_.
                  if bytes > max_bytes then Inl Oversize
                  else (case decoded of None \<Rightarrow> Inl Unparseable | Some text \<Rightarrow> Inr text)))"

definition yaml_get :: "(yaml \<times> yaml) list \<Rightarrow> string \<Rightarrow> yaml option" where
  "yaml_get m k = map_of m (YStr k)"

definition keys_within :: "string list \<Rightarrow> (yaml \<times> yaml) list \<Rightarrow> bool" where
  "keys_within ks m \<longleftrightarrow> set (dict_keys m) \<subseteq> YStr ` set ks"

definition is_version_one :: "yaml option \<Rightarrow> bool" where
  "is_version_one v \<longleftrightarrow> v = Some (YInt 1) \<or> v = Some (YFloat 1)"

definition surface_levels :: "(string, level) dict" where
  "surface_levels = [(''team'', Team), (''personal'', Personal)]"

definition rule_levels :: "(string, level) dict" where
  "rule_levels = [(''personal'', Personal), (''sensitive'', Sensitive)]"

definition surface_level :: "(yaml \<times> yaml) list \<Rightarrow> string \<Rightarrow> level \<Rightarrow> (labels_error, level) result" where
  "surface_level doc k dflt =
     (case yaml_get doc k of
        None \<Rightarrow> Inr dflt
      | Some (YStr s) \<Rightarrow> (case map_of surface_levels s of Some l \<Rightarrow> Inr l | None \<Rightarrow> Inl BadSurfaceLevel)
      | Some _ \<Rightarrow> Inl BadSurfaceLevel)"

fun rule_namespace :: "yaml option \<Rightarrow> (labels_error, string option) result" where
  "rule_namespace None = Inr None"
| "rule_namespace (Some YNull) = Inr None"
| "rule_namespace (Some (YStr s)) = (if s = [] \<or> length s > max_text then Inl BadRule else Inr (Some s))"
| "rule_namespace (Some _) = Inl BadRule"

fun rule_tag :: "yaml \<Rightarrow> (labels_error, string) result" where
  "rule_tag (YStr s) = (if s = [] \<or> length s > max_text then Inl BadRule else Inr s)"
| "rule_tag _ = Inl BadRule"

fun rule_tags :: "(string \<Rightarrow> string) \<Rightarrow> yaml option \<Rightarrow> (labels_error, string list option) result" where
  "rule_tags ufold None = Inr None"
| "rule_tags ufold (Some YNull) = Inr None"
| "rule_tags ufold (Some (YList ts)) =
     (if ts = [] \<or> length ts > max_tags then Inl BadRule
      else bindE (mapE rule_tag ts) (\<lambda>texts. Inr (Some (uniq (map (tag_key ufold) texts)))))"
| "rule_tags ufold (Some _) = Inl BadRule"

definition or_empty :: "'a list option \<Rightarrow> 'a list" where
  "or_empty t = (case t of None \<Rightarrow> [] | Some k \<Rightarrow> k)"

definition parse_rule :: "(string \<Rightarrow> string) \<Rightarrow> yaml \<Rightarrow> (labels_error, rule) result" where
  "parse_rule ufold item =
     (case item of
        YMap m \<Rightarrow>
          if \<not> keys_within [''namespace'', ''tags_any'', ''level''] m then Inl BadRule
          else (case yaml_get m ''level'' of
                  Some (YStr s) \<Rightarrow>
                    (case map_of rule_levels s of
                       None \<Rightarrow> Inl BadRuleLevel
                     | Some l \<Rightarrow>
                         (let ns = yaml_get m ''namespace''; ts = yaml_get m ''tags_any''
                          in if ns \<in> {None, Some YNull} \<and> ts \<in> {None, Some YNull} then Inl BadRule
                             else bindE (rule_namespace ns) (\<lambda>n.
                                  bindE (rule_tags ufold ts) (\<lambda>t.
                                    Inr \<lparr>ru_namespace = n, ru_tags = or_empty t, ru_level = l\<rparr>))))
                | _ \<Rightarrow> Inl BadRuleLevel)
      | _ \<Rightarrow> Inl BadRule)"

definition parse_rules :: "(string \<Rightarrow> string) \<Rightarrow> yaml option \<Rightarrow> (labels_error, rule list) result" where
  "parse_rules ufold v =
     (case v of
        None \<Rightarrow> Inr []
      | Some (YList items) \<Rightarrow>
          if length items > max_rules then Inl TooManyRules else mapE (parse_rule ufold) items
      | Some _ \<Rightarrow> Inl BadRule)"

text \<open>\<open>parse\<close> on what the YAML reader made of the text, nothing when it could not read it.\<close>

definition parse_labels :: "(string \<Rightarrow> string) \<Rightarrow> yaml option \<Rightarrow> (labels_error, file_data) result" where
  "parse_labels ufold document =
     (case document of
        None \<Rightarrow> Inl Unparseable
      | Some YNull \<Rightarrow> Inl EmptyFile
      | Some (YMap doc) \<Rightarrow>
          if \<not> keys_within [''version'', ''auto_surface_max'', ''agent_max'', ''rules''] doc then Inl UnknownKey
          else if \<not> is_version_one (yaml_get doc ''version'') then Inl BadVersion
          else bindE (surface_level doc ''auto_surface_max'' Team) (\<lambda>auto.
               bindE (surface_level doc ''agent_max'' Personal) (\<lambda>agent.
                 if auto > agent then Inl AutoAboveAgent
                 else bindE (parse_rules ufold (yaml_get doc ''rules'')) (\<lambda>rs.
                        Inr \<lparr>fd_auto = auto, fd_agent = agent, fd_rules = rs\<rparr>)))
      | Some _ \<Rightarrow> Inl UnknownKey)"

section \<open>The policy\<close>

record policy =
  po_clearance :: "(destination, level) dict"
  po_strict :: bool
  po_tags :: "(string, level) dict"
  po_namespaced :: "rule list"

definition raise_tag :: "level \<Rightarrow> string \<Rightarrow> (string, level) dict \<Rightarrow> (string, level) dict" where
  "raise_tag l t d = dict_set t (max (dict_get d t Public) l) d"

definition raise_rule :: "rule \<Rightarrow> (string, level) dict \<Rightarrow> (string, level) dict" where
  "raise_rule r d = fold (raise_tag (ru_level r)) (ru_tags r) d"

definition make_policy :: "bool \<Rightarrow> file_data option \<Rightarrow> policy" where
  "make_policy strict data =
     (let (auto, agent) = (case data of Some d \<Rightarrow> (fd_auto d, fd_agent d) | None \<Rightarrow> (Team, Personal));
          rules = (case data of Some d \<Rightarrow> fd_rules d | None \<Rightarrow> [])
      in \<lparr>po_clearance = [(AutoSurface, auto), (AgentSurface, agent), (PlatformSink, Team), (ProjectFilesSink, Team)],
          po_strict = strict,
          po_tags = fold raise_rule (filter (\<lambda>r. ru_namespace r = None) rules) [],
          po_namespaced = filter (\<lambda>r. ru_namespace r \<noteq> None) rules\<rparr>)"

text \<open>
  \<open>_build\<close>: no file is the default policy; a file that cannot be stat'ed, read or parsed is the
  strict one. \<open>parsed\<close> is \<open>parse\<close> of what \<open>read_text\<close> returned.
\<close>

datatype labels_file = NoFile | NoStat | File "(labels_error, file_data) result"

definition build_policy :: "labels_file \<Rightarrow> policy" where
  "build_policy f =
     (case f of
        NoFile \<Rightarrow> make_policy False None
      | NoStat \<Rightarrow> make_policy True None
      | File (Inr d) \<Rightarrow> make_policy False (Some d)
      | File (Inl _) \<Rightarrow> make_policy True None)"

definition for_namespace :: "(string \<Rightarrow> string \<Rightarrow> bool) \<Rightarrow> policy \<Rightarrow> string \<Rightarrow> level \<times> (string, level) dict" where
  "for_namespace glob p ns =
     (let hits = filter (\<lambda>r. case ru_namespace r of None \<Rightarrow> False | Some g \<Rightarrow> glob ns g) (po_namespaced p)
      in (max_from Public (map ru_level (filter (\<lambda>r. ru_tags r = []) hits)),
          fold raise_rule (filter (\<lambda>r. ru_tags r \<noteq> []) hits) []))"

definition stamp_key :: string where "stamp_key = ''trw_label''"

definition label_of :: "(string \<Rightarrow> string) \<Rightarrow> (string \<Rightarrow> string \<Rightarrow> bool) \<Rightarrow> policy \<Rightarrow> memory_entry \<Rightarrow> level" where
  "label_of ufold glob p e =
     (let base = (if prefix ''user:'' (namespace e) \<and> (po_strict p \<or> namespace e \<noteq> ''user:local'') then Personal else Team);
          ruled = (if po_tags p = [] \<and> po_namespaced p = [] then base
                   else (let (floor_level, by_tag) = for_namespace glob p (namespace e)
                         in max_from (max base floor_level)
                              (concat (map (\<lambda>t. let k = tag_key ufold t
                                             in [dict_get (po_tags p) k Public, dict_get by_tag k Public]) (tags e)))))
      in (case map_of (metadata e) stamp_key of None \<Rightarrow> ruled | Some s \<Rightarrow> max ruled (stamp_level s)))"

section \<open>Stamps, admission, the session mark\<close>

definition highest :: "(memory_entry \<Rightarrow> level) \<Rightarrow> memory_entry list \<Rightarrow> level" where
  "highest lab es = max_from Team (map lab es)"

definition higher_stamp :: "string option \<Rightarrow> level \<Rightarrow> string" where
  "higher_stamp existing mark =
     (case existing of None \<Rightarrow> level_name mark | Some s \<Rightarrow> level_name (max (stamp_level s) mark))"

definition stamped :: "(string, string) dict \<Rightarrow> level \<Rightarrow> level \<Rightarrow> (string, string) dict" where
  "stamped md mark entry_level =
     (if mark > entry_level then dict_set stamp_key (higher_stamp (map_of md stamp_key) mark) md else md)"

definition joined :: "(string, string) dict \<Rightarrow> (string, string) dict \<Rightarrow> (string, string) dict" where
  "joined base other =
     (let stamps = List.map_filter (\<lambda>x. x) [map_of base stamp_key, map_of other stamp_key]
      in if stamps = [] then base
         else dict_set stamp_key (level_name (max_from Public (map stamp_level stamps))) base)"

record admission =
  ad_admitted :: "memory_entry list"
  ad_withheld :: nat
  ad_top :: level

definition admit :: "(memory_entry \<Rightarrow> level) \<Rightarrow> policy \<Rightarrow> memory_entry list \<Rightarrow> destination \<Rightarrow> admission" where
  "admit lab p es to =
     (let clearance = dict_get (po_clearance p) to Public;
          ok = filter (\<lambda>e. lab e \<le> clearance) es
      in \<lparr>ad_admitted = ok, ad_withheld = length es - length ok, ad_top = max_from Team (map lab ok)\<rparr>)"

definition initial_mark :: level where "initial_mark = Team"

definition raise_to :: "level \<Rightarrow> level \<Rightarrow> level" where
  "raise_to mark l = (if l \<le> mark then mark else l)"

definition reported :: "level \<Rightarrow> string option" where
  "reported mark = (if mark > Team then Some (level_name mark) else None)"

section \<open>Raise-only registers\<close>

text \<open>
  A register of this shape can only rise: raising it to a level leaves the larger of the two.
  The session mark, a row's stamp and the level of a tag in a policy are three of them.
\<close>

locale high_water =
  fixes reads :: "'m \<Rightarrow> level"
    and raises :: "level \<Rightarrow> 'm \<Rightarrow> 'm"
  assumes reads_raise: "reads (raises l m) = max (reads m) l"
begin

lemma raise_reaches: "l \<le> reads (raises l m)"
  by (simp add: reads_raise)

lemma raise_keeps: "reads m \<le> reads (raises l m)"
  by (simp add: reads_raise)

lemma reads_fold: "reads (fold raises ls m) = max_from (reads m) ls"
  by (induction ls arbitrary: m) (simp_all add: reads_raise)

lemma fold_reaches: "l \<in> set ls \<Longrightarrow> l \<le> reads (fold raises ls m)"
  using max_from_le_iff [of "reads m" ls "max_from (reads m) ls"] by (simp add: reads_fold)

end

lemma level_bounds [simp]: "Public \<le> l" "l \<le> Sensitive" "Sensitive \<le> l \<longleftrightarrow> l = Sensitive" "l \<le> Public \<longleftrightarrow> l = Public"
  by (cases l; simp add: less_eq_level_def)+

lemma stamp_level_name [simp]: "stamp_level (level_name l) = l"
  by (cases l) (simp_all add: stamp_level_def stamp_values_def dict_get_def)

definition stamp_of :: "(string, string) dict \<Rightarrow> level" where
  "stamp_of md = (case map_of md stamp_key of None \<Rightarrow> Public | Some s \<Rightarrow> stamp_level s)"

interpretation session: high_water "\<lambda>m. m" "\<lambda>l m. raise_to m l"
  by unfold_locales (auto simp: raise_to_def max_def)

interpretation stamps: high_water stamp_of "\<lambda>l md. stamped md l (stamp_of md)"
  by unfold_locales (auto simp: stamped_def higher_stamp_def stamp_of_def max_def not_less split: option.splits)

interpretation tag_levels: high_water "\<lambda>d. dict_get d t Public" "\<lambda>l d. raise_tag l t d" for t
  by unfold_locales (simp add: raise_tag_def)

section \<open>What a label is\<close>

lemma eq_by_bounds: "(\<And>b :: 'a::order. x \<le> b \<longleftrightarrow> y \<le> b) \<Longrightarrow> x = y"
  by (metis antisym order_refl)

lemma raise_tags_at:
  "dict_get (fold (raise_tag l) ts d) k Public = (if k \<in> set ts then max (dict_get d k Public) l else dict_get d k Public)"
  by (induction ts arbitrary: d) (auto simp: raise_tag_def max_def)

lemma raise_rules_le:
  "dict_get (fold raise_rule rs d) k Public \<le> b
    \<longleftrightarrow> dict_get d k Public \<le> b \<and> (\<forall>r \<in> set rs. k \<in> set (ru_tags r) \<longrightarrow> ru_level r \<le> b)"
  by (induction rs arbitrary: d) (auto simp: raise_rule_def raise_tags_at)

definition rule_matches :: "(string \<Rightarrow> string) \<Rightarrow> (string \<Rightarrow> string \<Rightarrow> bool) \<Rightarrow> memory_entry \<Rightarrow> rule \<Rightarrow> bool" where
  "rule_matches ufold glob e r \<longleftrightarrow>
     (case ru_namespace r of None \<Rightarrow> True | Some g \<Rightarrow> glob (namespace e) g)
     \<and> (ru_tags r = [] \<or> (\<exists>t \<in> set (tags e). tag_key ufold t \<in> set (ru_tags r)))"

definition namespace_floor :: "bool \<Rightarrow> memory_entry \<Rightarrow> level" where
  "namespace_floor strict e =
     (if prefix ''user:'' (namespace e) \<and> (strict \<or> namespace e \<noteq> ''user:local'') then Personal else Team)"

definition rule_named :: "rule \<Rightarrow> bool" where
  "rule_named r \<longleftrightarrow> ru_namespace r \<noteq> None \<or> ru_tags r \<noteq> []"

lemma po_tags_nil: "fold raise_rule rs d = [] \<Longrightarrow> d = [] \<and> (\<forall>r \<in> set rs. ru_tags r = [])"
proof (induction rs arbitrary: d)
  case (Cons r rs)
  from Cons have nil: "raise_rule r d = []" and rest: "\<forall>r \<in> set rs. ru_tags r = []" by auto
  have "fold (raise_tag l) ts d = [] \<Longrightarrow> d = [] \<and> ts = []" for l ts d
  proof (induction ts arbitrary: d)
    case (Cons t ts)
    from Cons.IH [of "raise_tag l t d"] Cons.prems have "raise_tag l t d = []" by simp
    then have "t \<notin> set (dict_keys (raise_tag l t d))" by simp
    then show ?case unfolding raise_tag_def set_dict_keys_set by simp
  qed simp
  then show ?case using nil rest by (auto simp: raise_rule_def)
qed simp

lemma make_policy_simps [simp]:
  "po_tags (make_policy strict (Some d)) = fold raise_rule (filter (\<lambda>r. ru_namespace r = None) (fd_rules d)) []"
  "po_namespaced (make_policy strict (Some d)) = filter (\<lambda>r. ru_namespace r \<noteq> None) (fd_rules d)"
  "po_strict (make_policy strict (Some d)) = strict"
  "po_clearance (make_policy strict (Some d)) = [(AutoSurface, fd_auto d), (AgentSurface, fd_agent d),
     (PlatformSink, Team), (ProjectFilesSink, Team)]"
  "po_tags (make_policy strict None) = []" "po_namespaced (make_policy strict None) = []"
  "po_strict (make_policy strict None) = strict"
  "po_clearance (make_policy strict None) = [(AutoSurface, Team), (AgentSurface, Personal),
     (PlatformSink, Team), (ProjectFilesSink, Team)]"
  by (simp_all add: make_policy_def Let_def)

lemma label_le_iff:
  assumes "\<forall>r \<in> set (fd_rules d). rule_named r"
  shows "label_of ufold glob (make_policy strict (Some d)) e \<le> b \<longleftrightarrow>
    namespace_floor strict e \<le> b \<and> stamp_of (metadata e) \<le> b
    \<and> (\<forall>r \<in> set (fd_rules d). rule_matches ufold glob e r \<longrightarrow> ru_level r \<le> b)"
proof -
  let ?p = "make_policy strict (Some d)" and ?k = "tag_key ufold"
  let ?tagged = "\<forall>t \<in> set (tags e). dict_get (po_tags ?p) (?k t) Public \<le> b"
  let ?by = "\<forall>t \<in> set (tags e). dict_get (snd (for_namespace glob ?p (namespace e))) (?k t) Public \<le> b"
  let ?fl = "fst (for_namespace glob ?p (namespace e)) \<le> b"
  let ?hit = "\<lambda>r. case ru_namespace r of None \<Rightarrow> False | Some g \<Rightarrow> glob (namespace e) g"
  have tagged: "?tagged \<longleftrightarrow> (\<forall>r \<in> set (fd_rules d). ru_namespace r = None
      \<longrightarrow> (\<exists>t \<in> set (tags e). ?k t \<in> set (ru_tags r)) \<longrightarrow> ru_level r \<le> b)"
    by (auto simp: raise_rules_le)
  have byt: "?by \<longleftrightarrow> (\<forall>r \<in> set (fd_rules d). ?hit r \<and> ru_tags r \<noteq> []
      \<longrightarrow> (\<exists>t \<in> set (tags e). ?k t \<in> set (ru_tags r)) \<longrightarrow> ru_level r \<le> b)"
    by (auto simp: for_namespace_def Let_def raise_rules_le split: option.splits)
  have fl: "?fl \<longleftrightarrow> (\<forall>r \<in> set (fd_rules d). ?hit r \<and> ru_tags r = [] \<longrightarrow> ru_level r \<le> b)"
    by (auto simp: for_namespace_def Let_def max_from_le_iff split: option.splits)
  have rules: "?tagged \<and> ?by \<and> ?fl \<longleftrightarrow> (\<forall>r \<in> set (fd_rules d). rule_matches ufold glob e r \<longrightarrow> ru_level r \<le> b)"
  proof -
    have step: "(ru_namespace r = None \<longrightarrow> (\<exists>t \<in> set (tags e). ?k t \<in> set (ru_tags r)) \<longrightarrow> ru_level r \<le> b)
        \<and> (?hit r \<and> ru_tags r \<noteq> [] \<longrightarrow> (\<exists>t \<in> set (tags e). ?k t \<in> set (ru_tags r)) \<longrightarrow> ru_level r \<le> b)
        \<and> (?hit r \<and> ru_tags r = [] \<longrightarrow> ru_level r \<le> b) \<longleftrightarrow> (rule_matches ufold glob e r \<longrightarrow> ru_level r \<le> b)"
      if "r \<in> set (fd_rules d)" for r
      using assms that
      by (cases "ru_namespace r"; cases "ru_tags r = []") (auto simp: rule_matches_def rule_named_def)
    show ?thesis unfolding tagged byt fl ball_conj_distrib [symmetric]
      by (rule ball_cong [OF refl step])
  qed
  have none: "?tagged \<and> ?by \<and> ?fl" if "po_tags ?p = [] \<and> po_namespaced ?p = []"
    using that by (simp add: for_namespace_def)
  have "label_of ufold glob ?p e \<le> b \<longleftrightarrow> namespace_floor strict e \<le> b \<and> stamp_of (metadata e) \<le> b
      \<and> (?tagged \<and> ?by \<and> ?fl)"
    unfolding label_of_def Let_def case_prod_unfold namespace_floor_def [symmetric] make_policy_simps(3)
    using none by (auto simp: stamp_of_def max_from_le_iff split: option.splits)
  then show ?thesis by (simp only: rules)
qed

lemma mapE_Inr_all: "mapE f xs = Inr ys \<Longrightarrow> y \<in> set ys \<Longrightarrow> \<exists>x \<in> set xs. f x = Inr y"
  by (induction xs arbitrary: ys) (auto simp: bindE_Inr)

lemma mapE_Inr_length: "mapE f xs = Inr ys \<Longrightarrow> length ys = length xs"
  by (induction xs arbitrary: ys) (auto simp: bindE_Inr)

lemma uniq_Nil [simp]: "uniq xs = [] \<longleftrightarrow> xs = []"
  by (cases xs) auto

lemma rule_tags_nonempty: "rule_tags ufold ts = Inr (Some ks) \<Longrightarrow> ks \<noteq> []"
  by (induction ufold ts rule: rule_tags.induct) (auto simp: bindE_Inr split: if_splits dest: mapE_Inr_length)

lemma rule_tags_None: "rule_tags ufold ts = Inr None \<Longrightarrow> ts \<in> {None, Some YNull}"
  by (induction ufold ts rule: rule_tags.induct) (auto simp: bindE_Inr split: if_splits)

lemma rule_namespace_None: "rule_namespace ns = Inr None \<Longrightarrow> ns \<in> {None, Some YNull}"
  by (induction ns rule: rule_namespace.induct) (auto split: if_splits)

lemma parse_rule_ok:
  assumes "parse_rule ufold item = Inr r"
  shows "rule_named r \<and> ru_level r \<in> {Personal, Sensitive}"
proof -
  from assms obtain m where item: "item = YMap m" by (cases item) (auto simp: parse_rule_def)
  from assms obtain s l where lev: "yaml_get m ''level'' = Some (YStr s)" "map_of rule_levels s = Some l"
    by (auto simp: parse_rule_def item split: yaml.splits if_splits option.splits)
  let ?some = "yaml_get m ''namespace'' \<in> {None, Some YNull} \<and> yaml_get m ''tags_any'' \<in> {None, Some YNull}"
  have some: "\<not> ?some" and body: "bindE (rule_namespace (yaml_get m ''namespace'')) (\<lambda>n.
      bindE (rule_tags ufold (yaml_get m ''tags_any'')) (\<lambda>t.
        Inr \<lparr>ru_namespace = n, ru_tags = or_empty t, ru_level = l\<rparr>)) = Inr r"
    using assms unfolding parse_rule_def item lev yaml.case option.case Let_def by (meson Inl_Inr_False)+
  from body obtain n t where n: "rule_namespace (yaml_get m ''namespace'') = Inr n"
    and t: "rule_tags ufold (yaml_get m ''tags_any'') = Inr t"
    and r: "r = \<lparr>ru_namespace = n, ru_tags = or_empty t, ru_level = l\<rparr>"
    by (auto simp: bindE_Inr)
  have "l \<in> {Personal, Sensitive}" using lev(2) by (auto simp: rule_levels_def split: if_splits)
  moreover have "n \<noteq> None \<or> t \<noteq> None" using some n t
    rule_namespace_None [of "yaml_get m ''namespace''"] rule_tags_None [of ufold "yaml_get m ''tags_any''"]
    by (cases n; cases t) auto
  then have "n \<noteq> None \<or> (\<exists>k. t = Some k \<and> k \<noteq> [])" using t rule_tags_nonempty by (cases t) auto
  ultimately show ?thesis by (auto simp: r rule_named_def or_empty_def)
qed

lemma surface_level_ok: "surface_level doc k dflt = Inr l \<Longrightarrow> l = dflt \<or> l \<in> {Team, Personal}"
  by (auto simp: surface_level_def surface_levels_def split: option.splits yaml.splits if_splits)

lemma parse_labels_ok:
  assumes "parse_labels ufold doc = Inr d"
  shows "fd_auto d \<le> fd_agent d \<and> fd_agent d \<le> Personal \<and> length (fd_rules d) \<le> max_rules
    \<and> (\<forall>r \<in> set (fd_rules d). rule_named r \<and> ru_level r \<in> {Personal, Sensitive})"
proof -
  from assms obtain m where auto: "surface_level m ''auto_surface_max'' Team = Inr (fd_auto d)"
    and agent: "surface_level m ''agent_max'' Personal = Inr (fd_agent d)" and le: "\<not> fd_auto d > fd_agent d"
    and "parse_rules ufold (yaml_get m ''rules'') = Inr (fd_rules d)"
    by (auto simp: parse_labels_def bindE_Inr split: option.splits yaml.splits if_splits)
  then have rules: "fd_rules d = [] \<or> (\<exists>items. length items \<le> max_rules \<and> mapE (parse_rule ufold) items = Inr (fd_rules d))"
    by (auto simp: parse_rules_def split: option.splits yaml.splits if_splits)
  have "fd_agent d \<le> Personal" using surface_level_ok [OF agent] by (auto simp: less_eq_level_def)
  moreover have "length (fd_rules d) \<le> max_rules" using rules by (auto dest: mapE_Inr_length)
  moreover have "\<forall>r \<in> set (fd_rules d). rule_named r \<and> ru_level r \<in> {Personal, Sensitive}"
    using rules by (auto dest: mapE_Inr_all parse_rule_ok)
  ultimately show ?thesis using le by simp
qed

text \<open>
  C9: a row's label is the maximum the documentation promises. Under a policy read from a valid
  file it is the least level at or above the namespace's floor, the row's stamp and the level
  of every rule that matches the row, so adding a rule, a tag or a stamp never lowers it.
\<close>

theorem label_is_max_of_matching_rules:
  assumes "parse_labels ufold doc = Inr d"
  shows "label_of ufold glob (build_policy (File (Inr d))) e
    = max_from (max (namespace_floor False e) (stamp_of (metadata e)))
        (map ru_level (filter (rule_matches ufold glob e) (fd_rules d)))"
proof (rule eq_by_bounds)
  fix b
  have "\<forall>r \<in> set (fd_rules d). rule_named r" using parse_labels_ok [OF assms] by blast
  from label_le_iff [OF this, of ufold glob False e b]
  show "label_of ufold glob (build_policy (File (Inr d))) e \<le> b \<longleftrightarrow>
      max_from (max (namespace_floor False e) (stamp_of (metadata e)))
        (map ru_level (filter (rule_matches ufold glob e) (fd_rules d))) \<le> b"
    by (auto simp: build_policy_def max_from_le_iff)
qed

definition finance_file :: "yaml option" where
  "finance_file = Some (YMap [(YStr ''version'', YInt 1),
     (YStr ''rules'', YList [YMap [(YStr ''tags_any'', YList [YStr ''finance '']), (YStr ''level'', YStr ''sensitive'')]])])"

definition finance_data :: file_data where
  "finance_data = \<lparr>fd_auto = Team, fd_agent = Personal,
     fd_rules = [\<lparr>ru_namespace = None, ru_tags = [''finance''], ru_level = Sensitive\<rparr>]\<rparr>"

lemma finance_parsed: "parse_labels (\<lambda>s. s) finance_file = Inr finance_data"
  by (simp add: parse_labels_def finance_file_def finance_data_def keys_within_def yaml_get_def is_version_one_def
      surface_level_def less_level_def max_rules_def parse_rules_def parse_rule_def or_empty_def rule_levels_def Let_def max_tags_def max_text_def
      tag_key_def is_ascii_def str_lower_def lower_char_def str_words_def is_space_def)

definition finance_row :: memory_entry where
  "finance_row = (new_entry ''M-1'' ''q3 forecast'' 0)\<lparr>tags := [''finance''], namespace := ''project:a''\<rparr>"

lemma finance_row_simps [simp]:
  "tags finance_row = [''finance'']" "namespace finance_row = ''project:a''" "metadata finance_row = []"
  by (simp_all add: finance_row_def new_entry_def)

lemma finance_key: "tag_key (\<lambda>s. s) ''finance'' = ''finance''"
  by (simp add: tag_key_def is_ascii_def str_lower_def lower_char_def str_words_def is_space_def)

theorem label_is_max_of_matching_rules_witness:
  "label_of (\<lambda>s. s) (\<lambda>_ _. False) (build_policy (File (Inr finance_data))) finance_row = Sensitive"
  using label_is_max_of_matching_rules [OF finance_parsed, of "\<lambda>_ _. False" finance_row]
  by (simp add: finance_data_def rule_matches_def finance_key namespace_floor_def stamp_of_def max_def less_eq_level_def)

text \<open>
  no policy file opens what is closed. Whatever the file holds, the sinks clear \<open>team\<close>, the
  automatic surface never clears more than the agent's, and a row labelled sensitive is
  admitted nowhere.
\<close>

theorem no_file_admits_sensitive:
  assumes "f \<in> {NoFile, NoStat, File (parse_labels ufold doc)}"
    and "e \<in> set (ad_admitted (admit lab (build_policy f) es to))"
  shows "lab e \<noteq> Sensitive
    \<and> (to \<in> {PlatformSink, ProjectFilesSink} \<longrightarrow> lab e \<le> Team)
    \<and> (to = AutoSurface \<longrightarrow> e \<in> set (ad_admitted (admit lab (build_policy f) es AgentSurface)))
    \<and> ad_top (admit lab (build_policy f) es to) \<le> Personal"
proof -
  let ?c = "\<lambda>x. dict_get (po_clearance (build_policy f)) x Public"
  have c: "?c PlatformSink = Team" "?c ProjectFilesSink = Team" "?c AutoSurface \<le> ?c AgentSurface" "?c AgentSurface \<le> Personal"
    using assms(1) parse_labels_ok [of ufold doc]
    by (auto simp: build_policy_def less_eq_level_def dict_get_def split: sum.splits)
  then have cle: "?c x \<le> Personal" for x by (cases x) (auto simp: less_eq_level_def)
  have e: "e \<in> set es" "lab e \<le> ?c to" using assms(2) by (auto simp: admit_def Let_def)
  then have "lab e \<le> Personal" using cle order_trans by blast
  then have ns: "lab e \<noteq> Sensitive" by (auto simp: less_eq_level_def)
  have tp: "Team \<le> Personal" by (simp add: less_eq_level_def)
  have "max_from Team (map lab (filter (\<lambda>e. lab e \<le> ?c to) es)) \<le> Personal"
    using cle [of to] tp by (auto simp: max_from_le_iff)
  then show ?thesis using ns e c by (auto simp: admit_def Let_def intro: order_trans)
qed

theorem no_file_admits_sensitive_witness:
  "finance_row \<in> set (ad_admitted (admit (\<lambda>_. Team) (build_policy NoStat) [finance_row] AutoSurface))
    \<and> finance_row \<in> set (ad_admitted (admit (\<lambda>_. Team) (build_policy NoStat) [finance_row] AgentSurface))"
proof -
  have "finance_row \<in> set (ad_admitted (admit (\<lambda>_. Team) (build_policy NoStat) [finance_row] AutoSurface))"
    by (simp add: admit_def build_policy_def dict_get_def)
  moreover from no_file_admits_sensitive [OF _ this] have
    "finance_row \<in> set (ad_admitted (admit (\<lambda>_. Team) (build_policy NoStat) [finance_row] AgentSurface))" by simp
  ultimately show ?thesis by blast
qed

definition session_mark :: "(memory_entry \<Rightarrow> level) \<Rightarrow> memory_entry list list \<Rightarrow> level" where
  "session_mark lab shown = fold (\<lambda>l m. raise_to m l) (map (highest lab) shown) initial_mark"

definition stamp_written :: "(memory_entry \<Rightarrow> level) \<Rightarrow> level \<Rightarrow> memory_entry \<Rightarrow> memory_entry" where
  "stamp_written lab mark e = e\<lparr>metadata := stamped (metadata e) mark (lab e)\<rparr>"

lemma label_ge_stamp: "stamp_of (metadata e) \<le> label_of ufold glob p e"
  by (auto simp: label_of_def stamp_of_def Let_def split: option.split prod.split)

lemma written_reaches_mark: "mark \<le> label_of ufold glob p (stamp_written (label_of ufold glob p) mark e)"
proof (cases "mark > label_of ufold glob p e")
  case True
  then have "mark \<le> stamp_of (metadata (stamp_written (label_of ufold glob p) mark e))"
    by (auto simp: stamp_written_def stamped_def stamp_of_def higher_stamp_def split: option.splits)
  then show ?thesis using label_ge_stamp order_trans by blast
next
  case False
  then show ?thesis by (simp add: stamp_written_def stamped_def)
qed



text \<open>
  The fail-closed policy lowers the labels that rules raised. When the file that marks
  finance rows sensitive can no longer be trusted, the strict policy that replaces it labels
  such a row \<open>team\<close> and admits it even to the platform sink.
\<close>

theorem strict_policy_drops_rules:
  "label_of (\<lambda>s. s) (\<lambda>_ _. False) (build_policy (File (Inr finance_data))) finance_row = Sensitive
   \<and> (let strict = build_policy (File (Inl WritableByOthers)); lab = label_of (\<lambda>s. s) (\<lambda>_ _. False) strict
      in lab finance_row = Team \<and> finance_row \<in> set (ad_admitted (admit lab strict [finance_row] PlatformSink)))"
  by (simp add: label_of_def build_policy_def finance_data_def for_namespace_def raise_rule_def raise_tag_def
      finance_key less_eq_level_def max_def dict_get_def admit_def)

end
