(* ===== verification/Correction.thy ===== *)
theory Correction
  imports Sync Labels
begin

text \<open>
  Correcting or retiring a stored learning by id (\<^verbatim>\<open>lifecycle/correction.py\<close>, with the
  substantiation gate of \<^verbatim>\<open>security/poisoning.py\<close>). One call runs inside the write transaction
  of its store, so no other writer acts between its read and its commit. The injection scanner
  is a parameter, as are the embedder and the hash; the refresh of the tier mirror, which holds
  copies of rows only, is not modelled.
\<close>

section \<open>The patch\<close>

record patch =
  pa_status :: "memory_status option"
  pa_summary :: "string option"
  pa_detail :: "string option"
  pa_impact :: "rat option"
  pa_type :: "memory_type option"
  pa_confidence :: "confidence_level option"
  pa_evidence_level :: "evidence_level_t option"
  pa_protection_tier :: "protection_tier_t option"
  pa_phase_origin :: "string option"
  pa_phase_affinity :: "string list option"
  pa_nudge_line :: "string option"
  pa_expires :: "string option"
  pa_task_type :: "string option"
  pa_domain :: "string list option"
  pa_team_origin :: "string option"
  pa_tags :: "string list option"
  pa_tags_add :: "string list option"
  pa_assertions :: "assertion list option"
  pa_supersedes :: "string option"
  pa_anchor_validity :: "rat option"
  pa_anchors :: "anchor list option"
  pa_evidence :: "string list option"
  pa_recurrence :: "int option"
  pa_merged_from :: "string list option"
  pa_metadata_add :: "(string, string) dict option"
  pa_if_revision :: "string option"

definition empty_patch :: patch where
  "empty_patch = \<lparr>pa_status = None, pa_summary = None, pa_detail = None, pa_impact = None, pa_type = None,
     pa_confidence = None, pa_evidence_level = None, pa_protection_tier = None, pa_phase_origin = None,
     pa_phase_affinity = None, pa_nudge_line = None, pa_expires = None, pa_task_type = None,
     pa_domain = None, pa_team_origin = None, pa_tags = None, pa_tags_add = None, pa_assertions = None,
     pa_supersedes = None, pa_anchor_validity = None, pa_anchors = None, pa_evidence = None,
     pa_recurrence = None, pa_merged_from = None, pa_metadata_add = None, pa_if_revision = None\<rparr>"

definition named :: "('a \<Rightarrow> 'b) \<Rightarrow> 'a option \<Rightarrow> 'b list" where
  "named f x = (case x of None \<Rightarrow> [] | Some a \<Rightarrow> [f a])"

text \<open>The plain fields in the order of \<open>_PLAIN_FIELDS\<close>, the order the changes are reported in.\<close>

definition plain_fields :: "patch \<Rightarrow> field_update list" where
  "plain_fields p =
     named UStatus (pa_status p) @ named UDetail (pa_detail p) @ named UContent (pa_summary p)
     @ named UImportance (pa_impact p) @ named UType (pa_type p) @ named UNudgeLine (pa_nudge_line p)
     @ named UExpires (pa_expires p) @ named UConfidence (pa_confidence p)
     @ named UEvidenceLevel (pa_evidence_level p) @ named UTaskType (pa_task_type p)
     @ named UDomain (pa_domain p) @ named UPhaseOrigin (pa_phase_origin p)
     @ named UPhaseAffinity (pa_phase_affinity p) @ named UTeamOrigin (pa_team_origin p)
     @ named UProtectionTier (pa_protection_tier p)
     @ named (\<lambda>x. UAnchorValidity (Some x)) (pa_anchor_validity p) @ named UAnchors (pa_anchors p)
     @ named UEvidence (pa_evidence p) @ named URecurrence (pa_recurrence p)
     @ named UMergedFrom (pa_merged_from p)"

text \<open>A reported change: its stored field, and whether the report shows the new value or a clearing.\<close>

datatype change = FieldUpdated string | FieldSet string | FieldCleared string | Supersedes string

fun plain_label :: "field_update \<Rightarrow> change" where
  "plain_label (UStatus _) = FieldSet ''status''"
| "plain_label (UImportance _) = FieldSet ''importance''"
| "plain_label (UType _) = FieldSet ''type''"
| "plain_label (UConfidence _) = FieldSet ''confidence''"
| "plain_label (UProtectionTier _) = FieldSet ''protection_tier''"
| "plain_label (UTaskType x) = (if x = [] then FieldCleared ''task_type'' else FieldSet ''task_type'')"
| "plain_label (UPhaseOrigin x) = (if x = [] then FieldCleared ''phase_origin'' else FieldSet ''phase_origin'')"
| "plain_label (UTeamOrigin x) = (if x = [] then FieldCleared ''team_origin'' else FieldSet ''team_origin'')"
| "plain_label u = FieldUpdated (field_name u)"

definition patched_tags :: "memory_entry \<Rightarrow> patch \<Rightarrow> string list option" where
  "patched_tags e p =
     (if pa_tags p = None \<and> pa_tags_add p = None then None
      else (let base = (case pa_tags p of Some ts \<Rightarrow> ts | None \<Rightarrow> tags e)
            in Some (base @ filter (\<lambda>t. t \<notin> set base) (uniq (or_empty (pa_tags_add p))))))"

definition patched_metadata :: "(string \<Rightarrow> string) \<Rightarrow> memory_entry \<Rightarrow> patch \<Rightarrow> (string, string) dict" where
  "patched_metadata sha e p =
     (let merged = dict_merge (metadata e) (or_empty (pa_metadata_add p));
          raised = (if or_empty (pa_metadata_add p) \<noteq> [] then joined merged (metadata e) else merged);
          hashed = (dict_get (metadata e) ''provenance_content_hash'' [] \<noteq> []
                    \<or> dict_get (metadata e) ''content_hash'' [] \<noteq> [])
      in if (pa_summary p \<noteq> None \<or> pa_detail p \<noteq> None) \<and> hashed
         then dict_set ''provenance_content_hash''
                (sha (case_option (content e) id (pa_summary p) @ case_option (detail e) id (pa_detail p))) raised
         else raised)"

definition collect :: "(string \<Rightarrow> string) \<Rightarrow> memory_entry \<Rightarrow> patch \<Rightarrow> field_update list \<times> change list" where
  "collect sha e p =
     (let md = patched_metadata sha e p
      in (plain_fields p @ named UTags (patched_tags e p) @ named UAssertions (pa_assertions p)
            @ (if \<not> dict_eq md (metadata e) then [UMetadata md] else []),
          map plain_label (plain_fields p)
            @ (if patched_tags e p \<noteq> None then [FieldUpdated ''tags''] else [])
            @ (if pa_assertions p \<noteq> None then [FieldUpdated ''assertions''] else [])
            @ (if or_empty (pa_metadata_add p) \<noteq> [] then [FieldUpdated ''metadata''] else [])))"

section \<open>The gates\<close>

definition scanned_fields :: "string list" where
  "scanned_fields = [''content'', ''detail'', ''nudge_line'', ''tags'', ''evidence'', ''assertions'']"

definition scanned :: "field_update list \<Rightarrow> field_update list" where
  "scanned us = filter (\<lambda>u. field_name u \<in> set scanned_fields) us"

datatype invalid = NotTransactional | Overlong schema_error | Injection string
  | NoBasis nat | Refused schema_error

definition refuse_injection ::
  "(memory_entry \<Rightarrow> string option) \<Rightarrow> memory_entry \<Rightarrow> field_update list \<Rightarrow> invalid option" where
  "refuse_injection scan e us =
     (if scanned us = [] then None else map_option Injection (scan (set_fields e (scanned us))))"

definition count_substantiation :: "memory_entry \<Rightarrow> nat" where
  "count_substantiation e =
     (if list_ex (\<lambda>i. str_strip i \<noteq> []) (evidence e) then 1 else 0)
     + (if assertions e \<noteq> [] then 1 else 0) + (if anchors e \<noteq> [] then 1 else 0)"

definition reject_unsubstantiated_verified :: "nat \<Rightarrow> memory_entry \<Rightarrow> bool" where
  "reject_unsubstantiated_verified min_items e \<longleftrightarrow>
     confidence e = ConfVerified \<and> count_substantiation e < min_items"

text \<open>The entry judged has the patch's confidence and assertions, nothing else of it.\<close>

definition refuse_unsubstantiated :: "nat \<Rightarrow> memory_entry \<Rightarrow> patch \<Rightarrow> invalid option" where
  "refuse_unsubstantiated min_items e p =
     (if pa_confidence p \<noteq> Some ConfVerified then None
      else (let projected = e\<lparr>confidence := ConfVerified,
              assertions := (case pa_assertions p of Some as \<Rightarrow> as | None \<Rightarrow> assertions e)\<rparr>
            in if reject_unsubstantiated_verified min_items projected then Some (NoBasis min_items) else None))"


section \<open>The correction\<close>

datatype correction =
  LearningNotFound | InvalidPatch invalid | RevisionConflict | NoChanges
| Corrected "change list" | Raised schema_error

datatype prior = SamePrior "memory_entry option" | OtherPrior backend "memory_entry option"

definition patched_text :: "memory_entry \<Rightarrow> patch \<Rightarrow> string" where
  "patched_text e p =
     (case pa_summary p of Some x \<Rightarrow> x | None \<Rightarrow> content e) @ '' ''
     @ (case pa_detail p of Some x \<Rightarrow> x | None \<Rightarrow> detail e)"

definition text_changed :: "patch \<Rightarrow> bool" where
  "text_changed p \<longleftrightarrow> pa_summary p \<noteq> None \<or> pa_detail p \<noteq> None"

text \<open>
  The vector of a row whose text changed: \<open>e\<close> is the caller's copy, whose patched text was encoded
  before the transaction; \<open>current\<close> the row read inside it.
\<close>

definition replace_vector ::
  "(string \<Rightarrow> rat list option) \<Rightarrow> memory_entry \<Rightarrow> memory_entry \<Rightarrow> patch \<Rightarrow> backend \<Rightarrow> backend" where
  "replace_vector encode e current p b =
     (if text_changed p \<and> vector_exists b (eid e) (namespace e)
      then (let b1 = remove_vector b (eid e) (namespace e)
            in case encode (patched_text e p) of
                 Some vec \<Rightarrow> if patched_text current p = patched_text e p
                             then upsert_vector b1 (eid e) (namespace e) vec else b1
               | None \<Rightarrow> b1)
      else b)"

definition patch_row ::
  "env \<Rightarrow> int \<Rightarrow> (memory_entry \<Rightarrow> string option) \<Rightarrow> nat \<Rightarrow> (string \<Rightarrow> rat list option)
     \<Rightarrow> backend \<Rightarrow> memory_entry \<Rightarrow> patch \<Rightarrow> backend \<times> (correction, change list) result" where
  "patch_row v now scan min_items encode b e p =
     (case backend_get v b (eid e) (namespace e) of
        None \<Rightarrow> (b, Inl LearningNotFound)
      | Some current \<Rightarrow>
          if pa_if_revision p \<noteq> None \<and> pa_if_revision p \<noteq> revision_of v (Some current)
          then (b, Inl RevisionConflict)
          else (let us = fst (collect (env_chash v) current p); changes = snd (collect (env_chash v) current p)
                in case (case refuse_injection scan current us of
                           Some r \<Rightarrow> Some r | None \<Rightarrow> refuse_unsubstantiated min_items current p) of
                     Some r \<Rightarrow> (b, Inl (InvalidPatch r))
                   | None \<Rightarrow>
                       (case (if us = [] then Inr (b, Some current)
                              else backend_update v now b (eid e) (namespace e) us) of
                          Inl err \<Rightarrow> (b, Inl (InvalidPatch (Refused err)))
                        | Inr (b1, None) \<Rightarrow> (b1, Inl LearningNotFound)
                        | Inr (b1, Some _) \<Rightarrow> (replace_vector encode e current p b1, Inr changes))))"

definition close_prior ::
  "env \<Rightarrow> int \<Rightarrow> string \<Rightarrow> patch \<Rightarrow> backend \<Rightarrow> memory_entry option
     \<Rightarrow> (schema_error, backend \<times> memory_entry option) result" where
  "close_prior v now i p b prior_entry =
     (case pa_supersedes p of
        None \<Rightarrow> Inr (b, None)
      | Some s \<Rightarrow>
          if s = i then Inr (b, None)
          else (case Option.bind prior_entry (\<lambda>e. backend_get v b (eid e) (namespace e)) of
                  None \<Rightarrow> Inr (b, None)
                | Some e \<Rightarrow>
                    if invalid_from e \<noteq> None then Inr (b, None)
                    else bindE (backend_update v now b (eid e) (namespace e)
                                  [UInvalidFrom (Some now), UInvalidatedBy (Some i)])
                           (\<lambda>(b', _). Inr (b', Some e))))"

definition reported_change :: "patch \<Rightarrow> change list \<Rightarrow> memory_entry option \<Rightarrow> correction" where
  "reported_change p changes shut =
     (let all = changes @ (if shut \<noteq> None then named Supersedes (pa_supersedes p) else [])
      in if all = [] then NoChanges else Corrected all)"

definition other_store :: "prior option \<Rightarrow> backend option" where
  "other_store prior = (case prior of Some (OtherPrior o_b _) \<Rightarrow> Some o_b | _ \<Rightarrow> None)"

text \<open>
  The whole call. A prior in the same store is closed inside the transaction, whose rollback
  restores the store when closing raises; one in another store is closed after the commit.
\<close>

definition apply_correction ::
  "env \<Rightarrow> int \<Rightarrow> (memory_entry \<Rightarrow> string option) \<Rightarrow> nat \<Rightarrow> (string \<Rightarrow> rat list option) \<Rightarrow> bool
     \<Rightarrow> backend \<Rightarrow> memory_entry \<Rightarrow> patch \<Rightarrow> prior option \<Rightarrow> (backend \<times> backend option) \<times> correction" where
  "apply_correction v now scan min_items encode transactional b e p prior =
     (if pa_if_revision p \<noteq> None \<and> \<not> transactional
      then ((b, other_store prior), InvalidPatch NotTransactional)
      else (case refuse_overlong_text_fields [(''content'', pa_summary p), (''detail'', pa_detail p)] of
              Inl err \<Rightarrow> ((b, other_store prior), InvalidPatch (Overlong err))
            | Inr _ \<Rightarrow>
                (case patch_row v now scan min_items encode b e p of
                   (b1, Inl r) \<Rightarrow> ((b1, other_store prior), r)
                 | (b1, Inr changes) \<Rightarrow>
                     (case prior of
                        None \<Rightarrow> ((b1, None), reported_change p changes None)
                      | Some (SamePrior pe) \<Rightarrow>
                          (case close_prior v now (eid e) p b1 pe of
                             Inl err \<Rightarrow> ((b, None), Raised err)
                           | Inr (b2, shut) \<Rightarrow> ((b2, None), reported_change p changes shut))
                      | Some (OtherPrior o_b pe) \<Rightarrow>
                          (case close_prior v now (eid e) p o_b pe of
                             Inl err \<Rightarrow> ((b1, Some o_b), Raised err)
                           | Inr (o2, shut) \<Rightarrow> ((b1, Some o2), reported_change p changes shut))))))"

section \<open>What a correction writes\<close>

lemma named_simps [simp]: "named f None = []" "named f (Some a) = [f a]"
  by (simp_all add: named_def)

lemma named_names: "names (named f x) n \<longleftrightarrow> (\<exists>a. x = Some a \<and> field_name (f a) = n)"
  by (cases x) auto

lemma set_fields_append: "set_fields e (us @ vs) = set_fields (set_fields e us) vs"
  by (simp add: set_fields_def)

lemma collect_names:
  "names (fst (collect sha e p)) ''content'' \<longleftrightarrow> pa_summary p \<noteq> None"
  "names (fst (collect sha e p)) ''detail'' \<longleftrightarrow> pa_detail p \<noteq> None"
  by (auto simp: collect_def Let_def plain_fields_def named_names split: if_splits)

lemma collect_text:
  "content (set_fields x (fst (collect sha e p))) = (case pa_summary p of Some t \<Rightarrow> t | None \<Rightarrow> content x)"
  "detail (set_fields x (fst (collect sha e p))) = (case pa_detail p of Some t \<Rightarrow> t | None \<Rightarrow> detail x)"
  by (cases "pa_summary p"; cases "pa_detail p";
      simp add: collect_def Let_def plain_fields_def set_fields_append set_fields_unnamed named_names)+


lemma plain_fields_labels: "map plain_label (plain_fields p) = [] \<longleftrightarrow> plain_fields p = []"
  by simp

lemma collect_no_changes:
  assumes "snd (collect sha e p) = []"
  shows "fst (collect sha e p) = []" "\<not> text_changed p"
proof -
  have none: "plain_fields p = []" "patched_tags e p = None" "pa_assertions p = None"
      "or_empty (pa_metadata_add p) = []"
    using assms by (auto simp: collect_def Let_def split: if_splits)
  from none(1) show unch: "\<not> text_changed p"
    by (cases "pa_summary p"; cases "pa_detail p") (simp_all add: plain_fields_def text_changed_def)
  then have "patched_metadata sha e p = metadata e"
    by (simp add: patched_metadata_def none(4) text_changed_def Let_def)
  with none show "fst (collect sha e p) = []"
    by (simp add: collect_def Let_def dict_eq_iff)
qed

lemma backend_update_ledger: "backend_update v now b i ns us = Inr (b', r) \<Longrightarrow> b_ledger b' = b_ledger b"
  by (auto simp: backend_update_def bindE_Inr Let_def split: if_splits)

lemma unledgered_update_returns_row:
  assumes "backend_update v now b i ns us = Inr (b', None)" "backend_get v b i ns \<noteq> None" "b_ledger b = None"
  shows "us = []"
proof (rule ccontr)
  assume "us \<noteq> []"
  with backend_update_row(2) [OF assms(1,2)] obtain row where "db_get i ns (b_db b') = Some row" by blast
  moreover have "b_ledger b' = None" using backend_update_ledger [OF assms(1)] assms(3) by simp
  ultimately have "backend_get v b' i ns \<noteq> None"
    by (simp add: backend_get_def quarantine_admits_def quarantine_blocks_def)
  with backend_update_get [OF assms(1)] show False by simp
qed

lemma replace_vector_keeps_text [simp]: "\<not> text_changed p \<Longrightarrow> replace_vector encode e current p b = b"
  by (simp add: replace_vector_def)

lemma patch_row_refused:
  assumes "patch_row v now scan m encode b e p = (b1, Inl r)"
  shows "r = LearningNotFound \<or> r = RevisionConflict \<or> (\<exists>i. r = InvalidPatch i)"
    and "r \<noteq> LearningNotFound \<or> b_ledger b = None \<Longrightarrow> b1 = b"
proof -
  show "r = LearningNotFound \<or> r = RevisionConflict \<or> (\<exists>i. r = InvalidPatch i)"
    using assms by (auto simp: patch_row_def Let_def split: option.splits if_splits sum.splits)
  assume r: "r \<noteq> LearningNotFound \<or> b_ledger b = None"
  show "b1 = b"
  proof (rule ccontr)
    assume "b1 \<noteq> b"
    with assms obtain us current where "backend_update v now b (eid e) (namespace e) us = Inr (b1, None)"
        "backend_get v b (eid e) (namespace e) = Some current" "us \<noteq> []" "r = LearningNotFound"
      by (auto simp: patch_row_def Let_def split: option.splits if_splits sum.splits)
    with r unledgered_update_returns_row show False by blast
  qed
qed

lemma patch_row_nothing:
  assumes "patch_row v now scan m encode b e p = (b1, Inr [])"
  shows "b1 = b"
proof -
  from assms obtain current where c: "backend_get v b (eid e) (namespace e) = Some current"
      "snd (collect (env_chash v) current p) = []"
    by (auto simp: patch_row_def Let_def split: option.splits if_splits sum.splits)
  from assms c collect_no_changes [OF c(2)] show ?thesis
    by (auto simp: patch_row_def Let_def split: option.splits if_splits)
qed

lemma close_prior_None: "close_prior v now i p b pe = Inr (b', None) \<Longrightarrow> b' = b"
  by (auto simp: close_prior_def bindE_Inr split: option.splits if_splits)

lemma reported_change_simps:
  "reported_change p changes c \<noteq> LearningNotFound" "reported_change p changes c \<noteq> Raised err"
  "reported_change p changes c \<noteq> RevisionConflict" "reported_change p changes c \<noteq> InvalidPatch i"
  by (auto simp: reported_change_def Let_def)

lemma reported_nothing:
  "reported_change p changes c = NoChanges \<Longrightarrow> close_prior v now i p b pe = Inr (b', c) \<Longrightarrow> changes = [] \<and> b' = b"
  by (auto simp: reported_change_def Let_def close_prior_def bindE_Inr named_def split: option.splits if_splits)



section \<open>The vector follows the text\<close>

lemma db_update_frame:
  assumes "db_update utf8 sha now i ns us d = Inr (d', r)"
  shows "map_of (vectors d') k = Some vec \<Longrightarrow> map_of (vectors d) k = Some vec"
    and "map_of (rows d) k = Some row \<Longrightarrow> \<not> names us ''content'' \<Longrightarrow> \<not> names us ''detail'' \<Longrightarrow>
      \<exists>row'. map_of (rows d') k = Some row' \<and> content row' = content row \<and> detail row' = detail row"
  using assms
  by (auto simp: db_update_def db_get_def Let_def bindE_Inr put_updated_vectors set_fields_unnamed
      split: if_splits option.splits)

lemma backend_update_frame:
  assumes "backend_update v now b i ns us = Inr (b', r)"
  shows "map_of (vectors (b_db b')) k = Some vec \<Longrightarrow> map_of (vectors (b_db b)) k = Some vec"
    and "map_of (rows (b_db b)) k = Some row \<Longrightarrow> \<not> names us ''content'' \<Longrightarrow> \<not> names us ''detail'' \<Longrightarrow>
      \<exists>row'. map_of (rows (b_db b')) k = Some row' \<and> content row' = content row \<and> detail row' = detail row"
  using assms by (auto simp: backend_update_def Let_def bindE_Inr split: if_splits dest: db_update_frame)

lemma stamped_text [simp]:
  "content (set_fields e (stamped_updates t us)) = content (set_fields e us)"
  "detail (set_fields e (stamped_updates t us)) = detail (set_fields e us)"
  by (simp_all add: stamped_updates_def set_fields_append)

lemma replace_vector_frame:
  "rows (b_db (replace_vector encode e current p b)) = rows (b_db b)"
  "text_changed p \<Longrightarrow> map_of (vectors (b_db (replace_vector encode e current p b))) (namespace e, eid e) = Some vec
    \<Longrightarrow> encode (patched_text e p) = Some vec \<and> patched_text current p = patched_text e p
        \<and> vector_exists b (eid e) (namespace e)"
  by (auto simp: replace_vector_def Let_def remove_vector_def upsert_vector_def Database.delete_vector_def vector_exists_def
      split: if_splits option.splits)

definition vector_current :: "(string \<Rightarrow> rat list option) \<Rightarrow> key \<Rightarrow> backend \<Rightarrow> bool" where
  "vector_current encode k b \<longleftrightarrow>
     (\<forall>vec. map_of (vectors (b_db b)) k = Some vec \<longrightarrow>
        (\<exists>row. map_of (rows (b_db b)) k = Some row \<and> encode (content row @ '' '' @ detail row) = Some vec))"

lemma patch_row_vector:
  assumes "patch_row v now scan m encode b e p = (b1, Inr changes)" "text_changed p"
  shows "vector_current encode (namespace e, eid e) b1"
    and "map_of (vectors (b_db b1)) (namespace e, eid e) \<noteq> None \<Longrightarrow> vector_exists b (eid e) (namespace e)"
proof -
  from assms(1) obtain current us b0 row where c: "backend_get v b (eid e) (namespace e) = Some current"
      "us = fst (collect (env_chash v) current p)" "b1 = replace_vector encode e current p b0"
      "us = [] \<and> b0 = b \<or> us \<noteq> [] \<and> backend_update v now b (eid e) (namespace e) us = Inr (b0, Some row)"
    by (auto simp: patch_row_def Let_def split: option.splits if_splits sum.splits)
  have "us \<noteq> []"
    using assms(2) collect_names [of "env_chash v" current p] c(2) by (auto simp: text_changed_def)
  with c(4) have upd: "backend_update v now b (eid e) (namespace e) us = Inr (b0, Some row)" by blast
  from backend_update_row(2) [OF upd] c(1) \<open>us \<noteq> []\<close> obtain old where
    old: "db_get (eid e) (namespace e) (b_db b) = Some old"
      "db_get (eid e) (namespace e) (b_db b0) = Some (updated_row (env_sha v) (stamped_updates now us) old)"
    by auto
  from c(1) old(1) have "current = served_view old" by (auto dest!: backend_get_SomeD)
  then have same: "content current = content old" "detail current = detail old" by simp_all
  let ?row = "updated_row (env_sha v) (stamped_updates now us) old"
  have row_text: "patched_text current p = content ?row @ '' '' @ detail ?row"
    by (cases "pa_summary p"; cases "pa_detail p"; simp add: patched_text_def c(2) collect_text same)
  show "vector_current encode (namespace e, eid e) b1"
    unfolding vector_current_def
  proof (intro allI impI)
    fix vec assume "map_of (vectors (b_db b1)) (namespace e, eid e) = Some vec"
    with replace_vector_frame(2) [OF assms(2)] c(3)
    have "encode (patched_text e p) = Some vec" "patched_text current p = patched_text e p" by blast+
    then have "encode (content ?row @ '' '' @ detail ?row) = Some vec" by (simp only: row_text)
    with old(2) show "\<exists>row. map_of (rows (b_db b1)) (namespace e, eid e) = Some row
        \<and> encode (content row @ '' '' @ detail row) = Some vec"
      unfolding c(3) replace_vector_frame(1) db_get_def by blast
  qed
  assume "map_of (vectors (b_db b1)) (namespace e, eid e) \<noteq> None"
  then obtain vec where "map_of (vectors (b_db b1)) (namespace e, eid e) = Some vec" by auto
  from replace_vector_frame(2) [OF assms(2) this [unfolded c(3)]] show "vector_exists b (eid e) (namespace e)"
    using backend_update_frame(1) [OF upd] by (auto simp: vector_exists_def)
qed

lemma close_prior_vector:
  assumes "close_prior v now i p b pe = Inr (b', c)"
  shows "vector_current encode k b \<Longrightarrow> vector_current encode k b'"
    and "map_of (vectors (b_db b')) k \<noteq> None \<Longrightarrow> map_of (vectors (b_db b)) k \<noteq> None"
proof -
  from assms consider "b' = b" | x y r where "backend_update v now b x y [UInvalidFrom (Some now), UInvalidatedBy (Some i)] = Inr (b', r)"
    by (auto simp: close_prior_def bindE_Inr split: option.splits if_splits)
  then have vec: "map_of (vectors (b_db b')) k = Some vec \<Longrightarrow> map_of (vectors (b_db b)) k = Some vec"
    and row: "map_of (rows (b_db b)) k = Some row \<Longrightarrow>
      \<exists>row'. map_of (rows (b_db b')) k = Some row' \<and> content row' = content row \<and> detail row' = detail row" for vec row
    by (cases; auto dest: backend_update_frame)+
  show "vector_current encode k b \<Longrightarrow> vector_current encode k b'"
    unfolding vector_current_def using vec row by metis
  show "map_of (vectors (b_db b')) k \<noteq> None \<Longrightarrow> map_of (vectors (b_db b)) k \<noteq> None"
    using vec by auto
qed

text \<open>
  A corrected text never keeps the vector of the old one. After a correction that changed the
  summary or the detail, a live vector of the row encodes exactly the committed text, whatever
  copy of the row the caller encoded from, and a row without a vector did not gain one.
\<close>

theorem corrected_vector_is_current:
  assumes "apply_correction v now scan m encode transactional b e p prior = ((b', o'), Corrected changes)"
    and "text_changed p"
  shows "vector_current encode (namespace e, eid e) b'
    \<and> (vector_exists b' (eid e) (namespace e) \<longrightarrow> vector_exists b (eid e) (namespace e))"
proof -
  from assms(1) obtain b1 ch where row: "patch_row v now scan m encode b e p = (b1, Inr ch)"
      and stage: "b' = b1 \<or> (\<exists>pe c. close_prior v now (eid e) p b1 pe = Inr (b', c))"
    by (auto simp: apply_correction_def split: if_splits sum.splits prod.splits option.splits prior.splits
        dest!: patch_row_refused(1))
  have "vector_current encode (namespace e, eid e) b'"
    using stage patch_row_vector(1) [OF row assms(2)] close_prior_vector(1) by blast
  moreover have "map_of (vectors (b_db b1)) (namespace e, eid e) \<noteq> None"
    if "map_of (vectors (b_db b')) (namespace e, eid e) \<noteq> None"
    using stage close_prior_vector(2) that by metis
  ultimately show ?thesis using patch_row_vector(2) [OF row assms(2)] by (auto simp: vector_exists_def)
qed


section \<open>Concrete corrections\<close>

lemma empty_patch_simps [simp]:
  "pa_status empty_patch = None" "pa_summary empty_patch = None" "pa_detail empty_patch = None"
  "pa_impact empty_patch = None" "pa_type empty_patch = None" "pa_confidence empty_patch = None"
  "pa_evidence_level empty_patch = None" "pa_protection_tier empty_patch = None" "pa_phase_origin empty_patch = None"
  "pa_phase_affinity empty_patch = None" "pa_nudge_line empty_patch = None" "pa_expires empty_patch = None"
  "pa_task_type empty_patch = None" "pa_domain empty_patch = None" "pa_team_origin empty_patch = None"
  "pa_tags empty_patch = None" "pa_tags_add empty_patch = None" "pa_assertions empty_patch = None"
  "pa_supersedes empty_patch = None" "pa_anchor_validity empty_patch = None" "pa_anchors empty_patch = None"
  "pa_evidence empty_patch = None" "pa_recurrence empty_patch = None" "pa_merged_from empty_patch = None"
  "pa_metadata_add empty_patch = None" "pa_if_revision empty_patch = None"
  by (simp_all add: empty_patch_def)

definition store_with :: "memory_entry \<Rightarrow> rat list \<Rightarrow> ledger option \<Rightarrow> backend" where
  "store_with e vec L = \<lparr>b_db = (write_row e empty_db)\<lparr>vectors := [(entry_key e, vec)]\<rparr>, b_ledger = L\<rparr>"

definition learned :: memory_entry where
  "learned = (new_entry ''L-1'' ''old text'' 7)\<lparr>evidence := [''log''], evidence_level := EvVerified\<rparr>"

definition hash_ledger :: ledger where
  "hash_ledger = ledger_append []
     \<lparr>li_namespace = ''project:z'', li_entry_id = ''M-9'', li_source_id = [], li_derived = [], li_hash = ''new text''\<rparr>
     Rejected ''admin'' ''poisoned'' 1"

lemma learned_simps [simp]:
  "eid learned = ''L-1''" "namespace learned = ''default''" "content learned = ''old text''" "detail learned = []"
  "entry_key learned = (''default'', ''L-1'')" "metadata learned = []" "confidence learned = Unverified"
  "evidence_level learned = EvVerified" "assertions learned = []" "anchors learned = []" "evidence learned = [''log'']"
  "\<not> violates_evidence_invariant learned" "served_view learned = learned" "status learned = Active"
  "source_of learned = []" "remote_id learned = None"
  by (simp_all add: learned_def new_entry_def entry_key_def violates_evidence_invariant_def served_view_def
      source_of_def dict_get_def)

lemma store_with_simps [simp]:
  "rows (b_db (store_with e vec L)) = [(entry_key e, e)]" "vectors (b_db (store_with e vec L)) = [(entry_key e, vec)]"
  "b_ledger (store_with e vec L) = L"
  by (simp_all add: store_with_def empty_db_def)

lemma learned_get: "L = None \<or> L = Some hash_ledger \<Longrightarrow>
    backend_get plain_env (store_with learned vec L) ''L-1'' ''default'' = Some learned"
  by (auto simp: backend_get_def db_get_def quarantine_admits_def quarantine_blocks_def hash_ledger_def
      plain_env_def blocks_def blocks_keys_def build_index_def ledger_append_def entry_identity_keys_def
      identity_keys_def stored_identity_def reload_derived_def)



lemma learned_update:
  assumes "L = None \<or> L = Some hash_ledger" "us \<noteq> []" "new_status us = None"
    and "\<not> violates_evidence_invariant (set_fields learned (stamped_updates 9 us))"
  shows "\<exists>b'. backend_update plain_env 9 (store_with learned vec L) ''L-1'' ''default'' us
        = Inr (b', backend_get plain_env b' ''L-1'' ''default'')
    \<and> map_of (rows (b_db b')) (''default'', ''L-1'') = Some (updated_row (\<lambda>_. ''h'') (stamped_updates 9 us) learned)
    \<and> map_of (vectors (b_db b')) (''default'', ''L-1'') = Some vec \<and> b_ledger b' = L"
proof -
  obtain b' r where upd: "backend_update plain_env 9 (store_with learned vec L) ''L-1'' ''default'' us = Inr (b', r)"
      and b': "map_of (rows (b_db b')) (''default'', ''L-1'') = Some (updated_row (\<lambda>_. ''h'') (stamped_updates 9 us) learned)"
        "map_of (vectors (b_db b')) (''default'', ''L-1'') = Some vec"
    using assms learned_get [OF assms(1), of vec]
    by (simp add: backend_update_def db_update_def db_get_def Let_def refuse_new_violation_def put_updated_vectors
        prunes_vector_def)
  with backend_update_get [OF upd] backend_update_ledger [OF upd] show ?thesis by auto
qed

lemma learned_new_text:
  "collect sha learned (empty_patch\<lparr>pa_summary := Some x\<rparr>) = ([UContent x], [FieldUpdated ''content''])"
  by (simp add: collect_def plain_fields_def Let_def patched_tags_def patched_metadata_def or_empty_def
      dict_get_def dict_eq_def Let_def)

lemma unmodified_claim: "\<not> violates_evidence_invariant (set_fields learned (stamped_updates 9 [UContent x]))"
  by (simp add: violates_evidence_invariant_def set_fields_unnamed)

theorem corrected_vector_is_current_witness:
  "\<exists>b' changes. apply_correction plain_env 9 (\<lambda>_. None) 1 (\<lambda>_. Some [2]) True (store_with learned [1] None) learned
       (empty_patch\<lparr>pa_summary := Some ''new text''\<rparr>) None = ((b', None), Corrected changes)
     \<and> vector_current (\<lambda>_. Some [2]) (''default'', ''L-1'') b'"
proof -
  let ?p = "empty_patch\<lparr>pa_summary := Some ''new text''\<rparr>" and ?b = "store_with learned [1] None"
  obtain b0 where b0: "backend_update plain_env 9 ?b ''L-1'' ''default'' [UContent ''new text'']
        = Inr (b0, backend_get plain_env b0 ''L-1'' ''default'')" "b_ledger b0 = None"
      "map_of (rows (b_db b0)) (''default'', ''L-1'') = Some (updated_row (\<lambda>_. ''h'') (stamped_updates 9 [UContent ''new text'']) learned)"
    using learned_update [of None "[UContent ''new text'']" "[1]"] unmodified_claim by (auto simp: new_status_def)
  obtain row where "backend_get plain_env b0 ''L-1'' ''default'' = Some row"
    using b0 by (auto simp: backend_get_def db_get_def quarantine_admits_def quarantine_blocks_def)
  then obtain b' changes where out: "apply_correction plain_env 9 (\<lambda>_. None) 1 (\<lambda>_. Some [2]) True ?b learned ?p None
      = ((b', None), Corrected changes)"
    using b0 by (simp add: apply_correction_def patch_row_def learned_get learned_new_text refuse_injection_def
        refuse_unsubstantiated_def Let_def refuse_overlong_text_fields_def max_text_field_chars_def
        reported_change_def)
  from corrected_vector_is_current [OF this] out show ?thesis
    by (auto simp: text_changed_def)
qed

text \<open>
  The promotion gate judges the row with the patch's assertions but with its old evidence and
  anchors. A patch that promotes a row and drops its evidence passes, and the stored row is
  verified without a substantiating artifact.
\<close>

lemma promotion_without_basis:
  "\<exists>b' row. apply_correction plain_env 9 (\<lambda>_. None) 1 (\<lambda>_. None) True (store_with learned [1] None) learned
       (empty_patch\<lparr>pa_confidence := Some ConfVerified, pa_evidence := Some []\<rparr>) None
     = ((b', None), Corrected [FieldSet ''confidence'', FieldUpdated ''evidence''])
     \<and> map_of (rows (b_db b')) (''default'', ''L-1'') = Some row \<and> reject_unsubstantiated_verified 1 row"
proof -
  let ?p = "empty_patch\<lparr>pa_confidence := Some ConfVerified, pa_evidence := Some []\<rparr>" and ?b = "store_with learned [1] None"
  let ?us = "[UConfidence ConfVerified, UEvidence []]"
  have row: "updated_row (\<lambda>_. ''h'') (stamped_updates 9 ?us) learned
      = learned\<lparr>confidence := ConfVerified, evidence := [], updated_at := 9, sync_seq := sync_seq learned + 1,
          sync_hash := ''h'', last_synced_at := None\<rparr>"
    by (simp add: updated_row_def stamped_updates_def bookkeeping_fields_def names_def compute_sync_hash_def Let_def)
  have "\<not> violates_evidence_invariant (set_fields learned (stamped_updates 9 ?us))"
    by (simp add: violates_evidence_invariant_def set_fields_unnamed stamped_updates_def bookkeeping_fields_def)
  then obtain b0 where b0: "backend_update plain_env 9 ?b ''L-1'' ''default'' ?us
        = Inr (b0, backend_get plain_env b0 ''L-1'' ''default'')" "b_ledger b0 = None"
      "map_of (rows (b_db b0)) (''default'', ''L-1'') = Some (updated_row (\<lambda>_. ''h'') (stamped_updates 9 ?us) learned)"
    using learned_update [of None ?us "[1]"] by (auto simp: new_status_def)
  then obtain served where "backend_get plain_env b0 ''L-1'' ''default'' = Some served"
    by (auto simp: backend_get_def db_get_def quarantine_admits_def quarantine_blocks_def)
  moreover have "collect (env_chash plain_env) learned ?p = (?us, [FieldSet ''confidence'', FieldUpdated ''evidence''])"
    by (simp add: collect_def plain_fields_def Let_def patched_tags_def patched_metadata_def or_empty_def
        dict_get_def dict_eq_def Let_def)
  ultimately have "apply_correction plain_env 9 (\<lambda>_. None) 1 (\<lambda>_. None) True ?b learned ?p None
      = ((b0, None), Corrected [FieldSet ''confidence'', FieldUpdated ''evidence''])"
    using b0 by (simp add: apply_correction_def patch_row_def learned_get refuse_injection_def
        refuse_unsubstantiated_def reject_unsubstantiated_verified_def count_substantiation_def str_strip_def is_space_def
        Let_def refuse_overlong_text_fields_def reported_change_def text_changed_def replace_vector_def)
  moreover have "reject_unsubstantiated_verified 1 (updated_row (\<lambda>_. ''h'') (stamped_updates 9 ?us) learned)"
    by (simp add: row reject_unsubstantiated_verified_def count_substantiation_def)
  ultimately show ?thesis using b0(3) by blast
qed

text \<open>
  A summary whose content hash the ledger rejects is committed all the same: the update writes the
  row, then answers that no such row is served. The correction reports \<open>not_found\<close>, the text is
  changed and the vector of the old text stays beside it.
\<close>

lemma blocked_text_is_committed:
  "\<exists>b' row. apply_correction plain_env 9 (\<lambda>_. None) 1 (\<lambda>_. None) True (store_with learned [1] (Some hash_ledger)) learned
       (empty_patch\<lparr>pa_summary := Some ''new text''\<rparr>) None = ((b', None), LearningNotFound)
     \<and> map_of (rows (b_db b')) (''default'', ''L-1'') = Some row \<and> content row = ''new text''
     \<and> map_of (vectors (b_db b')) (''default'', ''L-1'') = Some [1]"
proof -
  let ?p = "empty_patch\<lparr>pa_summary := Some ''new text''\<rparr>" and ?b = "store_with learned [1] (Some hash_ledger)"
  let ?us = "[UContent ''new text'']"
  obtain b0 where b0: "backend_update plain_env 9 ?b ''L-1'' ''default'' ?us
        = Inr (b0, backend_get plain_env b0 ''L-1'' ''default'')" "b_ledger b0 = Some hash_ledger"
      "map_of (rows (b_db b0)) (''default'', ''L-1'') = Some (updated_row (\<lambda>_. ''h'') (stamped_updates 9 ?us) learned)"
      "map_of (vectors (b_db b0)) (''default'', ''L-1'') = Some [1]"
    using learned_update [of "Some hash_ledger" ?us "[1]"] unmodified_claim by (auto simp: new_status_def)
  have row: "updated_row (\<lambda>_. ''h'') (stamped_updates 9 ?us) learned
      = learned\<lparr>content := ''new text'', updated_at := 9, sync_seq := sync_seq learned + 1,
          sync_hash := ''h'', last_synced_at := None\<rparr>"
    by (simp add: updated_row_def stamped_updates_def bookkeeping_fields_def names_def compute_sync_hash_def Let_def)
  have "backend_get plain_env b0 ''L-1'' ''default'' = None"
    using b0(2,3) by (simp add: backend_get_def db_get_def row quarantine_admits_def quarantine_blocks_def
        served_view_def violates_evidence_invariant_def hash_ledger_def plain_env_def blocks_def blocks_keys_def
        build_index_def ledger_append_def entry_identity_keys_def identity_keys_def stored_identity_def
        reload_derived_def row_blocks_def source_of_def)
  with b0 have "apply_correction plain_env 9 (\<lambda>_. None) 1 (\<lambda>_. None) True ?b learned ?p None = ((b0, None), LearningNotFound)"
    by (simp add: apply_correction_def patch_row_def learned_get learned_new_text refuse_injection_def
        refuse_unsubstantiated_def Let_def refuse_overlong_text_fields_def max_text_field_chars_def other_store_def)
  with b0(3,4) row show ?thesis by auto
qed

end
