(* ===== verification/Reads.thy ===== *)
theory Reads
  imports Sync Validity
begin

text \<open>
  How a limited read survives the quarantine filter: the three strategies of
  \<^verbatim>\<open>storage/interface.py\<close> that drop blocked rows before the limit, the two listings of
  \<^verbatim>\<open>storage/_query_ops.py\<close> they serve, and the bounded, resumable sweep of \<^verbatim>\<open>_sweep.py\<close>.
  The rows do not change while one call runs.
\<close>

section \<open>The strategies\<close>

definition passes :: "('a \<Rightarrow> bool) option \<Rightarrow> 'a \<Rightarrow> bool" where
  "passes p e = (case p of None \<Rightarrow> True | Some f \<Rightarrow> f e)"

text \<open>\<open>_quarantine_view\<close>: the ledger, unless there is none or it blocks nothing.\<close>

definition quarantine_view :: "backend \<Rightarrow> ledger option" where
  "quarantine_view b = (case b_ledger b of None \<Rightarrow> None | Some L \<Rightarrow> if build_index L = [] then None else Some L)"

definition quarantine_limited ::
  "env \<Rightarrow> backend \<Rightarrow> ((memory_entry \<Rightarrow> bool) option \<Rightarrow> memory_entry list) \<Rightarrow> (memory_entry \<Rightarrow> bool) option
     \<Rightarrow> nat \<Rightarrow> memory_entry list" where
  "quarantine_limited v b read p limit =
     (case quarantine_view b of
        None \<Rightarrow> read p
      | Some L \<Rightarrow>
          (let raw = read None; kept = ledger_filter (env_chash v) L raw
           in if p = None \<and> (length kept = length raw \<or> length raw < limit) then kept
              else read (entry_filter (env_chash v) L p)))"

partial_function (option) quarantine_regrown ::
  "env \<Rightarrow> backend \<Rightarrow> (nat \<Rightarrow> memory_entry list) \<Rightarrow> nat \<Rightarrow> nat \<Rightarrow> memory_entry list option" where
  "quarantine_regrown v b read limit s =
     (let raw = read s; kept = filter_quarantined v b raw
      in if limit \<le> length kept \<or> length raw < s then Some (take limit kept)
         else quarantine_regrown v b read limit (s + (length raw - length kept)))"

partial_function (option) keyset_loop ::
  "env \<Rightarrow> backend \<Rightarrow> ('k option \<Rightarrow> nat \<Rightarrow> memory_entry list) \<Rightarrow> (memory_entry \<Rightarrow> 'k) \<Rightarrow> nat
     \<Rightarrow> memory_entry list \<Rightarrow> memory_entry list \<Rightarrow> memory_entry list option" where
  "keyset_loop v b fetch key limit raw page =
     (if length raw = limit \<and> length page < limit
      then (let raw' = fetch (Some (key (last raw))) limit
            in keyset_loop v b fetch key limit raw' (page @ filter_quarantined v b raw'))
      else Some (take limit page))"

definition quarantine_keyset ::
  "env \<Rightarrow> backend \<Rightarrow> ('k option \<Rightarrow> nat \<Rightarrow> memory_entry list) \<Rightarrow> (memory_entry \<Rightarrow> 'k) \<Rightarrow> 'k option
     \<Rightarrow> nat \<Rightarrow> memory_entry list option" where
  "quarantine_keyset v b fetch key after limit =
     (let raw = fetch after limit in keyset_loop v b fetch key limit raw (filter_quarantined v b raw))"

section \<open>The listings\<close>

record list_query =
  q_status :: "memory_status option"
  q_namespace :: "string option"
  q_min_importance :: rat
  q_exclude_superseded :: bool
  q_tags :: "string list"
  q_after :: "(int \<times> string) option"   \<comment> \<open>updated_at, id\<close>

definition listed :: "list_query \<Rightarrow> memory_entry \<Rightarrow> bool" where
  "listed q e \<longleftrightarrow>
     (q_status q = None \<or> q_status q = Some (status e))
     \<and> (q_namespace q = None \<or> q_namespace q = Some (namespace e))
     \<and> (q_min_importance q \<le> 0 \<or> q_min_importance q \<le> importance e)
     \<and> (q_exclude_superseded q \<longrightarrow> invalid_from e = None)
     \<and> set (q_tags q) \<subseteq> set (tags e)
     \<and> (case q_after q of None \<Rightarrow> True
        | Some (u, i) \<Rightarrow> updated_at e < u \<or> (updated_at e = u \<and> eid e < i))"

text \<open>\<open>ORDER BY updated_at DESC, id DESC\<close>; the decoder serves each row as \<open>served_view\<close>.\<close>

definition listing :: "list_query \<Rightarrow> db \<Rightarrow> memory_entry list" where
  "listing q d = map served_view
     (rev (sort_key (\<lambda>e. (updated_at e, eid e)) (rev (filter (listed q) (map snd (rows d))))))"

definition limited_selection ::
  "clock_text \<Rightarrow> temporal option \<Rightarrow> nat \<Rightarrow> memory_entry list \<Rightarrow> memory_entry list" where
  "limited_selection ct sel limit es =
     (case sel of
        None \<Rightarrow> take limit es
      | Some t \<Rightarrow> (case select_entries ct t (int limit) es of Inr shown_rows \<Rightarrow> shown_rows | Inl _ \<Rightarrow> []))"

datatype listing_error = TemporalCursor

definition list_entries ::
  "env \<Rightarrow> clock_text \<Rightarrow> list_query \<Rightarrow> temporal option \<Rightarrow> (memory_entry \<Rightarrow> bool) option \<Rightarrow> nat \<Rightarrow> backend
     \<Rightarrow> (listing_error, memory_entry list) result" where
  "list_entries v ct q sel p limit b =
     (if sel \<noteq> None \<and> q_after q \<noteq> None then Inl TemporalCursor
      else Inr (quarantine_limited v b
             (\<lambda>p'. limited_selection ct sel limit (filter (passes p') (listing q (b_db b)))) p limit))"

definition within_keys :: "string option \<Rightarrow> string option \<Rightarrow> string \<Rightarrow> bool" where
  "within_keys after through i \<longleftrightarrow>
     (case after of None \<Rightarrow> [] < i | Some a \<Rightarrow> a < i) \<and> (case through of None \<Rightarrow> True | Some t \<Rightarrow> i \<le> t)"

definition rows_by_id :: "string \<Rightarrow> string option \<Rightarrow> backend \<Rightarrow> memory_entry list" where
  "rows_by_id ns through b = map served_view
     (sort_key eid (filter (\<lambda>e. namespace e = ns \<and> within_keys None through (eid e)) (map snd (rows (b_db b)))))"

definition query_by_id ::
  "string \<Rightarrow> string option \<Rightarrow> backend \<Rightarrow> string option \<Rightarrow> nat \<Rightarrow> memory_entry list" where
  "query_by_id ns through b after limit = take limit (map served_view
     (sort_key eid (filter (\<lambda>e. namespace e = ns \<and> within_keys after through (eid e)) (map snd (rows (b_db b))))))"

definition list_entries_by_id ::
  "env \<Rightarrow> string \<Rightarrow> string option \<Rightarrow> backend \<Rightarrow> string option \<Rightarrow> nat \<Rightarrow> memory_entry list option" where
  "list_entries_by_id v ns through b after limit =
     quarantine_keyset v b (query_by_id ns through b) eid after limit"

definition last_entry_id :: "string \<Rightarrow> backend \<Rightarrow> string option" where
  "last_entry_id ns b =
     (case map snd (filter (\<lambda>k. fst k = ns) (dict_keys (rows (b_db b)))) of
        [] \<Rightarrow> None | i # is \<Rightarrow> Some (max_from i is))"

section \<open>The sweep\<close>

datatype sweep_error = BadBudget | FetchTooLong | BadConsumed

text \<open>
  One pass of \<open>sweep\<close>. \<open>visit n batch\<close> is how many rows the \<open>n\<close>-th visit consumes, \<open>late n\<close> whether
  the deadline has passed after it. The rows consumed so far are carried in \<open>seen\<close>; the answer
  pairs them with the cursor to resume after.
\<close>

function sweep_loop ::
  "('k option \<Rightarrow> nat \<Rightarrow> 'a list) \<Rightarrow> ('a \<Rightarrow> 'k) \<Rightarrow> (nat \<Rightarrow> 'a list \<Rightarrow> nat) \<Rightarrow> (nat \<Rightarrow> bool)
     \<Rightarrow> nat \<Rightarrow> nat \<Rightarrow> nat \<Rightarrow> nat \<Rightarrow> 'k option \<Rightarrow> 'a list \<Rightarrow> (sweep_error, 'a list \<times> 'k option) result" where
  "sweep_loop fetch key visit late page budget_rows n visited cursor seen =
     (if visited < budget_rows then
        (let limit = min page (budget_rows - visited); batch = fetch cursor limit; c = visit n batch
         in if batch = [] then Inr (seen, None)
            else if limit < length batch then Inl FetchTooLong
            else if c < 1 \<or> length batch < c then Inl BadConsumed
            else
              (let cursor' = Some (key (batch ! (c - 1))); seen' = seen @ take c batch
               in if c = length batch \<and> length batch < limit then Inr (seen', None)
                  else if c < length batch \<or> late n then Inr (seen', cursor')
                  else sweep_loop fetch key visit late page budget_rows (Suc n) (visited + c) cursor' seen'))
      else Inr (seen, cursor))"
  by pat_completeness simp
termination
proof (relation "measure (\<lambda>(fetch, key, visit, late, page, budget_rows, n, visited, cursor, seen). budget_rows - visited)",
    goal_cases)
  case 1
  show ?case by simp
next
  case (2 fetch key visit late page budget_rows n visited cursor seen limit batch c cursor' seen')
  then have "visited < budget_rows" "1 \<le> c" by simp_all
  then show ?case by simp
qed

declare sweep_loop.simps [simp del]

definition sweep ::
  "('k option \<Rightarrow> nat \<Rightarrow> 'a list) \<Rightarrow> ('a \<Rightarrow> 'k) \<Rightarrow> (nat \<Rightarrow> 'a list \<Rightarrow> nat) \<Rightarrow> (nat \<Rightarrow> bool)
     \<Rightarrow> nat \<Rightarrow> nat \<Rightarrow> 'k option \<Rightarrow> (sweep_error, 'a list \<times> 'k option) result" where
  "sweep fetch key visit late page budget_rows after =
     (if page < 1 \<or> budget_rows < 1 then Inl BadBudget
      else sweep_loop fetch key visit late page budget_rows 0 0 after [])"


text \<open>The caller's loop: calls that resume from the cursor of the one before, at most \<open>n\<close> of them.\<close>

fun sweep_run ::
  "nat \<Rightarrow> ('k option \<Rightarrow> (sweep_error, 'a list \<times> 'k option) result) \<Rightarrow> 'k option
     \<Rightarrow> (sweep_error, 'a list \<times> bool) result" where
  "sweep_run 0 call after = Inr ([], False)"
| "sweep_run (Suc n) call after =
     bindE (call after) (\<lambda>(seen, c). case c of
       None \<Rightarrow> Inr (seen, True)
     | Some k \<Rightarrow> bindE (sweep_run n call (Some k)) (\<lambda>(more, ended). Inr (seen @ more, ended)))"

section \<open>A read that takes a predicate before its limit\<close>

lemma no_view_blocks_nothing: "quarantine_view b = None \<Longrightarrow> \<not> quarantine_blocks v b e"
  by (auto simp: quarantine_view_def quarantine_blocks_def blocks_def blocks_keys_def list_ex_iff
      split: option.splits if_splits)

lemma view_blocks: "quarantine_view b = Some L \<Longrightarrow> quarantine_blocks v b e = blocks (env_chash v) L e"
  by (auto simp: quarantine_view_def quarantine_blocks_def split: option.splits if_splits)

lemma passes_entry_filter:
  "quarantine_view b = Some L \<Longrightarrow>
    passes (entry_filter (env_chash v) L p) = (\<lambda>e. \<not> quarantine_blocks v b e \<and> passes p e)"
  by (rule ext) (auto simp: quarantine_view_def quarantine_blocks_def entry_filter_def passes_def
      split: option.splits if_splits)

lemma passes_None [simp]: "passes None = (\<lambda>_. True)" "passes (Some f) = f"
  by (auto simp: passes_def)

lemma full_page_unchanged:
  assumes "length (filter a (take n xs)) = length (take n xs) \<or> length (take n xs) < n"
  shows "filter a (take n xs) = take n (filter a xs)"
proof (cases "length xs \<le> n")
  case True
  then show ?thesis using order_trans [OF length_filter_le [of a xs] True] by simp
next
  case False
  with assms have "filter a (take n xs) = take n xs"
    by (auto simp: filter_id_conv dest: length_filter_less)
  then have "filter a xs = take n xs @ filter a (drop n xs)"
    by (metis append_take_drop_id filter_append)
  with False show ?thesis using \<open>filter a (take n xs) = take n xs\<close> by simp
qed

locale limited_read =
  fixes source :: "memory_entry list"
    and pipeline :: "memory_entry list \<Rightarrow> memory_entry list"
    and limit :: nat
    and read :: "(memory_entry \<Rightarrow> bool) option \<Rightarrow> memory_entry list"
  assumes read: "read p = take limit (pipeline (filter (passes p) source))"
    and pipeline_filter: "pipeline (filter a xs) = filter a (pipeline xs)"
begin

lemma limited_exact:
  "quarantine_limited v b read p limit
    = take limit (pipeline (filter (\<lambda>e. \<not> quarantine_blocks v b e \<and> passes p e) source))"
proof (cases "quarantine_view b")
  case None
  then show ?thesis by (simp add: quarantine_limited_def read no_view_blocks_nothing)
next
  case (Some L)
  have joined: "read (entry_filter (env_chash v) L p)
      = take limit (pipeline (filter (\<lambda>e. \<not> quarantine_blocks v b e \<and> passes p e) source))"
    by (simp add: read passes_entry_filter [OF Some])
  show ?thesis
  proof (cases "p = None \<and> (length (ledger_filter (env_chash v) L (read None)) = length (read None)
      \<or> length (read None) < limit)")
    case True
    then have "ledger_filter (env_chash v) L (read None)
        = take limit (filter (\<lambda>e. \<not> quarantine_blocks v b e) (pipeline source))"
      using full_page_unchanged [of "\<lambda>e. \<not> quarantine_blocks v b e" limit "pipeline source"]
      by (simp add: ledger_filter_eq view_blocks [OF Some] read)
    with True Some show ?thesis by (auto simp: quarantine_limited_def Let_def pipeline_filter)
  next
    case False
    with Some joined show ?thesis by (auto simp: quarantine_limited_def Let_def)
  qed
qed

end

section \<open>A read that can only be asked for more\<close>

locale growing_read =
  fixes source :: "memory_entry list"
    and read :: "nat \<Rightarrow> memory_entry list"
  assumes read: "read n = take n source"
begin

lemma regrown_exact:
  "limit \<le> s \<Longrightarrow> quarantine_regrown v b read limit s
    = Some (take limit (filter (\<lambda>e. \<not> quarantine_blocks v b e) source))"
proof (induction "Suc (length source) - s" arbitrary: s rule: less_induct)
  case less
  let ?a = "\<lambda>e. \<not> quarantine_blocks v b e"
  let ?kept = "filter ?a (take s source)"
  have split: "filter ?a source = ?kept @ filter ?a (drop s source)"
    by (metis append_take_drop_id filter_append)
  show ?case
  proof (cases "limit \<le> length ?kept \<or> length (take s source) < s")
    case True
    then have "take limit ?kept = take limit (filter ?a source)" unfolding split by auto
    with True show ?thesis
      by (subst quarantine_regrown.simps) (simp add: Let_def read filter_quarantined_eq)
  next
    case False
    let ?s' = "s + (length (take s source) - length ?kept)"
    have "s < ?s'" "s \<le> length source" using False less.prems by auto
    with less.hyps [of ?s'] less.prems
    have "quarantine_regrown v b read limit ?s' = Some (take limit (filter ?a source))" by simp
    with False show ?thesis
      by (subst quarantine_regrown.simps) (simp add: Let_def read filter_quarantined_eq)
  qed
qed

end


section \<open>A read that resumes from a key\<close>

definition beyond :: "'k::linorder option \<Rightarrow> 'k \<Rightarrow> bool" where
  "beyond c k \<longleftrightarrow> (case c of None \<Rightarrow> True | Some a \<Rightarrow> a < k)"

lemma filter_beyond_nth:
  fixes key :: "'a \<Rightarrow> 'k::linorder"
  assumes "sorted_wrt (<) (map key xs)" and "i < length xs"
  shows "filter (\<lambda>x. key (xs ! i) < key x) xs = drop (Suc i) xs"
proof -
  have split: "xs = take i xs @ xs ! i # drop (Suc i) xs" using assms(2) by (rule id_take_nth_drop)
  have "sorted_wrt (<) (map key (take i xs) @ key (xs ! i) # map key (drop (Suc i) xs))"
    using assms(1) by (subst (asm) split) simp
  then have "\<forall>x \<in> set (take i xs). key x < key (xs ! i)" "\<forall>x \<in> set (drop (Suc i) xs). key (xs ! i) < key x"
    by (auto simp: sorted_wrt_append)
  then have "filter (\<lambda>x. key (xs ! i) < key x) (take i xs) = []"
      "filter (\<lambda>x. key (xs ! i) < key x) (drop (Suc i) xs) = drop (Suc i) xs"
    by (auto simp: filter_empty_conv filter_id_conv dest: less_asym)
  then show ?thesis by (subst split) simp
qed

locale keyset =
  fixes ok :: "'s \<Rightarrow> bool"
    and source :: "'s \<Rightarrow> 'a list"
    and key :: "'a \<Rightarrow> 'k::linorder"
    and fetch :: "'s \<Rightarrow> 'k option \<Rightarrow> nat \<Rightarrow> 'a list"
  assumes strict: "ok s \<Longrightarrow> sorted_wrt (<) (map key (source s))"
    and fetch: "ok s \<Longrightarrow> fetch s c n = take n (filter (\<lambda>x. beyond c (key x)) (source s))"
begin

definition rest :: "'s \<Rightarrow> 'k option \<Rightarrow> 'a list" where
  "rest s c = filter (\<lambda>x. beyond c (key x)) (source s)"

lemma fetch_rest: "ok s \<Longrightarrow> fetch s c n = take n (rest s c)"
  by (simp add: fetch rest_def)

lemma rest_None [simp]: "rest s None = source s"
  by (simp add: rest_def beyond_def)

lemma rest_after:
  assumes "ok s" "i < length (rest s c)"
  shows "rest s (Some (key (rest s c ! i))) = drop (Suc i) (rest s c)"
proof -
  let ?x = "rest s c ! i"
  have "beyond c (key ?x)" using nth_mem [OF assms(2)] by (simp add: rest_def)
  then have "beyond (Some (key ?x)) k \<longleftrightarrow> beyond c k \<and> key ?x < k" for k
    by (auto simp: beyond_def split: option.splits)
  then have "rest s (Some (key ?x)) = filter (\<lambda>x. key ?x < key x) (rest s c)"
    by (simp add: rest_def conj_commute)
  moreover have "sorted_wrt (<) (map key (rest s c))"
    using strict [OF assms(1)] by (simp add: rest_def sorted_wrt_map sorted_wrt_filter)
  ultimately show ?thesis using filter_beyond_nth assms(2) by metis
qed

lemma sweep_loop_progress:
  assumes "ok s" "0 < page"
    and visit: "\<And>n batch. batch \<noteq> [] \<Longrightarrow> 1 \<le> visit n batch \<and> visit n batch \<le> length batch"
    and "visited \<le> budget" "visited = 0 \<longrightarrow> 0 < budget" "cursor = None \<longrightarrow> visited = 0"
  shows "\<exists>new c. sweep_loop (fetch s) key visit late page budget n visited cursor seen = Inr (seen @ new, c)
    \<and> length new \<le> budget - visited \<and> rest s cursor = new @ (case c of None \<Rightarrow> [] | Some k \<Rightarrow> rest s (Some k))
    \<and> (visited < budget \<longrightarrow> (if rest s cursor = [] then c = None else new \<noteq> []))"
  using assms(4-6)
proof (induction "budget - visited" arbitrary: n visited cursor seen rule: less_induct)
  case less
  show ?case
  proof (cases "visited < budget")
    case False
    then obtain k where "cursor = Some k" using less.prems by auto
    with False show ?thesis by (subst sweep_loop.simps) auto
  next
    case True
    define limit where "limit = min page (budget - visited)"
    define batch where "batch = take limit (rest s cursor)"
    have limit: "0 < limit" "limit \<le> budget - visited" using True assms(2) by (auto simp: limit_def)
    show ?thesis
    proof (cases "batch = []")
      case empty: True
      then have "rest s cursor = []" using limit(1) by (auto simp: batch_def)
      with True empty show ?thesis
        by (subst sweep_loop.simps) (simp add: Let_def fetch_rest [OF assms(1)] limit_def [symmetric] batch_def [symmetric])
    next
      case nonempty: False
      then have "rest s cursor \<noteq> []" by (auto simp: batch_def)
      define c where "c = visit n batch"
      have c: "1 \<le> c" "c \<le> length batch" using visit [OF nonempty, of n] by (auto simp: c_def)
      have blen: "length batch \<le> limit" "length batch \<le> length (rest s cursor)" by (auto simp: batch_def)
      have "c - 1 < limit" using c blen by linarith
      then have last_key: "batch ! (c - 1) = rest s cursor ! (c - 1)" unfolding batch_def by (rule nth_take)
      have rest': "rest s (Some (key (batch ! (c - 1)))) = drop c (rest s cursor)"
        unfolding last_key using rest_after [OF assms(1), of "c - 1" cursor] c blen by simp
      have new: "take c batch = take c (rest s cursor)" using c blen by (simp add: batch_def min_def)
      have whole: "rest s cursor = take c batch @ drop c (rest s cursor)" by (simp add: new)
      have body: "sweep_loop (fetch s) key visit late page budget n visited cursor seen
        = (if c = length batch \<and> length batch < limit then Inr (seen @ take c batch, None)
           else if c < length batch \<or> late n then Inr (seen @ take c batch, Some (key (batch ! (c - 1))))
           else sweep_loop (fetch s) key visit late page budget (Suc n) (visited + c)
                  (Some (key (batch ! (c - 1)))) (seen @ take c batch))"
        using True nonempty c blen \<open>rest s cursor \<noteq> []\<close> limit(1)
        by (subst sweep_loop.simps)
          (simp add: Let_def fetch_rest [OF assms(1)] limit_def [symmetric] batch_def [symmetric] c_def [symmetric])
      consider (short) "c = length batch" "length batch < limit"
        | (stop) "\<not> (c = length batch \<and> length batch < limit)" "c < length batch \<or> late n"
        | (go) "\<not> (c = length batch \<and> length batch < limit)" "\<not> (c < length batch \<or> late n)" by blast
      then show ?thesis
      proof cases
        case short
        then have "drop c (rest s cursor) = []" by (simp add: batch_def)
        with short body whole c blen limit show ?thesis by auto
      next
        case stop
        with body whole c blen limit rest' show ?thesis by auto
      next
        case go
        have "budget - (visited + c) < budget - visited" "visited + c \<le> budget" using c blen limit True by auto
        from less.hyps [OF this(1), of "Some (key (batch ! (c - 1)))" "Suc n" "seen @ take c batch"] this(2) c
        obtain new d where rec: "sweep_loop (fetch s) key visit late page budget (Suc n) (visited + c)
              (Some (key (batch ! (c - 1)))) (seen @ take c batch) = Inr ((seen @ take c batch) @ new, d)"
            "length new \<le> budget - (visited + c)"
            "drop c (rest s cursor) = new @ (case d of None \<Rightarrow> [] | Some k \<Rightarrow> rest s (Some k))"
          unfolding rest' by auto
        have "rest s cursor = (take c batch @ new) @ (case d of None \<Rightarrow> [] | Some k \<Rightarrow> rest s (Some k))"
          using whole rec(3) by simp
        moreover have "length (take c batch @ new) \<le> budget - visited" using rec(2) c blen limit by auto
        moreover have "take c batch @ new \<noteq> []" using c nonempty by auto
        moreover have "sweep_loop (fetch s) key visit late page budget n visited cursor seen
            = Inr (seen @ (take c batch @ new), d)"
          using body go rec(1) by auto
        ultimately show ?thesis using \<open>rest s cursor \<noteq> []\<close>
          by (intro exI [of _ "take c batch @ new"] exI [of _ d]) auto
      qed
    qed
  qed
qed

lemma sweep_progress:
  assumes "ok s" "0 < page" "0 < budget"
    and "\<And>n batch. batch \<noteq> [] \<Longrightarrow> 1 \<le> visit n batch \<and> visit n batch \<le> length batch"
  shows "\<exists>seen c. sweep (fetch s) key visit late page budget after = Inr (seen, c) \<and> length seen \<le> budget
    \<and> rest s after = seen @ (case c of None \<Rightarrow> [] | Some k \<Rightarrow> rest s (Some k))
    \<and> (if rest s after = [] then c = None else seen \<noteq> [])"
  using sweep_loop_progress [OF assms(1,2,4), where visited = 0 and budget = budget and cursor = after and seen = "[]"]
    assms(2,3) by (simp add: sweep_def)

lemma sweep_run_visits_all:
  assumes "ok s" "0 < page" "0 < budget"
    and visit: "\<And>n batch. batch \<noteq> [] \<Longrightarrow> 1 \<le> visit n batch \<and> visit n batch \<le> length batch"
  shows "length (rest s after) < n
    \<Longrightarrow> sweep_run n (sweep (fetch s) key visit late page budget) after = Inr (rest s after, True)"
proof (induction n arbitrary: after)
  case (Suc n)
  obtain seen c where sw: "sweep (fetch s) key visit late page budget after = Inr (seen, c)"
      "rest s after = seen @ (case c of None \<Rightarrow> [] | Some k \<Rightarrow> rest s (Some k))"
      "if rest s after = [] then c = None else seen \<noteq> []"
    using sweep_progress [OF assms(1-3), of visit late after] visit by blast
  show ?case
  proof (cases c)
    case None
    with sw show ?thesis by simp
  next
    case (Some k)
    with sw have "0 < length seen" by (auto split: if_splits)
    moreover have "length (rest s after) = length seen + length (rest s (Some k))" using sw(2) Some by simp
    ultimately have "length (rest s (Some k)) < n" using Suc.prems by linarith
    from Suc.IH [OF this] sw Some show ?thesis by simp
  qed
qed simp

end


section \<open>A keyset page behind the quarantine filter\<close>

text \<open>
  The keyset contract is kept by the refilled page, so a client of the filtered listing relies on
  the same laws as a client of the query.
\<close>

locale entry_keyset = keyset ok source key fetch
  for ok :: "backend \<Rightarrow> bool" and source :: "backend \<Rightarrow> memory_entry list"
    and key :: "memory_entry \<Rightarrow> 'k::linorder" and fetch :: "backend \<Rightarrow> 'k option \<Rightarrow> nat \<Rightarrow> memory_entry list"
begin

definition admitted :: "env \<Rightarrow> backend \<Rightarrow> memory_entry list" where
  "admitted v b = filter (\<lambda>e. \<not> quarantine_blocks v b e) (source b)"

lemma keyset_loop_exact:
  "ok b \<Longrightarrow> page = filter (\<lambda>e. \<not> quarantine_blocks v b e) ys @ filter_quarantined v b (take n (rest b c)) \<Longrightarrow>
    keyset_loop v b (fetch b) key n (take n (rest b c)) page
      = Some (take n (filter (\<lambda>e. \<not> quarantine_blocks v b e) (ys @ rest b c)))"
proof (induction "length (rest b c)" arbitrary: c page ys rule: less_induct)
  case less
  let ?a = "\<lambda>e. \<not> quarantine_blocks v b e"
  let ?R = "rest b c"
  have page: "page = filter ?a (ys @ take n ?R)" using less.prems(2) by (simp add: filter_quarantined_eq)
  have whole: "filter ?a (ys @ ?R) = page @ filter ?a (drop n ?R)"
    unfolding page by (metis append.assoc append_take_drop_id filter_append)
  show ?case
  proof (cases "length (take n ?R) = n \<and> length page < n")
    case True
    then have n: "0 < n" "n \<le> length ?R" by auto
    have "take n ?R \<noteq> []" using n by auto
    then have last: "last (take n ?R) = ?R ! (n - 1)" using n by (subst last_conv_nth) auto
    have rest': "rest b (Some (key (?R ! (n - 1)))) = drop n ?R"
      using rest_after [OF less.prems(1), of "n - 1" c] n by simp
    have shorter: "length (rest b (Some (key (?R ! (n - 1))))) < length ?R" unfolding rest' using n by simp
    have "keyset_loop v b (fetch b) key n (take n (drop n ?R)) (page @ filter_quarantined v b (take n (drop n ?R)))
        = Some (take n (filter ?a ((ys @ take n ?R) @ drop n ?R)))"
      using less.hyps [OF shorter less.prems(1), of "page @ filter_quarantined v b (take n (drop n ?R))" "ys @ take n ?R"]
      unfolding rest' by (simp add: page)
    with True show ?thesis
      by (subst keyset_loop.simps) (simp add: Let_def last fetch_rest [OF less.prems(1)] rest' [unfolded One_nat_def])
  next
    case False
    then have "take n (filter ?a (ys @ ?R)) = take n page" unfolding whole by auto
    with False show ?thesis by (subst keyset_loop.simps) auto
  qed
qed

lemma keyset_exact:
  assumes "ok b"
  shows "quarantine_keyset v b (fetch b) key c n
    = Some (take n (filter (\<lambda>e. beyond c (key e)) (admitted v b)))"
  using keyset_loop_exact [OF assms, where page = "filter (\<lambda>e. \<not> quarantine_blocks v b e) [] @ filter_quarantined v b (take n (rest b c))" and v = v and ys = "[]" and n = n and c = c]
  by (simp add: quarantine_keyset_def fetch_rest [OF assms] rest_def admitted_def Let_def conj_commute)

lemma filtered_keyset:
  "keyset ok (admitted v) key (\<lambda>b c n. the (quarantine_keyset v b (fetch b) key c n))"
proof
  show "ok s \<Longrightarrow> sorted_wrt (<) (map key (admitted v s))" for s
    using strict by (simp add: admitted_def sorted_wrt_map sorted_wrt_filter)
  show "ok s \<Longrightarrow> the (quarantine_keyset v s (fetch s) key c n)
      = take n (filter (\<lambda>x. beyond c (key x)) (admitted v s))" for s c n
    by (simp add: keyset_exact)
qed

end

section \<open>The listings keep the contracts\<close>

lemma within_keys_beyond: "i \<noteq> [] \<Longrightarrow> within_keys c through i \<longleftrightarrow> within_keys None through i \<and> beyond c i"
  by (cases i) (auto simp: within_keys_def beyond_def split: option.splits)


definition ids_ok :: "backend \<Rightarrow> bool" where
  "ids_ok b \<longleftrightarrow> db_ok (b_db b) \<and> (\<forall>e \<in> set (map snd (rows (b_db b))). eid e \<noteq> [])"

lemma rows_keys_distinct:
  assumes "db_ok d"
  shows "distinct (map entry_key (map snd (rows d)))"
proof -
  have "rows_ok d" using assms by (simp add: db_ok_def)
  then have keys: "map (\<lambda>r. entry_key (snd r)) (rows d) = dict_keys (rows d)" "distinct (dict_keys (rows d))"
    by (auto simp: rows_ok_def)
  show ?thesis by (simp only: map_map comp_def keys)
qed

lemma strict_sort:
  fixes key :: "'a \<Rightarrow> 'k::linorder"
  assumes "distinct (map key xs)"
  shows "sorted_wrt (<) (map key (sort_key key xs))"
proof -
  have "distinct (map key (sort_key key xs))" using assms by (simp add: distinct_map)
  then show ?thesis by (simp only: strict_sorted_iff sorted_sort_key)
qed

lemma distinct_ids_in_namespace:
  assumes "distinct (map entry_key es)"
  shows "distinct (map eid (filter (\<lambda>e. namespace e = ns \<and> P e) es))"
  using assms by (auto simp: distinct_map inj_on_def entry_key_def)

interpretation by_id: entry_keyset ids_ok "rows_by_id ns through" eid "query_by_id ns through" for ns through
proof
  fix b c n assume ok: "ids_ok b"
  let ?es = "map snd (rows (b_db b))"
  have keys: "map eid (map served_view es) = map eid es" for es by simp
  show "sorted_wrt (<) (map eid (rows_by_id ns through b))"
    unfolding rows_by_id_def keys using ok
    by (intro strict_sort distinct_ids_in_namespace rows_keys_distinct) (simp add: ids_ok_def)
  have "filter (\<lambda>e. namespace e = ns \<and> within_keys c through (eid e)) ?es
      = filter (\<lambda>e. beyond c (eid e)) (filter (\<lambda>e. namespace e = ns \<and> within_keys None through (eid e)) ?es)"
    unfolding filter_filter using ok
    by (intro filter_cong refl) (subst within_keys_beyond, auto simp: ids_ok_def)
  then show "query_by_id ns through b c n = take n (filter (\<lambda>e. beyond c (eid e)) (rows_by_id ns through b))"
    by (simp add: query_by_id_def rows_by_id_def filter_map comp_def filter_sort)
qed

interpretation served_by_id: keyset ids_ok "by_id.admitted ns through v" eid
    "\<lambda>b c n. the (list_entries_by_id v ns through b c n)" for v ns through
  unfolding list_entries_by_id_def by (rule by_id.filtered_keyset)

lemma shown_filter: "shown ct t (filter a xs) = filter a (shown ct t xs)"
  by (simp add: shown_def Let_def conj_ac)

definition temporal_order :: "clock_text \<Rightarrow> temporal option \<Rightarrow> memory_entry list \<Rightarrow> memory_entry list" where
  "temporal_order ct sel es = (case sel of None \<Rightarrow> es | Some t \<Rightarrow> shown ct t es)"

lemma limited_selection_exact: "limited_selection ct sel limit es = take limit (temporal_order ct sel es)"
proof (cases "limit = 0 \<or> sel = None")
  case True
  then show ?thesis by (auto simp: limited_selection_def temporal_order_def select_entries_def split: option.split)
next
  case False
  then show ?thesis by (auto simp: limited_selection_def temporal_order_def select_entries_shown)
qed

interpretation listed_read: limited_read "listing q d" "temporal_order ct sel" limit
    "\<lambda>p. limited_selection ct sel limit (filter (passes p) (listing q d))" for q d ct sel limit
  by unfold_locales (auto simp: limited_selection_exact temporal_order_def shown_filter split: option.split)

interpretation listed_more: growing_read "listing q d" "\<lambda>n. take n (listing q d)" for q d
  by unfold_locales simp

section \<open>No read is short\<close>

text \<open>
  C10: dropping quarantined rows never shortens a page. The listing with its predicate, the listing
  re-read until it fills, and the listing resumed from an id each return exactly the first
  \<open>limit\<close> rows of the same order that the ledger admits, whatever the ledger blocks; the two loops
  return.
\<close>

theorem filtered_reads_are_exact:
  assumes "db_ok (b_db b)" "\<forall>e \<in> set (map snd (rows (b_db b))). eid e \<noteq> []" "sel = None \<or> q_after q = None"
  shows "list_entries v ct q sel p limit b = Inr (take limit (temporal_order ct sel
           (filter (\<lambda>e. \<not> quarantine_blocks v b e \<and> passes p e) (listing q (b_db b)))))
    \<and> quarantine_regrown v b (\<lambda>n. take n (listing q (b_db b))) limit limit
        = Some (take limit (filter (\<lambda>e. \<not> quarantine_blocks v b e) (listing q (b_db b))))
    \<and> list_entries_by_id v ns through b after limit
        = Some (take limit (filter (\<lambda>e. \<not> quarantine_blocks v b e \<and> beyond after (eid e)) (rows_by_id ns through b)))"
proof -
  have "list_entries_by_id v ns through b after limit
      = Some (take limit (filter (\<lambda>e. beyond after (eid e)) (by_id.admitted ns through v b)))"
    unfolding list_entries_by_id_def using assms(1,2) by (intro by_id.keyset_exact) (simp add: ids_ok_def)
  with assms(3) listed_read.limited_exact listed_more.regrown_exact [of limit limit] show ?thesis
    by (auto simp: list_entries_def by_id.admitted_def conj_commute)
qed

text \<open>
  C11: a sweep visits every admitted row of its namespace once, in id order. Whatever page size and
  row budget a caller runs with, however few rows each visit consumes and whenever the deadline
  cuts a call short, the calls that resume from the returned cursor together consume exactly the
  admitted rows after the start, and end.
\<close>

theorem sweep_visits_every_row_once:
  assumes "db_ok (b_db b)" "\<forall>e \<in> set (map snd (rows (b_db b))). eid e \<noteq> []" "0 < page" "0 < budget"
    and "\<forall>n batch. batch \<noteq> [] \<longrightarrow> 1 \<le> visit n batch \<and> visit n batch \<le> length batch"
    and "length (rows_by_id ns through b) < calls"
  shows "sweep_run calls (sweep (\<lambda>c n. the (list_entries_by_id v ns through b c n)) eid visit late page budget) after
    = Inr (filter (\<lambda>e. \<not> quarantine_blocks v b e \<and> beyond after (eid e)) (rows_by_id ns through b), True)"
proof -
  have ok: "ids_ok b" using assms(1,2) by (simp add: ids_ok_def)
  have rest: "served_by_id.rest ns through v b after
      = filter (\<lambda>e. \<not> quarantine_blocks v b e \<and> beyond after (eid e)) (rows_by_id ns through b)"
    by (simp add: served_by_id.rest_def by_id.admitted_def conj_commute)
  have "length (served_by_id.rest ns through v b after) < calls"
    unfolding rest by (rule le_less_trans [OF length_filter_le assms(6)])
  from served_by_id.sweep_run_visits_all [OF ok assms(3,4) _ this] assms(5) show ?thesis
    by (simp add: rest)
qed


definition two_rows :: backend where
  "two_rows = held_store [(''project:a'', ''M-1''), (''project:a'', ''M-2'')]"

lemma two_rows_simps:
  "rows (b_db two_rows) = [((''project:a'', ''M-1''), row_of (''project:a'', ''M-1'')),
     ((''project:a'', ''M-2''), row_of (''project:a'', ''M-2''))]"
  "db_ok (b_db two_rows)"
  "quarantine_blocks plain_env two_rows (row_of k) \<longleftrightarrow> k = (''project:a'', ''M-1'')"
  by (simp_all add: two_rows_def held_rows held_blocks) (simp add: held_store_def write_row_ok db_ok_empty)

lemma two_rows_by_id:
  "rows_by_id ''project:a'' None two_rows = [row_of (''project:a'', ''M-1''), row_of (''project:a'', ''M-2'')]"
  by (simp add: rows_by_id_def two_rows_simps within_keys_def)

theorem filtered_reads_are_exact_witness:
  "list_entries_by_id plain_env ''project:a'' None two_rows None 1 = Some [row_of (''project:a'', ''M-2'')]
   \<and> (\<exists>es. list_entries plain_env plain_clock \<lparr>q_status = None, q_namespace = None, q_min_importance = 0,
        q_exclude_superseded = False, q_tags = [], q_after = None\<rparr> None None 1 two_rows = Inr es)"
  using filtered_reads_are_exact [of two_rows None "\<lparr>q_status = None, q_namespace = None, q_min_importance = 0,
      q_exclude_superseded = False, q_tags = [], q_after = None\<rparr>" plain_env plain_clock None 1
      "''project:a''" None None]
  by (auto simp: two_rows_simps two_rows_by_id beyond_def)

theorem sweep_visits_every_row_once_witness:
  "sweep_run 3 (sweep (\<lambda>c n. the (list_entries_by_id plain_env ''project:a'' None two_rows c n)) eid
       (\<lambda>_ _. 1) (\<lambda>_. True) 1 1) None = Inr ([row_of (''project:a'', ''M-2'')], True)"
  using sweep_visits_every_row_once [of two_rows 1 1 "\<lambda>_ _. 1" "''project:a''" None 3 plain_env "\<lambda>_. True" None]
  by (simp add: two_rows_simps two_rows_by_id beyond_def Suc_le_eq)

end
