(* ===== verification/Sources.thy ===== *)
theory Sources
  imports Reads "HOL-Library.Product_Lexorder" "HOL-Library.Multiset"
begin

text \<open>
  Which sources a recall admits and in which order it acquires and ranks them
  (\<^verbatim>\<open>retrieval/source_policy.py\<close>, \<^verbatim>\<open>retrieval/admission_policy.py\<close>,
  \<^verbatim>\<open>retrieval/recall_selection.py\<close>), down to the search of the backend that serves the
  acquisition. Scores and weights are exact rationals; the \<open>float()\<close> of a text and SQLite's
  \<open>LIKE\<close> are parameters.
\<close>

section \<open>Source families\<close>

definition named_families :: "string list" where
  "named_families = [''instruction_rule'', ''semantic_memory'', ''lifecycle'', ''episodic'']"

definition tag_prefix :: string where "tag_prefix = ''source_kind:''"

fun family_of_tags :: "string list \<Rightarrow> string" where
  "family_of_tags [] = ''unknown''"
| "family_of_tags (t # ts) =
     (let kind = drop (length tag_prefix) t
      in if prefix tag_prefix t \<and> kind = ''git'' then ''git_distilled''
         else if prefix tag_prefix t \<and> kind \<in> set named_families then kind
         else if prefix ''distill:'' t \<or> prefix ''distilled:'' t then ''git_distilled''
         else if t = ''change_bulletin'' then ''lifecycle''
         else family_of_tags ts)"

definition classify_source_family :: "(string, string) dict \<Rightarrow> string list \<Rightarrow> string" where
  "classify_source_family md ts =
     (let explicit = str_strip (dict_get md ''source_kind'' []); source = str_strip (dict_get md ''source'' [])
      in if explicit = ''git'' then ''git_distilled''
         else if explicit \<in> set named_families then explicit
         else if prefix ''distilled:git:'' source then ''git_distilled''
         else if prefix ''distilled:bulletin:'' source then ''lifecycle''
         else family_of_tags ts)"

definition default_distilled_weight :: rat where "default_distilled_weight = 3/4"

definition default_source_weights :: "(string, rat) dict" where
  "default_source_weights = [(''git_distilled'', default_distilled_weight), (''instruction_rule'', 95/100),
     (''semantic_memory'', 9/10), (''lifecycle'', 55/100), (''episodic'', 45/100), (''unknown'', 1)]"

definition transient_source_families :: "string list" where
  "transient_source_families = [''lifecycle'', ''episodic'']"

text \<open>What \<open>float(text)\<close> gives; a comparison with \<open>NaN\<close> is false.\<close>

datatype float_text = NotAFloat | Finite rat | NaN | PosInf | NegInf

definition distilled_weight_from_env :: "(string \<Rightarrow> float_text) \<Rightarrow> string option \<Rightarrow> rat option" where
  "distilled_weight_from_env to_float raw =
     (let txt = str_strip (case raw of None \<Rightarrow> [] | Some r \<Rightarrow> r)
      in if txt = [] then None
         else (case to_float txt of Finite w \<Rightarrow> if 0 \<le> w \<and> w \<le> 1 then Some w else None | _ \<Rightarrow> None))"

definition weight_distilled :: "memory_entry list \<Rightarrow> rat list \<Rightarrow> rat \<Rightarrow> (memory_entry \<times> rat \<times> bool) list" where
  "weight_distilled es scores w =
     sort_key (\<lambda>r. - fst (snd r))
       (map (\<lambda>(e, s). if classify_source_family (metadata e) (tags e) = ''git_distilled''
                      then (e, s * w, True) else (e, s, False)) (zip es scores))"

section \<open>The policy of one invocation\<close>

text \<open>\<open>entry_policy_fields\<close>: the view of an entry the policies read.\<close>

record policy_view =
  pv_metadata :: "(string, string) dict"
  pv_tags :: "string list"
  pv_expires :: string
  pv_importance :: rat
  pv_source :: string
  pv_score :: rat

definition entry_policy_fields :: "memory_entry \<Rightarrow> string \<Rightarrow> rat \<Rightarrow> policy_view" where
  "entry_policy_fields e source score =
     \<lparr>pv_metadata = metadata e, pv_tags = tags e, pv_expires = expires e, pv_importance = importance e,
      pv_source = source, pv_score = score\<rparr>"

definition family_of :: "policy_view \<Rightarrow> string" where
  "family_of r = classify_source_family (pv_metadata r) (pv_tags r)"

definition resolve_expiry :: "policy_view \<Rightarrow> string" where
  "resolve_expiry r = (if pv_expires r \<noteq> [] then pv_expires r else dict_get (pv_metadata r) ''expires'' [])"

definition is_expired_result :: "clock_text \<Rightarrow> policy_view \<Rightarrow> int \<Rightarrow> bool" where
  "is_expired_result ct r now = expiry_has_passed ct (resolve_expiry r) now"

record source_policy =
  sp_include_distilled :: bool
  sp_include_kinds :: "string list"
  sp_exclude_kinds :: "string list"
  sp_weights :: "(string, rat) dict"
  sp_weight_overrides :: "string list"
  sp_exclude_expired :: bool
  sp_now :: int
  sp_explicit_distilled :: bool

definition or_none :: "'a list option \<Rightarrow> 'a list" where
  "or_none x = (case x of None \<Rightarrow> [] | Some l \<Rightarrow> l)"

definition resolve ::
  "(string \<Rightarrow> float_text) \<Rightarrow> string option \<Rightarrow> bool \<Rightarrow> rat option \<Rightarrow> string list option \<Rightarrow> string list option
     \<Rightarrow> (string, rat) dict option \<Rightarrow> bool \<Rightarrow> int \<Rightarrow> source_policy" where
  "resolve to_float env_value include_distilled distilled_weight include_kinds exclude_kinds source_weights
     exclude_expired now =
     (let ws = dict_merge default_source_weights (or_none source_weights);
          weights = (case distilled_weight of
              Some w \<Rightarrow> dict_set ''git_distilled'' w ws
            | None \<Rightarrow> if map_of (or_none source_weights) ''git_distilled'' \<noteq> None then ws
                      else (case distilled_weight_from_env to_float env_value of
                              Some w \<Rightarrow> dict_set ''git_distilled'' w ws | None \<Rightarrow> ws))
      in \<lparr>sp_include_distilled = include_distilled, sp_include_kinds = or_none include_kinds,
          sp_exclude_kinds = or_none exclude_kinds, sp_weights = weights,
          sp_weight_overrides = dict_keys (or_none source_weights), sp_exclude_expired = exclude_expired,
          sp_now = now, sp_explicit_distilled = (distilled_weight \<noteq> None)\<rparr>)"

definition allows :: "clock_text \<Rightarrow> source_policy \<Rightarrow> policy_view \<Rightarrow> bool" where
  "allows ct sp r =
     (let family = family_of r
      in if family = ''git_distilled'' \<and> \<not> sp_include_distilled sp then False
         else if sp_include_kinds sp \<noteq> [] \<and> family \<notin> set (sp_include_kinds sp) then False
         else if family \<in> set (sp_exclude_kinds sp) then False
         else if sp_exclude_expired sp \<and> family \<in> set transient_source_families
                 \<and> is_expired_result ct r (sp_now sp) then False
         else \<not> dict_get (sp_weights sp) family 1 \<le> 0)"

definition source_rank_key :: "source_policy \<Rightarrow> policy_view \<Rightarrow> bool \<Rightarrow> nat \<times> rat" where
  "source_rank_key sp r pipeline_weighted =
     (let family = family_of r;
          bucket = (if family \<in> set transient_source_families \<and> family \<notin> set (sp_weight_overrides sp) then 2
                    else if pv_source r \<in> {''org'', ''shared''} then 1 else 0);
          w = (if pipeline_weighted \<and> family = ''git_distilled'' then 1 else dict_get (sp_weights sp) family 1)
      in (bucket, - pv_score r * w))"

section \<open>Recall-time admission\<close>

definition below_floor :: "float_text \<Rightarrow> rat \<Rightarrow> bool" where
  "below_floor c f = (case c of Finite x \<Rightarrow> x < f | NotAFloat \<Rightarrow> 0 < f | NegInf \<Rightarrow> True | NaN \<Rightarrow> False | PosInf \<Rightarrow> False)"

definition record_admitted :: "(string \<Rightarrow> float_text) \<Rightarrow> rat option \<Rightarrow> bool \<Rightarrow> policy_view \<Rightarrow> bool" where
  "record_admitted to_float confidence_floor exclude_historical r =
     (if exclude_historical \<and> map_of (pv_metadata r) ''currentness_status'' = Some ''historical_only'' then False
      else (case confidence_floor of
              None \<Rightarrow> True
            | Some f \<Rightarrow> \<not> below_floor (case map_of (pv_metadata r) ''confidence'' of
                           Some raw \<Rightarrow> to_float raw | None \<Rightarrow> Finite (pv_importance r)) f))"

definition apply_admission_filter ::
  "(string \<Rightarrow> float_text) \<Rightarrow> rat option \<Rightarrow> bool \<Rightarrow> policy_view list \<Rightarrow> policy_view list" where
  "apply_admission_filter to_float confidence_floor exclude_historical rs =
     (if confidence_floor = None \<and> \<not> exclude_historical then rs
      else filter (record_admitted to_float confidence_floor exclude_historical) rs)"

section \<open>One recall\<close>

record invocation =
  iv_source :: source_policy
  iv_temporal :: temporal
  iv_namespace :: string
  iv_tags :: "string list"
  iv_types :: "memory_type list"
  iv_confidence_floor :: "rat option"
  iv_exclude_historical :: bool

datatype scope_error = OutsideScope

definition allows_entry ::
  "clock_text \<Rightarrow> (string \<Rightarrow> float_text) \<Rightarrow> invocation \<Rightarrow> memory_entry \<Rightarrow> (scope_error, bool) result" where
  "allows_entry ct to_float iv e =
     (if namespace e \<noteq> iv_namespace iv then Inl OutsideScope
      else Inr (status e = Active
        \<and> \<not> is_canary (iv_temporal iv) e
        \<and> set (iv_tags iv) \<subseteq> set (tags e)
        \<and> (iv_types iv = [] \<or> etype e \<in> set (iv_types iv))
        \<and> allows ct (iv_source iv) (entry_policy_fields e ''local'' 0)
        \<and> apply_admission_filter to_float (iv_confidence_floor iv) (iv_exclude_historical iv)
            [entry_policy_fields e ''local'' 0] \<noteq> []))"

definition bucket_of :: "invocation \<Rightarrow> memory_entry \<Rightarrow> nat" where
  "bucket_of iv e = fst (source_rank_key (iv_source iv) (entry_policy_fields e ''local'' 0) False)"

text \<open>
  \<open>acquire\<close> asks its fetch for one partition after the other. The predicate it passes raises on a
  row outside the namespace; the fetch below never considers one, so it is a plain predicate.
\<close>

definition accepts :: "clock_text \<Rightarrow> (string \<Rightarrow> float_text) \<Rightarrow> invocation \<Rightarrow> bool \<times> nat \<Rightarrow> memory_entry \<Rightarrow> bool" where
  "accepts ct to_float iv part e \<longleftrightarrow>
     allows_entry ct to_float iv e = Inr True \<and> eligible ct (iv_temporal iv) e = fst part \<and> bucket_of iv e = snd part"

definition partitions :: "invocation \<Rightarrow> (bool \<times> nat) list" where
  "partitions iv =
     concat (map (\<lambda>el. map (\<lambda>bucket. (el, bucket)) [0, 2])
       (if t_superseded (iv_temporal iv) then [True, False] else [True]))"

fun acquire_loop ::
  "(bool \<times> nat \<Rightarrow> memory_entry \<Rightarrow> bool) \<Rightarrow> ((memory_entry \<Rightarrow> bool) \<Rightarrow> nat \<Rightarrow> memory_entry list) \<Rightarrow> nat
     \<Rightarrow> (bool \<times> nat) list \<Rightarrow> memory_entry list \<Rightarrow> memory_entry list" where
  "acquire_loop accept fetch limit [] entries = entries"
| "acquire_loop accept fetch limit (part # parts) entries =
     (let entries' = entries @ fetch (accept part) (limit - length entries)
      in if limit \<le> length entries' then entries' else acquire_loop accept fetch limit parts entries')"

datatype acquire_error = AcquisitionLimit

definition acquire ::
  "clock_text \<Rightarrow> (string \<Rightarrow> float_text) \<Rightarrow> invocation \<Rightarrow> ((memory_entry \<Rightarrow> bool) \<Rightarrow> nat \<Rightarrow> memory_entry list) \<Rightarrow> int
     \<Rightarrow> (acquire_error, memory_entry list) result" where
  "acquire ct to_float iv fetch limit =
     (if limit < 1 then Inl AcquisitionLimit
      else Inr (acquire_loop (accepts ct to_float iv) fetch (nat limit) (partitions iv) []))"

definition recall_rank_key ::
  "clock_text \<Rightarrow> invocation \<Rightarrow> memory_entry \<Rightarrow> rat \<Rightarrow> string \<Rightarrow> bool \<times> nat \<times> rat" where
  "recall_rank_key ct iv e score source =
     (let (bucket, key) = source_rank_key (iv_source iv) (entry_policy_fields e source score) False
      in (\<not> eligible ct (iv_temporal iv) e, bucket, key))"

section \<open>The search behind the acquisition\<close>

definition search_listing :: "(string \<Rightarrow> memory_entry \<Rightarrow> bool) \<Rightarrow> string \<Rightarrow> list_query \<Rightarrow> db \<Rightarrow> memory_entry list" where
  "search_listing like query q d = map served_view
     (rev (sort_key (\<lambda>e. (importance e, updated_at e))
        (rev (filter (\<lambda>e. like query e \<and> listed q e) (map snd (rows d))))))"

definition search ::
  "env \<Rightarrow> clock_text \<Rightarrow> (string \<Rightarrow> memory_entry \<Rightarrow> bool) \<Rightarrow> string \<Rightarrow> list_query \<Rightarrow> temporal option
     \<Rightarrow> (memory_entry \<Rightarrow> bool) option \<Rightarrow> nat \<Rightarrow> backend \<Rightarrow> memory_entry list" where
  "search v ct like query q sel p top_k b =
     quarantine_limited v b
       (\<lambda>p'. limited_selection ct sel top_k (filter (passes p') (search_listing like query q (b_db b)))) p top_k"

text \<open>The query of \<open>fallback_recall\<close>: active rows of the client's namespace with the caller's tags.\<close>

definition recall_query :: "invocation \<Rightarrow> string list \<Rightarrow> list_query" where
  "recall_query iv ts = \<lparr>q_status = Some Active, q_namespace = Some (iv_namespace iv), q_min_importance = 0,
     q_exclude_superseded = False, q_tags = ts, q_after = None\<rparr>"

definition fallback_acquire ::
  "env \<Rightarrow> clock_text \<Rightarrow> (string \<Rightarrow> float_text) \<Rightarrow> (string \<Rightarrow> memory_entry \<Rightarrow> bool) \<Rightarrow> string \<Rightarrow> string list
     \<Rightarrow> invocation \<Rightarrow> int \<Rightarrow> backend \<Rightarrow> (acquire_error, memory_entry list) result" where
  "fallback_acquire v ct to_float like query ts iv limit b =
     acquire ct to_float iv
       (\<lambda>p n. search v ct like query (recall_query iv ts) (Some (iv_temporal iv)) (Some p) n b) (limit * 3)"

text \<open>
  The rest of \<open>fallback_recall\<close>: the share of a row's words that the query names, blended with its
  importance, and, for a caller without an invocation, the rows current at the reference time first.
\<close>

definition fallback_tf_weight :: rat where "fallback_tf_weight = 7/10"

definition fallback_importance_weight :: rat where "fallback_importance_weight = 3/10"

definition fallback_tf_scale :: rat where "fallback_tf_scale = 10"

definition tf_score :: "string \<Rightarrow> memory_entry \<Rightarrow> rat" where
  "tf_score query e =
     (let query_terms = set (str_words (str_lower query));
          text_tokens = str_words (str_lower (content e @ '' '' @ detail e @ '' '' @ str_join '' '' (tags e)));
          matches = length (filter (\<lambda>t. t \<in> query_terms) text_tokens)
      in if query_terms = {} then importance e
         else min 1 (of_nat matches / of_nat (max (length text_tokens) 1) * fallback_tf_scale) * fallback_tf_weight
              + importance e * fallback_importance_weight)"

definition scored :: "string \<Rightarrow> rat \<Rightarrow> memory_entry list \<Rightarrow> (memory_entry \<times> rat) list" where
  "scored query min_score es =
     map (\<lambda>e. (e, round_decimals 4 (tf_score query e))) (filter (\<lambda>e. min_score \<le> tf_score query e) es)"

definition fallback_candidates ::
  "env \<Rightarrow> clock_text \<Rightarrow> (string \<Rightarrow> float_text) \<Rightarrow> (string \<Rightarrow> memory_entry \<Rightarrow> bool) \<Rightarrow> string \<Rightarrow> string list
     \<Rightarrow> rat \<Rightarrow> invocation \<Rightarrow> int \<Rightarrow> backend \<Rightarrow> (acquire_error, (memory_entry \<times> rat) list) result" where
  "fallback_candidates v ct to_float like query ts min_score iv limit b =
     bindE (fallback_acquire v ct to_float like query ts iv limit b) (\<lambda>es. Inr (scored query min_score es))"

definition ranked_results :: "clock_text \<Rightarrow> temporal \<Rightarrow> int \<Rightarrow> (memory_entry \<times> rat) list \<Rightarrow> (memory_entry \<times> rat) list" where
  "ranked_results ct t limit rs =
     take (nat limit) (sort_key (\<lambda>r. \<not> eligible ct t (fst r)) (sort_key (\<lambda>r. - snd r) rs))"

definition fallback_recall ::
  "env \<Rightarrow> clock_text \<Rightarrow> (string \<Rightarrow> memory_entry \<Rightarrow> bool) \<Rightarrow> string \<Rightarrow> string list \<Rightarrow> rat \<Rightarrow> temporal \<Rightarrow> string
     \<Rightarrow> int \<Rightarrow> backend \<Rightarrow> (memory_entry \<times> rat) list" where
  "fallback_recall v ct like query ts min_score t ns limit b =
     ranked_results ct t limit (scored query min_score
       (search v ct like query
         \<lparr>q_status = Some Active, q_namespace = Some ns, q_min_importance = 0, q_exclude_superseded = False,
          q_tags = ts, q_after = None\<rparr> (Some t) None (nat (limit * 3)) b))"


section \<open>Partition by partition is one stable sort\<close>

lemma filter_concat_key:
  "distinct ks \<Longrightarrow> filter (\<lambda>x. key x = k) (concat (map (\<lambda>j. filter (\<lambda>x. key x = j) xs) ks))
    = (if k \<in> set ks then filter (\<lambda>x. key x = k) xs else [])"
  by (induction ks) (auto simp: filter_empty_conv intro: filter_cong)

lemma mset_concat_key:
  "distinct ks \<Longrightarrow> mset (concat (map (\<lambda>j. filter (\<lambda>x. key x = j) xs) ks)) = mset (filter (\<lambda>x. key x \<in> set ks) xs)"
proof (induction ks)
  case (Cons k ks)
  have "filter_mset (\<lambda>x. key x = k) (mset xs) + filter_mset (\<lambda>x. key x \<in> set ks) (mset xs)
      = filter_mset (\<lambda>x. key x = k \<or> key x \<in> set ks) (mset xs)"
    using Cons.prems by (intro multiset_eqI) auto
  with Cons show ?case by simp
qed simp

lemma sorted_concat_key:
  fixes key :: "'a \<Rightarrow> 'k::linorder"
  shows "sorted ks \<Longrightarrow> sorted (map key (concat (map (\<lambda>j. filter (\<lambda>x. key x = j) xs) ks)))"
proof (induction ks)
  case (Cons k ks)
  have "sorted (map key (filter (\<lambda>x. key x = k) xs))"
    by (induction xs) auto
  with Cons show ?case by (auto simp: sorted_append)
qed simp

lemma partitions_sort:
  fixes key :: "'a \<Rightarrow> 'k::linorder"
  assumes "sorted ks" "distinct ks" "\<forall>x \<in> set xs. key x \<in> set ks"
  shows "concat (map (\<lambda>k. filter (\<lambda>x. key x = k) xs) ks) = sort_key key xs"
proof (rule properties_for_sort_key [symmetric])
  show "mset (concat (map (\<lambda>k. filter (\<lambda>x. key x = k) xs) ks)) = mset xs"
    using assms(3) by (simp only: mset_concat_key [OF assms(2)]) (metis filter_True)
  show "sorted (map key (concat (map (\<lambda>k. filter (\<lambda>x. key x = k) xs) ks)))"
    by (rule sorted_concat_key [OF assms(1)])
  fix k assume "k \<in> set (concat (map (\<lambda>k. filter (\<lambda>x. key x = k) xs) ks))"
  then have "key k \<in> set ks" by auto
  then show "filter (\<lambda>x. key k = key x) (concat (map (\<lambda>k. filter (\<lambda>x. key x = k) xs) ks))
      = filter (\<lambda>x. key k = key x) xs"
    using filter_concat_key [OF assms(2), of key "key k" xs] by (simp add: eq_commute)
qed

lemma sort_key_const_fst:
  "\<forall>x \<in> set xs. f x = c \<Longrightarrow> sort_key (\<lambda>x. (f x, g x)) xs = sort_key g xs"
  for f :: "'a \<Rightarrow> 'k::linorder" and g :: "'a \<Rightarrow> 'l::linorder"
proof (rule properties_for_sort_key)
  assume c: "\<forall>x \<in> set xs. f x = c"
  show "filter (\<lambda>x. (f k, g k) = (f x, g x)) (sort_key g xs) = filter (\<lambda>x. (f k, g k) = (f x, g x)) xs"
    if "k \<in> set (sort_key g xs)" for k
  proof -
    have "filter (\<lambda>x. (f k, g k) = (f x, g x)) ys = filter (\<lambda>x. g x = g k) ys" if "set ys = set xs" for ys
      using that c \<open>k \<in> set (sort_key g xs)\<close> by (intro filter_cong) auto
    from this [of "sort_key g xs"] this [of xs] show ?thesis by (simp add: sort_key_stable)
  qed
  have "sorted (map g (sort_key g xs))" by simp
  then have "sorted_wrt (\<lambda>x y. g x \<le> g y) (sort_key g xs)" by (simp add: sorted_map)
  then show "sorted (map (\<lambda>x. (f x, g x)) (sort_key g xs))"
    unfolding sorted_map using c by (elim sorted_wrt_mono_rel [rotated]) (auto simp: less_eq_prod_def)
qed simp

lemma two_sorts_lexicographic:
  fixes f :: "'a \<Rightarrow> 'k::linorder" and g :: "'a \<Rightarrow> 'l::linorder"
  shows "sort_key f (sort_key g xs) = sort_key (\<lambda>x. (f x, g x)) xs"
proof (rule properties_for_sort_key)
  fix k assume "k \<in> set (sort_key (\<lambda>x. (f x, g x)) xs)"
  show "filter (\<lambda>x. f k = f x) (sort_key (\<lambda>x. (f x, g x)) xs) = filter (\<lambda>x. f k = f x) (sort_key g xs)"
    unfolding filter_sort by (rule sort_key_const_fst [of _ _ "f k"]) auto
next
  have "sorted (map (\<lambda>x. (f x, g x)) (sort_key (\<lambda>x. (f x, g x)) xs))" by simp
  then show "sorted (map f (sort_key (\<lambda>x. (f x, g x)) xs))"
    unfolding sorted_map by (elim sorted_wrt_mono_rel [rotated]) (auto simp: less_eq_prod_def)
qed simp

text \<open>
  A recall without an invocation returns at most \<open>limit\<close> rows in one lexicographic order: current
  rows first, then by descending score, then in the order of the search.
\<close>

lemma fallback_recall_order:
  "ranked_results ct t limit rs = take (nat limit) (sort_key (\<lambda>r. (\<not> eligible ct t (fst r), - snd r)) rs)"
  by (simp add: ranked_results_def two_sorts_lexicographic)

section \<open>The contract of a fetch\<close>

text \<open>
  A fetch answers a predicate with the first accepted rows of what it considers, provided the
  predicate is one it can serve in its own order.
\<close>

locale fetcher =
  fixes serves :: "('a \<Rightarrow> bool) \<Rightarrow> bool"
    and considered :: "'a list"
    and fetch :: "('a \<Rightarrow> bool) \<Rightarrow> nat \<Rightarrow> 'a list"
  assumes fetch: "serves p \<Longrightarrow> fetch p n = take n (filter p considered)"

locale entry_fetcher = fetcher serves considered fetch
  for serves :: "(memory_entry \<Rightarrow> bool) \<Rightarrow> bool" and considered fetch
begin

lemma acquire_loop_exact:
  "length entries < limit \<Longrightarrow> \<forall>part \<in> set parts. serves (accept part) \<Longrightarrow>
    acquire_loop accept fetch limit parts entries
      = take limit (entries @ concat (map (\<lambda>part. filter (accept part) considered) parts))"
proof (induction parts arbitrary: entries)
  case (Cons part parts)
  let ?found = "filter (accept part) considered"
  have f: "fetch (accept part) (limit - length entries) = take (limit - length entries) ?found"
    using Cons.prems(2) by (intro fetch) simp
  show ?case
  proof (cases "limit - length entries \<le> length ?found")
    case True
    with Cons.prems(1) show ?thesis by (simp add: f Let_def)
  next
    case False
    with Cons.prems have "length (entries @ ?found) < limit" by simp
    with Cons.IH [OF this] Cons.prems(2) False show ?thesis by (simp add: f Let_def)
  qed
qed simp

end

interpretation searched_read: limited_read "search_listing like query q d" "temporal_order ct sel" limit
    "\<lambda>p. limited_selection ct sel limit (filter (passes p) (search_listing like query q d))"
    for like query q d ct sel limit
  by unfold_locales (auto simp: limited_selection_exact temporal_order_def shown_filter split: option.split)

definition one_window :: "clock_text \<Rightarrow> temporal \<Rightarrow> (memory_entry \<Rightarrow> bool) \<Rightarrow> bool" where
  "one_window ct t p \<longleftrightarrow>
     (\<exists>el. \<forall>e. p e \<longrightarrow> \<not> is_canary t e \<and> eligible ct t e = el \<and> (el \<or> t_superseded t))"

lemma shown_one_window: "one_window ct t p \<Longrightarrow> shown ct t (filter p es) = filter p es"
  unfolding one_window_def
proof (elim exE)
  fix el assume p: "\<forall>e. p e \<longrightarrow> \<not> is_canary t e \<and> eligible ct t e = el \<and> (el \<or> t_superseded t)"
  have nc: "filter (\<lambda>e. \<not> is_canary t e) (filter p es) = filter p es"
    unfolding filter_filter using p by (intro filter_cong) auto
  show "shown ct t (filter p es) = filter p es"
  proof (cases el)
    case True
    with p have "filter (eligible ct t) (filter p es) = filter p es"
      unfolding filter_filter by (intro filter_cong) auto
    moreover from True p have "filter (\<lambda>e. \<not> eligible ct t e) (filter p es) = []"
      by (auto simp: filter_empty_conv)
    ultimately show ?thesis by (simp only: shown_def Let_def nc) simp
  next
    case False
    have "t_superseded t" if "filter p es \<noteq> []" using p False that by (auto simp: filter_empty_conv)
    moreover from False p have "filter (eligible ct t) (filter p es) = []" by (auto simp: filter_empty_conv)
    moreover from False p have "filter (\<lambda>e. \<not> eligible ct t e) (filter p es) = filter p es"
      unfolding filter_filter by (intro filter_cong) auto
    ultimately show ?thesis by (cases "filter p es = []") (simp_all only: shown_def Let_def nc, simp_all)
  qed
qed

interpretation searched: entry_fetcher "one_window ct t"
    "filter (\<lambda>e. \<not> quarantine_blocks v b e) (search_listing like query q (b_db b))"
    "\<lambda>p n. search v ct like query q (Some t) (Some p) n b" for v ct t like query q b
proof
  fix p n assume p: "one_window ct t p"
  then have "one_window ct t (\<lambda>e. \<not> quarantine_blocks v b e \<and> p e)" by (auto simp: one_window_def)
  then show "search v ct like query q (Some t) (Some p) n b
      = take n (filter p (filter (\<lambda>e. \<not> quarantine_blocks v b e) (search_listing like query q (b_db b))))"
    by (simp add: search_def searched_read.limited_exact temporal_order_def shown_one_window conj_commute)
qed


section \<open>The order of acquisition\<close>

definition policy_key :: "clock_text \<Rightarrow> invocation \<Rightarrow> memory_entry \<Rightarrow> bool \<times> nat" where
  "policy_key ct iv e = (\<not> eligible ct (iv_temporal iv) e, bucket_of iv e)"

lemma bucket_of_local: "bucket_of iv e \<in> {0, 2}"
  by (simp add: bucket_of_def source_rank_key_def Let_def entry_policy_fields_def)

lemma accepts_one_window:
  "part \<in> set (partitions iv) \<Longrightarrow> one_window ct (iv_temporal iv) (accepts ct to_float iv part)"
  unfolding one_window_def
  by (rule exI [of _ "fst part"])
    (auto simp: accepts_def partitions_def allows_entry_def split: if_splits)

definition requested :: "clock_text \<Rightarrow> (string \<Rightarrow> float_text) \<Rightarrow> invocation \<Rightarrow> memory_entry \<Rightarrow> bool" where
  "requested ct to_float iv e \<longleftrightarrow> allows_entry ct to_float iv e = Inr True
     \<and> (eligible ct (iv_temporal iv) e \<or> t_superseded (iv_temporal iv))"

lemma partition_keys:
  "map (\<lambda>part. filter (accepts ct to_float iv part) es) (partitions iv)
    = map (\<lambda>k. filter (\<lambda>e. policy_key ct iv e = k) (filter (requested ct to_float iv) es))
        (map (\<lambda>(el, bucket). (\<not> el, bucket)) (partitions iv))"
proof -
  have "filter (accepts ct to_float iv (el, k)) es
      = filter (\<lambda>e. policy_key ct iv e = (\<not> el, k)) (filter (requested ct to_float iv) es)"
    if "el \<or> t_superseded (iv_temporal iv)" for el k
    unfolding filter_filter using that
    by (intro filter_cong) (auto simp: accepts_def policy_key_def requested_def)
  then show ?thesis by (simp add: partitions_def)
qed

lemma requested_key:
  "requested ct to_float iv e \<Longrightarrow>
    policy_key ct iv e \<in> set (map (\<lambda>(el, bucket). (\<not> el, bucket)) (partitions iv))"
  using bucket_of_local [of iv e] by (auto simp: requested_def policy_key_def partitions_def)

lemma partition_keys_linear:
  "sorted (map (\<lambda>(el, bucket). (\<not> el, bucket)) (partitions iv)) \<and>
   distinct (map (\<lambda>(el, bucket). (\<not> el, bucket)) (partitions iv))"
  by (simp add: partitions_def less_eq_prod_def)

lemma acquire_searched:
  "acquire_loop (accepts ct to_float iv)
      (\<lambda>p n. search v ct like query q (Some (iv_temporal iv)) (Some p) n b) (Suc limit) (partitions iv) []
    = take (Suc limit) (sort_key (policy_key ct iv) (filter (requested ct to_float iv)
        (filter (\<lambda>e. \<not> quarantine_blocks v b e) (search_listing like query q (b_db b)))))"
  (is "_ = take _ (sort_key _ ?es)")
proof -
  have "concat (map (\<lambda>part. filter (accepts ct to_float iv part)
        (filter (\<lambda>e. \<not> quarantine_blocks v b e) (search_listing like query q (b_db b)))) (partitions iv))
      = sort_key (policy_key ct iv) ?es"
    unfolding partition_keys
    by (rule partitions_sort) (use partition_keys_linear requested_key in auto)
  then show ?thesis
    by (subst searched.acquire_loop_exact) (auto intro: accepts_one_window)
qed

text \<open>
  Acquisition follows the policy. Against the listing the search would give, the candidates a
  recall acquires are exactly the first \<open>3 \<cdot> limit\<close> requested rows, none of them quarantined, in
  one stable order: rows current at the reference time before superseded ones, then rows of lasting
  sources before transient ones, then the order of the search. The loop over partitions that asks
  again for the missing number neither repeats nor skips a row.
\<close>

theorem acquisition_follows_policy_order:
  "fallback_acquire v ct to_float like query ts iv limit b =
    (if limit * 3 < 1 then Inl AcquisitionLimit
     else Inr (take (nat (limit * 3)) (sort_key (policy_key ct iv) (filter (requested ct to_float iv)
       (filter (\<lambda>e. \<not> quarantine_blocks v b e) (search_listing like query (recall_query iv ts) (b_db b)))))))"
proof (cases "limit * 3 < 1")
  case False
  then obtain n where "nat (limit * 3) = Suc n" by (cases "nat (limit * 3)") auto
  with False show ?thesis by (simp add: fallback_acquire_def acquire_def acquire_searched)
qed (simp add: fallback_acquire_def acquire_def)

text \<open>
  A confidence that reads as \<open>NaN\<close> passes every floor: the comparison the filter rejects by is
  false of it.
\<close>

lemma nan_confidence_passes:
  "to_float ''nan'' = NaN \<Longrightarrow>
    apply_admission_filter to_float (Some 1) False
      [r\<lparr>pv_metadata := [(''confidence'', ''nan'')]\<rparr>] = [r\<lparr>pv_metadata := [(''confidence'', ''nan'')]\<rparr>]"
  by (simp add: apply_admission_filter_def record_admitted_def below_floor_def)

end
