(* ===== verification/AuditChain.thy ===== *)
theory AuditChain
  imports Prelude
begin

text \<open>
  The hash-chained audit log of \<^verbatim>\<open>security/audit.py\<close>. The file is the list of its lines; \<open>digest\<close>
  is the SHA-256 of the previous hash and the canonical JSON of a record without its hash. A write
  either appends its whole line or truncates back, so it is one step; the read-modify-write lock
  makes each operation one step. The head cache is modelled with the file identity it is keyed on.
\<close>

section \<open>Lines and records\<close>

record 'd audit_record =
  ar_ts :: int
  ar_op :: string
  ar_id :: string
  ar_actor :: string
  ar_namespace :: string
  ar_data :: 'd
  ar_prev_hash :: string
  ar_hash :: string

definition genesis_hash :: string where "genesis_hash = replicate 64 (CHR ''0'')"

text \<open>
  A line is blank, no JSON, JSON that is no object, an object \<open>AuditRecord\<close> refuses (with what its
  \<open>hash\<close> and \<open>ts\<close> keys hold), or a record; a record without a \<open>ts\<close> is read with the current time.
\<close>

datatype 'd log_line =
  Blank
| NotJson
| NotAnObject
| Refused "string option" "int option"
| Parsed "int option" "'d audit_record"

datatype audit_error = NoOperation | SymlinkPath | CorruptLine nat | MissingHash

fun validated :: "int \<Rightarrow> nat \<times> 'd log_line \<Rightarrow> (audit_error, 'd audit_record) result" where
  "validated now (n, Parsed ts r) = Inr (r\<lparr>ar_ts := case ts of Some t \<Rightarrow> t | None \<Rightarrow> now\<rparr>)"
| "validated now (n, l) = Inl (CorruptLine n)"

text \<open>
  \<open>_iter_record_dicts\<close> is a generator: it yields the records before the first bad line and then
  raises; \<open>walk_lines\<close> consumes it with a function that may raise first.
\<close>

fun walk_lines ::
  "(nat \<times> 'd log_line \<Rightarrow> (audit_error, 'b) result) \<Rightarrow> nat \<Rightarrow> 'd log_line list \<Rightarrow> (audit_error, 'b list) result" where
  "walk_lines f n [] = Inr []"
| "walk_lines f n (Blank # ls) = walk_lines f (Suc n) ls"
| "walk_lines f n (NotJson # ls) = Inl (CorruptLine n)"
| "walk_lines f n (NotAnObject # ls) = Inl (CorruptLine n)"
| "walk_lines f n (l # ls) = bindE (f (n, l)) (\<lambda>x. bindE (walk_lines f (Suc n) ls) (\<lambda>xs. Inr (x # xs)))"

definition read_records :: "int \<Rightarrow> 'd log_line list \<Rightarrow> (audit_error, 'd audit_record list) result" where
  "read_records now ls = walk_lines (validated now) 1 ls"

fun hash_field :: "nat \<times> 'd log_line \<Rightarrow> (audit_error, string) result" where
  "hash_field (n, Parsed ts r) = (if ar_hash r = [] then Inl MissingHash else Inr (ar_hash r))"
| "hash_field (n, Refused (Some h) ts) = (if h = [] then Inl MissingHash else Inr h)"
| "hash_field (n, l) = Inl MissingHash"

definition read_last_hash :: "'d log_line list \<Rightarrow> (audit_error, string) result" where
  "read_last_hash ls =
     bindE (walk_lines hash_field 1 ls) (\<lambda>hs. Inr (if hs = [] then genesis_hash else last hs))"

text \<open>The timestamp of the first record, read without validating it.\<close>

fun read_oldest_ts :: "nat \<Rightarrow> 'd log_line list \<Rightarrow> (audit_error, int option) result" where
  "read_oldest_ts n [] = Inr None"
| "read_oldest_ts n (Blank # ls) = read_oldest_ts (Suc n) ls"
| "read_oldest_ts n (NotJson # ls) = Inl (CorruptLine n)"
| "read_oldest_ts n (NotAnObject # ls) = Inl (CorruptLine n)"
| "read_oldest_ts n (Refused h ts # ls) = Inr ts"
| "read_oldest_ts n (Parsed ts r # ls) = Inr ts"

definition count_records :: "'d log_line list \<Rightarrow> (audit_error, nat) result" where
  "count_records ls = bindE (walk_lines (\<lambda>_. Inr ()) 1 ls) (\<lambda>us. Inr (length us))"

section \<open>The log\<close>

record 'd audit_log =
  al_file :: "(nat \<times> 'd log_line list) option"   \<comment> \<open>the identity of the file, and its lines\<close>
  al_symlink :: bool
  al_cache :: "(nat \<times> string) option"
  al_manifest :: "(string \<times> nat) list"
  al_manifest_symlink :: bool

definition log_lines :: "'d audit_log \<Rightarrow> 'd log_line list" where
  "log_lines st = (case al_file st of None \<Rightarrow> [] | Some (_, ls) \<Rightarrow> ls)"

definition remember_head :: "string \<Rightarrow> 'd audit_log \<Rightarrow> 'd audit_log" where
  "remember_head h st = st\<lparr>al_cache := map_option (\<lambda>(i, _). (i, h)) (al_file st)\<rparr>"

definition chain_head :: "'d audit_log \<Rightarrow> (audit_error, string \<times> 'd audit_log) result" where
  "chain_head st =
     (case (al_file st, al_cache st) of
        (Some (i, _), Some (j, h)) \<Rightarrow>
          if i = j then Inr (h, st)
          else bindE (read_last_hash (log_lines st)) (\<lambda>head. Inr (head, remember_head head st))
      | _ \<Rightarrow> bindE (read_last_hash (log_lines st)) (\<lambda>head. Inr (head, remember_head head st)))"

definition compute_hash :: "(string \<Rightarrow> 'd audit_record \<Rightarrow> string) \<Rightarrow> string \<Rightarrow> 'd audit_record \<Rightarrow> string" where
  "compute_hash digest prev r = digest prev (r\<lparr>ar_hash := []\<rparr>)"

definition chained_to :: "(string \<Rightarrow> 'd audit_record \<Rightarrow> string) \<Rightarrow> string \<Rightarrow> 'd audit_record \<Rightarrow> 'd audit_record" where
  "chained_to digest prev r =
     (let linked = r\<lparr>ar_prev_hash := prev\<rparr> in linked\<lparr>ar_hash := compute_hash digest prev linked\<rparr>)"

definition append_record ::
  "(string \<Rightarrow> 'd audit_record \<Rightarrow> string) \<Rightarrow> int \<Rightarrow> nat \<Rightarrow> string \<Rightarrow> string \<Rightarrow> string \<Rightarrow> string \<Rightarrow> string
     \<Rightarrow> string \<Rightarrow> 'd \<Rightarrow> 'd audit_log \<Rightarrow> (audit_error, 'd audit_log \<times> 'd audit_record) result" where
  "append_record digest now stamp op action entry_id target_id actor ns data st =
     (let effective_op = (if op \<noteq> [] then op else action);
          effective_id = (if entry_id \<noteq> [] then entry_id else target_id)
      in if effective_op = [] then Inl NoOperation
         else if al_symlink st then Inl SymlinkPath
         else bindE (chain_head st) (\<lambda>(prev, st1).
           (let r = chained_to digest prev
                  \<lparr>ar_ts = now, ar_op = effective_op, ar_id = effective_id, ar_actor = actor, ar_namespace = ns,
                   ar_data = data, ar_prev_hash = prev, ar_hash = []\<rparr>;
                st2 = st1\<lparr>al_file := Some (stamp, log_lines st1 @ [Parsed (Some now) r])\<rparr>
            in Inr (remember_head (ar_hash r) st2, r))))"

record verdict =
  vd_valid :: bool
  vd_checked :: nat
  vd_broken :: "(nat \<times> string) option"

fun verify_loop ::
  "(string \<Rightarrow> 'd audit_record \<Rightarrow> string) \<Rightarrow> nat \<Rightarrow> string \<Rightarrow> 'd audit_record list \<Rightarrow> (nat \<times> string) option" where
  "verify_loop digest n expected [] = None"
| "verify_loop digest n expected (r # rs) =
     (if ar_prev_hash r \<noteq> expected then Some (n, ar_prev_hash r)
      else if ar_hash r \<noteq> compute_hash digest (ar_prev_hash r) r then Some (n, ar_hash r)
      else verify_loop digest (Suc n) (ar_hash r) rs)"

definition verify_chain ::
  "(string \<Rightarrow> 'd audit_record \<Rightarrow> string) \<Rightarrow> int \<Rightarrow> 'd audit_log \<Rightarrow> (audit_error, verdict) result" where
  "verify_chain digest now st =
     bindE (read_records now (log_lines st)) (\<lambda>rs.
       (let broken = verify_loop digest 1 genesis_hash rs
        in Inr \<lparr>vd_valid = (broken = None), vd_checked = length rs, vd_broken = broken\<rparr>))"

fun rechain :: "(string \<Rightarrow> 'd audit_record \<Rightarrow> string) \<Rightarrow> string \<Rightarrow> 'd audit_record list \<Rightarrow> 'd audit_record list" where
  "rechain digest prev [] = []"
| "rechain digest prev (r # rs) =
     (let r' = chained_to digest prev r in r' # rechain digest (ar_hash r') rs)"

definition written :: "'d audit_record list \<Rightarrow> 'd log_line list" where
  "written rs = map (\<lambda>r. Parsed (Some (ar_ts r)) r) rs"

definition write_compact_manifest ::
  "'d audit_record list \<Rightarrow> 'd audit_log \<Rightarrow> (audit_error, 'd audit_log) result" where
  "write_compact_manifest rs st =
     (if rs = [] then Inr st
      else if al_manifest_symlink st then Inl SymlinkPath
      else Inr (st\<lparr>al_manifest := al_manifest st @ [(ar_hash (last rs), length rs)]\<rparr>))"

definition compact ::
  "(string \<Rightarrow> 'd audit_record \<Rightarrow> string) \<Rightarrow> int \<Rightarrow> nat \<Rightarrow> int \<Rightarrow> 'd audit_log
     \<Rightarrow> (audit_error, 'd audit_log \<times> nat) result" where
  "compact digest now stamp cutoff st =
     (if al_symlink st then Inl SymlinkPath
      else bindE (read_oldest_ts 1 (log_lines st)) (\<lambda>oldest.
        if (case oldest of Some t \<Rightarrow> cutoff \<le> t | None \<Rightarrow> False)
        then bindE (count_records (log_lines st)) (\<lambda>n. Inr (st, n))
        else bindE (read_records now (log_lines st)) (\<lambda>all.
               bindE (write_compact_manifest all st) (\<lambda>st1.
                 (let kept = filter (\<lambda>r. cutoff \<le> ar_ts r) all
                  in if kept = [] then Inr (st1\<lparr>al_file := None\<rparr>, 0)
                     else Inr (st1\<lparr>al_file := Some (stamp, written (rechain digest genesis_hash kept))\<rparr>, length kept))))))"

section \<open>Chains\<close>

fun linked :: "(string \<Rightarrow> 'd audit_record \<Rightarrow> string) \<Rightarrow> string \<Rightarrow> 'd audit_record list \<Rightarrow> bool" where
  "linked digest prev [] = True"
| "linked digest prev (r # rs) \<longleftrightarrow>
     ar_prev_hash r = prev \<and> ar_hash r = compute_hash digest prev r \<and> linked digest (ar_hash r) rs"

definition head_of :: "string \<Rightarrow> 'd audit_record list \<Rightarrow> string" where
  "head_of prev rs = (if rs = [] then prev else ar_hash (last rs))"

lemma head_of_simps [simp]:
  "head_of prev [] = prev" "head_of prev (r # rs) = head_of (ar_hash r) rs" "head_of prev (rs @ [r]) = ar_hash r"
  by (simp_all add: head_of_def)

lemma verify_loop_None_iff: "verify_loop digest n prev rs = None \<longleftrightarrow> linked digest prev rs"
  by (induction rs arbitrary: n prev) auto

lemma linked_append: "linked digest prev (rs @ qs) \<longleftrightarrow> linked digest prev rs \<and> linked digest (head_of prev rs) qs"
  by (induction rs arbitrary: prev) auto

lemma chained_simps [simp]:
  "ar_prev_hash (chained_to digest prev r) = prev" "ar_ts (chained_to digest prev r) = ar_ts r"
  "compute_hash digest prev (chained_to digest prev r) = ar_hash (chained_to digest prev r)"
  "ar_hash (chained_to digest prev r) = digest prev (r\<lparr>ar_prev_hash := prev, ar_hash := []\<rparr>)"
  by (simp_all add: chained_to_def compute_hash_def Let_def)

lemma linked_rechain: "linked digest prev (rechain digest prev rs)"
  by (induction rs arbitrary: prev) (simp_all add: Let_def)

lemma rechain_simps [simp]:
  "length (rechain digest prev rs) = length rs" "rechain digest prev rs = [] \<longleftrightarrow> rs = []"
  by (induction rs arbitrary: prev) (simp_all add: Let_def)

lemma walk_append:
  "walk_lines f n (ls @ ms) =
    bindE (walk_lines f n ls) (\<lambda>xs. bindE (walk_lines f (n + length ls) ms) (\<lambda>ys. Inr (xs @ ys)))"
proof (induction ls arbitrary: n)
  case Nil
  show ?case by (cases "walk_lines f n ms") simp_all
next
  case (Cons l ls)
  let ?w = "walk_lines f (Suc n) ls" and ?v = "walk_lines f (Suc (n + length ls)) ms"
  show ?case
  proof (cases l)
    case (Refused h ts)
    with Cons [of "Suc n"] show ?thesis by (cases "f (n, l)"; cases ?w; cases ?v) simp_all
  next
    case (Parsed ts r)
    with Cons [of "Suc n"] show ?thesis by (cases "f (n, l)"; cases ?w; cases ?v) simp_all
  qed (use Cons [of "Suc n"] in simp_all)
qed

lemma walk_written: "walk_lines (validated now) n (written rs) = Inr rs"
  by (induction rs arbitrary: n) (simp_all add: written_def)

lemma read_written_records: "read_records now (written rs) = Inr rs"
  by (simp add: read_records_def walk_written)

lemma walk_hashes:
  "walk_lines (validated now) n ls = Inr rs \<Longrightarrow> \<forall>r \<in> set rs. ar_hash r \<noteq> [] \<Longrightarrow>
    walk_lines hash_field n ls = Inr (map ar_hash rs)"
proof (induction ls arbitrary: n rs)
  case (Cons l ls)
  from Cons.prems(1) show ?case
  proof (cases l)
    case (Parsed ts r)
    with Cons.prems(1) obtain qs where qs: "walk_lines (validated now) (Suc n) ls = Inr qs"
      "rs = r\<lparr>ar_ts := case ts of Some t \<Rightarrow> t | None \<Rightarrow> now\<rparr> # qs"
      by (auto simp: bindE_Inr)
    with Cons.IH [OF qs(1)] Cons.prems(2) Parsed show ?thesis by simp
  qed (use Cons in auto)
qed simp

section \<open>Logs the code writes\<close>

definition fresh_stamp :: "nat \<Rightarrow> 'd audit_log \<Rightarrow> bool" where
  "fresh_stamp stamp st \<longleftrightarrow>
     map_option fst (al_file st) \<noteq> Some stamp \<and> map_option fst (al_cache st) \<noteq> Some stamp"

inductive log_reach :: "(string \<Rightarrow> 'd audit_record \<Rightarrow> string) \<Rightarrow> 'd audit_log \<Rightarrow> bool" for digest where
  new: "log_reach digest
    \<lparr>al_file = None, al_symlink = False, al_cache = None, al_manifest = [], al_manifest_symlink = False\<rparr>"
| append: "log_reach digest st \<Longrightarrow> fresh_stamp stamp st \<Longrightarrow>
    append_record digest now stamp op action i j actor ns data st = Inr (st', r) \<Longrightarrow> log_reach digest st'"
| compact: "log_reach digest st \<Longrightarrow> fresh_stamp stamp st \<Longrightarrow>
    compact digest now stamp cutoff st = Inr (st', n) \<Longrightarrow> log_reach digest st'"

definition log_ok :: "(string \<Rightarrow> 'd audit_record \<Rightarrow> string) \<Rightarrow> 'd audit_log \<Rightarrow> 'd audit_record list \<Rightarrow> bool" where
  "log_ok digest st rs \<longleftrightarrow> log_lines st = written rs \<and> linked digest genesis_hash rs
     \<and> (\<forall>r \<in> set rs. ar_hash r \<noteq> [])
     \<and> (\<forall>i ls h. al_file st = Some (i, ls) \<and> al_cache st = Some (i, h) \<longrightarrow> h = head_of genesis_hash rs)"

lemma last_hash_written:
  "\<forall>r \<in> set rs. ar_hash r \<noteq> [] \<Longrightarrow> read_last_hash (written rs) = Inr (head_of genesis_hash rs)"
  by (simp add: read_last_hash_def head_of_def last_map walk_hashes [OF walk_written])

lemma chain_head_ok:
  "log_ok digest st rs \<Longrightarrow> \<exists>st'. chain_head st = Inr (head_of genesis_hash rs, st') \<and> log_lines st' = log_lines st"
proof -
  assume ok: "log_ok digest st rs"
  then have "read_last_hash (log_lines st) = Inr (head_of genesis_hash rs)"
    by (simp add: log_ok_def last_hash_written)
  moreover have "log_lines (remember_head h st) = log_lines st" for h
    by (simp add: remember_head_def log_lines_def)
  ultimately show ?thesis
    using ok by (auto simp: chain_head_def log_ok_def split: option.split)
qed

lemma append_ok:
  assumes ok: "log_ok digest st rs" and nonempty: "\<forall>p r. digest p r \<noteq> []"
    and app: "append_record digest now stamp op action i j actor ns data st = Inr (st', r)"
  shows "log_ok digest st' (rs @ [r])"
proof -
  from chain_head_ok [OF ok] obtain st1 where head: "chain_head st = Inr (head_of genesis_hash rs, st1)"
    "log_lines st1 = log_lines st" by blast
  from app head(1) obtain r0 where r: "r = chained_to digest (head_of genesis_hash rs) r0" "ar_ts r0 = now"
      and st': "st' = remember_head (ar_hash r) (st1\<lparr>al_file := Some (stamp, log_lines st1 @ [Parsed (Some now) r])\<rparr>)"
    by (auto simp: append_record_def Let_def split: if_splits)
  have ls: "log_lines st' = written (rs @ [r])"
    using ok r st' head(2) by (simp add: log_ok_def log_lines_def remember_head_def written_def)
  have link: "linked digest genesis_hash (rs @ [r])"
    using ok r by (simp add: log_ok_def linked_append)
  have "ar_hash r \<noteq> []" using nonempty r by simp
  with ok ls link st' show ?thesis by (auto simp: log_ok_def remember_head_def)
qed

lemma oldest_written: "read_oldest_ts n (written rs) = Inr (if rs = [] then None else Some (ar_ts (hd rs)))"
  by (cases rs) (simp_all add: written_def)

lemma count_written: "count_records (written rs) = Inr (length rs)"
proof -
  have "walk_lines (\<lambda>_. Inr ()) n (written rs) = Inr (map (\<lambda>_. ()) rs)" for n
    by (induction rs arbitrary: n) (simp_all add: written_def)
  then show ?thesis by (simp add: count_records_def)
qed

lemma rechain_nonempty: "\<forall>p r. digest p r \<noteq> [] \<Longrightarrow> r \<in> set (rechain digest prev rs) \<Longrightarrow> ar_hash r \<noteq> []"
  by (induction rs arbitrary: prev) (auto simp: Let_def)

definition kept_records :: "(string \<Rightarrow> 'd audit_record \<Rightarrow> string) \<Rightarrow> int \<Rightarrow> 'd audit_record list \<Rightarrow> 'd audit_record list" where
  "kept_records digest cutoff rs =
     (if rs \<noteq> [] \<and> cutoff \<le> ar_ts (hd rs) then rs
      else rechain digest genesis_hash (filter (\<lambda>r. cutoff \<le> ar_ts r) rs))"

lemma compact_ok:
  assumes ok: "log_ok digest st rs" and nonempty: "\<forall>p r. digest p r \<noteq> []" and stamp: "fresh_stamp stamp st"
    and com: "compact digest now stamp cutoff st = Inr (st', n)"
  shows "log_ok digest st' (kept_records digest cutoff rs)" "n = length (kept_records digest cutoff rs)"
proof -
  let ?kept = "filter (\<lambda>r. cutoff \<le> ar_ts r) rs"
  have ls: "log_lines st = written rs" using ok by (simp add: log_ok_def)
  have "log_ok digest st' (kept_records digest cutoff rs) \<and> n = length (kept_records digest cutoff rs)"
  proof (cases "rs \<noteq> [] \<and> cutoff \<le> ar_ts (hd rs)")
    case True
    with com ok show ?thesis by (simp add: compact_def ls oldest_written count_written kept_records_def split: if_splits)
  next
    case False
    then have "bindE (write_compact_manifest rs st) (\<lambda>st1.
         if ?kept = [] then Inr (st1\<lparr>al_file := None\<rparr>, 0)
         else Inr (st1\<lparr>al_file := Some (stamp, written (rechain digest genesis_hash ?kept))\<rparr>, length ?kept)) = Inr (st', n)"
      using com by (auto simp: compact_def ls oldest_written read_written_records Let_def split: if_splits)
    then obtain st1 where st1: "write_compact_manifest rs st = Inr st1"
      and st': "if ?kept = [] then st' = st1\<lparr>al_file := None\<rparr> \<and> n = 0
        else st' = st1\<lparr>al_file := Some (stamp, written (rechain digest genesis_hash ?kept))\<rparr> \<and> n = length ?kept"
      by (auto simp: bindE_Inr split: if_splits)
    have cache: "al_cache st1 = al_cache st"
      using st1 by (auto simp: write_compact_manifest_def split: if_splits)
    have "kept_records digest cutoff rs = rechain digest genesis_hash ?kept"
      using False unfolding kept_records_def by auto
    with st' cache stamp nonempty show ?thesis
      by (cases "?kept = []")
        (auto simp: log_ok_def log_lines_def linked_rechain fresh_stamp_def written_def dest: rechain_nonempty)
  qed
  then show "log_ok digest st' (kept_records digest cutoff rs)" "n = length (kept_records digest cutoff rs)" by auto
qed

lemma reach_ok: "log_reach digest st \<Longrightarrow> \<forall>p r. digest p r \<noteq> [] \<Longrightarrow> \<exists>rs. log_ok digest st rs"
proof (induction rule: log_reach.induct)
  case new
  have "log_ok digest \<lparr>al_file = None, al_symlink = False, al_cache = None, al_manifest = [],
      al_manifest_symlink = False\<rparr> []" by (simp add: log_ok_def log_lines_def written_def)
  then show ?case by blast
qed (blast dest: append_ok compact_ok(1))+

lemma verify_ok:
  "log_ok digest st rs \<Longrightarrow>
    verify_chain digest now st = Inr \<lparr>vd_valid = True, vd_checked = length rs, vd_broken = None\<rparr>"
  by (simp add: verify_chain_def log_ok_def read_written_records Let_def verify_loop_None_iff)

section \<open>Properties\<close>

text \<open>What a record says, apart from its links.\<close>

definition audit_body :: "'d audit_record \<Rightarrow> 'd audit_record" where
  "audit_body r = r\<lparr>ar_prev_hash := [], ar_hash := []\<rparr>"

lemma body_rechain: "map audit_body (rechain digest prev rs) = map audit_body rs"
  by (induction rs arbitrary: prev) (simp_all add: Let_def audit_body_def chained_to_def)

lemma body_kept:
  "map audit_body (kept_records digest cutoff rs)
    = map audit_body (if rs \<noteq> [] \<and> cutoff \<le> ar_ts (hd rs) then rs else filter (\<lambda>r. cutoff \<le> ar_ts r) rs)"
  by (simp add: kept_records_def body_rechain)


lemma hashes_of_records:
  "walk_lines (validated now) n ls = Inr rs \<Longrightarrow> walk_lines hash_field n ls = Inr hs \<Longrightarrow> hs = map ar_hash rs"
proof (induction ls arbitrary: n rs hs)
  case (Cons l ls)
  then show ?case by (cases l) (auto simp: bindE_Inr split: if_splits)
qed simp

lemma same_record: "r\<lparr>ar_hash := []\<rparr> = q\<lparr>ar_hash := []\<rparr> \<Longrightarrow> ar_hash r = ar_hash q \<Longrightarrow> r = q"
proof -
  assume "r\<lparr>ar_hash := []\<rparr> = q\<lparr>ar_hash := []\<rparr>" "ar_hash r = ar_hash q"
  then have "r\<lparr>ar_hash := []\<rparr>\<lparr>ar_hash := ar_hash r\<rparr> = q\<lparr>ar_hash := []\<rparr>\<lparr>ar_hash := ar_hash q\<rparr>" by presburger
  then show ?thesis by simp
qed

lemma linked_by_head:
  assumes "linked digest genesis_hash rs" "linked digest genesis_hash qs"
    and "head_of genesis_hash rs = head_of genesis_hash qs"
    and "\<forall>x \<in> set (rs @ qs). \<forall>y \<in> set (rs @ qs).
      compute_hash digest (ar_prev_hash x) x = compute_hash digest (ar_prev_hash y) y \<longrightarrow>
      x\<lparr>ar_hash := []\<rparr> = y\<lparr>ar_hash := []\<rparr>"
    and "\<forall>x \<in> set (rs @ qs). ar_hash x \<noteq> genesis_hash"
  shows "rs = qs"
  using assms
proof (induction rs arbitrary: qs rule: rev_induct)
  case Nil
  then show ?case by (cases qs rule: rev_cases) auto
next
  case (snoc r rs)
  then obtain q qs' where qs: "qs = qs' @ [q]" by (cases qs rule: rev_cases) auto
  from snoc.prems(3) qs have h: "ar_hash r = ar_hash q" by simp
  from snoc.prems(1,2) qs have l: "linked digest genesis_hash rs" "linked digest genesis_hash qs'"
      "ar_prev_hash r = head_of genesis_hash rs" "ar_prev_hash q = head_of genesis_hash qs'"
      "ar_hash r = compute_hash digest (ar_prev_hash r) r" "ar_hash q = compute_hash digest (ar_prev_hash q) q"
    by (auto simp: linked_append)
  have "r \<in> set ((rs @ [r]) @ qs)" "q \<in> set ((rs @ [r]) @ qs)" using qs by simp_all
  with snoc.prems(4) l(5,6) h have "r\<lparr>ar_hash := []\<rparr> = q\<lparr>ar_hash := []\<rparr>" by metis
  then have "r = q" using h by (rule same_record)
  with l have "head_of genesis_hash rs = head_of genesis_hash qs'" by simp
  moreover have "set (rs @ qs') \<subseteq> set ((rs @ [r]) @ qs)" using qs by auto
  ultimately have "rs = qs'" using snoc.IH [OF l(1,2)] snoc.prems(4,5) by blast
  with \<open>r = q\<close> qs show ?case by simp
qed

text \<open>
  C19: The head of a chain pins its history. Two logs that both verify and whose last hash is the same
  hold the same records, whoever wrote them, unless two different records collide under the digest or
  a digest is the genesis hash. So a log cannot be edited, reordered or shortened under a known head.
\<close>

theorem head_pins_history:
  assumes "read_records t (log_lines a) = Inr rs" "read_records t (log_lines b) = Inr qs"
    and "verify_chain digest t a = Inr va" "vd_valid va" "verify_chain digest t b = Inr vb" "vd_valid vb"
    and "read_last_hash (log_lines a) = Inr h" "read_last_hash (log_lines b) = Inr h"
    and "\<forall>x \<in> set (rs @ qs). \<forall>y \<in> set (rs @ qs).
      compute_hash digest (ar_prev_hash x) x = compute_hash digest (ar_prev_hash y) y \<longrightarrow>
      x\<lparr>ar_hash := []\<rparr> = y\<lparr>ar_hash := []\<rparr>"
    and "\<forall>x \<in> set (rs @ qs). ar_hash x \<noteq> genesis_hash"
  shows "rs = qs"
proof -
  have linked: "linked digest genesis_hash xs"
    if "read_records t (log_lines c) = Inr xs" "verify_chain digest t c = Inr v" "vd_valid v" for c xs v
    using that by (auto simp: verify_chain_def Let_def verify_loop_None_iff)
  have head: "h = head_of genesis_hash xs"
    if "read_records t (log_lines c) = Inr xs" "read_last_hash (log_lines c) = Inr h" for c xs
  proof -
    from that(2) obtain hs where hs: "walk_lines hash_field 1 (log_lines c) = Inr hs"
        "h = (if hs = [] then genesis_hash else last hs)" by (auto simp: read_last_hash_def bindE_Inr)
    with hashes_of_records [OF that(1) [unfolded read_records_def] hs(1)] show ?thesis
      by (simp add: head_of_def last_map)
  qed
  from linked_by_head [OF linked [OF assms(1,3,4)] linked [OF assms(2,5,6)] _ assms(9,10)]
    head [OF assms(1,7)] head [OF assms(2,8)] show ?thesis by simp
qed

section \<open>Concrete logs\<close>

definition sample_digest :: "string \<Rightarrow> bool audit_record \<Rightarrow> string" where
  "sample_digest prev r = (if ar_data r then CHR ''T'' else CHR ''F'') # prev"

definition event :: "int \<Rightarrow> bool \<Rightarrow> bool audit_record" where
  "event ts d = \<lparr>ar_ts = ts, ar_op = ''store'', ar_id = ''M-1'', ar_actor = ''agent'', ar_namespace = ''default'',
     ar_data = d, ar_prev_hash = [], ar_hash = []\<rparr>"

definition log_of :: "nat \<Rightarrow> bool audit_record list \<Rightarrow> bool audit_log" where
  "log_of i rs = \<lparr>al_file = Some (i, written rs), al_symlink = False, al_cache = None, al_manifest = [],
     al_manifest_symlink = False\<rparr>"

definition three_events :: "bool audit_record list" where
  "three_events = rechain sample_digest genesis_hash [event 1 True, event 2 True, event 3 True]"

lemma genesis_sample: "sample_digest p r \<noteq> []" "x # y # genesis_hash \<noteq> genesis_hash" "x # genesis_hash \<noteq> genesis_hash"
  by (simp_all add: sample_digest_def)


lemma verify_log_of:
  "verify_chain digest t (log_of i rs) = Inr \<lparr>vd_valid = (verify_loop digest 1 genesis_hash rs = None),
     vd_checked = length rs, vd_broken = verify_loop digest 1 genesis_hash rs\<rparr>"
  by (simp add: verify_chain_def log_of_def log_lines_def read_written_records Let_def)

theorem head_pins_history_witness:
  "verify_chain sample_digest 9 (log_of 1 three_events) = Inr \<lparr>vd_valid = True, vd_checked = 3, vd_broken = None\<rparr>
   \<and> {rs. read_records 9 (log_lines (log_of 1 three_events)) = Inr rs} = {three_events}"
proof -
  have v: "verify_chain sample_digest 9 (log_of i three_events)
      = Inr \<lparr>vd_valid = True, vd_checked = 3, vd_broken = None\<rparr>" for i
    by (simp add: verify_log_of three_events_def verify_loop_None_iff linked_rechain)
  have r: "read_records 9 (log_lines (log_of i three_events)) = Inr three_events" for i
    by (simp add: log_of_def log_lines_def read_written_records)
  have "\<forall>x \<in> set three_events. ar_hash x \<noteq> []"
    using rechain_nonempty [of sample_digest] genesis_sample(1) by (auto simp: three_events_def)
  then have h: "read_last_hash (log_lines (log_of i three_events)) = Inr (head_of genesis_hash three_events)" for i
    by (simp add: log_of_def log_lines_def last_hash_written)
  have "rs = three_events" if "read_records 9 (log_lines (log_of 1 three_events)) = Inr rs" for rs
    by (rule head_pins_history [OF that r [of 2] v [of 1] _ v [of 2] _ h [of 1] h [of 2]])
      (use that r [of 1] in \<open>simp_all add: three_events_def event_def Let_def chained_to_def compute_hash_def
        sample_digest_def genesis_hash_def\<close>)
  then show ?thesis using v r by auto
qed

text \<open>Cutting records off the end is not noticed: what is left verifies.\<close>

lemma truncation_unnoticed:
  "verify_chain digest t (log_of i (rs @ qs)) = Inr \<lparr>vd_valid = True, vd_checked = length rs + length qs, vd_broken = None\<rparr> \<Longrightarrow>
   verify_chain digest t (log_of i rs) = Inr \<lparr>vd_valid = True, vd_checked = length rs, vd_broken = None\<rparr>"
  by (auto simp: verify_log_of verify_loop_None_iff linked_append)

text \<open>
  Compaction launders an edit: a log whose second record was edited is reported broken, but after a
  compaction it is reported valid, with the same manifest as the untouched log.
\<close>

lemma compaction_launders_edit:
  "let edited = log_of 1 (three_events[1 := (three_events ! 1)\<lparr>ar_data := False\<rparr>])
   in verify_chain sample_digest 9 edited
        = Inr \<lparr>vd_valid = False, vd_checked = 3, vd_broken = Some (2, ar_hash (three_events ! 1))\<rparr>
      \<and> (case (compact sample_digest 9 2 2 edited, compact sample_digest 9 2 2 (log_of 1 three_events)) of
           (Inr (after, n), Inr (honest, m)) \<Rightarrow>
             verify_chain sample_digest 9 after = Inr \<lparr>vd_valid = True, vd_checked = 2, vd_broken = None\<rparr>
             \<and> al_manifest after = al_manifest honest \<and> n = m
         | _ \<Rightarrow> False)"
  by (simp add: three_events_def event_def Let_def chained_to_def compute_hash_def sample_digest_def log_of_def
      verify_chain_def compact_def log_lines_def written_def read_records_def write_compact_manifest_def)

end
