(* ===== verification/Tokens.thy ===== *)
theory Tokens
  imports Prelude
begin

text \<open>
  The cursor tokens of a sweep (\<open>encode_token\<close> and \<open>decode_token\<close> of \<^verbatim>\<open>_sweep.py\<close>), down to the
  JSON of a list of texts as the standard library writes and reads it. A text is the list of its code
  points. The reader is the part of \<open>json.loads\<close> that lists of texts need; on every other text it
  fails, as \<open>decode_token\<close> does after parsing one (Python raises \<open>RecursionError\<close> instead of
  \<open>ValueError\<close> on brackets nested deeper than its limit).
\<close>

type_synonym code_points = "nat list"

section \<open>Writing\<close>

definition hex_digit :: "nat \<Rightarrow> nat" where
  "hex_digit d = (if d < 10 then 48 + d else 87 + d)"

definition escape_char :: "nat \<Rightarrow> code_points" where
  "escape_char c =
     (if c = 34 then [92, 34] else if c = 92 then [92, 92] else if c = 10 then [92, 110]
      else if c = 13 then [92, 114] else if c = 9 then [92, 116] else if c = 12 then [92, 102]
      else if c = 8 then [92, 98]
      else if c < 32 then [92, 117, 48, 48, hex_digit (c div 16), hex_digit (c mod 16)]
      else [c])"

definition json_text :: "code_points \<Rightarrow> code_points" where
  "json_text s = 34 # concat (map escape_char s) @ [34]"

fun json_items :: "code_points list \<Rightarrow> code_points" where
  "json_items [] = []"
| "json_items [s] = json_text s"
| "json_items (s # ss) = json_text s @ 44 # json_items ss"

definition json_list :: "code_points list \<Rightarrow> code_points" where
  "json_list parts = 91 # json_items parts @ [93]"

definition max_token_parts :: nat where "max_token_parts = 3"

definition max_key_part_chars :: nat where "max_key_part_chars = 4096"

definition max_token_chars :: nat where
  "max_token_chars = 2 + max_token_parts * (6 * max_key_part_chars + 3)"

datatype token_error = KeyTooLong | TokenTooLong | MalformedToken

definition encode_token :: "code_points list \<Rightarrow> (token_error, code_points) result" where
  "encode_token parts =
     (if length parts > max_token_parts \<or> list_ex (\<lambda>p. length p > max_key_part_chars) parts then Inl KeyTooLong
      else Inr (json_list parts))"

section \<open>Reading\<close>

definition skip_space :: "code_points \<Rightarrow> code_points" where
  "skip_space s = dropWhile (\<lambda>c. c \<in> {32, 9, 10, 13}) s"

definition hex_value :: "nat \<Rightarrow> nat option" where
  "hex_value c =
     (if 48 \<le> c \<and> c \<le> 57 then Some (c - 48) else if 97 \<le> c \<and> c \<le> 102 then Some (c - 87)
      else if 65 \<le> c \<and> c \<le> 70 then Some (c - 55) else None)"

text \<open>Four hexadecimal digits, and what follows them.\<close>

fun hex4 :: "code_points \<Rightarrow> (nat \<times> code_points) option" where
  "hex4 (a # b # c # d # r) =
     (case (hex_value a, hex_value b, hex_value c, hex_value d) of
        (Some w, Some x, Some y, Some z) \<Rightarrow> Some (((w * 16 + x) * 16 + y) * 16 + z, r)
      | _ \<Rightarrow> None)"
| "hex4 _ = None"

text \<open>A \<open>\u\<close> escape: a high surrogate joins the escaped low surrogate behind it.\<close>

definition unicode_escape :: "code_points \<Rightarrow> (nat \<times> code_points) option" where
  "unicode_escape r =
     (case hex4 r of
        None \<Rightarrow> None
      | Some (u, r1) \<Rightarrow>
          if 0xD800 \<le> u \<and> u \<le> 0xDBFF \<and> take 2 r1 = [92, 117]
          then (case hex4 (drop 2 r1) of
                  None \<Rightarrow> None
                | Some (u2, r2) \<Rightarrow>
                    if 0xDC00 \<le> u2 \<and> u2 \<le> 0xDFFF
                    then Some (0x10000 + (u - 0xD800) * 1024 + (u2 - 0xDC00), r2) else Some (u, r1))
          else Some (u, r1))"

fun unescape :: "code_points \<Rightarrow> (nat \<times> code_points) option" where
  "unescape [] = None"
| "unescape (e # r) =
     (if e = 34 \<or> e = 92 \<or> e = 47 then Some (e, r) else if e = 98 then Some (8, r)
      else if e = 102 then Some (12, r) else if e = 110 then Some (10, r) else if e = 114 then Some (13, r)
      else if e = 116 then Some (9, r) else if e = 117 then unicode_escape r else None)"

lemma hex4_shorter: "hex4 r = Some (u, r') \<Longrightarrow> length r' < length r"
  by (cases r rule: hex4.cases) (auto split: option.splits)

lemma unescape_shorter: "unescape r = Some (c, r') \<Longrightarrow> length r' < length r"
  by (cases r) (auto simp: unicode_escape_def split: if_splits option.splits dest!: hex4_shorter)

function scan_text :: "code_points \<Rightarrow> (code_points \<times> code_points) option" where
  "scan_text s =
     (case s of
        [] \<Rightarrow> None
      | c # r \<Rightarrow>
          if c = 34 then Some ([], r)
          else if c = 92
               then (case unescape r of
                       None \<Rightarrow> None
                     | Some (u, r') \<Rightarrow> map_option (\<lambda>(chars, rest). (u # chars, rest)) (scan_text r'))
               else if c < 32 then None
               else map_option (\<lambda>(chars, rest). (c # chars, rest)) (scan_text r))"
  by pat_completeness simp
termination
  by (relation "measure length") (auto dest: unescape_shorter)

declare scan_text.simps [simp del]

lemma scan_text_Nil: "scan_text [] = None"
  by (simp add: scan_text.simps)

lemma scan_text_Cons:
  "scan_text (c # r) =
    (if c = 34 then Some ([], r)
     else if c = 92
          then (case unescape r of
                  None \<Rightarrow> None
                | Some (u, r') \<Rightarrow> map_option (\<lambda>(chars, rest). (u # chars, rest)) (scan_text r'))
          else if c < 32 then None else map_option (\<lambda>(chars, rest). (c # chars, rest)) (scan_text r))"
  by (simp add: scan_text.simps [of "c # r"])

lemma scan_text_shorter: "scan_text s = Some (chars, rest) \<Longrightarrow> length rest < length s"
proof (induction "length s" arbitrary: s chars rest rule: less_induct)
  case less
  obtain c r where s: "s = c # r" using less.prems by (cases s) (simp_all add: scan_text_Nil)
  show ?case
  proof (cases "c = 92")
    case True
    with less.prems s obtain u r' chars' where "unescape r = Some (u, r')" "scan_text r' = Some (chars', rest)"
      by (auto simp: scan_text_Cons split: option.splits)
    with less.hyps [of r'] s unescape_shorter [of r u r'] show ?thesis by simp
  next
    case False
    with less.prems s show ?thesis
      by (auto simp: scan_text_Cons split: if_splits dest!: less.hyps [rotated])
  qed
qed

text \<open>The items of an array behind its first bracket or a comma, up to its last bracket.\<close>

function scan_items :: "code_points \<Rightarrow> (code_points list \<times> code_points) option" where
  "scan_items s =
     (case skip_space s of
        [] \<Rightarrow> None
      | c # r \<Rightarrow>
          if c \<noteq> 34 then None
          else (case scan_text r of
                  None \<Rightarrow> None
                | Some (chars, rest) \<Rightarrow>
                    (case skip_space rest of
                       [] \<Rightarrow> None
                     | d # r' \<Rightarrow>
                         if d = 93 then Some ([chars], r')
                         else if d = 44 then map_option (\<lambda>(items, tail). (chars # items, tail)) (scan_items r')
                         else None)))"
  by pat_completeness simp
termination
proof (relation "measure length", goal_cases)
  case (2 s c r p chars rest d r')
  have "length (skip_space x) \<le> length x" for x by (simp add: skip_space_def length_dropWhile_le)
  from this [of s] this [of rest] 2 scan_text_shorter [of r chars rest] show ?case by simp
qed simp

declare scan_items.simps [simp del]

definition load_list :: "code_points \<Rightarrow> code_points list option" where
  "load_list s =
     (case skip_space s of
        [] \<Rightarrow> None
      | c # r \<Rightarrow>
          if c \<noteq> 91 then None
          else (case (if take 1 (skip_space r) = [93] then Some ([], drop 1 (skip_space r)) else scan_items r) of
                  None \<Rightarrow> None
                | Some (items, rest) \<Rightarrow> if skip_space rest = [] then Some items else None))"

definition decode_token :: "code_points \<Rightarrow> nat \<Rightarrow> (token_error, code_points list) result" where
  "decode_token token arity =
     (if length token > max_token_chars then Inl TokenTooLong
      else (case load_list token of
              None \<Rightarrow> Inl MalformedToken
            | Some parts \<Rightarrow> if length parts = arity then Inr parts else Inl MalformedToken))"

section \<open>What is written reads back\<close>

lemma hex_value_digit: "d < 16 \<Longrightarrow> hex_value (hex_digit d) = Some d"
  by (simp add: hex_value_def hex_digit_def)

lemma hex4_escape:
  "c < 32 \<Longrightarrow> hex4 (48 # 48 # hex_digit (c div 16) # hex_digit (c mod 16) # r) = Some (c, r)"
proof -
  assume "c < 32"
  have "hex_value 48 = Some 0" by (simp add: hex_value_def)
  moreover have "c div 16 < 16" "c mod 16 < 16" "c div 16 * 16 + c mod 16 = c" using \<open>c < 32\<close> by simp_all
  ultimately show ?thesis by (simp only: hex4.simps hex_value_digit option.case prod.case) simp
qed

lemma scan_escaped:
  "scan_text (escape_char c @ r) = map_option (\<lambda>(chars, rest). (c # chars, rest)) (scan_text r)"
proof (cases "c = 34 \<or> c = 92 \<or> c = 10 \<or> c = 13 \<or> c = 9 \<or> c = 12 \<or> c = 8")
  case True
  then show ?thesis by (elim disjE) (simp_all add: escape_char_def scan_text_Cons)
next
  case False
  show ?thesis
  proof (cases "c < 32")
    case True
    have "unicode_escape (48 # 48 # hex_digit (c div 16) # hex_digit (c mod 16) # r) = Some (c, r)"
      using True by (simp add: unicode_escape_def hex4_escape del: hex4.simps)
    with False True show ?thesis by (simp add: escape_char_def scan_text_Cons)
  qed (use False in \<open>simp add: escape_char_def scan_text_Cons\<close>)
qed

lemma scan_written: "scan_text (concat (map escape_char s) @ 34 # r) = Some (s, r)"
  by (induction s) (simp_all add: scan_text_Cons scan_escaped)

lemma scan_items_written: "ss \<noteq> [] \<Longrightarrow> scan_items (json_items ss @ 93 # r) = Some (ss, r)"
proof (induction ss rule: json_items.induct)
  case (2 s)
  show ?case by (subst scan_items.simps) (simp add: json_text_def skip_space_def scan_written)
next
  case (3 s t ss)
  then show ?case
    by (subst scan_items.simps) (simp add: json_text_def skip_space_def scan_written)
qed simp

lemma load_written: "load_list (json_list parts) = Some parts"
proof (cases parts)
  case Nil
  then show ?thesis by (simp add: load_list_def json_list_def skip_space_def)
next
  case (Cons s ss)
  then have first: "skip_space (json_items parts @ [93]) = json_items parts @ [93]"
      "take 1 (json_items parts @ [93]) \<noteq> [93]"
    by (cases ss; simp add: json_text_def skip_space_def)+
  have "skip_space (json_list parts) = json_list parts" "skip_space [] = []"
    by (simp_all add: json_list_def skip_space_def)
  with first scan_items_written [of parts "[]"] Cons show ?thesis
    by (simp add: load_list_def) (simp add: json_list_def)
qed

lemma length_escaped: "length (concat (map escape_char s)) \<le> 6 * length s"
  by (induction s) (auto simp: escape_char_def)

lemma length_items:
  "\<forall>s \<in> set ss. length s \<le> n \<Longrightarrow> length (json_items ss) \<le> length ss * (6 * n + 3)"
proof (induction ss rule: json_items.induct)
  case (2 s)
  with length_escaped [of s] show ?case by (simp add: json_text_def)
next
  case (3 s t ss)
  then have "length (json_items (t # ss)) \<le> length (t # ss) * (6 * n + 3)" "length s \<le> n" by auto
  with length_escaped [of s] show ?case by (simp add: json_text_def)
qed simp

text \<open>
  C20: A cursor survives its token. Every key within the limits is written as a token within the token
  limit, from which decoding at its arity, and at no other, gives back the same parts; a key beyond
  the limits is refused when it is written. So two keys never share a token.
\<close>

theorem token_roundtrip:
  "(case encode_token parts of
      Inr token \<Rightarrow> length token \<le> max_token_chars
        \<and> decode_token token arity = (if arity = length parts then Inr parts else Inl MalformedToken)
    | Inl e \<Rightarrow> e = KeyTooLong \<and> (max_token_parts < length parts \<or> list_ex (\<lambda>p. max_key_part_chars < length p) parts))"
proof (cases "length parts > max_token_parts \<or> list_ex (\<lambda>p. length p > max_key_part_chars) parts")
  case False
  then have "\<forall>s \<in> set parts. length s \<le> max_key_part_chars" by (auto simp: list_ex_iff)
  from length_items [OF this] have "length (json_items parts) \<le> max_token_parts * (6 * max_key_part_chars + 3)"
    using False by (meson le_trans mult_le_mono1 not_less)
  then have "length (json_list parts) \<le> max_token_chars" by (simp add: json_list_def max_token_chars_def)
  with False show ?thesis by (simp add: encode_token_def decode_token_def load_written)
qed (simp add: encode_token_def)

text \<open>Decoding also accepts a text no key is written as: white space between the parts.\<close>

lemma spaced_token_decodes:
  "decode_token [91, 32, 34, 97, 34, 32, 93] 1 = Inr [[97]]" "encode_token [[97]] = Inr [91, 34, 97, 34, 93]"
  by (simp_all add: decode_token_def max_token_chars_def max_token_parts_def max_key_part_chars_def load_list_def
      skip_space_def scan_items.simps scan_text_Cons encode_token_def json_list_def json_text_def escape_char_def)

end
