(* ===== verification/Graph.thy ===== *)
theory Graph
  imports DatabaseInv "HOL-Library.Product_Lexorder"
begin

text \<open>
  Traversal of the knowledge graph (\<^verbatim>\<open>_graph_traversal.py\<close>) and the tag relation it derives instead
  of storing (\<^verbatim>\<open>retrieval/tag_derivation.py\<close>), on the tables of \<^verbatim>\<open>Database\<close>. The row number of an
  edge is its place in the table. Tables have the current schema, whose edges carry a namespace.
\<close>

section \<open>The derived tag relation\<close>

record tag_config =
  tc_min_shared_tags :: nat
  tc_max_tag_postings :: nat
  tc_derive_top_k :: nat

record tag_neighbour =
  tn_entry_id :: string
  tn_shared :: nat
  tn_weight :: rat

definition tags_of :: "db \<Rightarrow> string \<Rightarrow> string \<Rightarrow> string list" where
  "tags_of d ns i = map (\<lambda>(_, t, _). t) (filter (\<lambda>(n, _, j). n = ns \<and> j = i) (memory_tags d))"

definition tag_postings :: "db \<Rightarrow> string \<Rightarrow> string \<Rightarrow> nat" where
  "tag_postings d ns t = length (filter (\<lambda>(n, u, _). n = ns \<and> u = t) (memory_tags d))"

definition derive_tag_neighbours :: "tag_config \<Rightarrow> string \<Rightarrow> string \<Rightarrow> db \<Rightarrow> tag_neighbour list" where
  "derive_tag_neighbours cfg start ns d =
     (let root_tags = filter (\<lambda>t. tag_postings d ns t \<le> tc_max_tag_postings cfg) (tags_of d ns start);
          shared = (\<lambda>i. length (filter (\<lambda>t. t \<in> set root_tags) (tags_of d ns i)));
          others = uniq (map (\<lambda>(_, _, i). i)
                     (filter (\<lambda>(n, t, i). n = ns \<and> t \<in> set root_tags \<and> i \<noteq> start) (memory_tags d)));
          found = take (tc_derive_top_k cfg)
                    (sort_key (\<lambda>i. (- int (shared i), i))
                       (filter (\<lambda>i. tc_min_shared_tags cfg \<le> shared i) others))
      in if length root_tags < tc_min_shared_tags cfg then []
         else map (\<lambda>i. (let union = int (length (tags_of d ns start)) + int (length (tags_of d ns i)) - int (shared i);
                             w = (if union > 0 then round_decimals 4 (of_nat (shared i) / of_int union) else 0)
                         in \<lparr>tn_entry_id = i, tn_shared = shared i, tn_weight = min w 1\<rparr>)) found)"

section \<open>What a traversal returns\<close>

record node =
  n_id :: string
  n_depth :: nat
  n_type :: string
  n_weight :: rat

definition derived_edge_type :: string where "derived_edge_type = ''tag_cooccurrence''"

definition max_traversal_depth :: int where "max_traversal_depth = 3"

definition max_traversal_roots :: nat where "max_traversal_roots = 1000"

definition edge_scan_budget_multiplier :: nat where "edge_scan_budget_multiplier = 50"

fun derive_from_roots ::
  "(string \<Rightarrow> tag_neighbour list) \<Rightarrow> string list \<Rightarrow> string list \<Rightarrow> node list" where
  "derive_from_roots neighbours seen [] = []"
| "derive_from_roots neighbours seen (r # rs) =
     (let new = filter (\<lambda>n. tn_entry_id n \<notin> set seen) (neighbours r)
      in map (\<lambda>n. \<lparr>n_id = tn_entry_id n, n_depth = 1, n_type = derived_edge_type, n_weight = tn_weight n\<rparr>) new
         @ derive_from_roots neighbours (seen @ map tn_entry_id new) rs)"

definition derive_tag_edges :: "tag_config \<Rightarrow> string list \<Rightarrow> string option \<Rightarrow> db \<Rightarrow> node list" where
  "derive_tag_edges cfg roots ns d =
     (case ns of
        None \<Rightarrow> []
      | Some n \<Rightarrow> derive_from_roots (\<lambda>r. derive_tag_neighbours cfg r n d) roots roots)"

section \<open>Pages of an adjacency\<close>

definition edge_rows :: "db \<Rightarrow> (nat \<times> graph_edge) list" where
  "edge_rows d = zip [1..<Suc (length (edges d))] (edges d)"

definition edge_scoped :: "string option \<Rightarrow> graph_edge \<Rightarrow> bool" where
  "edge_scoped ns g \<longleftrightarrow> (case ns of None \<Rightarrow> True | Some n \<Rightarrow> g_namespace g = n)"

definition edge_typed :: "string list option \<Rightarrow> graph_edge \<Rightarrow> bool" where
  "edge_typed types g \<longleftrightarrow> (case types of None \<Rightarrow> True | Some ts \<Rightarrow> ts = [] \<or> g_type g \<in> set ts)"

definition same_type_page ::
  "db \<Rightarrow> string option \<Rightarrow> string \<Rightarrow> string \<Rightarrow> nat \<Rightarrow> nat \<Rightarrow> (nat \<times> graph_edge) list" where
  "same_type_page d ns source t row limit =
     take limit (filter (\<lambda>(i, g). g_source g = source \<and> g_type g = t \<and> edge_scoped ns g \<and> row < i) (edge_rows d))"

definition later_types_page ::
  "db \<Rightarrow> string option \<Rightarrow> string list option \<Rightarrow> string \<Rightarrow> string \<Rightarrow> nat \<Rightarrow> (nat \<times> graph_edge) list" where
  "later_types_page d ns types source t limit =
     take limit (sort_key (\<lambda>(_, g). g_type g)
       (filter (\<lambda>(i, g). g_source g = source \<and> edge_typed types g \<and> edge_scoped ns g \<and> t < g_type g) (edge_rows d)))"

definition fetch_page ::
  "db \<Rightarrow> string option \<Rightarrow> string list option \<Rightarrow> string \<Rightarrow> string \<times> nat \<Rightarrow> nat \<Rightarrow> (nat \<times> graph_edge) list" where
  "fetch_page d ns types source cursor limit =
     (let a = (if fst cursor \<noteq> [] then same_type_page d ns source (fst cursor) (snd cursor) limit else [])
      in if length a < limit then a @ later_types_page d ns types source (fst cursor) (limit - length a) else a)"

definition valid_target :: "db \<Rightarrow> string option \<Rightarrow> bool \<Rightarrow> string \<Rightarrow> bool" where
  "valid_target d ns active_only i \<longleftrightarrow>
     (case ns of
        None \<Rightarrow> True
      | Some n \<Rightarrow> (case map_of (rows d) (n, i) of None \<Rightarrow> False | Some e \<Rightarrow> active_only \<longrightarrow> status e = Active))"

section \<open>The walk\<close>

record walk =
  w_visited :: "string list"
  w_results :: "node list"
  w_queue :: "(string \<times> nat) list"
  w_scanned :: nat

definition reached :: "nat option \<Rightarrow> walk \<Rightarrow> bool" where
  "reached cap w \<longleftrightarrow> (case cap of None \<Rightarrow> False | Some m \<Rightarrow> m \<le> length (w_results w))"

text \<open>The loop over a page; the flag says that the cap was reached, which ends the whole call.\<close>

fun visit_rows ::
  "(string \<Rightarrow> bool) \<Rightarrow> nat option \<Rightarrow> nat \<Rightarrow> (nat \<times> graph_edge) list \<Rightarrow> walk \<Rightarrow> walk \<times> bool" where
  "visit_rows valid cap depth [] w = (w, False)"
| "visit_rows valid cap depth ((_, g) # page) w =
     (if \<not> valid (g_target g) \<or> g_target g \<in> set (w_visited w) then visit_rows valid cap depth page w
      else (let w1 = w\<lparr>w_visited := w_visited w @ [g_target g],
              w_results := w_results w @ [\<lparr>n_id = g_target g, n_depth = Suc depth, n_type = g_type g, n_weight = g_weight g\<rparr>]\<rparr>
            in if reached cap w1 then (w1, True)
               else visit_rows valid cap depth page (w1\<lparr>w_queue := w_queue w1 @ [(g_target g, Suc depth)]\<rparr>)))"

lemma visit_rows_scanned [simp]: "w_scanned (fst (visit_rows valid cap depth page w)) = w_scanned w"
  by (induction valid cap depth page w rule: visit_rows.induct) (simp_all add: Let_def)

lemma length_fetch_page: "length (fetch_page d ns types source cursor limit) \<le> limit"
  by (auto simp: fetch_page_def same_type_page_def later_types_page_def Let_def)

text \<open>
  One node, page by page. A page is never longer than what is left of the scan budget, so the budget
  is never exceeded; whether its targets are valid is asked once for all of them in the code.
\<close>

function page_loop ::
  "db \<Rightarrow> string option \<Rightarrow> string list option \<Rightarrow> bool \<Rightarrow> nat option \<Rightarrow> nat \<Rightarrow> string \<Rightarrow> nat
     \<Rightarrow> string \<times> nat \<Rightarrow> walk \<Rightarrow> walk \<times> bool" where
  "page_loop d ns types active_only cap budget source depth cursor w =
     (if budget \<le> w_scanned w \<or> reached cap w then (w, False)
      else (let budget_left = budget - w_scanned w;
                page_limit = (case cap of
                    None \<Rightarrow> budget_left
                  | Some m \<Rightarrow> if ns \<noteq> None then budget_left else min (m - length (w_results w)) budget_left);
                page = fetch_page d ns types source cursor page_limit;
                (w2, stop) = visit_rows (valid_target d ns active_only) cap depth page
                               (w\<lparr>w_scanned := w_scanned w + length page\<rparr>)
            in if stop then (w2, True)
               else if length page < page_limit \<or> budget \<le> w_scanned w2 then (w2, False)
               else page_loop d ns types active_only cap budget source depth
                      (g_type (snd (last page)), fst (last page)) w2))"
  by pat_completeness simp
termination
proof (relation "measure (\<lambda>(d, ns, types, active_only, cap, budget, source, depth, cursor, w). budget - w_scanned w)", goal_cases)
  case (2 d ns types active_only cap budget source depth cursor w left bound page x w2 stop)
  then have "0 < bound" by (auto simp: reached_def split: option.splits)
  moreover have "w2 = fst (visit_rows (valid_target d ns active_only) cap depth page
      (w\<lparr>w_scanned := w_scanned w + length page\<rparr>))" using 2 by (metis fst_conv)
  then have "w_scanned w2 = w_scanned w + length page" by simp
  moreover have "bound \<le> length page" "w_scanned w2 < budget" using 2 by linarith+
  ultimately show ?case by simp
qed simp

declare page_loop.simps [simp del]

lemma visit_rows_queue:
  "length (w_queue (fst (visit_rows valid cap depth page w))) \<le> length (w_queue w) + length page"
  by (induction valid cap depth page w rule: visit_rows.induct) (auto simp: Let_def intro: le_SucI)

definition after_page :: "(string \<Rightarrow> bool) \<Rightarrow> nat option \<Rightarrow> nat \<Rightarrow> (nat \<times> graph_edge) list \<Rightarrow> walk \<Rightarrow> walk" where
  "after_page valid cap depth page w = fst (visit_rows valid cap depth page (w\<lparr>w_scanned := w_scanned w + length page\<rparr>))"

lemma after_page_counts:
  "w_scanned (after_page valid cap depth page w) = w_scanned w + length page"
  "length (w_queue (after_page valid cap depth page w)) \<le> length (w_queue w) + length page"
  using visit_rows_queue [of valid cap depth page "w\<lparr>w_scanned := w_scanned w + length page\<rparr>"]
  by (simp_all add: after_page_def)

text \<open>What every page keeps, the loop over the pages of a node keeps.\<close>

lemma page_loop_invariant:
  assumes "page_loop d ns types active_only cap budget source depth cursor w = (w', stop)" and "P cursor w"
    and "\<And>cursor w. P cursor w \<Longrightarrow> R w"
    and "\<And>cursor w bound page. P cursor w \<Longrightarrow> w_scanned w < budget \<Longrightarrow> page = fetch_page d ns types source cursor bound \<Longrightarrow>
      length page \<le> budget - w_scanned w \<Longrightarrow> R (after_page (valid_target d ns active_only) cap depth page w)
      \<and> (page \<noteq> [] \<longrightarrow> P (g_type (snd (last page)), fst (last page)) (after_page (valid_target d ns active_only) cap depth page w))"
  shows "R w'"
  using assms(1,2)
proof (induction "budget - w_scanned w" arbitrary: cursor w rule: less_induct)
  case less
  note loop = page_loop.simps [of d ns types active_only cap budget source depth cursor w]
  show ?case
  proof (cases "budget \<le> w_scanned w \<or> reached cap w")
    case True
    with less.prems assms(3) show ?thesis by (simp add: loop)
  next
    case False
    define bound where "bound = (case cap of None \<Rightarrow> budget - w_scanned w
      | Some m \<Rightarrow> if ns \<noteq> None then budget - w_scanned w else min (m - length (w_results w)) (budget - w_scanned w))"
    define page where "page = fetch_page d ns types source cursor bound"
    have bound: "0 < bound" "bound \<le> budget - w_scanned w"
      using False by (auto simp: bound_def reached_def split: option.splits)
    define w2 where "w2 = after_page (valid_target d ns active_only) cap depth page w"
    obtain stop2 where visit: "visit_rows (valid_target d ns active_only) cap depth page
        (w\<lparr>w_scanned := w_scanned w + length page\<rparr>) = (w2, stop2)"
      by (metis after_page_def surjective_pairing w2_def)
    have step: "R w2" "page \<noteq> [] \<longrightarrow> P (g_type (snd (last page)), fst (last page)) w2"
      using assms(4) [OF less.prems(2) _ page_def] False length_fetch_page [of d ns types source cursor bound] bound
      by (simp_all add: w2_def page_def)
    show ?thesis
    proof (cases "stop2 \<or> length page < bound \<or> budget \<le> w_scanned w2")
      case True
      with less.prems(1) False visit have "w' = w2"
        by (auto simp: loop Let_def bound_def [symmetric] page_def [symmetric] split: if_splits)
      with step show ?thesis by simp
    next
      case go: False
      with less.prems(1) False visit have rec: "page_loop d ns types active_only cap budget source depth
          (g_type (snd (last page)), fst (last page)) w2 = (w', stop)"
        by (simp add: loop Let_def bound_def [symmetric] page_def [symmetric])
      have "budget - w_scanned w2 < budget - w_scanned w" "page \<noteq> []"
        using go bound after_page_counts(1) [of "valid_target d ns active_only" cap depth page w]
        by (auto simp: w2_def)
      with less.hyps rec step show ?thesis by blast
    qed
  qed
qed

lemma page_loop_potential:
  assumes "page_loop d ns types active_only cap budget source depth cursor w = (w', stop)"
  shows "(budget - w_scanned w') + length (w_queue w') \<le> (budget - w_scanned w) + length (w_queue w)"
    and "w_scanned w \<le> budget \<Longrightarrow> w_scanned w' \<le> budget"
proof -
  let ?pot = "\<lambda>x :: walk. (budget - w_scanned x) + length (w_queue x) \<le> (budget - w_scanned w) + length (w_queue w)
    \<and> (w_scanned w \<le> budget \<longrightarrow> w_scanned x \<le> budget)"
  have "?pot w'"
  proof (rule page_loop_invariant [where P = "\<lambda>_. ?pot", OF assms])
    fix cursor and x :: walk and bound and page :: "(nat \<times> graph_edge) list"
    assume "?pot x" "length page \<le> budget - w_scanned x" "w_scanned x < budget"
    with after_page_counts [of "valid_target d ns active_only" cap depth page x]
    show "?pot (after_page (valid_target d ns active_only) cap depth page x)
      \<and> (page \<noteq> [] \<longrightarrow> ?pot (after_page (valid_target d ns active_only) cap depth page x))" by linarith
  qed simp_all
  then show "(budget - w_scanned w') + length (w_queue w') \<le> (budget - w_scanned w) + length (w_queue w)"
    "w_scanned w \<le> budget \<Longrightarrow> w_scanned w' \<le> budget" by auto
qed

text \<open>The loop over the queue of nodes to visit, each with its depth.\<close>

function walk_loop ::
  "db \<Rightarrow> string option \<Rightarrow> string list option \<Rightarrow> bool \<Rightarrow> nat option \<Rightarrow> nat \<Rightarrow> int \<Rightarrow> walk \<Rightarrow> walk" where
  "walk_loop d ns types active_only cap budget depth w =
     (case w_queue w of
        [] \<Rightarrow> w
      | (source, k) # rest \<Rightarrow>
          if budget \<le> w_scanned w then w
          else if depth \<le> int k then walk_loop d ns types active_only cap budget depth (w\<lparr>w_queue := rest\<rparr>)
          else (let (w2, stop) = page_loop d ns types active_only cap budget source k ([], 0) (w\<lparr>w_queue := rest\<rparr>)
                in if stop then w2 else walk_loop d ns types active_only cap budget depth w2))"
  by pat_completeness simp
termination
proof (relation "measure (\<lambda>(d, ns, types, active_only, cap, budget, depth, w). (budget - w_scanned w) + length (w_queue w))",
    goal_cases)
  case (3 d ns types active_only cap budget depth w p rest source k x w2 stop)
  then have "page_loop d ns types active_only cap budget source k ([], 0) (w\<lparr>w_queue := rest\<rparr>) = (w2, stop)" by simp
  from page_loop_potential(1) [OF this] 3(1) show ?case by simp
qed simp_all

declare walk_loop.simps [simp del]

datatype graph_error = MaxNodesNotPositive

definition capped :: "nat option \<Rightarrow> 'a list \<Rightarrow> 'a list" where
  "capped cap xs = (case cap of None \<Rightarrow> xs | Some m \<Rightarrow> take m xs)"

definition scan_budget :: "nat option \<Rightarrow> nat" where
  "scan_budget cap = (case cap of None \<Rightarrow> max_traversal_roots | Some m \<Rightarrow> m) * edge_scan_budget_multiplier"

definition start_walk :: "string list \<Rightarrow> walk" where
  "start_walk roots = \<lparr>w_visited = roots, w_results = [], w_queue = map (\<lambda>r. (r, 0)) roots, w_scanned = 0\<rparr>"

definition graph_query ::
  "tag_config \<Rightarrow> string list \<Rightarrow> int \<Rightarrow> string list option \<Rightarrow> string option \<Rightarrow> int option \<Rightarrow> bool \<Rightarrow> db
     \<Rightarrow> (graph_error, node list) result" where
  "graph_query cfg root_ids depth edge_types ns max_nodes active_only d =
     (if root_ids = [] then Inr []
      else if (case max_nodes of None \<Rightarrow> False | Some m \<Rightarrow> m < 1) then Inl MaxNodesNotPositive
      else (let roots = take max_traversal_roots root_ids;
                cap = map_option nat max_nodes;
                wanted = (case edge_types of None \<Rightarrow> False | Some ts \<Rightarrow> derived_edge_type \<in> set ts);
                derived = (if wanted then filter (\<lambda>n. \<not> active_only \<or> valid_target d ns True (n_id n)) (derive_tag_edges cfg roots ns d)
                           else []);
                types = (if wanted then map_option (filter (\<lambda>t. t \<noteq> derived_edge_type)) edge_types else edge_types);
                starts = (case ns of None \<Rightarrow> roots | Some n \<Rightarrow> filter (\<lambda>i. map_of (rows d) (n, i) \<noteq> None) roots)
            in if wanted \<and> types = Some [] then Inr (capped cap derived)
               else if starts = [] then Inr []
               else Inr (capped cap (w_results (walk_loop d ns types active_only cap (scan_budget cap)
                      (min depth max_traversal_depth) (start_walk starts)) @ derived))))"

section \<open>Soundness of the walk\<close>

text \<open>An edge a walk from \<open>x\<close> may follow, and the node it adds.\<close>

definition follows :: "db \<Rightarrow> string option \<Rightarrow> string list option \<Rightarrow> bool \<Rightarrow> string \<Rightarrow> graph_edge \<Rightarrow> bool" where
  "follows d ns types active_only x g \<longleftrightarrow>
     g \<in> set (edges d) \<and> g_source g = x \<and> g_type g \<noteq> [] \<and> edge_scoped ns g \<and> edge_typed types g
     \<and> valid_target d ns active_only (g_target g)"

definition known :: "string list \<Rightarrow> walk \<Rightarrow> string \<Rightarrow> nat \<Rightarrow> bool" where
  "known starts w x k \<longleftrightarrow> (x \<in> set starts \<and> k = 0) \<or> (\<exists>n \<in> set (w_results w). n_id n = x \<and> n_depth n = k)"

definition added_by :: "graph_edge \<Rightarrow> nat \<Rightarrow> node" where
  "added_by g k = \<lparr>n_id = g_target g, n_depth = Suc k, n_type = g_type g, n_weight = g_weight g\<rparr>"

definition grounded ::
  "db \<Rightarrow> string option \<Rightarrow> string list option \<Rightarrow> bool \<Rightarrow> int \<Rightarrow> string list \<Rightarrow> walk \<Rightarrow> node \<Rightarrow> bool" where
  "grounded d ns types active_only limit starts w n \<longleftrightarrow>
     (\<exists>x k g. known starts w x k \<and> int k < limit \<and> follows d ns types active_only x g \<and> n = added_by g k)"

definition walk_ok ::
  "db \<Rightarrow> string option \<Rightarrow> string list option \<Rightarrow> bool \<Rightarrow> int \<Rightarrow> string list \<Rightarrow> walk \<Rightarrow> bool" where
  "walk_ok d ns types active_only limit starts w \<longleftrightarrow>
     set (w_visited w) = set starts \<union> n_id ` set (w_results w)
     \<and> distinct (map n_id (w_results w)) \<and> set starts \<inter> n_id ` set (w_results w) = {}
     \<and> (\<forall>(x, k) \<in> set (w_queue w). known starts w x k)
     \<and> (\<forall>n \<in> set (w_results w). grounded d ns types active_only limit starts w n)"

lemma known_more: "known starts w x k \<Longrightarrow> set (w_results w) \<subseteq> set (w_results w') \<Longrightarrow> known starts w' x k"
  by (auto simp: known_def)

lemma grounded_more:
  "grounded d ns types a limit starts w n \<Longrightarrow> set (w_results w) \<subseteq> set (w_results w') \<Longrightarrow>
    grounded d ns types a limit starts w' n"
  by (auto simp: grounded_def dest: known_more)

lemma visit_rows_grows: "set (w_results w) \<subseteq> set (w_results (fst (visit_rows valid cap k page w)))"
proof (induction valid cap k page w rule: visit_rows.induct)
  case (2 valid cap depth i g page w)
  then show ?case by (auto simp: Let_def)
qed simp

lemma visit_rows_ok:
  "walk_ok d ns types a limit starts w \<Longrightarrow> known starts w x k \<Longrightarrow> int k < limit \<Longrightarrow>
    \<forall>(i, g) \<in> set page. valid_target d ns a (g_target g) \<longrightarrow> follows d ns types a x g \<Longrightarrow>
    walk_ok d ns types a limit starts (fst (visit_rows (valid_target d ns a) cap k page w))"
proof (induction "valid_target d ns a" cap k page w rule: visit_rows.induct)
  case (2 cap k i g page w)
  show ?case
  proof (cases "\<not> valid_target d ns a (g_target g) \<or> g_target g \<in> set (w_visited w)")
    case True
    with 2 show ?thesis by simp
  next
    case False
    define w1 where "w1 = w\<lparr>w_visited := w_visited w @ [g_target g], w_results := w_results w @ [added_by g k]\<rparr>"
    define w2 where "w2 = w1\<lparr>w_queue := w_queue w1 @ [(g_target g, Suc k)]\<rparr>"
    have sub: "set (w_results w) \<subseteq> set (w_results w1)" "w_results w2 = w_results w1" by (auto simp: w1_def w2_def)
    have new: "grounded d ns types a limit starts w (added_by g k)"
      using 2(4-6) False by (auto simp: grounded_def)
    have ok1: "walk_ok d ns types a limit starts w1"
      unfolding walk_ok_def
    proof (intro conjI)
      show "set (w_visited w1) = set starts \<union> n_id ` set (w_results w1)"
        "distinct (map n_id (w_results w1))" "set starts \<inter> n_id ` set (w_results w1) = {}"
        using 2(3) False by (auto simp: walk_ok_def w1_def added_by_def)
      show "\<forall>(x, k) \<in> set (w_queue w1). known starts w1 x k"
        using 2(3) known_more [OF _ sub(1)] by (auto simp: walk_ok_def w1_def)
      show "\<forall>n \<in> set (w_results w1). grounded d ns types a limit starts w1 n"
        using 2(3) new grounded_more [OF _ sub(1)] by (auto simp: walk_ok_def w1_def)
    qed
    moreover have "known starts w2 (g_target g) (Suc k)" by (auto simp: known_def w1_def w2_def added_by_def)
    ultimately have ok2: "walk_ok d ns types a limit starts w2"
      using sub(2) known_more [of starts w1 _ _ w2] grounded_more [of d ns types a limit starts w1 _ w2]
      by (auto simp: walk_ok_def w2_def)
    have step: "visit_rows (valid_target d ns a) cap k ((i, g) # page) w
        = (if reached cap w1 then (w1, True) else visit_rows (valid_target d ns a) cap k page w2)"
      using False by (simp add: w1_def w2_def added_by_def Let_def)
    show ?thesis
    proof (cases "reached cap w1")
      case True
      with ok1 step show ?thesis by simp
    next
      case go: False
      have "known starts w2 x k" using 2(4) known_more sub by metis
      with 2(2) [OF False w1_def [unfolded added_by_def] go] ok2 2(5,6) step go show ?thesis
        by (simp add: w2_def)
    qed
  qed
qed simp

definition typed_cursor :: "string list option \<Rightarrow> string \<times> nat \<Rightarrow> bool" where
  "typed_cursor types c \<longleftrightarrow>
     fst c = [] \<or> (case types of None \<Rightarrow> True | Some ts \<Rightarrow> ts = [] \<or> fst c \<in> set ts)"

lemma edge_rows_edge: "(i, g) \<in> set (edge_rows d) \<Longrightarrow> g \<in> set (edges d)"
  unfolding edge_rows_def by (rule set_zip_rightD)

lemma fetch_page_follows:
  assumes "(i, g) \<in> set (fetch_page d ns types source cursor bound)" "typed_cursor types cursor"
  shows "g \<in> set (edges d)" "g_source g = source" "g_type g \<noteq> []" "edge_scoped ns g" "edge_typed types g"
proof -
  consider (same) "(i, g) \<in> set (same_type_page d ns source (fst cursor) (snd cursor) bound)" "fst cursor \<noteq> []"
    | (later) bound' where "(i, g) \<in> set (later_types_page d ns types source (fst cursor) bound')"
    using assms(1) by (auto simp: fetch_page_def Let_def split: if_splits)
  then have "g \<in> set (edges d) \<and> g_source g = source \<and> g_type g \<noteq> [] \<and> edge_scoped ns g \<and> edge_typed types g"
  proof cases
    case same
    with assms(2) show ?thesis
      by (auto simp: same_type_page_def typed_cursor_def edge_typed_def split: option.splits
          dest!: in_set_takeD dest: edge_rows_edge)
  next
    case later
    then have "(i, g) \<in> set (edge_rows d)" "g_source g = source" "edge_typed types g" "edge_scoped ns g" "fst cursor < g_type g"
      by (auto simp: later_types_page_def dest!: in_set_takeD)
    moreover from this(5) have "g_type g \<noteq> []" by auto
    ultimately show ?thesis by (auto dest: edge_rows_edge)
  qed
  then show "g \<in> set (edges d)" "g_source g = source" "g_type g \<noteq> []" "edge_scoped ns g" "edge_typed types g" by auto
qed

lemma walk_ok_scanned [simp]: "walk_ok d ns types a limit starts (w\<lparr>w_scanned := n\<rparr>) = walk_ok d ns types a limit starts w"
  by (simp add: walk_ok_def grounded_def known_def)

lemma page_loop_ok:
  assumes loop: "page_loop d ns types a cap budget source k ([], 0) w = (w', stop)"
    and "walk_ok d ns types a limit starts w" "known starts w source k" "int k < limit"
  shows "walk_ok d ns types a limit starts w'"
proof -
  let ?P = "\<lambda>cursor x. typed_cursor types cursor \<and> walk_ok d ns types a limit starts x \<and> known starts x source k"
  show ?thesis
  proof (rule page_loop_invariant [where P = ?P, OF loop])
    show "?P ([], 0) w" using assms(2,3) by (simp add: typed_cursor_def)
    fix cursor and x :: walk and bound and page :: "(nat \<times> graph_edge) list"
    assume P: "?P cursor x" and page: "page = fetch_page d ns types source cursor bound"
    have f: "\<forall>(i, g) \<in> set page. valid_target d ns a (g_target g) \<longrightarrow> follows d ns types a source g"
    proof (clarify)
      fix i g assume g: "(i, g) \<in> set page" and "valid_target d ns a (g_target g)"
      with fetch_page_follows [OF g [unfolded page]] P show "follows d ns types a source g" by (simp add: follows_def)
    qed
    have "known starts (x\<lparr>w_scanned := n\<rparr>) source k" for n using P by (simp add: known_def)
    with visit_rows_ok [OF _ _ assms(4) f, of starts "x\<lparr>w_scanned := w_scanned x + length page\<rparr>" cap] P
    have ok: "walk_ok d ns types a limit starts (after_page (valid_target d ns a) cap k page x)"
      by (simp add: after_page_def)
    have "known starts (after_page (valid_target d ns a) cap k page x) source k"
      using P known_more visit_rows_grows [of "x\<lparr>w_scanned := w_scanned x + length page\<rparr>"] by (fastforce simp: after_page_def)
    moreover have "typed_cursor types (g_type (snd (last page)), fst (last page))" if "page \<noteq> []"
    proof -
      from last_in_set [OF that] have "(fst (last page), snd (last page)) \<in> set page" by simp
      from fetch_page_follows(5) [OF this [unfolded page]] P show ?thesis
        by (cases types) (simp_all add: typed_cursor_def edge_typed_def page)
    qed
    ultimately show "walk_ok d ns types a limit starts (after_page (valid_target d ns a) cap k page x)
        \<and> (page \<noteq> [] \<longrightarrow> ?P (g_type (snd (last page)), fst (last page)) (after_page (valid_target d ns a) cap k page x))"
      using ok by simp
  qed simp
qed

lemma walk_ok_pop:
  "walk_ok d ns types a limit starts w \<Longrightarrow> w_queue w = p # rest \<Longrightarrow> walk_ok d ns types a limit starts (w\<lparr>w_queue := rest\<rparr>)"
  by (auto simp: walk_ok_def grounded_def known_def)

lemma walk_loop_ok:
  "walk_ok d ns types a limit starts w \<Longrightarrow> w_scanned w \<le> budget \<Longrightarrow>
    walk_ok d ns types a limit starts (walk_loop d ns types a cap budget limit w)
    \<and> w_scanned (walk_loop d ns types a cap budget limit w) \<le> budget"
proof (induction d ns types a cap budget limit w rule: walk_loop.induct)
  case (1 d ns types a cap budget limit w)
  note step = walk_loop.simps [of d ns types a cap budget limit w]
  show ?case
  proof (cases "w_queue w")
    case Nil
    with 1 show ?thesis by (simp add: step)
  next
    case (Cons p rest)
    obtain source k where p: "p = (source, k)" by (cases p)
    note pop = walk_ok_pop [OF 1(3) Cons]
    have "known starts w source k" using 1(3) Cons p by (auto simp: walk_ok_def)
    then have src: "known starts (w\<lparr>w_queue := rest\<rparr>) source k" by (simp add: known_def)
    obtain w2 stop where w2: "page_loop d ns types a cap budget source k ([], 0) (w\<lparr>w_queue := rest\<rparr>) = (w2, stop)"
      by fastforce
    consider "budget \<le> w_scanned w" | "w_scanned w < budget" "limit \<le> int k" | "w_scanned w < budget" "int k < limit"
      by linarith
    then show ?thesis
    proof cases
      case 1
      with \<open>walk_ok d ns types a limit starts w\<close> \<open>w_scanned w \<le> budget\<close> show ?thesis by (simp add: step Cons p)
    next
      case 2
      with "1.IH"(1) [OF Cons p [symmetric]] pop "1.prems"(2) show ?thesis by (simp add: step Cons p)
    next
      case 3
      from page_loop_ok [OF w2 pop src 3(2)] page_loop_potential(2) [OF w2] "1.prems"(2)
      have "walk_ok d ns types a limit starts w2" "w_scanned w2 \<le> budget" by simp_all
      with 3 "1.IH"(2) [OF Cons p [symmetric] _ _ w2 [symmetric] refl] show ?thesis by (simp add: step Cons p w2)
    qed
  qed
qed

lemma start_walk_ok: "walk_ok d ns types a limit starts (start_walk starts)"
  by (auto simp: walk_ok_def start_walk_def known_def)

section \<open>Completeness of the walk\<close>

definition adjacency :: "db \<Rightarrow> string option \<Rightarrow> string list option \<Rightarrow> string \<Rightarrow> (nat \<times> graph_edge) list" where
  "adjacency d ns types source =
     sort_key (\<lambda>(_, g). g_type g)
       (filter (\<lambda>(i, g). g_source g = source \<and> edge_typed types g \<and> edge_scoped ns g \<and> [] < g_type g) (edge_rows d))"

definition out_degree :: "db \<Rightarrow> string \<Rightarrow> nat" where
  "out_degree d x = length (filter (\<lambda>g. g_source g = x) (edges d))"

lemma length_filter_mono: "(\<And>x. P x \<Longrightarrow> Q x) \<Longrightarrow> length (filter P xs) \<le> length (filter Q xs)"
  by (induction xs) (auto simp: le_SucI)

lemma length_adjacency: "length (adjacency d ns types x) \<le> out_degree d x"
proof -
  have "length (adjacency d ns types x) \<le> length (filter (\<lambda>(i, g). g_source g = x) (edge_rows d))"
    unfolding adjacency_def length_sort by (rule length_filter_mono) auto
  also have "\<dots> = out_degree d x"
  proof -
    have "length (filter (\<lambda>(i, g). g_source g = x) (zip rs es)) = length (filter (\<lambda>g. g_source g = x) es)"
      if "length rs = length es" for rs :: "nat list" and es :: "graph_edge list"
      using that by (induction rs es rule: list_induct2) auto
    then show ?thesis by (simp add: edge_rows_def out_degree_def del: upt_Suc)
  qed
  finally show ?thesis .
qed

lemma sum_out_degrees: "distinct xs \<Longrightarrow> (\<Sum>x\<leftarrow>xs. out_degree d x) \<le> length (edges d)"
proof -
  assume "distinct xs"
  have "(\<Sum>x\<leftarrow>xs. length (filter (\<lambda>g. g_source g = x) es)) \<le> length es" for es
  proof (induction es)
    case (Cons g es)
    have "(\<Sum>x\<leftarrow>xs. length (filter (\<lambda>g. g_source g = x) (g # es)))
        = (\<Sum>x\<leftarrow>xs. if g_source g = x then 1 else 0) + (\<Sum>x\<leftarrow>xs. length (filter (\<lambda>g. g_source g = x) es))"
      by (subst sum_list_addf [symmetric]) (rule arg_cong [where f = sum_list], simp)
    moreover have "(\<Sum>x\<leftarrow>xs. if g_source g = x then 1 else 0 :: nat) \<le> 1"
      using \<open>distinct xs\<close> by (simp add: sum_list_distinct_conv_sum_set)
    ultimately show ?case using Cons by simp
  qed simp
  then show ?thesis by (simp add: out_degree_def)
qed

lemma visit_rows_None:
  "\<exists>new. fst (visit_rows valid None k page w)
      = w\<lparr>w_visited := w_visited w @ map n_id new, w_results := w_results w @ new,
          w_queue := w_queue w @ map (\<lambda>n. (n_id n, Suc k)) new\<rparr>
    \<and> (\<forall>n \<in> set new. n_depth n = Suc k) \<and> distinct (map n_id new) \<and> n_id ` set new \<inter> set (w_visited w) = {}
    \<and> (\<forall>(i, g) \<in> set page. valid (g_target g) \<longrightarrow> g_target g \<in> set (w_visited w) \<union> n_id ` set new)
    \<and> \<not> snd (visit_rows valid None k page w)"
proof (induction valid "None :: nat option" k page w rule: visit_rows.induct)
  case (1 valid k w)
  show ?case by (rule exI [of _ "[]"]) simp
next
  case (2 valid k i g page w)
  show ?case
  proof (cases "\<not> valid (g_target g) \<or> g_target g \<in> set (w_visited w)")
    case True
    with 2(1) [OF True] show ?thesis by simp
  next
    case False
    define w1 where "w1 = w\<lparr>w_visited := w_visited w @ [g_target g], w_results := w_results w @ [added_by g k]\<rparr>"
    define w2 where "w2 = w1\<lparr>w_queue := w_queue w1 @ [(g_target g, Suc k)]\<rparr>"
    have "\<not> reached None w1" by (simp add: reached_def)
    from 2(2) [OF False w1_def [unfolded added_by_def] this] obtain new where
      new: "fst (visit_rows valid None k page w2)
        = w2\<lparr>w_visited := w_visited w2 @ map n_id new, w_results := w_results w2 @ new,
            w_queue := w_queue w2 @ map (\<lambda>n. (n_id n, Suc k)) new\<rparr>"
      "\<forall>n \<in> set new. n_depth n = Suc k" "distinct (map n_id new)" "n_id ` set new \<inter> set (w_visited w2) = {}"
      "\<forall>(i, g) \<in> set page. valid (g_target g) \<longrightarrow> g_target g \<in> set (w_visited w2) \<union> n_id ` set new"
      "\<not> snd (visit_rows valid None k page w2)"
      unfolding w2_def by blast
    have "visit_rows valid None k ((i, g) # page) w = visit_rows valid None k page w2"
      using False by (simp add: w1_def w2_def added_by_def Let_def reached_def)
    with new False show ?thesis
      by (intro exI [of _ "added_by g k # new"]) (auto simp: w1_def w2_def added_by_def)
  qed
qed

lemma page_loop_full:
  assumes "w_scanned w + out_degree d source < budget"
  shows "page_loop d ns types a None budget source k ([], 0) w
    = (after_page (valid_target d ns a) None k (adjacency d ns types source) w, False)"
proof -
  have len: "length (adjacency d ns types source) < budget - w_scanned w"
    using assms length_adjacency [of d ns types source] by linarith
  have "fetch_page d ns types source ([], 0) (budget - w_scanned w) = adjacency d ns types source"
    using len assms by (simp add: fetch_page_def later_types_page_def adjacency_def Let_def)
  moreover have "visit_rows (valid_target d ns a) None k (adjacency d ns types source)
      (w\<lparr>w_scanned := w_scanned w + length (adjacency d ns types source)\<rparr>)
    = (after_page (valid_target d ns a) None k (adjacency d ns types source) w, False)"
    using visit_rows_None [of "valid_target d ns a" k "adjacency d ns types source"
        "w\<lparr>w_scanned := w_scanned w + length (adjacency d ns types source)\<rparr>"]
    by (cases "visit_rows (valid_target d ns a) None k (adjacency d ns types source)
      (w\<lparr>w_scanned := w_scanned w + length (adjacency d ns types source)\<rparr>)") (auto simp: after_page_def)
  ultimately show ?thesis
    using assms len by (subst page_loop.simps) (simp add: reached_def Let_def)
qed

lemma known_unique: "walk_ok d ns types a limit starts w \<Longrightarrow> known starts w x j \<Longrightarrow> known starts w x k \<Longrightarrow> j = k"
  by (auto simp: walk_ok_def known_def distinct_map inj_on_def dest: imageI [of _ _ n_id])

lemma visited_known: "walk_ok d ns types a limit starts w \<Longrightarrow> x \<in> set (w_visited w) \<longleftrightarrow> (\<exists>k. known starts w x k)"
  by (auto simp: walk_ok_def known_def)

lemma in_adjacency: "follows d ns types a x g \<Longrightarrow> \<exists>i. (i, g) \<in> set (adjacency d ns types x)"
proof -
  assume f: "follows d ns types a x g"
  then obtain j where "j < length (edges d)" "edges d ! j = g" by (auto simp: follows_def in_set_conv_nth)
  then have "(Suc j, g) \<in> set (edge_rows d)"
    by (auto simp: edge_rows_def set_zip simp del: upt_Suc intro!: exI [of _ j])
  moreover have "[] < g_type g" using f by (cases "g_type g") (auto simp: follows_def)
  ultimately show ?thesis using f by (auto simp: adjacency_def follows_def)
qed

text \<open>\<open>done\<close> are the nodes taken off the queue: all they lead to is known, one level further at most.\<close>

definition expanded ::
  "db \<Rightarrow> string option \<Rightarrow> string list option \<Rightarrow> bool \<Rightarrow> int \<Rightarrow> string list \<Rightarrow> walk \<Rightarrow> string \<Rightarrow> bool" where
  "expanded d ns types a limit starts w x \<longleftrightarrow>
     (\<forall>k g. known starts w x k \<longrightarrow> int k < limit \<longrightarrow> follows d ns types a x g \<longrightarrow>
       (\<exists>j \<le> Suc k. known starts w (g_target g) j))"

definition frontier_ok ::
  "db \<Rightarrow> string option \<Rightarrow> string list option \<Rightarrow> bool \<Rightarrow> int \<Rightarrow> string list \<Rightarrow> string list \<Rightarrow> walk \<Rightarrow> bool" where
  "frontier_ok d ns types a limit starts done_nodes w \<longleftrightarrow>
     distinct (done_nodes @ map fst (w_queue w)) \<and> set (done_nodes @ map fst (w_queue w)) = set (w_visited w)
     \<and> w_scanned w \<le> (\<Sum>x\<leftarrow>done_nodes. out_degree d x)
     \<and> sorted (map snd (w_queue w))
     \<and> (\<forall>y j. w_queue w \<noteq> [] \<longrightarrow> known starts w y j \<longrightarrow> j \<le> Suc (snd (hd (w_queue w))))
     \<and> (\<forall>x \<in> set done_nodes. expanded d ns types a limit starts w x)"

lemma expanded_more:
  assumes "walk_ok d ns types a limit starts w'" "set (w_results w) \<subseteq> set (w_results w')"
    and "walk_ok d ns types a limit starts w" "x \<in> set (w_visited w)" "expanded d ns types a limit starts w x"
  shows "expanded d ns types a limit starts w' x"
  unfolding expanded_def
proof (intro allI impI)
  fix k g assume k: "known starts w' x k" "int k < limit" "follows d ns types a x g"
  obtain k0 where k0: "known starts w x k0" using visited_known [OF assms(3)] assms(4) by blast
  then have "k0 = k" using known_unique [OF assms(1) known_more [OF k0 assms(2)] k(1)] by simp
  with k0 k assms(5) obtain j where "j \<le> Suc k" "known starts w (g_target g) j" by (auto simp: expanded_def)
  with known_more [OF _ assms(2)] show "\<exists>j \<le> Suc k. known starts w' (g_target g) j" by blast
qed

lemma frontier_skip:
  assumes "walk_ok d ns types a limit starts w" "frontier_ok d ns types a limit starts dn w"
    and q: "w_queue w = (x, k) # rest" and "limit \<le> int k"
  shows "frontier_ok d ns types a limit starts (x # dn) (w\<lparr>w_queue := rest\<rparr>)"
proof -
  have kn [simp]: "known starts (w\<lparr>w_queue := rest\<rparr>) = known starts w" by (auto simp: known_def fun_eq_iff)
  have ex [simp]: "expanded d ns types a limit starts (w\<lparr>w_queue := rest\<rparr>) = expanded d ns types a limit starts w"
    by (auto simp: expanded_def fun_eq_iff)
  have "known starts w x k" using assms(1) q by (auto simp: walk_ok_def)
  then have ex_x: "expanded d ns types a limit starts w x"
    using known_unique [OF assms(1)] assms(4) by (fastforce simp: expanded_def)
  note f = assms(2) [unfolded frontier_ok_def q]
  have bound: "j \<le> Suc k" if "known starts w y j" for y j using f that by simp
  have head: "k \<le> snd (hd rest)" if "rest \<noteq> []" using f that by (cases rest) auto
  show ?thesis
    unfolding frontier_ok_def
  proof (intro conjI allI impI ballI)
    fix y j assume "w_queue (w\<lparr>w_queue := rest\<rparr>) \<noteq> []" "known starts (w\<lparr>w_queue := rest\<rparr>) y j"
    with bound [of y j] head show "j \<le> Suc (snd (hd (w_queue (w\<lparr>w_queue := rest\<rparr>))))" by simp
  next
    fix y assume "y \<in> set (x # dn)"
    with ex_x f show "expanded d ns types a limit starts (w\<lparr>w_queue := rest\<rparr>) y" by auto
  qed (use f in auto)
qed

lemma frontier_expand:
  assumes ok: "walk_ok d ns types a limit starts w" and front: "frontier_ok d ns types a limit starts dn w"
    and q: "w_queue w = (x, k) # rest" and k: "int k < limit"
    and w': "w' = after_page (valid_target d ns a) None k (adjacency d ns types x) (w\<lparr>w_queue := rest\<rparr>)"
    and ok': "walk_ok d ns types a limit starts w'"
  shows "frontier_ok d ns types a limit starts (x # dn) w'"
proof -
  note f = front [unfolded frontier_ok_def q]
  have nodes: "distinct (dn @ x # map fst rest)" "set (dn @ x # map fst rest) = set (w_visited w)"
    and scanned: "w_scanned w \<le> (\<Sum>y\<leftarrow>dn. out_degree d y)" and srt: "sorted (k # map snd rest)"
    and level: "\<And>y j. known starts w y j \<Longrightarrow> j \<le> Suc k"
    and old: "\<And>y. y \<in> set dn \<Longrightarrow> expanded d ns types a limit starts w y"
    using f by simp_all
  define wn where "wn = w\<lparr>w_queue := rest, w_scanned := w_scanned w + length (adjacency d ns types x)\<rparr>"
  from visit_rows_None [of "valid_target d ns a" k "adjacency d ns types x" wn] obtain new where
    new: "w' = wn\<lparr>w_visited := w_visited wn @ map n_id new, w_results := w_results wn @ new,
        w_queue := w_queue wn @ map (\<lambda>n. (n_id n, Suc k)) new\<rparr>"
    and depth: "\<forall>n \<in> set new. n_depth n = Suc k" and dist: "distinct (map n_id new)"
    and fresh: "n_id ` set new \<inter> set (w_visited w) = {}"
    and all: "\<forall>(i, g) \<in> set (adjacency d ns types x). valid_target d ns a (g_target g) \<longrightarrow>
        g_target g \<in> set (w_visited w) \<union> n_id ` set new"
    unfolding w' after_page_def wn_def by auto
  have sub: "set (w_results w) \<subseteq> set (w_results w')" by (auto simp: new wn_def)
  have x: "known starts w x k" using ok q by (auto simp: walk_ok_def)
  have bound: "j \<le> Suc k" if "known starts w' y j" for y j
  proof (cases "known starts w y j")
    case True
    with level show ?thesis by simp
  next
    case False
    with that depth show ?thesis by (auto simp: known_def new wn_def)
  qed
  have queue: "w_queue w' = rest @ map (\<lambda>n. (n_id n, Suc k)) new" by (simp add: new wn_def)
  have rest: "j \<le> Suc k" if "(y, j) \<in> set rest" for y j
  proof -
    have "known starts w y j" using ok that q by (auto simp: walk_ok_def)
    with level show ?thesis by simp
  qed
  have head: "k \<le> snd (hd (w_queue w'))" if "w_queue w' \<noteq> []"
  proof (cases rest)
    case Nil
    with that queue show ?thesis by (cases new) simp_all
  next
    case (Cons r rs)
    with srt queue show ?thesis by simp
  qed
  show ?thesis
    unfolding frontier_ok_def
  proof (intro conjI allI impI ballI)
    show "distinct ((x # dn) @ map fst (w_queue w'))"
      using nodes dist fresh by (auto simp: queue comp_def)
    show "set ((x # dn) @ map fst (w_queue w')) = set (w_visited w')"
      using nodes(2) by (auto simp: queue new wn_def)
    show "w_scanned w' \<le> (\<Sum>y\<leftarrow>x # dn. out_degree d y)"
      using scanned length_adjacency [of d ns types x] by (simp add: new wn_def)
    show "sorted (map snd (w_queue w'))"
      using srt rest by (auto simp: queue sorted_append comp_def map_replicate_const)
  next
    fix y j assume "w_queue w' \<noteq> []" "known starts w' y j"
    with bound head show "j \<le> Suc (snd (hd (w_queue w')))" by (meson Suc_le_mono le_trans)
  next
    fix y assume y: "y \<in> set (x # dn)"
    show "expanded d ns types a limit starts w' y"
    proof (cases "y = x")
      case True
      have "\<exists>j \<le> Suc k. known starts w' (g_target g) j" if "follows d ns types a x g" for g
      proof -
        from in_adjacency [OF that] all that have "g_target g \<in> set (w_visited w')"
          by (auto simp: follows_def new wn_def)
        then obtain j where "known starts w' (g_target g) j" using visited_known [OF ok'] by blast
        with bound show ?thesis by blast
      qed
      with True known_unique [OF ok' known_more [OF x sub]] show ?thesis by (auto simp: expanded_def)
    next
      case False
      with y nodes(2) have "y \<in> set dn" "y \<in> set (w_visited w)" by auto
      with old expanded_more [OF ok' sub ok] show ?thesis by blast
    qed
  qed
qed

lemma walk_loop_complete:
  "walk_ok d ns types a limit starts w \<Longrightarrow> frontier_ok d ns types a limit starts dn w \<Longrightarrow> length (edges d) < budget \<Longrightarrow>
    cap = None \<Longrightarrow> \<exists>dn'. frontier_ok d ns types a limit starts dn' (walk_loop d ns types a cap budget limit w)
      \<and> w_queue (walk_loop d ns types a cap budget limit w) = []"
proof (induction d ns types a cap budget limit w arbitrary: dn rule: walk_loop.induct)
  case (1 d ns types a cap budget limit w)
  note step = walk_loop.simps [of d ns types a cap budget limit w]
  show ?case
  proof (cases "w_queue w")
    case Nil
    then have "walk_loop d ns types a cap budget limit w = w" by (simp add: step)
    with Nil "1.prems"(2) show ?thesis by auto
  next
    case (Cons p rest)
    obtain x k where p: "p = (x, k)" by (cases p)
    with Cons have q: "w_queue w = (x, k) # rest" by simp
    have "distinct (x # dn)" "w_scanned w \<le> (\<Sum>y\<leftarrow>dn. out_degree d y)"
      using "1.prems"(2) q by (auto simp: frontier_ok_def)
    with sum_out_degrees [of "x # dn" d] "1.prems"(3) have room: "w_scanned w + out_degree d x < budget" by simp
    show ?thesis
    proof (cases "limit \<le> int k")
      case True
      from "1.IH"(1) [OF q refl _ True walk_ok_pop [OF "1.prems"(1) q] frontier_skip [OF "1.prems"(1,2) q True]
          "1.prems"(3,4)] room True show ?thesis by (simp add: step q)
    next
      case False
      define w' where "w' = after_page (valid_target d ns a) None k (adjacency d ns types x) (w\<lparr>w_queue := rest\<rparr>)"
      have loop: "page_loop d ns types a cap budget x k ([], 0) (w\<lparr>w_queue := rest\<rparr>) = (w', False)"
        using page_loop_full [of "w\<lparr>w_queue := rest\<rparr>" d x budget] room "1.prems"(4) by (simp add: w'_def)
      have "known starts (w\<lparr>w_queue := rest\<rparr>) x k" using "1.prems"(1) q by (auto simp: walk_ok_def known_def)
      from page_loop_ok [OF loop walk_ok_pop [OF "1.prems"(1) q] this] False
      have ok': "walk_ok d ns types a limit starts w'" by simp
      from frontier_expand [OF "1.prems"(1,2) q _ w'_def ok'] False
      have front': "frontier_ok d ns types a limit starts (x # dn) w'" by simp
      from "1.IH"(2) [OF q refl _ False loop [symmetric] refl _ ok' front' "1.prems"(3,4)] room loop False
      show ?thesis by (simp add: step q)
    qed
  qed
qed

primrec reach_in :: "(string \<Rightarrow> string \<Rightarrow> bool) \<Rightarrow> string set \<Rightarrow> nat \<Rightarrow> string set" where
  "reach_in leads R 0 = R"
| "reach_in leads R (Suc k) = reach_in leads R k \<union> {y. \<exists>x \<in> reach_in leads R k. leads x y}"

definition leads :: "db \<Rightarrow> string option \<Rightarrow> string list option \<Rightarrow> bool \<Rightarrow> string \<Rightarrow> string \<Rightarrow> bool" where
  "leads d ns types active_only x y \<longleftrightarrow> (\<exists>g. follows d ns types active_only x g \<and> g_target g = y)"

lemma reach_in_mono: "j \<le> k \<Longrightarrow> reach_in l R j \<subseteq> reach_in l R k"
  by (induction k) (auto simp: le_Suc_eq)

lemma known_Suc:
  assumes "walk_ok d ns types a limit starts w" "known starts w x (Suc j)"
  shows "\<exists>z g. known starts w z j \<and> int j < limit \<and> follows d ns types a z g \<and> x = g_target g"
proof -
  from assms(2) obtain n where n: "n \<in> set (w_results w)" "n_id n = x" "n_depth n = Suc j" by (auto simp: known_def)
  with assms(1) have "grounded d ns types a limit starts w n" by (simp add: walk_ok_def)
  then obtain z k g where "known starts w z k" "int k < limit" "follows d ns types a z g" "n = added_by g k"
    unfolding grounded_def by blast
  moreover from this(4) n(2,3) have "k = j" "x = g_target g" by (simp_all add: added_by_def)
  ultimately show ?thesis by blast
qed

lemma walk_levels:
  assumes "distinct starts" "length (edges d) < budget"
    and w: "w = walk_loop d ns types a None budget limit (start_walk starts)"
  shows "0 \<le> limit \<Longrightarrow> known starts w y k \<longleftrightarrow> int k \<le> limit \<and> y \<in> reach_in (leads d ns types a) (set starts) k
    \<and> (\<forall>j < k. y \<notin> reach_in (leads d ns types a) (set starts) j)"
proof -
  assume limit: "0 \<le> limit"
  let ?reach = "reach_in (leads d ns types a) (set starts)"
  have ok: "walk_ok d ns types a limit starts w"
    using walk_loop_ok [OF start_walk_ok] by (simp add: w start_walk_def)
  have "frontier_ok d ns types a limit starts [] (start_walk starts)"
    using assms(1) by (auto simp: frontier_ok_def start_walk_def known_def comp_def map_replicate_const)
  from walk_loop_complete [OF start_walk_ok this assms(2) refl] obtain dn where
    front: "frontier_ok d ns types a limit starts dn w" "w_queue w = []" by (auto simp: w)
  have exp: "expanded d ns types a limit starts w x" if "known starts w x j" for x j
    using front visited_known [OF ok] that by (auto simp: frontier_ok_def)
  have inside: "int j \<le> limit \<Longrightarrow> x \<in> ?reach j \<Longrightarrow> \<exists>i \<le> j. known starts w x i" for x j
  proof (induction j arbitrary: x)
    case 0
    then show ?case by (auto simp: known_def)
  next
    case (Suc j)
    show ?case
    proof (cases "x \<in> ?reach j")
      case True
      with Suc.IH [of x] Suc.prems(1) obtain i where "i \<le> j" "known starts w x i" by auto
      then show ?thesis by (meson le_SucI)
    next
      case False
      with Suc.prems(2) obtain z where zj: "z \<in> ?reach j" "leads d ns types a z x" by auto
      then obtain g where z: "z \<in> ?reach j" "follows d ns types a z g" "g_target g = x"
        unfolding leads_def by blast
      with Suc.IH [of z] Suc.prems(1) obtain i where i: "i \<le> j" "known starts w z i" by auto
      moreover have "int i < limit" using i(1) Suc.prems(1) by simp
      ultimately obtain m where "m \<le> Suc i" "known starts w x m"
        using exp [OF i(2)] z by (auto simp: expanded_def)
      with i(1) show ?thesis by (meson Suc_le_mono le_trans)
    qed
  qed
  have outside: "known starts w x j \<Longrightarrow> int j \<le> limit \<and> x \<in> ?reach j" for x j
  proof (induction j arbitrary: x)
    case 0
    then show ?case using limit ok by (auto simp: known_def walk_ok_def grounded_def added_by_def)
  next
    case (Suc j)
    from known_Suc [OF ok Suc.prems] obtain z g where
      "known starts w z j" "int j < limit" "follows d ns types a z g" "x = g_target g" by blast
    moreover from this have "leads d ns types a z x" unfolding leads_def by blast
    ultimately show ?case using Suc.IH [of z] by auto
  qed
  show ?thesis
  proof
    assume k: "known starts w y k"
    have "y \<notin> ?reach j" if "j < k" for j
    proof
      assume "y \<in> ?reach j"
      with inside [of j y] outside [OF k] that obtain i where "i \<le> j" "known starts w y i" by auto
      with known_unique [OF ok k] that show False by fastforce
    qed
    with outside [OF k] show "int k \<le> limit \<and> y \<in> ?reach k \<and> (\<forall>j < k. y \<notin> ?reach j)" by blast
  next
    assume y: "int k \<le> limit \<and> y \<in> ?reach k \<and> (\<forall>j < k. y \<notin> ?reach j)"
    with inside obtain i where "i \<le> k" "known starts w y i" by blast
    with outside [of y i] y show "known starts w y k" by (cases "i = k") auto
  qed
qed

section \<open>Properties\<close>

definition start_nodes :: "db \<Rightarrow> string option \<Rightarrow> string list \<Rightarrow> string list" where
  "start_nodes d ns roots =
     (case ns of None \<Rightarrow> roots | Some n \<Rightarrow> filter (\<lambda>i. map_of (rows d) (n, i) \<noteq> None) roots)"

lemma start_nodes_sub: "set (start_nodes d ns roots) \<subseteq> set roots" "distinct roots \<Longrightarrow> distinct (start_nodes d ns roots)"
  by (auto simp: start_nodes_def split: option.split)

lemma walk_nodes:
  assumes "n \<in> set (w_results (walk_loop d ns types a cap budget limit (start_walk starts)))"
  shows "valid_target d ns a (n_id n)" "n_id n \<notin> set starts" "1 \<le> n_depth n" "int (n_depth n) \<le> limit"
proof -
  have ok: "walk_ok d ns types a limit starts (walk_loop d ns types a cap budget limit (start_walk starts))"
    using walk_loop_ok [OF start_walk_ok] by (simp add: start_walk_def)
  with assms show "n_id n \<notin> set starts" by (auto simp: walk_ok_def)
  from ok assms obtain x k g where "int k < limit" "follows d ns types a x g" "n = added_by g k"
    by (auto simp: walk_ok_def grounded_def)
  then show "valid_target d ns a (n_id n)" "1 \<le> n_depth n" "int (n_depth n) \<le> limit"
    by (auto simp: added_by_def follows_def)
qed

lemma derived_from_roots:
  "n \<in> set (derive_from_roots f seen rs) \<Longrightarrow>
    n_id n \<notin> set seen \<and> n_depth n = 1 \<and> (\<exists>r \<in> set rs. \<exists>t \<in> set (f r). n_id n = tn_entry_id t)"
  by (induction f seen rs rule: derive_from_roots.induct) (fastforce simp: Let_def)+

lemma neighbour_posting:
  assumes "t \<in> set (derive_tag_neighbours cfg r ns d)"
  shows "\<exists>tag. (ns, tag, tn_entry_id t) \<in> set (memory_tags d)"
proof -
  from assms obtain i where "tn_entry_id t = i"
    "i \<in> set (uniq (map (\<lambda>(_, _, i). i) (filter (\<lambda>(n, u, i). n = ns
      \<and> u \<in> set (filter (\<lambda>t. tag_postings d ns t \<le> tc_max_tag_postings cfg) (tags_of d ns r)) \<and> i \<noteq> r) (memory_tags d))))"
    unfolding derive_tag_neighbours_def Let_def by (auto split: if_splits dest!: in_set_takeD)
  then show ?thesis by auto
qed

lemma posting_row: "db_ok d \<Longrightarrow> (ns, tag, i) \<in> set (memory_tags d) \<Longrightarrow> map_of (rows d) (ns, i) \<noteq> None"
  by (fastforce simp: db_ok_def tags_mirror_def)

lemma set_capped: "set (capped cap xs) \<subseteq> set xs"
  by (auto simp: capped_def split: option.splits dest: in_set_takeD)


lemma graph_query_total:
  "case max_nodes of None \<Rightarrow> True | Some m \<Rightarrow> 1 \<le> m \<Longrightarrow>
    \<exists>out. graph_query cfg roots depth types ns max_nodes active_only d = Inr out"
  unfolding graph_query_def Let_def by (auto split: if_split option.splits)



definition cycle_db :: db where
  "cycle_db = empty_db\<lparr>edges := map (\<lambda>(x, y). \<lparr>g_namespace = ''default'', g_source = x, g_target = y,
     g_type = ''semantic'', g_weight = 1\<rparr>) [(''a'', ''b''), (''b'', ''c''), (''c'', ''a'')]\<rparr>"

lemma cycle_leads:
  "leads cycle_db None None False x y \<longleftrightarrow> (x, y) \<in> {(''a'', ''b''), (''b'', ''c''), (''c'', ''a'')}"
  unfolding leads_def follows_def
  by (simp add: cycle_db_def edge_scoped_def edge_typed_def valid_target_def conj_disj_distribR ex_disj_distrib)
    blast


end
