(* ===== verification/StoreLock.thy ===== *)
theory StoreLock
  imports Prelude
begin

text \<open>
  Who may use a store file and who may replace it, \<^verbatim>\<open>_store_lock.py\<close>, for one store and every
  process that uses it. The kernel's table says which lock each process holds on the permanent
  \<^verbatim>\<open>.oplock\<close> file; a process keeps its descriptor entry, its holds and what each context owns.
  A body that runs under the registry lock is one step, and so are a retry of a waiting request,
  the death of a process and a fork. Times are milliseconds of the monotonic clock. The lock file
  itself is taken to be the regular, privately owned file the checks of \<open>_admit\<close> accept.
\<close>

section \<open>State\<close>

datatype store_op = OpOpen | OpServe | OpRecover | OpRestore | OpMigrate | OpImport | OpReembed | OpSnapshot

definition shared_op :: "store_op \<Rightarrow> bool" where
  "shared_op oper \<longleftrightarrow> oper \<in> {OpOpen, OpServe}"

definition quiescing :: "store_op \<Rightarrow> bool" where
  "quiescing oper \<longleftrightarrow> oper \<in> {OpRecover, OpRestore, OpMigrate}"

definition op_wait :: "store_op \<Rightarrow> int" where
  "op_wait oper = (if oper = OpOpen \<or> oper = OpServe then 30000 else if oper = OpRecover then 10000 else 0)"

datatype kernel_lock = Unlocked | ReadLock | WriteLock

record lock_file =
  lf_users :: nat      \<comment> \<open>holds taken or being taken\<close>
  lf_shared :: nat
  lf_opens :: nat
  lf_exclusive :: "nat option"
  lf_kernel :: kernel_lock
  lf_closed :: bool

record hold =
  h_file :: nat
  h_op :: store_op
  h_released :: bool

text \<open>A request whose caller waits in \<open>_acquire_locked\<close>, with what it found when it entered.\<close>

record request =
  rq_file :: nat
  rq_op :: store_op
  rq_context :: nat
  rq_owned :: bool
  rq_deadline :: int

text \<open>
  Files and holds are objects, named by their place in \<open>pr_files\<close> and \<open>pr_holds\<close>; \<open>pr_entry\<close> is
  what \<open>_FILES\<close> holds for the lock file, \<open>pr_queue\<close> the releases queued by finalizers.
\<close>

record proc =
  pr_files :: "lock_file list"
  pr_entry :: "nat option"
  pr_holds :: "hold list"
  pr_owned :: "(nat, nat list) dict"
  pr_queue :: "nat list"
  pr_waiting :: "request list"

definition new_proc :: proc where
  "new_proc = \<lparr>pr_files = [], pr_entry = None, pr_holds = [], pr_owned = [], pr_queue = [], pr_waiting = []\<rparr>"

definition new_file :: lock_file where
  "new_file = \<lparr>lf_users = 1, lf_shared = 0, lf_opens = 0, lf_exclusive = None, lf_kernel = Unlocked,
     lf_closed = False\<rparr>"

section \<open>The kernel's lock on the file\<close>

type_synonym lock_table = "(nat \<times> kernel_lock) list"

definition lock_of :: "lock_table \<Rightarrow> nat \<Rightarrow> kernel_lock" where
  "lock_of kt p = (case map_of kt p of None \<Rightarrow> Unlocked | Some k \<Rightarrow> k)"

fun conflicts :: "kernel_lock \<Rightarrow> kernel_lock \<Rightarrow> bool" where
  "conflicts Unlocked k = False"
| "conflicts ReadLock k = (k = WriteLock)"
| "conflicts WriteLock k = (k \<noteq> Unlocked)"

definition drop_lock :: "nat \<Rightarrow> lock_table \<Rightarrow> lock_table" where
  "drop_lock p kt = filter (\<lambda>(q, _). q \<noteq> p) kt"

text \<open>\<open>_kernel\<close>: \<open>F_SETLK\<close> without waiting, \<open>None\<close> when another process conflicts.\<close>

definition set_kernel :: "nat \<Rightarrow> kernel_lock \<Rightarrow> lock_table \<Rightarrow> lock_table option" where
  "set_kernel p kind kt =
     (if list_all (\<lambda>(q, k). q = p \<or> \<not> conflicts kind k) kt then Some ((p, kind) # drop_lock p kt) else None)"

section \<open>The descriptor table\<close>

definition put_file :: "nat \<Rightarrow> lock_file \<Rightarrow> proc \<Rightarrow> proc" where
  "put_file i f pr = pr\<lparr>pr_files := (pr_files pr)[i := f]\<rparr>"

definition sweep_idle :: "nat \<Rightarrow> proc \<times> lock_table \<Rightarrow> proc \<times> lock_table" where
  "sweep_idle p = (\<lambda>(pr, kt). case pr_entry pr of
       None \<Rightarrow> (pr, kt)
     | Some i \<Rightarrow> if lf_users (pr_files pr ! i) = 0 then (pr\<lparr>pr_entry := None\<rparr>, drop_lock p kt) else (pr, kt))"

definition pin :: "nat \<Rightarrow> proc \<times> lock_table \<Rightarrow> nat \<times> proc \<times> lock_table" where
  "pin p s = (let (pr, kt) = sweep_idle p s in
     case pr_entry pr of
       Some i \<Rightarrow> (i, put_file i ((pr_files pr ! i)\<lparr>lf_users := lf_users (pr_files pr ! i) + 1\<rparr>) pr, kt)
     | None \<Rightarrow> (length (pr_files pr),
         pr\<lparr>pr_files := pr_files pr @ [new_file], pr_entry := Some (length (pr_files pr))\<rparr>, kt))"

definition unpin :: "nat \<Rightarrow> nat \<Rightarrow> proc \<times> lock_table \<Rightarrow> proc \<times> lock_table" where
  "unpin p i = (\<lambda>(pr, kt).
     sweep_idle p (put_file i ((pr_files pr ! i)\<lparr>lf_users := lf_users (pr_files pr ! i) - 1\<rparr>) pr, kt))"

section \<open>Taking and releasing\<close>

definition owned_by :: "proc \<Rightarrow> nat \<Rightarrow> nat list" where
  "owned_by pr c = dict_get (pr_owned pr) c []"

definition held_on :: "proc \<Rightarrow> nat \<Rightarrow> nat list \<Rightarrow> nat list" where
  "held_on pr i ks = filter (\<lambda>k. h_file (pr_holds pr ! k) = i \<and> \<not> h_released (pr_holds pr ! k)) ks"

text \<open>One turn of the loop: the file with its kernel lock, or \<open>None\<close> when something blocks.\<close>

definition attempt :: "nat \<Rightarrow> store_op \<Rightarrow> bool \<Rightarrow> lock_file \<Rightarrow> hold list \<Rightarrow> lock_table \<Rightarrow> (lock_file \<times> lock_table) option" where
  "attempt p oper owned f holds kt =
     (if \<not> shared_op oper \<and> (lf_exclusive f \<noteq> None \<or> (quiescing oper \<and> 0 < lf_opens f)) then None
      else if shared_op oper \<and> \<not> owned \<and>
              (case lf_exclusive f of None \<Rightarrow> False | Some k \<Rightarrow> quiescing (h_op (holds ! k))) then None
      else if lf_kernel f \<noteq> Unlocked \<and> shared_op oper then Some (f, kt)
      else (let kind = (if shared_op oper then ReadLock else WriteLock)
            in map_option (\<lambda>kt'. (f\<lparr>lf_kernel := kind\<rparr>, kt')) (set_kernel p kind kt)))"

definition grant :: "nat \<Rightarrow> store_op \<Rightarrow> nat \<Rightarrow> lock_file \<Rightarrow> proc \<Rightarrow> proc" where
  "grant c oper i f pr =
     (let k = length (pr_holds pr);
          f' = (if shared_op oper
                then f\<lparr>lf_shared := lf_shared f + 1, lf_opens := lf_opens f + (if oper = OpOpen then 1 else 0)\<rparr>
                else f\<lparr>lf_exclusive := Some k\<rparr>);
          still = filter (\<lambda>h. \<not> h_released (pr_holds pr ! h)) (owned_by pr c)
      in (put_file i f' pr)
           \<lparr>pr_holds := pr_holds pr @ [\<lparr>h_file = i, h_op = oper, h_released = False\<rparr>],
            pr_owned := (if oper = OpServe then pr_owned pr else dict_set c (still @ [k]) (pr_owned pr))\<rparr>)"

datatype lock_answer = Acquired nat | KeepsWaiting | StoreBusy | AlreadyHeld

text \<open>\<open>acquire\<close> up to its first wait: the descriptor is pinned, then the first attempt is made.\<close>

definition enter :: "nat \<Rightarrow> nat \<Rightarrow> store_op \<Rightarrow> int \<Rightarrow> proc \<times> lock_table \<Rightarrow> lock_answer \<times> proc \<times> lock_table" where
  "enter p c oper now s =
     (let (i, pr, kt) = pin p s;
          owned = held_on pr i (owned_by pr c) \<noteq> []
      in if \<not> shared_op oper \<and> owned then (AlreadyHeld, unpin p i (pr, kt))
         else case attempt p oper owned (pr_files pr ! i) (pr_holds pr) kt of
                Some (f, kt') \<Rightarrow> (Acquired (length (pr_holds pr)), grant c oper i f pr, kt')
              | None \<Rightarrow>
                  if op_wait oper \<le> 0 then (StoreBusy, unpin p i (pr, kt))
                  else (KeepsWaiting, pr\<lparr>pr_waiting := pr_waiting pr @
                    [\<lparr>rq_file = i, rq_op = oper, rq_context = c, rq_owned = owned, rq_deadline = now + op_wait oper\<rparr>]\<rparr>, kt))"

definition release_target :: "lock_file \<Rightarrow> kernel_lock" where
  "release_target f = (if lf_exclusive f \<noteq> None then WriteLock else if 0 < lf_shared f then ReadLock else Unlocked)"

definition hold_given_back :: "nat \<Rightarrow> store_op \<Rightarrow> lock_file \<Rightarrow> lock_file" where
  "hold_given_back k oper f =
     (let f1 = (if lf_exclusive f = Some k then f\<lparr>lf_exclusive := None\<rparr>
                else f\<lparr>lf_shared := lf_shared f - 1, lf_opens := lf_opens f - (if oper = OpOpen then 1 else 0)\<rparr>)
      in f1\<lparr>lf_users := lf_users f1 - 1\<rparr>)"

definition mark_released :: "nat \<Rightarrow> proc \<Rightarrow> proc" where
  "mark_released k pr = pr\<lparr>pr_holds := (pr_holds pr)[k := (pr_holds pr ! k)\<lparr>h_released := True\<rparr>]\<rparr>"

definition release_locked :: "nat \<Rightarrow> nat \<Rightarrow> proc \<times> lock_table \<Rightarrow> proc \<times> lock_table" where
  "release_locked p k = (\<lambda>(pr, kt).
     let h = pr_holds pr ! k; i = h_file h; f = pr_files pr ! i; f2 = hold_given_back k (h_op h) f in
     if h_released h \<or> lf_closed f then (pr, kt)
     else if release_target f2 = lf_kernel f2 then (put_file i f2 (mark_released k pr), kt)
     else case set_kernel p (release_target f2) kt of
            Some kt' \<Rightarrow> (put_file i (f2\<lparr>lf_kernel := release_target f2\<rparr>) (mark_released k pr), kt')
          | None \<Rightarrow> (put_file i f2 (mark_released k pr), kt))"

definition release :: "nat \<Rightarrow> nat \<Rightarrow> proc \<times> lock_table \<Rightarrow> proc \<times> lock_table" where
  "release p k s = sweep_idle p (release_locked p k s)"

text \<open>\<open>_drain\<close>: every queued release, oldest first.\<close>

fun drain_queue :: "nat \<Rightarrow> nat list \<Rightarrow> proc \<times> lock_table \<Rightarrow> proc \<times> lock_table" where
  "drain_queue p [] s = s"
| "drain_queue p (k # ks) s = drain_queue p ks (release_locked p k s)"

definition drain :: "nat \<Rightarrow> proc \<times> lock_table \<Rightarrow> proc \<times> lock_table" where
  "drain p = (\<lambda>(pr, kt). drain_queue p (pr_queue pr) (pr\<lparr>pr_queue := []\<rparr>, kt))"

text \<open>The next turn of the waiting request \<open>n\<close>.\<close>

definition drop_request :: "nat \<Rightarrow> proc \<Rightarrow> proc" where
  "drop_request n pr = pr\<lparr>pr_waiting := take n (pr_waiting pr) @ drop (Suc n) (pr_waiting pr)\<rparr>"

definition retry :: "nat \<Rightarrow> nat \<Rightarrow> int \<Rightarrow> proc \<times> lock_table \<Rightarrow> lock_answer \<times> proc \<times> lock_table" where
  "retry p n now s =
     (let (pr, kt) = drain p s;
          r = pr_waiting pr ! n; i = rq_file r
      in case attempt p (rq_op r) (rq_owned r) (pr_files pr ! i) (pr_holds pr) kt of
           Some (f, kt') \<Rightarrow> (Acquired (length (pr_holds pr)), grant (rq_context r) (rq_op r) i f (drop_request n pr), kt')
         | None \<Rightarrow>
             if rq_deadline r \<le> now then (StoreBusy, unpin p i (drop_request n pr, kt))
             else (KeepsWaiting, pr, kt))"

definition release_soon :: "nat \<Rightarrow> proc \<Rightarrow> proc" where
  "release_soon k pr = pr\<lparr>pr_queue := pr_queue pr @ [k]\<rparr>"

text \<open>\<open>_after_fork_in_child\<close>: what a child starts with; it inherits no lock and no waiting thread.\<close>

definition forked :: "proc \<Rightarrow> proc" where
  "forked pr = pr\<lparr>pr_files := (case pr_entry pr of None \<Rightarrow> pr_files pr
                     | Some i \<Rightarrow> (pr_files pr)[i := (pr_files pr ! i)\<lparr>lf_closed := True\<rparr>]),
                 pr_entry := None, pr_queue := [], pr_waiting := []\<rparr>"

text \<open>A new task or thread starts in a copy of its parent's context.\<close>

definition copy_context :: "nat \<Rightarrow> nat \<Rightarrow> proc \<Rightarrow> proc" where
  "copy_context c c' pr = pr\<lparr>pr_owned := dict_set c' (owned_by pr c) (pr_owned pr)\<rparr>"

section \<open>Every process and the kernel\<close>

type_synonym lock_system = "(nat \<Rightarrow> proc) \<times> lock_table"

inductive store_reach :: "lock_system \<Rightarrow> bool" where
  start: "store_reach (\<lambda>_. new_proc, [])"
| enters: "store_reach (P, kt) \<Longrightarrow> enter p c oper now (P p, kt) = (a, pr, kt') \<Longrightarrow> store_reach (P(p := pr), kt')"
| retries: "store_reach (P, kt) \<Longrightarrow> n < length (pr_waiting (P p)) \<Longrightarrow> retry p n now (P p, kt) = (a, pr, kt')
    \<Longrightarrow> store_reach (P(p := pr), kt')"
| releases: "store_reach (P, kt) \<Longrightarrow> k < length (pr_holds (P p)) \<Longrightarrow> release p k (P p, kt) = (pr, kt')
    \<Longrightarrow> store_reach (P(p := pr), kt')"
| collects: "store_reach (P, kt) \<Longrightarrow> k < length (pr_holds (P p)) \<Longrightarrow> store_reach (P(p := release_soon k (P p)), kt)"
| drains: "store_reach (P, kt) \<Longrightarrow> drain p (P p, kt) = (pr, kt') \<Longrightarrow> store_reach (P(p := pr), kt')"
| copies: "store_reach (P, kt) \<Longrightarrow> store_reach (P(p := copy_context c c' (P p)), kt)"
| dies: "store_reach (P, kt) \<Longrightarrow> store_reach (P(p := new_proc), drop_lock p kt)"
| forks: "store_reach (P, kt) \<Longrightarrow> P q = new_proc \<Longrightarrow> q \<noteq> p \<Longrightarrow> store_reach (P(q := forked (P p)), kt)"

section \<open>Counting holds\<close>

text \<open>The holds of a process on its file \<open>i\<close> that are not released and whose op satisfies \<open>Q\<close>.\<close>

definition live_holds :: "(store_op \<Rightarrow> bool) \<Rightarrow> nat \<Rightarrow> hold list \<Rightarrow> nat" where
  "live_holds Q i hs = length (filter (\<lambda>h. h_file h = i \<and> \<not> h_released h \<and> Q (h_op h)) hs)"

lemma live_holds_Nil [simp]: "live_holds Q i [] = 0"
  by (simp add: live_holds_def)

lemma live_holds_snoc [simp]:
  "live_holds Q i (hs @ [h]) =
     live_holds Q i hs + (if h_file h = i \<and> \<not> h_released h \<and> Q (h_op h) then 1 else 0)"
  by (simp add: live_holds_def)

lemma live_holds_released:
  assumes "k < length hs" and "\<not> h_released (hs ! k)"
  shows "live_holds Q i hs =
    live_holds Q i (hs[k := (hs ! k)\<lparr>h_released := True\<rparr>]) + (if h_file (hs ! k) = i \<and> Q (h_op (hs ! k)) then 1 else 0)"
proof -
  have split: "hs = take k hs @ hs ! k # drop (Suc k) hs" using assms by (simp add: id_take_nth_drop)
  have upd: "hs[k := (hs ! k)\<lparr>h_released := True\<rparr>] = take k hs @ (hs ! k)\<lparr>h_released := True\<rparr> # drop (Suc k) hs"
    using assms by (simp add: upd_conv_take_nth_drop)
  show ?thesis unfolding upd by (subst split) (use assms in \<open>simp add: live_holds_def\<close>)
qed

lemma live_holds_eq_0: "live_holds Q i hs = 0 \<longleftrightarrow> (\<forall>h \<in> set hs. h_file h = i \<longrightarrow> Q (h_op h) \<longrightarrow> h_released h)"
  by (auto simp: live_holds_def filter_empty_conv)

lemma live_holds_pos:
  "k < length hs \<Longrightarrow> h_file (hs ! k) = i \<Longrightarrow> \<not> h_released (hs ! k) \<Longrightarrow> Q (h_op (hs ! k)) \<Longrightarrow> 0 < live_holds Q i hs"
  using live_holds_eq_0 [of Q i hs] by (metis nth_mem gr0I)

lemma live_holds_add: "live_holds Q i hs + live_holds (\<lambda>x. \<not> Q x) i hs = live_holds (\<lambda>_. True) i hs"
  by (induction hs) (auto simp: live_holds_def)

lemma live_holds_le: "(\<And>x. Q x \<Longrightarrow> R x) \<Longrightarrow> live_holds Q i hs \<le> live_holds R i hs"
  by (induction hs) (auto simp: live_holds_def)

text \<open>At most one hold can match when the count is one.\<close>

lemma live_holds_unique:
  assumes "live_holds Q i hs = 1" and "k < length hs" "h_file (hs ! k) = i" "\<not> h_released (hs ! k)" "Q (h_op (hs ! k))"
    and "j < length hs" "h_file (hs ! j) = i" "\<not> h_released (hs ! j)" "Q (h_op (hs ! j))"
  shows "j = k"
proof (rule ccontr)
  assume "j \<noteq> k"
  let ?hs = "hs[k := (hs ! k)\<lparr>h_released := True\<rparr>]"
  have "live_holds Q i ?hs = 0" using live_holds_released [of k hs Q i] assms by simp
  moreover have "0 < live_holds Q i ?hs"
    using assms \<open>j \<noteq> k\<close> by (intro live_holds_pos [of j]) auto
  ultimately show False by simp
qed

section \<open>What one process keeps\<close>

text \<open>
  \<open>file_ok n\<close> relates the counters of the open lock file to the holds: \<open>n\<close> users are pinned by an
  acquire that has neither been granted nor waits.
\<close>

definition file_ok :: "nat \<Rightarrow> nat \<Rightarrow> lock_file \<Rightarrow> proc \<Rightarrow> bool" where
  "file_ok n i f pr \<longleftrightarrow>
     \<not> lf_closed f
   \<and> lf_shared f = live_holds shared_op i (pr_holds pr)
   \<and> lf_opens f = live_holds (\<lambda>x. x = OpOpen) i (pr_holds pr)
   \<and> live_holds (\<lambda>x. \<not> shared_op x) i (pr_holds pr) = (if lf_exclusive f = None then 0 else 1)
   \<and> (\<forall>k. lf_exclusive f = Some k \<longrightarrow> k < length (pr_holds pr) \<and> h_file (pr_holds pr ! k) = i
        \<and> \<not> h_released (pr_holds pr ! k) \<and> \<not> shared_op (h_op (pr_holds pr ! k)))
   \<and> lf_users f = live_holds (\<lambda>_. True) i (pr_holds pr) + length (pr_waiting pr) + n
   \<and> lf_kernel f = release_target f"

definition refs_ok :: "proc \<Rightarrow> bool" where
  "refs_ok pr \<longleftrightarrow>
     (\<forall>h \<in> set (pr_holds pr). h_file h < length (pr_files pr))
   \<and> (\<forall>j < length (pr_files pr). pr_entry pr \<noteq> Some j \<longrightarrow>
        lf_closed (pr_files pr ! j) \<or> live_holds (\<lambda>_. True) j (pr_holds pr) = 0)
   \<and> (\<forall>r \<in> set (pr_waiting pr). pr_entry pr = Some (rq_file r) \<and> \<not> rq_owned r)
   \<and> (\<forall>c. \<forall>k \<in> set (owned_by pr c). k < length (pr_holds pr) \<and> h_op (pr_holds pr ! k) \<noteq> OpServe)
   \<and> (\<forall>k \<in> set (pr_queue pr). k < length (pr_holds pr))"

text \<open>While a quiescing op is held, a context that owns any hold of the file owns that op.\<close>

definition quiesce_ok :: "proc \<Rightarrow> bool" where
  "quiesce_ok pr \<longleftrightarrow> (\<forall>i k c j. pr_entry pr = Some i \<longrightarrow> lf_exclusive (pr_files pr ! i) = Some k \<longrightarrow>
     quiescing (h_op (pr_holds pr ! k)) \<longrightarrow> j \<in> set (held_on pr i (owned_by pr c)) \<longrightarrow> k \<in> set (owned_by pr c))"

definition proc_ok :: "nat \<Rightarrow> kernel_lock \<Rightarrow> proc \<Rightarrow> bool" where
  "proc_ok n kl pr \<longleftrightarrow> refs_ok pr \<and> quiesce_ok pr
   \<and> (case pr_entry pr of
        None \<Rightarrow> kl = Unlocked \<and> n = 0
      | Some i \<Rightarrow> i < length (pr_files pr) \<and> file_ok n i (pr_files pr ! i) pr \<and> lf_kernel (pr_files pr ! i) = kl)"

definition table_ok :: "lock_table \<Rightarrow> bool" where
  "table_ok kt \<longleftrightarrow> (\<forall>p q. p \<noteq> q \<longrightarrow> \<not> conflicts (lock_of kt p) (lock_of kt q))"

section \<open>The kernel's table\<close>

lemma lock_of_drop [simp]: "lock_of (drop_lock p kt) q = (if q = p then Unlocked else lock_of kt q)"
proof -
  have "map_of (drop_lock p kt) q = (if q = p then None else map_of kt q)"
    by (induction kt) (auto simp: drop_lock_def)
  then show ?thesis by (simp add: lock_of_def)
qed

lemma lock_of_set: "set_kernel p kind kt = Some kt' \<Longrightarrow> lock_of kt' q = (if q = p then kind else lock_of kt q)"
proof -
  assume "set_kernel p kind kt = Some kt'"
  then have kt': "kt' = (p, kind) # drop_lock p kt" by (simp add: set_kernel_def split: if_splits)
  show ?thesis
  proof (cases "q = p")
    case True
    then show ?thesis by (simp add: kt' lock_of_def)
  next
    case False
    then have "lock_of kt' q = lock_of (drop_lock p kt) q" by (simp add: kt' lock_of_def)
    with False show ?thesis by simp
  qed
qed

lemma set_kernel_compatible: "set_kernel p kind kt = Some kt' \<Longrightarrow> q \<noteq> p \<Longrightarrow> \<not> conflicts kind (lock_of kt q)"
  by (cases kind) (auto simp: set_kernel_def lock_of_def list_all_iff split: option.splits if_splits dest: map_of_SomeD)

lemma conflicts_sym: "conflicts a b = conflicts b a"
  by (cases a; cases b) auto

lemma conflicts_Unlocked [simp]: "\<not> conflicts a Unlocked"
  by (cases a) auto

lemma table_ok_set: "table_ok kt \<Longrightarrow> set_kernel p kind kt = Some kt' \<Longrightarrow> table_ok kt'"
  unfolding table_ok_def by (auto simp: lock_of_set dest: set_kernel_compatible) (metis conflicts_sym set_kernel_compatible)

lemma table_ok_drop: "table_ok kt \<Longrightarrow> table_ok (drop_lock p kt)"
  by (auto simp: table_ok_def)

text \<open>A weaker lock is always granted: a downgrade or an unlock never conflicts.\<close>

lemma downgrade_granted:
  assumes "table_ok kt" and "distinct (map fst kt)" and weaker: "\<And>k. conflicts kind k \<Longrightarrow> conflicts (lock_of kt p) k"
  shows "\<exists>kt'. set_kernel p kind kt = Some kt'"
proof -
  have compatible: "\<not> conflicts kind k" if "(q, k) \<in> set kt" "q \<noteq> p" for q k
  proof
    assume "conflicts kind k"
    from that assms(2) have "lock_of kt q = k" by (simp add: lock_of_def)
    with weaker \<open>conflicts kind k\<close> have "conflicts (lock_of kt p) (lock_of kt q)" by simp
    with \<open>table_ok kt\<close> \<open>q \<noteq> p\<close> show False unfolding table_ok_def by metis
  qed
  then have "list_all (\<lambda>(q, k). q = p \<or> \<not> conflicts kind k) kt" by (auto simp: list_all_iff)
  then show ?thesis by (simp add: set_kernel_def)
qed

lemma distinct_set_kernel: "distinct (map fst kt) \<Longrightarrow> set_kernel p kind kt = Some kt' \<Longrightarrow> distinct (map fst kt')"
  by (auto simp: set_kernel_def drop_lock_def distinct_map_filter split: if_splits)

lemma distinct_drop: "distinct (map fst kt) \<Longrightarrow> distinct (map fst (drop_lock p kt))"
  by (simp add: drop_lock_def distinct_map_filter)

section \<open>Operations of one process\<close>

definition local_ok :: "nat \<Rightarrow> nat \<Rightarrow> proc \<times> lock_table \<Rightarrow> bool" where
  "local_ok n p s \<longleftrightarrow> table_ok (snd s) \<and> distinct (map fst (snd s)) \<and> proc_ok n (lock_of (snd s) p) (fst s)"

definition others_keep :: "nat \<Rightarrow> lock_table \<Rightarrow> lock_table \<Rightarrow> bool" where
  "others_keep p kt kt' \<longleftrightarrow> (\<forall>q. q \<noteq> p \<longrightarrow> lock_of kt' q = lock_of kt q)"

lemma others_keep_simps [simp]: "others_keep p kt kt" "others_keep p kt (drop_lock p kt)"
  by (simp_all add: others_keep_def)

lemma others_keep_set: "set_kernel p kind kt = Some kt' \<Longrightarrow> others_keep p kt kt'"
  by (simp add: others_keep_def lock_of_set)

lemma others_keep_trans: "others_keep p a b \<Longrightarrow> others_keep p b c \<Longrightarrow> others_keep p a c"
  by (simp add: others_keep_def)

lemma put_file_simps [simp]:
  "pr_entry (put_file i f pr) = pr_entry pr" "pr_holds (put_file i f pr) = pr_holds pr"
  "pr_owned (put_file i f pr) = pr_owned pr" "pr_queue (put_file i f pr) = pr_queue pr"
  "pr_waiting (put_file i f pr) = pr_waiting pr" "pr_files (put_file i f pr) = (pr_files pr)[i := f]"
  by (simp_all add: put_file_def)

lemma owned_by_put_file [simp]: "owned_by (put_file i f pr) c = owned_by pr c"
  by (simp add: owned_by_def)

text \<open>Replacing the entry's file keeps the references, and the rest when the holder stays.\<close>

lemma refs_ok_put_file:
  "refs_ok pr \<Longrightarrow> pr_entry pr = Some i \<Longrightarrow> refs_ok (put_file i f pr)"
  unfolding refs_ok_def by (simp add: nth_list_update)

lemma quiesce_ok_put_file:
  "quiesce_ok pr \<Longrightarrow> pr_entry pr = Some i \<Longrightarrow> i < length (pr_files pr) \<Longrightarrow> lf_exclusive f = lf_exclusive (pr_files pr ! i)
    \<Longrightarrow> quiesce_ok (put_file i f pr)"
  unfolding quiesce_ok_def by (simp add: held_on_def)

lemma proc_ok_entry:
  assumes "proc_ok n kl pr" and "pr_entry pr = Some i"
  shows "i < length (pr_files pr)" "file_ok n i (pr_files pr ! i) pr" "lf_kernel (pr_files pr ! i) = kl"
    "refs_ok pr" "quiesce_ok pr"
  using assms by (simp_all add: proc_ok_def)

lemma proc_ok_users:
  assumes "proc_ok n kl pr" and "pr_entry pr = Some i"
    and "lf_users (pr_files pr ! i) + m = u + n"
  shows "proc_ok m kl (put_file i ((pr_files pr ! i)\<lparr>lf_users := u\<rparr>) pr)"
proof -
  note e = proc_ok_entry [OF assms(1,2)]
  have "file_ok m i ((pr_files pr ! i)\<lparr>lf_users := u\<rparr>) (put_file i ((pr_files pr ! i)\<lparr>lf_users := u\<rparr>) pr)"
    using e(2) assms(3) by (simp add: file_ok_def release_target_def)
  with e assms(2) show ?thesis
    by (simp add: proc_ok_def refs_ok_put_file quiesce_ok_put_file)
qed

lemma sweep_ok:
  assumes "local_ok n p s"
  shows "local_ok n p (sweep_idle p s)" "others_keep p (snd s) (snd (sweep_idle p s))"
proof -
  obtain pr kt where s: "s = (pr, kt)" by (cases s)
  have ok: "table_ok kt" "distinct (map fst kt)" "proc_ok n (lock_of kt p) pr"
    using assms by (simp_all add: s local_ok_def)
  show "others_keep p (snd s) (snd (sweep_idle p s))"
    by (simp add: s sweep_idle_def split: option.split)
  show "local_ok n p (sweep_idle p s)"
  proof (cases "\<exists>i. pr_entry pr = Some i \<and> lf_users (pr_files pr ! i) = 0")
    case True
    then obtain i where i: "pr_entry pr = Some i" "lf_users (pr_files pr ! i) = 0" by blast
    note e = proc_ok_entry [OF ok(3) i(1)]
    have zero: "live_holds (\<lambda>_. True) i (pr_holds pr) = 0" "pr_waiting pr = []" "n = 0"
      using e(2) i(2) by (simp_all add: file_ok_def)
    have "refs_ok (pr\<lparr>pr_entry := None\<rparr>)"
      using e(4) zero i(1) unfolding refs_ok_def owned_by_def by auto
    moreover have "quiesce_ok (pr\<lparr>pr_entry := None\<rparr>)" by (simp add: quiesce_ok_def)
    ultimately show ?thesis
      using i ok zero by (simp add: s sweep_idle_def local_ok_def proc_ok_def table_ok_drop distinct_drop)
  next
    case False
    with ok show ?thesis by (auto simp: s sweep_idle_def local_ok_def split: option.split)
  qed
qed

lemma pin_ok:
  assumes "local_ok 0 p s" and pin: "pin p s = (i, pr', kt')"
  shows "local_ok 1 p (pr', kt')" "pr_entry pr' = Some i" "others_keep p (snd s) kt'"
proof -
  obtain pr kt where sw: "sweep_idle p s = (pr, kt)" by fastforce
  have ok: "table_ok kt" "distinct (map fst kt)" "proc_ok 0 (lock_of kt p) pr" "others_keep p (snd s) kt"
    using sweep_ok [OF assms(1)] sw by (simp_all add: local_ok_def)
  have both: "local_ok 1 p (pr', kt') \<and> pr_entry pr' = Some i \<and> others_keep p (snd s) kt'"
  proof (cases "pr_entry pr")
    case (Some j)
    then have "i = j" "kt' = kt" "pr' = put_file j ((pr_files pr ! j)\<lparr>lf_users := lf_users (pr_files pr ! j) + 1\<rparr>) pr"
      using pin by (auto simp: pin_def sw)
    moreover have "proc_ok 1 (lock_of kt p) (put_file j ((pr_files pr ! j)\<lparr>lf_users := lf_users (pr_files pr ! j) + 1\<rparr>) pr)"
      by (rule proc_ok_users [OF ok(3) Some]) simp
    ultimately show ?thesis using ok Some by (simp add: local_ok_def)
  next
    case None
    then have i: "i = length (pr_files pr)" "kt' = kt"
      and pr': "pr' = pr\<lparr>pr_files := pr_files pr @ [new_file], pr_entry := Some (length (pr_files pr))\<rparr>"
      using pin by (auto simp: pin_def sw)
    have refs: "refs_ok pr" and unlocked: "lock_of kt p = Unlocked" using ok(3) None by (simp_all add: proc_ok_def)
    have waiting: "pr_waiting pr = []" using refs None unfolding refs_ok_def by (cases "pr_waiting pr") auto
    have none: "live_holds Q (length (pr_files pr)) (pr_holds pr) = 0" for Q
      using refs by (force simp: live_holds_eq_0 refs_ok_def)
    have "refs_ok pr'"
      using refs waiting None unfolding refs_ok_def pr' owned_by_def by (auto simp: nth_append less_Suc_eq)
    moreover have "quiesce_ok pr'" by (simp add: pr' quiesce_ok_def new_file_def)
    moreover have "file_ok 1 i new_file pr'"
      using none waiting by (simp add: pr' i file_ok_def new_file_def release_target_def)
    ultimately have "proc_ok 1 (lock_of kt p) pr'"
      using unlocked by (simp add: proc_ok_def pr' i new_file_def)
    with ok show ?thesis by (simp add: local_ok_def i pr')
  qed
  then show "local_ok 1 p (pr', kt')" "pr_entry pr' = Some i" "others_keep p (snd s) kt'" by blast+
qed

lemma unpin_ok:
  assumes "local_ok 1 p (pr, kt)" and i: "pr_entry pr = Some i"
  shows "local_ok 0 p (unpin p i (pr, kt))" "others_keep p kt (snd (unpin p i (pr, kt)))"
proof -
  have ok: "table_ok kt" "distinct (map fst kt)" "proc_ok 1 (lock_of kt p) pr"
    using assms(1) by (simp_all add: local_ok_def)
  have "0 < lf_users (pr_files pr ! i)" using proc_ok_entry(2) [OF ok(3) i] by (simp add: file_ok_def)
  then have "proc_ok 0 (lock_of kt p) (put_file i ((pr_files pr ! i)\<lparr>lf_users := lf_users (pr_files pr ! i) - 1\<rparr>) pr)"
    by (intro proc_ok_users [OF ok(3) i]) simp
  with ok have "local_ok 0 p (put_file i ((pr_files pr ! i)\<lparr>lf_users := lf_users (pr_files pr ! i) - 1\<rparr>) pr, kt)"
    by (simp add: local_ok_def)
  from sweep_ok [OF this] show "local_ok 0 p (unpin p i (pr, kt))" "others_keep p kt (snd (unpin p i (pr, kt)))"
    by (simp_all add: unpin_def)
qed

text \<open>What \<open>attempt\<close> grants: the kernel lock is enough, and nothing of this process blocks.\<close>

lemma attempt_granted:
  assumes "attempt p oper owned f holds kt = Some (f', kt')"
  shows "others_keep p kt kt'" "f' = f\<lparr>lf_kernel := lf_kernel f'\<rparr>"
    "(f' = f \<and> kt' = kt \<and> lf_kernel f \<noteq> Unlocked \<and> shared_op oper)
       \<or> set_kernel p (lf_kernel f') kt = Some kt' \<and> lf_kernel f' = (if shared_op oper then ReadLock else WriteLock)
            \<and> (shared_op oper \<longrightarrow> lf_kernel f = Unlocked)"
    "\<not> shared_op oper \<Longrightarrow> lf_exclusive f = None \<and> (quiescing oper \<longrightarrow> lf_opens f = 0)"
    "shared_op oper \<Longrightarrow> lf_exclusive f = Some k \<Longrightarrow> quiescing (h_op (holds ! k)) \<Longrightarrow> owned"
proof -
  have cases: "(f' = f \<and> kt' = kt \<and> lf_kernel f \<noteq> Unlocked \<and> shared_op oper)
       \<or> (\<exists>kind. set_kernel p kind kt = Some kt' \<and> f' = f\<lparr>lf_kernel := kind\<rparr>
            \<and> kind = (if shared_op oper then ReadLock else WriteLock) \<and> (shared_op oper \<longrightarrow> lf_kernel f = Unlocked))"
    using assms by (auto simp: attempt_def Let_def split: if_splits)
  then show "(f' = f \<and> kt' = kt \<and> lf_kernel f \<noteq> Unlocked \<and> shared_op oper)
       \<or> set_kernel p (lf_kernel f') kt = Some kt' \<and> lf_kernel f' = (if shared_op oper then ReadLock else WriteLock)
            \<and> (shared_op oper \<longrightarrow> lf_kernel f = Unlocked)"
    by auto
  from cases show "others_keep p kt kt'" "f' = f\<lparr>lf_kernel := lf_kernel f'\<rparr>"
    by (auto simp: others_keep_set)
  show "\<not> shared_op oper \<Longrightarrow> lf_exclusive f = None \<and> (quiescing oper \<longrightarrow> lf_opens f = 0)"
    using assms by (auto simp: attempt_def split: if_splits)
  show "shared_op oper \<Longrightarrow> lf_exclusive f = Some k \<Longrightarrow> quiescing (h_op (holds ! k)) \<Longrightarrow> owned"
    using assms by (auto simp: attempt_def split: if_splits)
qed

lemma attempt_table:
  assumes "attempt p oper owned f holds kt = Some (f', kt')" "table_ok kt" "distinct (map fst kt)"
    and "lf_kernel f = lock_of kt p"
  shows "table_ok kt'" "distinct (map fst kt')" "lock_of kt' p = lf_kernel f'"
  using attempt_granted(3) [OF assms(1)] assms(2-4)
  by (auto simp: lock_of_set dest: table_ok_set distinct_set_kernel)

lemma live_holds_shared: "live_holds (\<lambda>x. x = OpOpen) i hs \<le> live_holds shared_op i hs"
  by (rule live_holds_le) (simp add: shared_op_def)

lemma grant_simps:
  "pr_entry (grant c oper i f pr) = pr_entry pr"
  "pr_holds (grant c oper i f pr) = pr_holds pr @ [\<lparr>h_file = i, h_op = oper, h_released = False\<rparr>]"
  "pr_queue (grant c oper i f pr) = pr_queue pr"
  "pr_waiting (grant c oper i f pr) = pr_waiting pr"
  "length (pr_files (grant c oper i f pr)) = length (pr_files pr)"
  "j \<noteq> i \<Longrightarrow> pr_files (grant c oper i f pr) ! j = pr_files pr ! j"
  "i < length (pr_files pr) \<Longrightarrow> pr_files (grant c oper i f pr) ! i =
     (if shared_op oper then f\<lparr>lf_shared := lf_shared f + 1, lf_opens := lf_opens f + (if oper = OpOpen then 1 else 0)\<rparr>
      else f\<lparr>lf_exclusive := Some (length (pr_holds pr))\<rparr>)"
  "owned_by (grant c oper i f pr) d =
     (if oper \<noteq> OpServe \<and> d = c then filter (\<lambda>h. \<not> h_released (pr_holds pr ! h)) (owned_by pr c) @ [length (pr_holds pr)]
      else owned_by pr d)"
  by (simp_all add: grant_def Let_def put_file_def owned_by_def)

lemma grant_file_ok:
  assumes f: "file_ok 1 i f pr" and i: "i < length (pr_files pr)"
    and att: "attempt p oper owned f (pr_holds pr) kt = Some (f', kt')"
  shows "file_ok 0 i (pr_files (grant c oper i f' pr) ! i) (grant c oper i f' pr)"
proof -
  obtain kl where f': "f' = f\<lparr>lf_kernel := kl\<rparr>" using attempt_granted(2) [OF att] by blast
  then have kl': "lf_kernel f' = kl" by simp
  have kernel: "lf_kernel f = release_target f" using f by (simp add: file_ok_def)
  have none: "lf_kernel f = Unlocked \<Longrightarrow> lf_exclusive f = None"
    using kernel by (simp add: release_target_def split: if_splits)
  show ?thesis
  proof (cases "shared_op oper")
    case True
    from attempt_granted(3) [OF att] show ?thesis
    proof
      assume same: "f' = f \<and> kt' = kt \<and> lf_kernel f \<noteq> Unlocked \<and> shared_op oper"
      then have "lf_kernel f = (if lf_exclusive f = None then ReadLock else WriteLock)"
        using kernel by (simp add: release_target_def split: if_splits)
      with same f i True show ?thesis
        by (cases "lf_exclusive f") (simp_all add: file_ok_def grant_simps nth_append release_target_def split: if_splits)
    next
      assume "set_kernel p (lf_kernel f') kt = Some kt' \<and> lf_kernel f' = (if shared_op oper then ReadLock else WriteLock)
        \<and> (shared_op oper \<longrightarrow> lf_kernel f = Unlocked)"
      then have "kl = ReadLock" "lf_exclusive f = None" using True kl' none by simp_all
      with f i True show ?thesis
        by (simp add: file_ok_def grant_simps f' release_target_def)
    qed
  next
    case False
    then have "lf_exclusive f = None" "kl = WriteLock" "oper \<noteq> OpOpen"
      using attempt_granted(3,4) [OF att] kl' by (auto simp: shared_op_def)
    with f i False show ?thesis
      by (simp add: file_ok_def grant_simps f' release_target_def)
  qed
qed

lemma grant_refs_ok:
  assumes refs: "refs_ok pr" and i: "pr_entry pr = Some i" "i < length (pr_files pr)"
  shows "refs_ok (grant c oper i f pr)"
proof -
  let ?g = "grant c oper i f pr" and ?n = "length (pr_holds pr)"
  have files: "length (pr_files ?g) = length (pr_files pr)" "pr_entry ?g = Some i"
    and holds: "pr_holds ?g = pr_holds pr @ [\<lparr>h_file = i, h_op = oper, h_released = False\<rparr>]"
    and rest: "pr_waiting ?g = pr_waiting pr" "pr_queue ?g = pr_queue pr"
    using i by (simp_all add: grant_simps)
  have "\<forall>h \<in> set (pr_holds ?g). h_file h < length (pr_files ?g)"
    using refs i by (auto simp: holds files refs_ok_def)
  moreover have "\<forall>j < length (pr_files ?g). pr_entry ?g \<noteq> Some j \<longrightarrow>
      lf_closed (pr_files ?g ! j) \<or> live_holds (\<lambda>_. True) j (pr_holds ?g) = 0"
    using refs i by (auto simp: holds files grant_simps(6) refs_ok_def)
  moreover have "\<forall>d. \<forall>k \<in> set (owned_by ?g d). k < length (pr_holds ?g) \<and> h_op (pr_holds ?g ! k) \<noteq> OpServe"
  proof (intro allI ballI)
    fix d k assume k: "k \<in> set (owned_by ?g d)"
    have old: "j < ?n \<and> h_op (pr_holds pr ! j) \<noteq> OpServe" if "j \<in> set (owned_by pr e)" for j e
      using refs that unfolding refs_ok_def by blast
    from k consider "k \<in> set (owned_by pr d)" | "k = ?n" "oper \<noteq> OpServe"
      by (auto simp: grant_simps(8) split: if_splits)
    then show "k < length (pr_holds ?g) \<and> h_op (pr_holds ?g ! k) \<noteq> OpServe"
      using old by cases (fastforce simp: holds nth_append)+
  qed
  moreover have "\<forall>k \<in> set (pr_queue ?g). k < length (pr_holds ?g)"
    using refs by (auto simp: holds rest refs_ok_def)
  moreover have "\<forall>r \<in> set (pr_waiting ?g). pr_entry ?g = Some (rq_file r) \<and> \<not> rq_owned r"
    unfolding rest files(2) using refs i(1) unfolding refs_ok_def by simp
  ultimately show ?thesis unfolding refs_ok_def by blast
qed

text \<open>
  A shared grant under a quiescing op went to a context that owned a hold, so it owned that op;
  a quiescing op is granted when no context owns a hold of the file.
\<close>

lemma grant_quiesce_ok:
  assumes ok: "refs_ok pr" "quiesce_ok pr" and i: "pr_entry pr = Some i" "i < length (pr_files pr)"
    and f: "file_ok 1 i (pr_files pr ! i) pr"
    and att: "attempt p oper owned (pr_files pr ! i) (pr_holds pr) kt = Some (f', kt')"
    and owned: "owned \<Longrightarrow> held_on pr i (owned_by pr c) \<noteq> []"
  shows "quiesce_ok (grant c oper i f' pr)"
  unfolding quiesce_ok_def
proof (intro allI impI)
  fix i' k d j
  let ?g = "grant c oper i f' pr" and ?n = "length (pr_holds pr)"
  assume a: "pr_entry ?g = Some i'" "lf_exclusive (pr_files ?g ! i') = Some k"
    "quiescing (h_op (pr_holds ?g ! k))" "j \<in> set (held_on ?g i' (owned_by ?g d))"
  have i': "i' = i" using a(1) i by (simp add: grant_simps)
  have ex: "lf_exclusive f' = lf_exclusive (pr_files pr ! i)"
    using attempt_granted(2) [OF att] by (metis lock_file.select_convs(4) lock_file.surjective lock_file.update_convs(5))
  have bound: "m < ?n" "h_op (pr_holds pr ! m) \<noteq> OpServe" if "m \<in> set (owned_by pr e)" for m e
    using ok(1) that unfolding refs_ok_def by blast+
  show "k \<in> set (owned_by ?g d)"
  proof (cases "shared_op oper")
    case True
    then have exk: "lf_exclusive (pr_files pr ! i) = Some k"
      using a(2) i ex by (simp add: i' grant_simps)
    then have k: "k < ?n" "\<not> h_released (pr_holds pr ! k)" using f by (simp_all add: file_ok_def)
    then have q: "quiescing (h_op (pr_holds pr ! k))" using a(3) by (simp add: grant_simps nth_append)
    have own: "k \<in> set (owned_by pr e)" if "m \<in> set (held_on pr i (owned_by pr e))" for m e
      using ok(2) i(1) exk q that unfolding quiesce_ok_def by blast
    show ?thesis
    proof (cases "oper \<noteq> OpServe \<and> d = c")
      case True
      from attempt_granted(5) [OF att \<open>shared_op oper\<close> exk q] owned have "held_on pr i (owned_by pr c) \<noteq> []" by blast
      then have "k \<in> set (owned_by pr c)" using own by (metis last_in_set)
      with True k show ?thesis by (simp add: grant_simps)
    next
      case False
      then have same: "owned_by ?g d = owned_by pr d" by (auto simp: grant_simps)
      then have "j \<in> set (held_on pr i (owned_by pr d))"
        using a(4) bound(1) by (auto simp: held_on_def i' grant_simps nth_append)
      with own same show ?thesis by metis
    qed
  next
    case False
    then have k: "k = ?n" using a(2) i by (simp add: i' grant_simps)
    then have q: "quiescing oper" using a(3) by (simp add: grant_simps)
    then have "lf_exclusive (pr_files pr ! i) = None" "lf_opens (pr_files pr ! i) = 0"
      using attempt_granted(4) [OF att False] by auto
    then have none: "live_holds (\<lambda>x. x = OpOpen) i (pr_holds pr) = 0" "live_holds (\<lambda>x. \<not> shared_op x) i (pr_holds pr) = 0"
      using f by (simp_all add: file_ok_def)
    have "m \<notin> set (held_on pr i (owned_by pr e))" for m e
    proof
      assume m: "m \<in> set (held_on pr i (owned_by pr e))"
      then have "m < ?n" "h_op (pr_holds pr ! m) \<noteq> OpServe" "h_file (pr_holds pr ! m) = i" "\<not> h_released (pr_holds pr ! m)"
        using bound by (auto simp: held_on_def)
      then show False
        using none by (cases "h_op (pr_holds pr ! m) = OpOpen") (auto simp: live_holds_eq_0 shared_op_def)
    qed
    then have empty: "h_released (pr_holds pr ! m)" if "m \<in> set (owned_by pr e)" "h_file (pr_holds pr ! m) = i" for m e
      using that by (auto simp: held_on_def)
    show ?thesis
    proof (cases "d = c \<and> oper \<noteq> OpServe")
      case True
      then show ?thesis by (simp add: grant_simps k)
    next
      case False
      then have "owned_by ?g d = owned_by pr d" by (auto simp: grant_simps)
      then have "j \<in> set (owned_by pr d)" "h_file (pr_holds ?g ! j) = i" "\<not> h_released (pr_holds ?g ! j)"
        using a(4) by (auto simp: held_on_def i')
      then have False using empty [of j d] bound(1) [of j d] by (simp add: grant_simps nth_append)
      then show ?thesis ..
    qed
  qed
qed

lemma grant_ok:
  assumes "local_ok 1 p (pr, kt)" and i: "pr_entry pr = Some i"
    and att: "attempt p oper owned (pr_files pr ! i) (pr_holds pr) kt = Some (f', kt')"
    and owned: "owned \<Longrightarrow> held_on pr i (owned_by pr c) \<noteq> []"
  shows "local_ok 0 p (grant c oper i f' pr, kt')" "others_keep p kt kt'"
proof -
  have ok: "table_ok kt" "distinct (map fst kt)" "proc_ok 1 (lock_of kt p) pr"
    using assms(1) by (simp_all add: local_ok_def)
  note e = proc_ok_entry [OF ok(3) i]
  show "others_keep p kt kt'" by (rule attempt_granted(1) [OF att])
  have "lf_kernel (pr_files (grant c oper i f' pr) ! i) = lf_kernel f'" using e(1) by (simp add: grant_simps)
  moreover have "lf_kernel f' = lock_of kt' p" using attempt_table(3) [OF att ok(1,2) e(3)] by simp
  ultimately have "proc_ok 0 (lock_of kt' p) (grant c oper i f' pr)"
    using grant_refs_ok [OF e(4) i e(1)] grant_quiesce_ok [OF e(4,5) i e(1,2) att owned]
      grant_file_ok [OF e(2,1) att] i e(1)
    by (simp add: proc_ok_def grant_simps)
  with attempt_table(1,2) [OF att ok(1,2) e(3)] show "local_ok 0 p (grant c oper i f' pr, kt')"
    by (simp add: local_ok_def)
qed

text \<open>Releasing: the counters follow the holds, and the kernel grants the weaker lock.\<close>

lemma hold_given_back_simps [simp]:
  "lf_closed (hold_given_back k oper f) = lf_closed f" "lf_kernel (hold_given_back k oper f) = lf_kernel f"
  "lf_users (hold_given_back k oper f) = lf_users f - 1"
  "lf_exclusive (hold_given_back k oper f) = (if lf_exclusive f = Some k then None else lf_exclusive f)"
  "lf_shared (hold_given_back k oper f) = (if lf_exclusive f = Some k then lf_shared f else lf_shared f - 1)"
  "lf_opens (hold_given_back k oper f) =
     (if lf_exclusive f = Some k then lf_opens f else lf_opens f - (if oper = OpOpen then 1 else 0))"
  by (simp_all add: hold_given_back_def Let_def)

lemma mark_released_nth:
  "pr_holds (mark_released k pr) ! j =
     (if j = k \<and> k < length (pr_holds pr) then (pr_holds pr ! k)\<lparr>h_released := True\<rparr> else pr_holds pr ! j)"
  by (cases "k < length (pr_holds pr)") (auto simp: mark_released_def nth_list_update list_update_beyond)

lemma mark_released_simps [simp]:
  "pr_entry (mark_released k pr) = pr_entry pr" "pr_files (mark_released k pr) = pr_files pr"
  "pr_waiting (mark_released k pr) = pr_waiting pr" "pr_queue (mark_released k pr) = pr_queue pr"
  "owned_by (mark_released k pr) c = owned_by pr c" "length (pr_holds (mark_released k pr)) = length (pr_holds pr)"
  "h_op (pr_holds (mark_released k pr) ! j) = h_op (pr_holds pr ! j)"
  "h_file (pr_holds (mark_released k pr) ! j) = h_file (pr_holds pr ! j)"
  by (simp_all add: mark_released_nth) (simp_all add: mark_released_def owned_by_def)

lemma mark_released_flag [simp]:
  "k < length (pr_holds pr) \<Longrightarrow>
     h_released (pr_holds (mark_released k pr) ! j) = (j = k \<or> h_released (pr_holds pr ! j))"
  by (simp add: mark_released_nth)

lemma live_holds_mark:
  assumes "k < length (pr_holds pr)" and "\<not> h_released (pr_holds pr ! k)"
  shows "live_holds Q i (pr_holds (mark_released k pr)) =
    live_holds Q i (pr_holds pr) - (if h_file (pr_holds pr ! k) = i \<and> Q (h_op (pr_holds pr ! k)) then 1 else 0)"
  using live_holds_released [OF assms, of Q i] by (simp add: mark_released_def)

lemma refs_ok_mark:
  assumes refs: "refs_ok pr" and k: "k < length (pr_holds pr)" "\<not> h_released (pr_holds pr ! k)"
  shows "refs_ok (mark_released k pr)"
proof -
  have "h_file h < length (pr_files pr)" if "h \<in> set (pr_holds (mark_released k pr))" for h
  proof -
    from that obtain j where "j < length (pr_holds pr)" "h = pr_holds (mark_released k pr) ! j"
      by (auto simp: in_set_conv_nth)
    then have "h_file h = h_file (pr_holds pr ! j)" "pr_holds pr ! j \<in> set (pr_holds pr)" by simp_all
    with refs show ?thesis by (simp add: refs_ok_def)
  qed
  moreover have "lf_closed (pr_files pr ! j) \<or> live_holds (\<lambda>_. True) j (pr_holds (mark_released k pr)) = 0"
    if "j < length (pr_files pr)" "pr_entry pr \<noteq> Some j" for j
    using refs that by (auto simp: refs_ok_def live_holds_mark [OF k])
  ultimately show ?thesis using refs unfolding refs_ok_def by simp
qed

lemma quiesce_ok_mark: "quiesce_ok pr \<Longrightarrow> k < length (pr_holds pr) \<Longrightarrow> quiesce_ok (mark_released k pr)"
  unfolding quiesce_ok_def by (auto simp: held_on_def)

lemma quiesce_ok_weaken:
  assumes "quiesce_ok pr" "pr_entry pr = Some i" "i < length (pr_files pr)"
    and "lf_exclusive f = lf_exclusive (pr_files pr ! i) \<or> lf_exclusive f = None"
  shows "quiesce_ok (put_file i f pr)"
proof (cases "lf_exclusive f = None")
  case True
  with assms(2,3) show ?thesis by (simp add: quiesce_ok_def)
next
  case False
  with assms show ?thesis by (intro quiesce_ok_put_file) simp_all
qed

lemma given_back_file_ok:
  assumes f: "file_ok n i f pr" and k: "k < length (pr_holds pr)" "\<not> h_released (pr_holds pr ! k)" "h_file (pr_holds pr ! k) = i"
    and g: "g = (hold_given_back k (h_op (pr_holds pr ! k)) f)\<lparr>lf_kernel := release_target (hold_given_back k (h_op (pr_holds pr ! k)) f)\<rparr>"
  shows "file_ok n i g (put_file i g (mark_released k pr))"
proof -
  let ?x = "h_op (pr_holds pr ! k)"
  have parts: "\<not> lf_closed f" "lf_shared f = live_holds shared_op i (pr_holds pr)"
    "lf_opens f = live_holds (\<lambda>x. x = OpOpen) i (pr_holds pr)"
    "live_holds (\<lambda>x. \<not> shared_op x) i (pr_holds pr) = (if lf_exclusive f = None then 0 else 1)"
    "lf_users f = live_holds (\<lambda>_. True) i (pr_holds pr) + length (pr_waiting pr) + n"
    and excl: "\<And>j. lf_exclusive f = Some j \<Longrightarrow> j < length (pr_holds pr) \<and> h_file (pr_holds pr ! j) = i
      \<and> \<not> h_released (pr_holds pr ! j) \<and> \<not> shared_op (h_op (pr_holds pr ! j))"
    using f by (simp_all add: file_ok_def)
  have some: "\<not> shared_op ?x \<Longrightarrow> lf_exclusive f = Some k"
  proof -
    assume nsh: "\<not> shared_op ?x"
    then have "0 < live_holds (\<lambda>x. \<not> shared_op x) i (pr_holds pr)" using k by (intro live_holds_pos) auto
    then obtain j where j: "lf_exclusive f = Some j" using parts(4) by (cases "lf_exclusive f") auto
    have "live_holds (\<lambda>x. \<not> shared_op x) i (pr_holds pr) = 1" using parts(4) j by simp
    then have "j = k" using live_holds_unique [of "\<lambda>x. \<not> shared_op x" i "pr_holds pr" k j] excl [OF j] k nsh by blast
    with j show ?thesis by simp
  qed
  have iff: "lf_exclusive f = Some k \<longleftrightarrow> \<not> shared_op ?x" using some excl by blast
  have pos: "0 < live_holds (\<lambda>_. True) i (pr_holds pr)" using k by (intro live_holds_pos) auto
  have others: "j \<noteq> k" if "lf_exclusive f = Some j" "lf_exclusive f \<noteq> Some k" for j using that by auto
  have target: "release_target g = lf_kernel g" by (simp add: g release_target_def)
  show ?thesis
  proof (cases "shared_op ?x")
    case True
    then have ne: "lf_exclusive f \<noteq> Some k" using iff by simp
    then have ex: "lf_exclusive g = lf_exclusive f" "lf_shared g = lf_shared f - 1" "lf_users g = lf_users f - 1" "\<not> lf_closed g"
      "lf_opens g = lf_opens f - (if ?x = OpOpen then 1 else 0)"
      using parts(1) by (simp_all add: g)
    have "live_holds (\<lambda>x. x = OpOpen) i (pr_holds (mark_released k pr)) = lf_opens g"
      "live_holds shared_op i (pr_holds (mark_released k pr)) = lf_shared g"
      "live_holds (\<lambda>x. \<not> shared_op x) i (pr_holds (mark_released k pr)) = (if lf_exclusive g = None then 0 else 1)"
      "lf_users g = live_holds (\<lambda>_. True) i (pr_holds (mark_released k pr)) + length (pr_waiting pr) + n"
      using True k(3) parts pos by (simp_all add: ex live_holds_mark [OF k(1,2)])
    moreover have "j < length (pr_holds pr) \<and> h_file (pr_holds pr ! j) = i \<and> \<not> (j = k \<or> h_released (pr_holds pr ! j))
        \<and> \<not> shared_op (h_op (pr_holds pr ! j))" if "lf_exclusive g = Some j" for j
      using excl [of j] that ne by (auto simp: ex)
    ultimately show ?thesis using target ex(4) k(1) by (simp add: file_ok_def)
  next
    case False
    then have e: "lf_exclusive f = Some k" "?x \<noteq> OpOpen" using iff by (auto simp: shared_op_def)
    then have ex: "lf_exclusive g = None" "lf_shared g = lf_shared f" "lf_users g = lf_users f - 1" "\<not> lf_closed g"
      "lf_opens g = lf_opens f"
      using parts(1) by (simp_all add: g)
    have "live_holds (\<lambda>x. x = OpOpen) i (pr_holds (mark_released k pr)) = lf_opens g"
      "live_holds shared_op i (pr_holds (mark_released k pr)) = lf_shared g"
      "live_holds (\<lambda>x. \<not> shared_op x) i (pr_holds (mark_released k pr)) = 0"
      "lf_users g = live_holds (\<lambda>_. True) i (pr_holds (mark_released k pr)) + length (pr_waiting pr) + n"
      using False k(3) parts pos e by (simp_all add: ex live_holds_mark [OF k(1,2)])
    with target ex(1,4) show ?thesis by (simp add: file_ok_def)
  qed
qed

lemma release_target_weaker:
  "conflicts (release_target (hold_given_back k oper f)) x \<Longrightarrow> conflicts (release_target f) x"
  by (cases x) (auto simp: release_target_def split: if_splits)

lemma live_hold_entry:
  assumes "proc_ok n kl pr" and "k < length (pr_holds pr)" "\<not> h_released (pr_holds pr ! k)"
    and "\<not> lf_closed (pr_files pr ! h_file (pr_holds pr ! k))"
  shows "pr_entry pr = Some (h_file (pr_holds pr ! k))"
proof (rule ccontr)
  let ?i = "h_file (pr_holds pr ! k)"
  assume "pr_entry pr \<noteq> Some ?i"
  moreover have refs: "refs_ok pr" using assms(1) by (simp add: proc_ok_def)
  moreover have "?i < length (pr_files pr)" using refs assms(2) by (simp add: refs_ok_def)
  ultimately have "live_holds (\<lambda>_. True) ?i (pr_holds pr) = 0" using assms(4) by (auto simp: refs_ok_def)
  then show False using live_holds_pos [of k "pr_holds pr" ?i "\<lambda>_. True"] assms by simp
qed

lemma release_locked_ok:
  assumes "local_ok n p (pr, kt)" and k: "k < length (pr_holds pr)" and rel: "release_locked p k (pr, kt) = (pr', kt')"
  shows "local_ok n p (pr', kt')" "others_keep p kt kt'" "length (pr_holds pr') = length (pr_holds pr)"
    "pr_waiting pr' = pr_waiting pr" "pr_queue pr' = pr_queue pr"
proof -
  let ?h = "pr_holds pr ! k"
  let ?i = "h_file ?h"
  let ?f = "pr_files pr ! ?i"
  let ?f2 = "hold_given_back k (h_op ?h) ?f"
  let ?g = "?f2\<lparr>lf_kernel := release_target ?f2\<rparr>"
  have ok: "table_ok kt" "distinct (map fst kt)" "proc_ok n (lock_of kt p) pr"
    using assms(1) by (simp_all add: local_ok_def)
  have all: "local_ok n p (pr', kt') \<and> others_keep p kt kt' \<and> length (pr_holds pr') = length (pr_holds pr)
      \<and> pr_waiting pr' = pr_waiting pr \<and> pr_queue pr' = pr_queue pr"
  proof (cases "h_released ?h \<or> lf_closed ?f")
    case True
    with rel have "pr' = pr" "kt' = kt" by (auto simp: release_locked_def Let_def)
    with assms(1) show ?thesis by simp
  next
    case False
    then have live: "\<not> h_released ?h" "\<not> lf_closed ?f" by blast+
    have i: "pr_entry pr = Some ?i" by (rule live_hold_entry [OF ok(3) k live])
    note e = proc_ok_entry [OF ok(3) i]
    have kernel: "release_target ?f = lock_of kt p" using e(2,3) by (simp add: file_ok_def)
    have "file_ok n ?i ?g (put_file ?i ?g (mark_released k pr))"
      by (rule given_back_file_ok [OF e(2) k live(1)]) simp_all
    moreover have "refs_ok (put_file ?i ?g (mark_released k pr))"
      using refs_ok_mark [OF e(4) k live(1)] i by (simp add: refs_ok_put_file)
    moreover have "quiesce_ok (put_file ?i ?g (mark_released k pr))"
      using quiesce_ok_mark [OF e(5) k] i e(1) by (intro quiesce_ok_weaken) auto
    ultimately have kept: "proc_ok n (release_target ?f2) (put_file ?i ?g (mark_released k pr))"
      using i e(1) by (simp add: proc_ok_def)
    show ?thesis
    proof (cases "release_target ?f2 = lf_kernel ?f2")
      case True
      then have g: "?g = ?f2" by simp
      have "release_locked p k (pr, kt) = (put_file ?i ?f2 (mark_released k pr), kt)"
        using False True unfolding release_locked_def Let_def prod.case by simp
      then have "pr' = put_file ?i ?g (mark_released k pr)" "kt' = kt" using rel g by simp_all
      moreover have "release_target ?f2 = lock_of kt p" using True e(3) by simp
      ultimately show ?thesis using kept ok by (simp add: local_ok_def)
    next
      case change: False
      have "\<exists>kt1. set_kernel p (release_target ?f2) kt = Some kt1"
        using ok by (intro downgrade_granted) (auto simp: kernel [symmetric] dest: release_target_weaker)
      then obtain kt1 where kt1: "set_kernel p (release_target ?f2) kt = Some kt1" by blast
      have "release_locked p k (pr, kt) = (put_file ?i ?g (mark_released k pr), kt1)"
        using False change kt1 unfolding release_locked_def Let_def prod.case by simp
      then have "pr' = put_file ?i ?g (mark_released k pr)" "kt' = kt1" using rel by simp_all
      moreover have "lock_of kt1 p = release_target ?f2" using lock_of_set [OF kt1] by simp
      ultimately show ?thesis
        using kept ok kt1 by (auto simp: local_ok_def others_keep_set table_ok_set distinct_set_kernel)
    qed
  qed
  then show "local_ok n p (pr', kt')" "others_keep p kt kt'" "length (pr_holds pr') = length (pr_holds pr)"
    "pr_waiting pr' = pr_waiting pr" "pr_queue pr' = pr_queue pr" by blast+
qed

lemma release_ok:
  assumes "local_ok n p (pr, kt)" "k < length (pr_holds pr)"
  shows "local_ok n p (release p k (pr, kt))" "others_keep p kt (snd (release p k (pr, kt)))"
proof -
  obtain pr1 kt1 where r: "release_locked p k (pr, kt) = (pr1, kt1)" by fastforce
  note rl = release_locked_ok [OF assms r]
  from sweep_ok [OF rl(1)] rl(2) show "local_ok n p (release p k (pr, kt))"
    "others_keep p kt (snd (release p k (pr, kt)))"
    by (auto simp: release_def r intro: others_keep_trans)
qed

lemma drain_queue_ok:
  assumes "local_ok n p (pr, kt)" and "\<forall>k \<in> set ks. k < length (pr_holds pr)"
    and "drain_queue p ks (pr, kt) = (pr', kt')"
  shows "local_ok n p (pr', kt') \<and> others_keep p kt kt' \<and> pr_waiting pr' = pr_waiting pr"
  using assms
proof (induction ks arbitrary: pr kt)
  case (Cons k ks)
  obtain pr1 kt1 where r: "release_locked p k (pr, kt) = (pr1, kt1)" by fastforce
  have "k < length (pr_holds pr)" using Cons.prems(2) by simp
  note rl = release_locked_ok [OF Cons.prems(1) this r]
  have "local_ok n p (pr', kt') \<and> others_keep p kt1 kt' \<and> pr_waiting pr' = pr_waiting pr1"
    using Cons.prems r rl(3) by (intro Cons.IH [OF rl(1)]) auto
  with rl show ?case by (auto intro: others_keep_trans)
qed simp

lemma queue_irrelevant:
  "file_ok n i f (pr\<lparr>pr_queue := q\<rparr>) = file_ok n i f pr"
  "quiesce_ok (pr\<lparr>pr_queue := q\<rparr>) = quiesce_ok pr"
  "refs_ok pr \<Longrightarrow> \<forall>k \<in> set q. k < length (pr_holds pr) \<Longrightarrow> refs_ok (pr\<lparr>pr_queue := q\<rparr>)"
  by (simp_all add: file_ok_def quiesce_ok_def refs_ok_def held_on_def owned_by_def)

lemma drain_ok:
  assumes "local_ok n p (pr, kt)" and d: "drain p (pr, kt) = (pr', kt')"
  shows "local_ok n p (pr', kt')" "others_keep p kt kt'" "pr_waiting pr' = pr_waiting pr"
proof -
  have "local_ok n p (pr\<lparr>pr_queue := []\<rparr>, kt)"
    using assms(1) by (simp add: local_ok_def proc_ok_def queue_irrelevant split: option.splits)
  moreover have "\<forall>k \<in> set (pr_queue pr). k < length (pr_holds (pr\<lparr>pr_queue := []\<rparr>))"
    using assms(1) by (simp add: local_ok_def proc_ok_def refs_ok_def)
  moreover have "drain_queue p (pr_queue pr) (pr\<lparr>pr_queue := []\<rparr>, kt) = (pr', kt')"
    using d by (simp add: drain_def)
  ultimately have "local_ok n p (pr', kt') \<and> others_keep p kt kt' \<and> pr_waiting pr' = pr_waiting (pr\<lparr>pr_queue := []\<rparr>)"
    by (rule drain_queue_ok)
  then show "local_ok n p (pr', kt')" "others_keep p kt kt'" "pr_waiting pr' = pr_waiting pr" by simp_all
qed

lemma waiting_ok:
  assumes "proc_ok n kl pr" "pr_entry pr = Some i" and "length ws + m = length (pr_waiting pr) + n"
    and "\<And>r. r \<in> set ws \<Longrightarrow> rq_file r = i \<and> \<not> rq_owned r"
  shows "proc_ok m kl (pr\<lparr>pr_waiting := ws\<rparr>)"
proof -
  note e = proc_ok_entry [OF assms(1,2)]
  have "refs_ok (pr\<lparr>pr_waiting := ws\<rparr>)" using e(4) assms(2,4) by (simp add: refs_ok_def owned_by_def)
  moreover have "quiesce_ok (pr\<lparr>pr_waiting := ws\<rparr>)" using e(5) by (simp add: quiesce_ok_def held_on_def owned_by_def)
  moreover have "file_ok m i (pr_files pr ! i) (pr\<lparr>pr_waiting := ws\<rparr>)" using e(2) assms(3) by (simp add: file_ok_def)
  ultimately show ?thesis using e(1,3) assms(2) by (simp add: proc_ok_def)
qed

text \<open>A context that already owns a hold never waits for a shared op.\<close>

lemma owned_shared_granted:
  assumes "file_ok n i f pr" "refs_ok pr" and own: "held_on pr i (owned_by pr c) \<noteq> []" and "shared_op oper"
  shows "attempt p oper True f (pr_holds pr) kt = Some (f, kt)"
proof -
  obtain k where "k \<in> set (held_on pr i (owned_by pr c))" using own by (metis last_in_set)
  then have k: "k \<in> set (owned_by pr c)" "h_file (pr_holds pr ! k) = i" "\<not> h_released (pr_holds pr ! k)"
    by (simp_all add: held_on_def)
  have "k < length (pr_holds pr)" using assms(2) k(1) unfolding refs_ok_def by blast
  then have "0 < live_holds (\<lambda>_. True) i (pr_holds pr)" using k(2,3) by (intro live_holds_pos) auto
  then have "0 < live_holds shared_op i (pr_holds pr) \<or> 0 < live_holds (\<lambda>x. \<not> shared_op x) i (pr_holds pr)"
    using live_holds_add [of shared_op i "pr_holds pr"] by linarith
  then have "lf_kernel f \<noteq> Unlocked"
    using assms(1) unfolding file_ok_def by (auto simp: release_target_def split: if_splits)
  with assms(4) show ?thesis by (simp add: attempt_def)
qed

lemma enter_ok:
  assumes "local_ok 0 p (pr, kt)" and ent: "enter p c oper now (pr, kt) = (a, pr', kt')"
  shows "local_ok 0 p (pr', kt')" "others_keep p kt kt'"
proof -
  obtain i pr1 kt1 where pin: "pin p (pr, kt) = (i, pr1, kt1)" by (metis prod_cases3)
  note pk = pin_ok [OF assms(1) pin, simplified]
  let ?owned = "held_on pr1 i (owned_by pr1 c) \<noteq> []"
  let ?att = "attempt p oper ?owned (pr_files pr1 ! i) (pr_holds pr1) kt1"
  have ok1: "proc_ok 1 (lock_of kt1 p) pr1" using pk(1) by (simp add: local_ok_def)
  note e = proc_ok_entry [OF ok1 pk(2)]
  have up: "local_ok 0 p (unpin p i (pr1, kt1))" "others_keep p kt (snd (unpin p i (pr1, kt1)))"
    using unpin_ok [of p pr1 kt1 i] pk by (auto intro: others_keep_trans)
  have both: "local_ok 0 p (pr', kt') \<and> others_keep p kt kt'"
  proof (cases "\<not> shared_op oper \<and> ?owned")
    case True
    then have "(pr', kt') = unpin p i (pr1, kt1)" using ent by (auto simp: enter_def pin)
    with up show ?thesis by (metis snd_conv)
  next
    case not_held: False
    show ?thesis
    proof (cases ?att)
      case (Some g)
      obtain f2 kt2 where g: "g = (f2, kt2)" by (cases g)
      have "pr' = grant c oper i f2 pr1" "kt' = kt2"
        using ent not_held Some g by (auto simp: enter_def pin Let_def)
      moreover have "local_ok 0 p (grant c oper i f2 pr1, kt2)" "others_keep p kt1 kt2"
        using grant_ok [OF _ pk(2), of p kt1 oper ?owned f2 kt2 c] pk(1) Some g by simp_all
      ultimately show ?thesis using pk(3) by (auto intro: others_keep_trans)
    next
      case None
      show ?thesis
      proof (cases "op_wait oper \<le> 0")
        case True
        then have "(pr', kt') = unpin p i (pr1, kt1)" using ent not_held None by (auto simp: enter_def pin Let_def)
        with up show ?thesis by (metis snd_conv)
      next
        case False
        then have pr': "kt' = kt1" "pr' = pr1\<lparr>pr_waiting := pr_waiting pr1 @
            [\<lparr>rq_file = i, rq_op = oper, rq_context = c, rq_owned = ?owned, rq_deadline = now + op_wait oper\<rparr>]\<rparr>"
          using ent not_held None by (auto simp: enter_def pin Let_def)
        have "\<not> ?owned"
        proof
          assume own: ?owned
          with not_held have "shared_op oper" by blast
          with own None show False using owned_shared_granted [OF e(2,4) own] by simp
        qed
        moreover have "rq_file r = i \<and> \<not> rq_owned r" if "r \<in> set (pr_waiting pr1)" for r
          using e(4) pk(2) that by (simp add: refs_ok_def)
        ultimately have "proc_ok 0 (lock_of kt1 p) pr'"
          unfolding pr' by (intro waiting_ok [OF ok1 pk(2)]) auto
        with pk show ?thesis by (simp add: pr'(1) local_ok_def)
      qed
    qed
  qed
  then show "local_ok 0 p (pr', kt')" "others_keep p kt kt'" by blast+
qed

lemma retry_ok:
  assumes "local_ok 0 p (pr, kt)" "n < length (pr_waiting pr)" and re: "retry p n now (pr, kt) = (a, pr', kt')"
  shows "local_ok 0 p (pr', kt')" "others_keep p kt kt'"
proof -
  obtain pr1 kt1 where dr: "drain p (pr, kt) = (pr1, kt1)" by fastforce
  note dk = drain_ok [OF assms(1) dr]
  let ?r = "pr_waiting pr1 ! n" let ?pr2 = "drop_request n pr1"
  have n: "n < length (pr_waiting pr1)" using dk(3) assms(2) by simp
  have ok1: "proc_ok 0 (lock_of kt1 p) pr1" using dk(1) by (simp add: local_ok_def)
  have reqs: "pr_entry pr1 = Some (rq_file r) \<and> \<not> rq_owned r" if "r \<in> set (pr_waiting pr1)" for r
    using ok1 that by (simp add: proc_ok_def refs_ok_def)
  have i: "pr_entry pr1 = Some (rq_file ?r)" "\<not> rq_owned ?r" using reqs [of ?r] n by auto
  have pr2: "pr_files ?pr2 = pr_files pr1" "pr_holds ?pr2 = pr_holds pr1" "pr_entry ?pr2 = pr_entry pr1"
    by (simp_all add: drop_request_def)
  have "proc_ok 1 (lock_of kt1 p) ?pr2" unfolding drop_request_def
  proof (rule waiting_ok [OF ok1 i(1)])
    show "length (take n (pr_waiting pr1) @ drop (Suc n) (pr_waiting pr1)) + 1 = length (pr_waiting pr1) + 0"
      using n by simp
    fix r assume "r \<in> set (take n (pr_waiting pr1) @ drop (Suc n) (pr_waiting pr1))"
    then have "r \<in> set (pr_waiting pr1)" by (auto dest: in_set_takeD in_set_dropD)
    then show "rq_file r = rq_file ?r \<and> \<not> rq_owned r" using reqs i by auto
  qed
  then have ok2: "local_ok 1 p (?pr2, kt1)" using dk(1) by (simp add: local_ok_def)
  let ?att = "attempt p (rq_op ?r) (rq_owned ?r) (pr_files pr1 ! rq_file ?r) (pr_holds pr1) kt1"
  have both: "local_ok 0 p (pr', kt') \<and> others_keep p kt kt'"
  proof (cases ?att)
    case (Some g)
    obtain f2 kt2 where g: "g = (f2, kt2)" by (cases g)
    have pr': "pr' = grant (rq_context ?r) (rq_op ?r) (rq_file ?r) f2 ?pr2" "kt' = kt2"
      using re Some g by (auto simp: retry_def dr Let_def)
    have "attempt p (rq_op ?r) False (pr_files ?pr2 ! rq_file ?r) (pr_holds ?pr2) kt1 = Some (f2, kt2)"
      using Some g i(2) by (simp add: pr2)
    from grant_ok [OF ok2 _ this] i(1) show ?thesis using dk(2) by (auto simp: pr' pr2 intro: others_keep_trans)
  next
    case None
    show ?thesis
    proof (cases "rq_deadline ?r \<le> now")
      case True
      then have "(pr', kt') = unpin p (rq_file ?r) (?pr2, kt1)" using re None by (auto simp: retry_def dr Let_def)
      with unpin_ok [OF ok2] i(1) dk(2) show ?thesis by (metis others_keep_trans pr2(3) snd_conv)
    next
      case False
      then have "pr' = pr1" "kt' = kt1" using re None by (auto simp: retry_def dr Let_def)
      with dk show ?thesis by simp
    qed
  qed
  then show "local_ok 0 p (pr', kt')" "others_keep p kt kt'" by blast+
qed

section \<open>Every reachable state\<close>

definition sys_ok :: "lock_system \<Rightarrow> bool" where
  "sys_ok S \<longleftrightarrow> table_ok (snd S) \<and> distinct (map fst (snd S)) \<and> (\<forall>p. proc_ok 0 (lock_of (snd S) p) (fst S p))"

lemma sys_ok_local: "sys_ok (P, kt) \<Longrightarrow> local_ok 0 p (P p, kt)"
  by (simp add: sys_ok_def local_ok_def)

lemma sys_ok_step:
  "sys_ok (P, kt) \<Longrightarrow> local_ok 0 p (pr, kt') \<Longrightarrow> others_keep p kt kt' \<Longrightarrow> sys_ok (P(p := pr), kt')"
  by (simp add: sys_ok_def local_ok_def others_keep_def)

lemma new_proc_ok: "proc_ok 0 Unlocked new_proc"
  by (simp add: proc_ok_def refs_ok_def quiesce_ok_def new_proc_def owned_by_def)

lemma copy_context_ok:
  assumes "proc_ok 0 kl pr"
  shows "proc_ok 0 kl (copy_context c c' pr)"
proof -
  let ?pr = "copy_context c c' pr"
  have own: "owned_by ?pr d = (if d = c' then owned_by pr c else owned_by pr d)" for d
    by (simp add: copy_context_def owned_by_def)
  have "refs_ok ?pr" using assms unfolding proc_ok_def refs_ok_def own by (simp add: copy_context_def)
  moreover have "held_on ?pr i ks = held_on pr i ks" for i ks by (simp add: held_on_def copy_context_def)
  then have "quiesce_ok ?pr" using assms unfolding proc_ok_def quiesce_ok_def own by (simp add: copy_context_def)
  moreover have "file_ok 0 i f ?pr = file_ok 0 i f pr" for i f by (simp add: file_ok_def copy_context_def)
  moreover have "pr_entry ?pr = pr_entry pr" "pr_files ?pr = pr_files pr" by (simp_all add: copy_context_def)
  ultimately show ?thesis using assms by (simp add: proc_ok_def split: option.splits)
qed

lemma forked_ok:
  assumes "proc_ok 0 kl pr"
  shows "proc_ok 0 Unlocked (forked pr)"
proof -
  have refs: "refs_ok pr" using assms by (simp add: proc_ok_def)
  have "lf_closed (pr_files (forked pr) ! j) \<or> live_holds (\<lambda>_. True) j (pr_holds pr) = 0"
    if "j < length (pr_files pr)" for j
  proof (cases "pr_entry pr = Some j")
    case True
    with that show ?thesis by (simp add: forked_def)
  next
    case False
    with refs that have "lf_closed (pr_files pr ! j) \<or> live_holds (\<lambda>_. True) j (pr_holds pr) = 0"
      by (simp add: refs_ok_def)
    moreover have "pr_files (forked pr) ! j = pr_files pr ! j"
      using False by (cases "pr_entry pr") (auto simp: forked_def)
    ultimately show ?thesis by simp
  qed
  moreover have "length (pr_files (forked pr)) = length (pr_files pr)" by (simp add: forked_def split: option.split)
  ultimately have "refs_ok (forked pr)"
    using refs unfolding refs_ok_def by (simp add: owned_by_def forked_def)
  then show ?thesis by (simp add: proc_ok_def quiesce_ok_def forked_def)
qed

lemma release_soon_ok: "proc_ok 0 kl pr \<Longrightarrow> k < length (pr_holds pr) \<Longrightarrow> proc_ok 0 kl (release_soon k pr)"
proof -
  assume a: "proc_ok 0 kl pr" "k < length (pr_holds pr)"
  then have "\<forall>j \<in> set (pr_queue pr @ [k]). j < length (pr_holds pr)" by (auto simp: proc_ok_def refs_ok_def)
  with a show ?thesis by (simp add: proc_ok_def release_soon_def queue_irrelevant split: option.splits)
qed

lemma store_reach_ok: "store_reach S \<Longrightarrow> sys_ok S"
proof (induction rule: store_reach.induct)
  case start
  show ?case by (simp add: sys_ok_def table_ok_def lock_of_def new_proc_ok)
next
  case (enters P kt p c oper now a pr kt')
  from enter_ok [OF sys_ok_local [OF enters.IH] enters.hyps(2)] sys_ok_step [OF enters.IH] show ?case by blast
next
  case (retries P kt n p now a pr kt')
  from retry_ok [OF sys_ok_local [OF retries.IH] retries.hyps(2,3)] sys_ok_step [OF retries.IH] show ?case by blast
next
  case (releases P kt k p pr kt')
  from release_ok [OF sys_ok_local [OF releases.IH] releases.hyps(2)] sys_ok_step [OF releases.IH] show ?case
    by (simp add: releases.hyps(3))
next
  case (collects P kt k p)
  then show ?case by (auto simp: sys_ok_def intro: release_soon_ok)
next
  case (drains P kt p pr kt')
  from drain_ok [OF sys_ok_local [OF drains.IH] drains.hyps(2)] sys_ok_step [OF drains.IH] show ?case by blast
next
  case (copies P kt p c c')
  then show ?case by (auto simp: sys_ok_def intro: copy_context_ok)
next
  case (dies P kt p)
  then show ?case by (auto simp: sys_ok_def new_proc_ok table_ok_drop distinct_drop)
next
  case (forks P kt q p)
  have "proc_ok 0 (lock_of kt q) (P q)" using forks.IH by (simp add: sys_ok_def)
  then have "lock_of kt q = Unlocked" by (simp add: proc_ok_def forks.hyps(2) new_proc_def)
  with forks.IH forked_ok show ?case by (auto simp: sys_ok_def)
qed

section \<open>What the lock promises\<close>

text \<open>A hold its process may rely on: taken, not released, and taken by this process itself.\<close>

definition relies_on :: "proc \<Rightarrow> nat \<Rightarrow> bool" where
  "relies_on pr k \<longleftrightarrow> k < length (pr_holds pr) \<and> \<not> h_released (pr_holds pr ! k)
     \<and> \<not> lf_closed (pr_files pr ! h_file (pr_holds pr ! k))"

definition op_of :: "proc \<Rightarrow> nat \<Rightarrow> store_op" where
  "op_of pr k = h_op (pr_holds pr ! k)"

lemma relies_on_entry:
  assumes "proc_ok 0 kl pr" and "relies_on pr k"
  obtains i where "pr_entry pr = Some i" "file_ok 0 i (pr_files pr ! i) pr" "lf_kernel (pr_files pr ! i) = kl"
    "h_file (pr_holds pr ! k) = i" "k < length (pr_holds pr)" "\<not> h_released (pr_holds pr ! k)"
proof -
  have k: "k < length (pr_holds pr)" "\<not> h_released (pr_holds pr ! k)" "\<not> lf_closed (pr_files pr ! h_file (pr_holds pr ! k))"
    using assms(2) by (simp_all add: relies_on_def)
  note i = live_hold_entry [OF assms(1) k]
  from that [OF i] proc_ok_entry [OF assms(1) i] k show ?thesis by blast
qed

lemma exclusive_of:
  assumes "proc_ok 0 kl pr" and "relies_on pr k" and "\<not> shared_op (op_of pr k)"
  obtains i where "pr_entry pr = Some i" "file_ok 0 i (pr_files pr ! i) pr" "lf_exclusive (pr_files pr ! i) = Some k"
    "kl = WriteLock" "h_file (pr_holds pr ! k) = i"
proof -
  from assms(1,2) obtain i where i: "pr_entry pr = Some i" "file_ok 0 i (pr_files pr ! i) pr"
    "lf_kernel (pr_files pr ! i) = kl" "h_file (pr_holds pr ! k) = i" "k < length (pr_holds pr)" "\<not> h_released (pr_holds pr ! k)"
    by (rule relies_on_entry)
  let ?f = "pr_files pr ! i"
  have cnt: "live_holds (\<lambda>x. \<not> shared_op x) i (pr_holds pr) = (if lf_exclusive ?f = None then 0 else 1)"
    and excl: "\<And>j. lf_exclusive ?f = Some j \<Longrightarrow> j < length (pr_holds pr) \<and> h_file (pr_holds pr ! j) = i
        \<and> \<not> h_released (pr_holds pr ! j) \<and> \<not> shared_op (h_op (pr_holds pr ! j))"
    using i(2) by (simp_all add: file_ok_def)
  have pos: "0 < live_holds (\<lambda>x. \<not> shared_op x) i (pr_holds pr)"
    using i(4-6) assms(3) by (intro live_holds_pos) (auto simp: op_of_def)
  then obtain j where j: "lf_exclusive ?f = Some j" using cnt by (cases "lf_exclusive ?f") auto
  have one: "live_holds (\<lambda>x. \<not> shared_op x) i (pr_holds pr) = 1" using cnt j by simp
  have "j = k" using live_holds_unique [OF one] i(4-6) assms(3) excl [OF j] unfolding op_of_def by blast
  moreover have "kl = WriteLock" using i(2,3) j by (simp add: file_ok_def release_target_def)
  ultimately show ?thesis using that i j by blast
qed

lemma relies_on_locked:
  assumes "proc_ok 0 kl pr" and "relies_on pr k"
  shows "kl \<noteq> Unlocked"
proof (cases "shared_op (op_of pr k)")
  case True
  from assms obtain i where i: "file_ok 0 i (pr_files pr ! i) pr" "lf_kernel (pr_files pr ! i) = kl"
    "h_file (pr_holds pr ! k) = i" "k < length (pr_holds pr)" "\<not> h_released (pr_holds pr ! k)"
    by (rule relies_on_entry) blast
  have "0 < live_holds shared_op i (pr_holds pr)" using i(3-5) True by (intro live_holds_pos) (auto simp: op_of_def)
  with i(1,2) show ?thesis by (auto simp: file_ok_def release_target_def)
next
  case False
  from exclusive_of [OF assms False] show ?thesis by (metis kernel_lock.distinct(4))
qed

text \<open>
  C23: an op that replaces or destroys the store excludes every other process. In every state any
  number of processes reach by taking, retrying, releasing, collecting, forking and dying, a hold
  of such an op means the kernel holds the write lock for its process, that no other process
  relies on any hold, and that the other holds of its own process are opens and serves.
\<close>

theorem store_lock_excludes:
  assumes "store_reach (P, kt)" and "relies_on (P p) k" and "\<not> shared_op (op_of (P p) k)" and "relies_on (P q) j"
  shows "lock_of kt p = WriteLock \<and> q = p \<and> (j = k \<or> shared_op (op_of (P q) j))"
proof -
  have ok: "table_ok kt" "proc_ok 0 (lock_of kt x) (P x)" for x
    using store_reach_ok [OF assms(1)] by (simp_all add: sys_ok_def)
  from exclusive_of [OF ok(2) assms(2,3)] obtain i where i: "pr_entry (P p) = Some i"
    "lf_exclusive (pr_files (P p) ! i) = Some k" "lock_of kt p = WriteLock" by blast
  have q: "q = p"
  proof (rule ccontr)
    assume "q \<noteq> p"
    with ok(1) i(3) have "lock_of kt q = Unlocked" unfolding table_ok_def by (metis conflicts.simps(3))
    with relies_on_locked [OF ok(2) assms(4)] show False by simp
  qed
  have "j = k" if ex: "\<not> shared_op (op_of (P q) j)"
  proof -
    from exclusive_of [OF ok(2) assms(4) ex] obtain i' where "pr_entry (P q) = Some i'"
      "lf_exclusive (pr_files (P q) ! i') = Some j" by blast
    with i q show ?thesis by simp
  qed
  with i(3) q show ?thesis by blast
qed

text \<open>Under a quiescing op only a context that owns it takes anything.\<close>

lemma quiesced_attempt:
  assumes "lf_exclusive f = Some k" and "quiescing (h_op (holds ! k))"
  shows "attempt p oper False f holds kt = None"
  using assms by (simp add: attempt_def)

lemma release_locked_other:
  assumes "release_locked p j (pr, kt) = (pr', kt')" and "j \<noteq> k" and "relies_on pr k"
  shows "relies_on pr' k" "op_of pr' k = op_of pr k"
proof -
  let ?h = "pr_holds pr ! j"
  have "pr' = pr \<or> (\<exists>f. pr' = put_file (h_file ?h) f (mark_released j pr)
      \<and> lf_closed f = lf_closed (pr_files pr ! h_file ?h))"
    using assms(1) unfolding release_locked_def Let_def prod.case
    by (auto split: if_splits option.splits)
  moreover have "relies_on (put_file i f (mark_released j pr)) k \<and> op_of (put_file i f (mark_released j pr)) k = op_of pr k"
    if "lf_closed f = lf_closed (pr_files pr ! i)" for i f
    using assms(2,3) that
    by (cases "i < length (pr_files pr)")
      (auto simp: relies_on_def op_of_def mark_released_nth nth_list_update list_update_beyond)
  ultimately show "relies_on pr' k" "op_of pr' k = op_of pr k" using assms(3) by auto
qed

lemma drain_queue_other:
  "drain_queue p ks (pr, kt) = (pr', kt') \<Longrightarrow> k \<notin> set ks \<Longrightarrow> relies_on pr k
    \<Longrightarrow> relies_on pr' k \<and> op_of pr' k = op_of pr k"
proof (induction ks arbitrary: pr kt)
  case (Cons j ks)
  obtain pr1 kt1 where r: "release_locked p j (pr, kt) = (pr1, kt1)" by fastforce
  from Cons.prems(2) have "j \<noteq> k" by auto
  note rl = release_locked_other [OF r this Cons.prems(3)]
  from Cons.prems r have "drain_queue p ks (pr1, kt1) = (pr', kt')" "k \<notin> set ks" by simp_all
  from Cons.IH [OF this rl(1)] rl(2) show ?case by simp
qed simp

lemma pin_kept:
  assumes "proc_ok 0 (lock_of kt p) pr" and "relies_on pr k" and "pr_entry pr = Some i"
  shows "pin p (pr, kt) = (i, put_file i ((pr_files pr ! i)\<lparr>lf_users := lf_users (pr_files pr ! i) + 1\<rparr>) pr, kt)"
proof -
  from assms(1,2) obtain i' where i: "pr_entry pr = Some i'" "file_ok 0 i' (pr_files pr ! i') pr"
    "h_file (pr_holds pr ! k) = i'" "k < length (pr_holds pr)" "\<not> h_released (pr_holds pr ! k)"
    by (rule relies_on_entry) blast
  have "0 < live_holds (\<lambda>_. True) i' (pr_holds pr)" using i(3-5) by (intro live_holds_pos) auto
  then have "lf_users (pr_files pr ! i') \<noteq> 0" using i(2) by (simp add: file_ok_def)
  with i(1) assms(3) show ?thesis by (simp add: pin_def sweep_idle_def)
qed

text \<open>
  While an op that quiesces the store is held, nothing else of its process starts to use the
  store but what its own context starts. An acquire of whatever op is granted at once only to a
  context that owns the quiescing op, and no waiting request is granted before it is released.
\<close>

theorem quiescing_op_shuts_out:
  assumes "store_reach (P, kt)" and k: "relies_on (P p) k" "quiescing (op_of (P p) k)" "k \<notin> set (pr_queue (P p))"
    and n: "n < length (pr_waiting (P p))"
  shows "(k \<in> set (owned_by (P p) c) \<or> (\<forall>j. fst (enter p c oper now (P p, kt)) \<noteq> Acquired j))
    \<and> (\<forall>j. fst (retry p n later (P p, kt)) \<noteq> Acquired j)"
proof
  have sys: "sys_ok (P, kt)" by (rule store_reach_ok [OF assms(1)])
  then have ok: "proc_ok 0 (lock_of kt p) (P p)" by (simp add: sys_ok_def)
  have excl: "\<not> shared_op (op_of (P p) k)" using k(2) by (auto simp: quiescing_def shared_op_def)
  from exclusive_of [OF ok k(1) excl] obtain i where i: "pr_entry (P p) = Some i"
    "lf_exclusive (pr_files (P p) ! i) = Some k" by blast
  have q: "quiescing (h_op (pr_holds (P p) ! k))" using k(2) by (simp add: op_of_def)
  note pin = pin_kept [OF ok k(1) i(1)]
  let ?f = "(pr_files (P p) ! i)\<lparr>lf_users := lf_users (pr_files (P p) ! i) + 1\<rparr>"
  have il: "i < length (pr_files (P p))" by (rule proc_ok_entry(1) [OF ok i(1)])
  show "k \<in> set (owned_by (P p) c) \<or> (\<forall>j. fst (enter p c oper now (P p, kt)) \<noteq> Acquired j)"
  proof (cases "held_on (P p) i (owned_by (P p) c) = []")
    case False
    then obtain j where "j \<in> set (held_on (P p) i (owned_by (P p) c))" by (metis last_in_set)
    with proc_ok_entry(5) [OF ok i(1)] i q have "k \<in> set (owned_by (P p) c)" unfolding quiesce_ok_def by blast
    then show ?thesis ..
  next
    case True
    have "held_on (put_file i ?f (P p)) i ks = held_on (P p) i ks" for ks by (simp add: held_on_def)
    moreover have "attempt p oper False ?f (pr_holds (P p)) kt = None"
      using i(2) q by (intro quiesced_attempt) simp_all
    ultimately have "fst (enter p c oper now (P p, kt)) \<noteq> Acquired j" for j
      using True il by (simp add: enter_def pin Let_def)
    then show ?thesis by blast
  qed
  obtain pr1 kt1 where dr: "drain p (P p, kt) = (pr1, kt1)" by fastforce
  note dk = drain_ok [OF sys_ok_local [OF sys] dr]
  have "relies_on ((P p)\<lparr>pr_queue := []\<rparr>) k" using k(1) by (simp add: relies_on_def)
  then have rel: "relies_on pr1 k" "op_of pr1 k = op_of (P p) k"
    using drain_queue_other [of p "pr_queue (P p)" "(P p)\<lparr>pr_queue := []\<rparr>" kt pr1 kt1 k] dr k(3)
    by (simp_all add: drain_def op_of_def)
  have ok1: "proc_ok 0 (lock_of kt1 p) pr1" using dk(1) by (simp add: local_ok_def)
  have "\<not> shared_op (op_of pr1 k)" using excl rel(2) by simp
  from exclusive_of [OF ok1 rel(1) this] obtain i1 where i1: "pr_entry pr1 = Some i1"
    "lf_exclusive (pr_files pr1 ! i1) = Some k" by blast
  have "pr_waiting pr1 ! n \<in> set (pr_waiting pr1)" using dk(3) n by simp
  then have r: "rq_file (pr_waiting pr1 ! n) = i1" "\<not> rq_owned (pr_waiting pr1 ! n)"
    using ok1 i1(1) by (auto simp: proc_ok_def refs_ok_def)
  have "attempt p (rq_op (pr_waiting pr1 ! n)) False (pr_files pr1 ! i1) (pr_holds pr1) kt1 = None"
  proof (rule quiesced_attempt)
    show "lf_exclusive (pr_files pr1 ! i1) = Some k" by (rule i1(2))
    have "op_of pr1 k = op_of (P p) k" by (rule rel(2))
    with k(2) show "quiescing (h_op (pr_holds pr1 ! k))" unfolding op_of_def by metis
  qed
  then show "\<forall>j. fst (retry p n later (P p, kt)) \<noteq> Acquired j"
    by (auto simp: retry_def dr Let_def r)
qed

section \<open>Busy changes nothing\<close>

lemma sweep_keeps_locks:
  assumes "local_ok n p s"
  shows "lock_of (snd (sweep_idle p s)) q = lock_of (snd s) q"
proof -
  obtain pr kt where s: "s = (pr, kt)" by (cases s)
  show ?thesis
  proof (cases "\<exists>i. pr_entry pr = Some i \<and> lf_users (pr_files pr ! i) = 0")
    case True
    then obtain i where i: "pr_entry pr = Some i" "lf_users (pr_files pr ! i) = 0" by blast
    have "proc_ok n (lock_of kt p) pr" using assms by (simp add: s local_ok_def)
    note e = proc_ok_entry [OF this i(1)]
    have "live_holds (\<lambda>_. True) i (pr_holds pr) = 0" using e(2) i(2) by (simp add: file_ok_def)
    then have "live_holds shared_op i (pr_holds pr) = 0" "live_holds (\<lambda>x. \<not> shared_op x) i (pr_holds pr) = 0"
      using live_holds_add [of shared_op i "pr_holds pr"] by simp_all
    then have "lock_of kt p = Unlocked"
      using e(2,3) by (auto simp: file_ok_def release_target_def split: if_splits)
    with i show ?thesis by (simp add: s sweep_idle_def)
  next
    case False
    then show ?thesis by (auto simp: s sweep_idle_def split: option.split)
  qed
qed

lemma sweep_keeps_holds: "pr_holds (fst (sweep_idle p s)) = pr_holds (fst s)" "pr_owned (fst (sweep_idle p s)) = pr_owned (fst s)"
  by (cases s; simp add: sweep_idle_def split: option.split)+

text \<open>
  An acquire that is refused, because the wait ran out or because its context already holds
  the store, leaves every lock of every process and every hold as it was, whatever the descriptor
  table had to open or close for it.
\<close>

theorem refused_acquire_changes_nothing:
  assumes "store_reach (P, kt)" and ent: "enter p c oper now (P p, kt) = (a, pr, kt')"
    and refused: "a = StoreBusy \<or> a = AlreadyHeld"
  shows "lock_of kt' q = lock_of kt q \<and> pr_holds pr = pr_holds (P p) \<and> owned_by pr d = owned_by (P p) d"
proof -
  have loc: "local_ok 0 p (P p, kt)" by (rule sys_ok_local [OF store_reach_ok [OF assms(1)]])
  obtain i pr1 kt1 where pin: "pin p (P p, kt) = (i, pr1, kt1)" by (metis prod_cases3)
  note pk = pin_ok [OF loc pin, simplified]
  have un: "(pr, kt') = unpin p i (pr1, kt1)"
    using ent refused by (auto simp: enter_def pin Let_def split: if_splits option.splits)
  obtain pr0 kt0 where sw: "sweep_idle p (P p, kt) = (pr0, kt0)" by fastforce
  have kt0: "lock_of kt0 q = lock_of kt q" "pr_holds pr0 = pr_holds (P p)" "pr_owned pr0 = pr_owned (P p)"
    using sweep_keeps_locks [OF loc, of q] sweep_keeps_holds [of p "(P p, kt)"] by (simp_all add: sw)
  have pin1: "kt1 = kt0" "pr_holds pr1 = pr_holds pr0" "pr_owned pr1 = pr_owned pr0"
    using pin by (auto simp: pin_def sw split: option.splits)
  let ?pr2 = "put_file i ((pr_files pr1 ! i)\<lparr>lf_users := lf_users (pr_files pr1 ! i) - 1\<rparr>) pr1"
  have ok1: "proc_ok 1 (lock_of kt1 p) pr1" using pk(1) by (simp add: local_ok_def)
  have "0 < lf_users (pr_files pr1 ! i)" using proc_ok_entry(2) [OF ok1 pk(2)] by (simp add: file_ok_def)
  then have "proc_ok 0 (lock_of kt1 p) ?pr2" by (intro proc_ok_users [OF ok1 pk(2)]) simp
  then have "local_ok 0 p (?pr2, kt1)" using pk(1) by (simp add: local_ok_def)
  then have "lock_of kt' q = lock_of kt1 q"
    using sweep_keeps_locks [of 0 p "(?pr2, kt1)" q] un by (simp add: unpin_def) (metis snd_conv)
  moreover have "pr_holds pr = pr_holds pr1" "pr_owned pr = pr_owned pr1"
    using sweep_keeps_holds [of p "(?pr2, kt1)"] un by (simp_all add: unpin_def) (metis fst_conv)+
  ultimately show ?thesis using kt0 pin1 by (simp add: owned_by_def)
qed

section \<open>A restore beside an open\<close>

text \<open>
  Context 0 of process 0 takes the store for a restore, context 1 asks to open it and waits, and
  context 0 opens it itself.
\<close>

definition restored :: "proc \<times> lock_table" where
  "restored = snd (enter 0 0 OpRestore 0 (new_proc, []))"

definition restored_waited :: "proc \<times> lock_table" where
  "restored_waited = snd (enter 0 1 OpOpen 0 restored)"

definition restored_opened :: "proc \<times> lock_table" where
  "restored_opened = snd (enter 0 0 OpOpen 0 restored_waited)"

definition only_first :: "proc \<Rightarrow> nat \<Rightarrow> proc" where
  "only_first pr = (\<lambda>_. new_proc)(0 := pr)"

lemma only_first_simps [simp]: "only_first pr 0 = pr" "(only_first pr)(0 := pr') = only_first pr'"
  by (simp_all add: only_first_def)

lemma enters_first:
  assumes "store_reach (only_first (fst s), snd s)"
  shows "store_reach (only_first (fst (snd (enter 0 c oper now s))), snd (snd (enter 0 c oper now s)))"
proof -
  have "enter 0 c oper now (only_first (fst s) 0, snd s) =
      (fst (enter 0 c oper now s), fst (snd (enter 0 c oper now s)), snd (snd (enter 0 c oper now s)))"
    by simp
  from store_reach.enters [OF assms this] show ?thesis by simp
qed

lemma restored_opened_reached: "store_reach (only_first (fst restored_opened), snd restored_opened)"
proof -
  have "(\<lambda>_. new_proc) = only_first new_proc" by (simp add: only_first_def fun_eq_iff)
  then have "store_reach (only_first (fst (new_proc, [])), snd (new_proc, []))" using store_reach.start by simp
  from enters_first [OF enters_first [OF enters_first [OF this]]] show ?thesis
    unfolding restored_opened_def restored_waited_def restored_def .
qed

lemma restored_opened_facts:
  "relies_on (fst restored_opened) 0" "relies_on (fst restored_opened) 1"
  "op_of (fst restored_opened) 0 = OpRestore" "op_of (fst restored_opened) 1 = OpOpen"
  "pr_queue (fst restored_opened) = []" "length (pr_waiting (fst restored_opened)) = 1"
  "owned_by (fst restored_opened) 1 = []"
  by code_simp+

theorem store_lock_excludes_witness:
  "lock_of (snd restored_opened) 0 = WriteLock \<and> shared_op (op_of (fst restored_opened) 1)"
  using store_lock_excludes [OF restored_opened_reached, of 0 0 0 1] restored_opened_facts
  by (simp add: shared_op_def)

theorem quiescing_op_shuts_out_witness:
  "fst (enter 0 1 OpSnapshot 5 restored_opened) \<noteq> Acquired 2 \<and> fst (retry 0 0 9 restored_opened) \<noteq> Acquired 2"
  using quiescing_op_shuts_out [OF restored_opened_reached, of 0 0 0 1 OpSnapshot 5 9] restored_opened_facts
  by (simp add: quiescing_def)

theorem refused_acquire_changes_nothing_witness:
  "fst (enter 0 1 OpSnapshot 5 restored_opened) = StoreBusy
     \<and> lock_of (snd (snd (enter 0 1 OpSnapshot 5 restored_opened))) 0 = lock_of (snd restored_opened) 0"
proof -
  have busy: "fst (enter 0 1 OpSnapshot 5 restored_opened) = StoreBusy" by code_simp
  then show ?thesis
    using refused_acquire_changes_nothing [OF restored_opened_reached, of 0 1 OpSnapshot 5
        StoreBusy "fst (snd (enter 0 1 OpSnapshot 5 restored_opened))" "snd (snd (enter 0 1 OpSnapshot 5 restored_opened))" 0]
    by (metis only_first_simps(1) prod.collapse)
qed

end
