(* ===== verification/LiveStores.thy ===== *)
theory LiveStores
  imports Prelude
begin

text \<open>
  Which store files a process holds open, and how its other descriptors coexist with them
  (\<^verbatim>\<open>_live_stores.py\<close>). Closing any descriptor on a file drops every POSIX lock the process holds on
  it, so the registry decides which reader descriptors may be closed and when. A body under
  \<open>FD_LOCK\<close> is one step. \<open>stat\<close> is what \<open>current_identity\<close> sees of the file system at that step.
  Not modelled: what a forked child does, and the classes that guard an inherited connection.
\<close>

section \<open>State\<close>

datatype identity = Ino nat nat   \<comment> \<open>device and inode\<close>

record open_store =
  os_paths :: "string list"
  os_count :: nat
  os_sidecars :: "identity list"
  os_shm :: "string list"

text \<open>
  The module's globals, and the process as the kernel and the driver see it: the reader
  descriptors, the connections that are open, and the inodes it holds POSIX locks on.
\<close>

record registry =
  lr_open :: "(identity, open_store) dict"
  lr_leases :: "(identity, nat list) dict"
  lr_parked :: "(identity \<times> nat) list"
  lr_read_locks :: "(identity, nat) dict"
  lr_deferred :: "(identity, nat list) dict"
  lr_lock_files :: "identity list"
  lr_cache :: "identity list option"
  lr_finalized :: "(identity \<times> nat) list"
  lr_done :: "nat list"
  lr_connections :: "(nat, identity) dict"
  lr_fds :: "(nat, identity) dict"
  lr_conns :: "(nat, identity) dict"
  lr_wal :: "(identity \<times> identity) list"   \<comment> \<open>a store and a sidecar its connections lock\<close>
  lr_locked :: "identity list"

definition empty_registry :: registry where
  "empty_registry = \<lparr>lr_open = [], lr_leases = [], lr_parked = [], lr_read_locks = [], lr_deferred = [],
     lr_lock_files = [], lr_cache = None, lr_finalized = [], lr_done = [], lr_connections = [], lr_fds = [], lr_conns = [], lr_wal = [], lr_locked = []\<rparr>"

definition max_parked :: nat where "max_parked = 64"

definition new_store :: open_store where
  "new_store = \<lparr>os_paths = [], os_count = 0, os_sidecars = [], os_shm = []\<rparr>"

section \<open>Closing descriptors and connections\<close>

text \<open>\<open>os.close\<close>, and the driver's close: SQLite keeps its locks while it has another connection.\<close>

definition os_close :: "nat \<Rightarrow> registry \<Rightarrow> registry" where
  "os_close fd r = (case map_of (lr_fds r) fd of
       None \<Rightarrow> r
     | Some i \<Rightarrow> r\<lparr>lr_fds := AList.delete fd (lr_fds r), lr_locked := filter (\<lambda>j. j \<noteq> i) (lr_locked r)\<rparr>)"

definition close_all :: "nat list \<Rightarrow> registry \<Rightarrow> registry" where
  "close_all fds r = foldl (\<lambda>r fd. os_close fd r) r fds"

definition connected :: "registry \<Rightarrow> identity \<Rightarrow> bool" where
  "connected r i \<longleftrightarrow> i \<in> set (map snd (lr_conns r))"

definition drop_unless_connected :: "identity \<Rightarrow> registry \<Rightarrow> registry" where
  "drop_unless_connected i r =
     (if connected r i then r
      else let wal = filter (\<lambda>p. fst p \<noteq> i) (lr_wal r) in
        r\<lparr>lr_wal := wal,
          lr_locked := filter (\<lambda>j. j \<noteq> i \<and> ((i, j) \<notin> set (lr_wal r) \<or> j \<in> snd ` set wal)) (lr_locked r)\<rparr>)"

definition driver_close :: "nat \<Rightarrow> registry \<Rightarrow> registry" where
  "driver_close c r = (case map_of (lr_conns r) c of
       None \<Rightarrow> r
     | Some i \<Rightarrow> drop_unless_connected i (r\<lparr>lr_conns := AList.delete c (lr_conns r)\<rparr>))"

section \<open>Sidecars and live inodes\<close>

definition sidecar_suffixes :: "string list" where
  "sidecar_suffixes = [''-wal'', ''-shm'', ''-journal'']"

definition note_sidecar :: "string \<Rightarrow> string \<Rightarrow> identity option \<Rightarrow> open_store \<Rightarrow> open_store" where
  "note_sidecar path ending found st = (case found of
       None \<Rightarrow> st
     | Some s \<Rightarrow> if s \<in> set (os_sidecars st) then st
                 else st\<lparr>os_sidecars := os_sidecars st @ [s],
                         os_shm := (if ending = ''-shm'' then os_shm st @ [path] else os_shm st)\<rparr>)"

definition record_sidecars :: "(string \<Rightarrow> identity option) \<Rightarrow> identity \<Rightarrow> open_store \<Rightarrow> open_store" where
  "record_sidecars stat i st =
     foldl (\<lambda>st path. if stat path \<noteq> Some i then st
                      else foldl (\<lambda>st ending. note_sidecar path ending (stat (path @ ending)) st) st sidecar_suffixes)
       st (os_paths st)"

definition probes :: "open_store \<Rightarrow> bool" where
  "probes st \<longleftrightarrow> \<not> set (os_paths st) \<subseteq> set (os_shm st)"

definition live_set :: "registry \<Rightarrow> identity list" where
  "live_set r = map fst (lr_open r) @ lr_lock_files r @ concat (map (\<lambda>(_, st). os_sidecars st) (lr_open r))"

lemma live_set_frame [simp]:
  "live_set (r\<lparr>lr_cache := a\<rparr>) = live_set r" "live_set (r\<lparr>lr_parked := b\<rparr>) = live_set r"
  "live_set (r\<lparr>lr_leases := c\<rparr>) = live_set r" "live_set (r\<lparr>lr_fds := d\<rparr>) = live_set r"
  "live_set (r\<lparr>lr_locked := e\<rparr>) = live_set r" "live_set (r\<lparr>lr_done := f\<rparr>) = live_set r"
  "live_set (r\<lparr>lr_finalized := g\<rparr>) = live_set r" "live_set (r\<lparr>lr_read_locks := h\<rparr>) = live_set r"
  "live_set (r\<lparr>lr_deferred := i\<rparr>) = live_set r" "live_set (r\<lparr>lr_conns := j\<rparr>) = live_set r"
  "live_set (r\<lparr>lr_wal := k\<rparr>) = live_set r" "live_set (r\<lparr>lr_connections := l\<rparr>) = live_set r"
  by (simp_all add: live_set_def)

text \<open>\<open>_live_identities\<close>: the cache is dropped whenever a sidecar is recorded.\<close>

definition probed :: "(string \<Rightarrow> identity option) \<Rightarrow> identity \<times> open_store \<Rightarrow> identity \<times> open_store" where
  "probed stat = (\<lambda>(i, st). (i, if probes st then record_sidecars stat i st else st))"

definition probe_stores :: "(string \<Rightarrow> identity option) \<Rightarrow> registry \<Rightarrow> registry" where
  "probe_stores stat r =
     r\<lparr>lr_open := map (probed stat) (lr_open r),
       lr_cache := (if map (os_sidecars \<circ> snd \<circ> probed stat) (lr_open r) = map (os_sidecars \<circ> snd) (lr_open r)
                    then lr_cache r else None)\<rparr>"

definition live_identities :: "(string \<Rightarrow> identity option) \<Rightarrow> registry \<Rightarrow> identity list \<times> registry" where
  "live_identities stat r =
     (let r1 = probe_stores stat r
      in case lr_cache r1 of Some live \<Rightarrow> (live, r1)
         | None \<Rightarrow> (live_set r1, r1\<lparr>lr_cache := Some (live_set r1)\<rparr>))"

section \<open>Releases\<close>

definition close_unparked :: "(string \<Rightarrow> identity option) \<Rightarrow> registry \<Rightarrow> registry" where
  "close_unparked stat r =
     (let (live, r1) = live_identities stat (r\<lparr>lr_cache := None\<rparr>);
          gone = filter (\<lambda>p. fst p \<notin> set live) (lr_parked r1)
      in close_all (map snd gone) (r1\<lparr>lr_parked := filter (\<lambda>p. fst p \<in> set live) (lr_parked r1)\<rparr>))"

definition apply_release :: "(string \<Rightarrow> identity option) \<Rightarrow> identity \<Rightarrow> nat \<Rightarrow> registry \<Rightarrow> registry" where
  "apply_release stat i c r =
     (if c \<in> set (lr_done r) then r
      else let r1 = r\<lparr>lr_done := lr_done r @ [c]\<rparr> in
        case map_of (lr_open r1) i of
          None \<Rightarrow> r1
        | Some st \<Rightarrow>
            if 1 < os_count st then r1\<lparr>lr_open := dict_set i (st\<lparr>os_count := os_count st - 1\<rparr>) (lr_open r1)\<rparr>
            else close_unparked stat (r1\<lparr>lr_open := AList.delete i (lr_open r1)\<rparr>))"

fun drain_releases :: "(string \<Rightarrow> identity option) \<Rightarrow> (identity \<times> nat) list \<Rightarrow> registry \<Rightarrow> registry" where
  "drain_releases stat [] r = r"
| "drain_releases stat ((i, c) # q) r = drain_releases stat q (apply_release stat i c r)"

definition drain_finalized :: "(string \<Rightarrow> identity option) \<Rightarrow> registry \<Rightarrow> registry" where
  "drain_finalized stat r = drain_releases stat (lr_finalized r) (r\<lparr>lr_finalized := []\<rparr>)"

definition release_connection :: "(string \<Rightarrow> identity option) \<Rightarrow> identity \<Rightarrow> nat \<Rightarrow> registry \<Rightarrow> registry" where
  "release_connection stat i c r = apply_release stat i c (drain_finalized stat r)"

text \<open>A collected connection: the driver closes it, its release is only queued.\<close>

definition finalize :: "identity \<Rightarrow> nat \<Rightarrow> registry \<Rightarrow> registry" where
  "finalize i c r = (driver_close c r)\<lparr>lr_finalized := lr_finalized r @ [(i, c)]\<rparr>"

definition track_lock_file :: "(string \<Rightarrow> identity option) \<Rightarrow> identity \<Rightarrow> bool \<Rightarrow> registry \<Rightarrow> registry" where
  "track_lock_file stat i opened r =
     close_unparked stat (r\<lparr>lr_lock_files := (if opened then List.insert i (lr_lock_files r)
                                               else filter (\<lambda>j. j \<noteq> i) (lr_lock_files r))\<rparr>)"

section \<open>Readers\<close>

text \<open>\<open>_live_leases\<close>, which drops the leases of descriptors closed by hand.\<close>

definition held_leases :: "identity \<Rightarrow> registry \<Rightarrow> nat list" where
  "held_leases i r = filter (\<lambda>fd. map_of (lr_fds r) fd = Some i) (dict_get (lr_leases r) i [])"

definition leased :: "registry \<Rightarrow> identity option \<Rightarrow> bool" where
  "leased r found = (case found of None \<Rightarrow> False | Some i \<Rightarrow> held_leases i r \<noteq> [])"

definition sweep_leases :: "identity option \<Rightarrow> registry \<Rightarrow> registry" where
  "sweep_leases found r = (case found of
       None \<Rightarrow> r
     | Some i \<Rightarrow> if map_of (lr_leases r) i = None then r
                 else if held_leases i r = [] then r\<lparr>lr_leases := AList.delete i (lr_leases r)\<rparr>
                 else r\<lparr>lr_leases := dict_set i (held_leases i r) (lr_leases r)\<rparr>)"

definition is_known_live :: "(string \<Rightarrow> identity option) \<Rightarrow> identity option \<Rightarrow> registry \<Rightarrow> bool \<times> registry" where
  "is_known_live stat found r0 =
     (let r = drain_finalized stat r0 in
      if max_parked \<le> length (lr_parked r) then (True, r)
      else if lr_open r = [] \<and> lr_lock_files r = [] then (False, r)
      else case found of
             None \<Rightarrow> (False, r)
           | Some i \<Rightarrow> let (live, r1) = live_identities stat r in (i \<in> set live, r1))"

text \<open>The reader has just opened \<open>fd\<close>; \<open>False\<close> says its descriptor was parked.\<close>

definition admit_reader_fd :: "(string \<Rightarrow> identity option) \<Rightarrow> nat \<Rightarrow> identity \<Rightarrow> registry \<Rightarrow> bool \<times> registry" where
  "admit_reader_fd stat fd i r0 =
     (let r = drain_finalized stat r0;
          (live, r1) = (if lr_open r \<noteq> [] \<or> lr_lock_files r \<noteq> [] then live_identities stat r else ([], r))
      in if i \<in> set live then (False, r1\<lparr>lr_parked := lr_parked r1 @ [(i, fd)]\<rparr>)
         else (True, r1\<lparr>lr_leases := dict_set i (List.insert fd (dict_get (lr_leases r1) i [])) (lr_leases r1)\<rparr>))"

definition close_leased :: "identity \<Rightarrow> nat \<Rightarrow> registry \<Rightarrow> registry" where
  "close_leased i fd r =
     (let r1 = os_close fd r in
      case map_of (lr_leases r1) i of
        None \<Rightarrow> r1
      | Some fds \<Rightarrow> let rest = filter (\<lambda>f. f \<noteq> fd) fds in
          r1\<lparr>lr_leases := (if rest = [] then AList.delete i (lr_leases r1) else dict_set i rest (lr_leases r1))\<rparr>)"

definition close_reader_fd :: "(string \<Rightarrow> identity option) \<Rightarrow> nat \<Rightarrow> identity \<Rightarrow> registry \<Rightarrow> registry" where
  "close_reader_fd stat fd i r0 =
     (let r = drain_finalized stat r0 in
      if map_of (lr_read_locks r) i \<noteq> None
      then r\<lparr>lr_deferred := dict_set i (dict_get (lr_deferred r) i [] @ [fd]) (lr_deferred r)\<rparr>
      else close_leased i fd r)"

text \<open>\<open>sqlite_read_lock\<close>, on entry (\<open>free\<close>: no writer of another process holds the file) and on exit.\<close>

definition take_read_lock :: "(string \<Rightarrow> identity option) \<Rightarrow> bool \<Rightarrow> identity \<Rightarrow> registry \<Rightarrow> bool \<times> registry" where
  "take_read_lock stat free i r0 =
     (let r = drain_finalized stat r0 in
      case map_of (lr_read_locks r) i of
        None \<Rightarrow> if free then (True, r\<lparr>lr_read_locks := dict_set i 1 (lr_read_locks r), lr_locked := List.insert i (lr_locked r)\<rparr>)
                else (False, r)
      | Some n \<Rightarrow> (True, r\<lparr>lr_read_locks := dict_set i (n + 1) (lr_read_locks r)\<rparr>))"

definition drop_read_lock :: "(string \<Rightarrow> identity option) \<Rightarrow> identity \<Rightarrow> registry \<Rightarrow> registry" where
  "drop_read_lock stat i r0 =
     (let r = drain_finalized stat r0; n = dict_get (lr_read_locks r) i 0 in
      if 1 < n then r\<lparr>lr_read_locks := dict_set i (n - 1) (lr_read_locks r)\<rparr>
      else foldl (\<lambda>r fd. close_leased i fd r)
             (r\<lparr>lr_read_locks := AList.delete i (lr_read_locks r), lr_deferred := AList.delete i (lr_deferred r),
                lr_locked := filter (\<lambda>j. j \<noteq> i) (lr_locked r)\<rparr>)
             (dict_get (lr_deferred r) i []))"

section \<open>Connecting\<close>

text \<open>
  One turn of the loop of \<open>_connect_counted\<close>. \<open>unpinned\<close>, \<open>pinned\<close> and \<open>after\<close> are what the path
  named at its three looks, \<open>actual\<close> the inode the driver opened.
\<close>

datatype connect_answer = Waits | LooksAgain | Refused | Connected

definition counted :: "(string \<Rightarrow> identity option) \<Rightarrow> string \<Rightarrow> identity \<Rightarrow> nat \<Rightarrow> registry \<Rightarrow> registry" where
  "counted stat path i c r =
     (let st = dict_get (lr_open r) i new_store;
          st1 = st\<lparr>os_paths := List.insert path (os_paths st), os_count := os_count st + 1\<rparr>
      in r\<lparr>lr_open := dict_set i (record_sidecars stat i st1) (lr_open r), lr_cache := None,
           lr_connections := (c, i) # lr_connections r, lr_conns := (c, i) # lr_conns r, lr_locked := List.insert i (lr_locked r)\<rparr>)"

definition connect_turn ::
  "(string \<Rightarrow> identity option) \<Rightarrow> string \<Rightarrow> identity option \<Rightarrow> identity option \<Rightarrow> identity option \<Rightarrow> identity
     \<Rightarrow> nat \<Rightarrow> registry \<Rightarrow> connect_answer \<times> registry" where
  "connect_turn stat path unpinned pinned after actual c r0 =
     (let r = sweep_leases unpinned (drain_finalized stat r0) in
      if leased r unpinned then (Waits, r)
      else if pinned \<noteq> unpinned then (LooksAgain, r)
      else let r1 = (if pinned = None then sweep_leases after r else r) in
        if pinned = None \<and> leased r1 after then (Waits, drop_unless_connected actual r1)
        else case after of
               None \<Rightarrow> (Refused, drop_unless_connected actual r1)
             | Some i \<Rightarrow> if pinned \<noteq> None \<and> after \<noteq> pinned then (Refused, drop_unless_connected actual r1)
                         else (Connected, counted stat path i c r1))"

definition note_store_sidecars :: "(string \<Rightarrow> identity option) \<Rightarrow> string \<Rightarrow> registry \<Rightarrow> registry" where
  "note_store_sidecars stat path r0 =
     (let r = drain_finalized stat r0 in
      case stat path of
        None \<Rightarrow> r
      | Some i \<Rightarrow> (case map_of (lr_open r) i of
            None \<Rightarrow> r
          | Some st \<Rightarrow>
              let st1 = record_sidecars stat i (st\<lparr>os_paths := List.insert path (os_paths st)\<rparr>) in
              r\<lparr>lr_open := dict_set i st1 (lr_open r),
                lr_cache := (if os_sidecars st1 = os_sidecars st then lr_cache r else None)\<rparr>))"

section \<open>The registry and its callers\<close>

text \<open>
  The steps a process can take. Readers close what they were admitted for, once, and read-lock
  only such a descriptor; the driver opens what the path names unless the name changed during the
  connect, and locks sidecars of its stores. A calm step adds that sidecars, stores, lock files and
  the inodes readers hold are different files: no file a reader holds becomes the sidecar of a
  store, and a connect never opens a read-locked inode, a lock file or a sidecar.
\<close>

definition lease :: "registry \<Rightarrow> identity \<Rightarrow> nat \<Rightarrow> bool" where
  "lease r i fd \<longleftrightarrow> fd \<in> set (dict_get (lr_leases r) i [])"

definition deferred :: "registry \<Rightarrow> identity \<Rightarrow> nat \<Rightarrow> bool" where
  "deferred r i fd \<longleftrightarrow> fd \<in> set (dict_get (lr_deferred r) i [])"

definition read_locked :: "registry \<Rightarrow> identity \<Rightarrow> bool" where
  "read_locked r i \<longleftrightarrow> map_of (lr_read_locks r) i \<noteq> None"

definition calm_stat :: "(string \<Rightarrow> identity option) \<Rightarrow> registry \<Rightarrow> bool" where
  "calm_stat stat r \<longleftrightarrow>
     (\<forall>path ending s fd. ending \<in> set sidecar_suffixes \<longrightarrow> stat (path @ ending) = Some s \<longrightarrow>
        \<not> lease r s fd \<and> s \<notin> set (map fst (lr_open r)) \<and> s \<notin> set (lr_lock_files r))"

definition sidecar_names :: "(string \<Rightarrow> identity option) \<Rightarrow> identity set" where
  "sidecar_names stat = {s. \<exists>path ending. ending \<in> set sidecar_suffixes \<and> stat (path @ ending) = Some s}"

definition sidecars :: "registry \<Rightarrow> identity set" where
  "sidecars r = (\<Union>st \<in> snd ` set (lr_open r). set (os_sidecars st))"

inductive live_step :: "bool \<Rightarrow> registry \<Rightarrow> registry \<Rightarrow> bool" where
  opens: "fd \<notin> set (map fst (lr_fds r)) \<Longrightarrow> live_step calm r (r\<lparr>lr_fds := (fd, i) # lr_fds r\<rparr>)"
| checks: "calm \<longrightarrow> calm_stat stat r \<Longrightarrow> live_step calm r (snd (is_known_live stat found r))"
| admits: "calm \<longrightarrow> calm_stat stat r \<Longrightarrow> map_of (lr_fds r) fd = Some i \<Longrightarrow> \<not> lease r i fd \<Longrightarrow> (i, fd) \<notin> set (lr_parked r)
    \<Longrightarrow> live_step calm r (snd (admit_reader_fd stat fd i r))"
| closes: "calm \<longrightarrow> calm_stat stat r \<Longrightarrow> lease r i fd \<Longrightarrow> \<not> deferred r i fd \<Longrightarrow> live_step calm r (close_reader_fd stat fd i r)"
| read_locks: "calm \<longrightarrow> calm_stat stat r \<Longrightarrow> lease r i fd \<Longrightarrow> \<not> deferred r i fd
    \<Longrightarrow> live_step calm r (snd (take_read_lock stat free i r))"
| read_unlocks: "calm \<longrightarrow> calm_stat stat r \<Longrightarrow> read_locked r i \<Longrightarrow> live_step calm r (drop_read_lock stat i r)"
| connects: "calm \<longrightarrow> calm_stat stat r \<Longrightarrow> c \<notin> set (map fst (lr_connections r)) \<Longrightarrow> c \<notin> set (lr_done r)
    \<Longrightarrow> (pinned = after \<or> pinned = None) \<longrightarrow> after \<noteq> None \<longrightarrow> after = Some actual
    \<Longrightarrow> actual \<notin> snd ` set (lr_wal r)
    \<Longrightarrow> calm \<longrightarrow> \<not> read_locked r actual \<and> actual \<notin> set (lr_lock_files r) \<and> actual \<notin> sidecars r \<union> sidecar_names stat
    \<Longrightarrow> live_step calm r (snd (connect_turn stat path unpinned pinned after actual c r))"
| notices: "calm \<longrightarrow> calm_stat stat r \<Longrightarrow> live_step calm r (note_store_sidecars stat path r)"
| driver_locks: "connected r i \<Longrightarrow> \<not> connected r s \<Longrightarrow> map_of (lr_open r) i = Some st \<Longrightarrow> s \<in> set (os_sidecars st)
    \<Longrightarrow> live_step calm r (r\<lparr>lr_wal := List.insert (i, s) (lr_wal r), lr_locked := List.insert s (lr_locked r)\<rparr>)"
| driver_closes: "live_step calm r (driver_close c r)"
| releases: "calm \<longrightarrow> calm_stat stat r \<Longrightarrow> map_of (lr_connections r) c = Some i \<Longrightarrow> c \<notin> set (map fst (lr_conns r))
    \<Longrightarrow> live_step calm r (release_connection stat i c r)"
| finalizes: "map_of (lr_connections r) c = Some i \<Longrightarrow> live_step calm r (finalize i c r)"
| locks: "calm \<longrightarrow> calm_stat stat r \<Longrightarrow> (\<And>fd. \<not> lease r i fd)
    \<Longrightarrow> calm \<longrightarrow> i \<notin> set (live_set r) \<union> sidecar_names stat
    \<Longrightarrow> live_step calm r (track_lock_file stat i True (r\<lparr>lr_locked := List.insert i (lr_locked r)\<rparr>))"
| unlocks: "calm \<longrightarrow> calm_stat stat r \<Longrightarrow> i \<in> set (lr_lock_files r) \<Longrightarrow> \<not> connected r i
    \<Longrightarrow> live_step calm r (track_lock_file stat i False (r\<lparr>lr_locked := filter (\<lambda>j. j \<noteq> i) (lr_locked r)\<rparr>))"

inductive live_reach :: "bool \<Rightarrow> registry \<Rightarrow> bool" where
  start: "live_reach calm empty_registry"
| step: "live_reach calm r \<Longrightarrow> live_step calm r r' \<Longrightarrow> live_reach calm r'"

end
