(* ===== verification/LiveStoresInv.thy ===== *)
theory LiveStoresInv
  imports LiveStores
begin

text \<open>
  The invariant of the live store registry: the counts follow the connections, no reader holds a
  lease on a store's inode, a parked descriptor names a live inode, and the locks the process
  relies on are held. Here the releases and the readers keep it; \<open>LiveStoresKept\<close> has the rest.
\<close>

section \<open>What the registry keeps\<close>

definition open_count :: "registry \<Rightarrow> identity \<Rightarrow> nat" where
  "open_count r i = length (filter (\<lambda>(c, j). j = i \<and> c \<notin> set (lr_done r)) (lr_connections r))"

definition counts_ok :: "registry \<Rightarrow> bool" where
  "counts_ok r \<longleftrightarrow> distinct (map fst (lr_connections r))
     \<and> (\<forall>i. map_of (lr_open r) i = None \<longrightarrow> open_count r i = 0)
     \<and> (\<forall>i st. map_of (lr_open r) i = Some st \<longrightarrow> os_count st = open_count r i \<and> 0 < open_count r i)"

definition conns_ok :: "registry \<Rightarrow> bool" where
  "conns_ok r \<longleftrightarrow>
     (\<forall>c i. (c, i) \<in> set (lr_conns r) \<longrightarrow> (c, i) \<in> set (lr_connections r) \<and> c \<notin> set (lr_done r) \<and> i \<in> set (lr_locked r))
   \<and> distinct (map fst (lr_conns r))
   \<and> (\<forall>c i. (i, c) \<in> set (lr_finalized r) \<longrightarrow> (c, i) \<in> set (lr_connections r) \<and> c \<notin> set (map fst (lr_conns r)))
   \<and> (\<forall>i s. (i, s) \<in> set (lr_wal r) \<longrightarrow> connected r i \<and> \<not> connected r s)"

definition readers_ok :: "bool \<Rightarrow> registry \<Rightarrow> bool" where
  "readers_ok calm r \<longleftrightarrow>
     (\<forall>i fd. lease r i fd \<longrightarrow> map_of (lr_fds r) fd = Some i \<and> i \<notin> set (map fst (lr_open r)) \<and> i \<notin> set (lr_lock_files r))
   \<and> (\<forall>i fd. (i, fd) \<in> set (lr_parked r) \<longrightarrow>
        map_of (lr_fds r) fd = Some i \<and> \<not> lease r i fd \<and> (calm \<longrightarrow> (\<forall>fd'. \<not> lease r i fd')))
   \<and> (\<forall>i. read_locked r i \<longrightarrow> (\<exists>fd. lease r i fd))
   \<and> (\<forall>i fd. deferred r i fd \<longrightarrow> read_locked r i \<and> lease r i fd)"

definition cache_ok :: "registry \<Rightarrow> bool" where
  "cache_ok r \<longleftrightarrow> (\<forall>live. lr_cache r = Some live \<longrightarrow> set live = set (live_set r))"

definition calm_ok :: "registry \<Rightarrow> bool" where
  "calm_ok r \<longleftrightarrow> (\<forall>i fd. lease r i fd \<longrightarrow> i \<notin> set (live_set r))
   \<and> (\<forall>i. read_locked r i \<longrightarrow> i \<in> set (lr_locked r))
   \<and> set (lr_lock_files r) \<subseteq> set (lr_locked r)
   \<and> set (lr_lock_files r) \<inter> set (map fst (lr_open r)) = {}
   \<and> sidecars r \<inter> (set (lr_lock_files r) \<union> set (map fst (lr_open r))) = {}
   \<and> (\<forall>i s. (i, s) \<in> set (lr_wal r) \<longrightarrow> connected r i \<and> s \<in> set (lr_locked r)
        \<and> (\<exists>st. map_of (lr_open r) i = Some st \<and> s \<in> set (os_sidecars st)))"

text \<open>
  Between dropping a store or a lock file and closing the parked descriptors it kept, a parked
  descriptor may name an inode that is no longer live; everywhere else it names a live one.
\<close>

definition settling :: "bool \<Rightarrow> registry \<Rightarrow> bool" where
  "settling calm r \<longleftrightarrow> counts_ok r \<and> conns_ok r \<and> readers_ok calm r \<and> (calm \<longrightarrow> calm_ok r)"

definition reg_ok :: "bool \<Rightarrow> registry \<Rightarrow> bool" where
  "reg_ok calm r \<longleftrightarrow> settling calm r \<and> cache_ok r \<and> (\<forall>i fd. (i, fd) \<in> set (lr_parked r) \<longrightarrow> i \<in> set (live_set r))"

lemma set_live_set: "set (live_set r) = set (map fst (lr_open r)) \<union> set (lr_lock_files r) \<union> sidecars r"
  by (auto simp: live_set_def sidecars_def)

section \<open>Closing\<close>

lemma os_close_alt:
  "os_close fd r = r\<lparr>lr_fds := AList.delete fd (lr_fds r),
     lr_locked := filter (\<lambda>j. map_of (lr_fds r) fd \<noteq> Some j) (lr_locked r)\<rparr>"
proof (cases "map_of (lr_fds r) fd")
  case None
  then have "fd \<notin> fst ` set (lr_fds r)" by (simp add: map_of_eq_None_iff)
  then have "AList.delete fd (lr_fds r) = lr_fds r" by (simp add: delete_id)
  with None show ?thesis by (simp add: os_close_def)
qed (auto simp: os_close_def intro!: arg_cong [of _ _ "\<lambda>l. r\<lparr>lr_fds := _, lr_locked := l\<rparr>"] filter_cong)

lemma map_of_close: "map_of (lr_fds (close_all fds r)) fd = (if fd \<in> set fds then None else map_of (lr_fds r) fd)"
  by (induction fds arbitrary: r) (auto simp: close_all_def os_close_alt delete_conv')

lemma close_all_alt:
  "close_all fds r = r\<lparr>lr_fds := lr_fds (close_all fds r),
     lr_locked := filter (\<lambda>j. \<forall>fd \<in> set fds. map_of (lr_fds r) fd \<noteq> Some j) (lr_locked r)\<rparr>"
proof (induction fds arbitrary: r)
  case (Cons fd fds)
  have step: "close_all (fd # fds) r = close_all fds (os_close fd r)" by (simp add: close_all_def)
  have "filter (\<lambda>j. \<forall>x \<in> set fds. map_of (AList.delete fd (lr_fds r)) x \<noteq> Some j)
          (filter (\<lambda>j. map_of (lr_fds r) fd \<noteq> Some j) (lr_locked r))
      = filter (\<lambda>j. \<forall>x \<in> set (fd # fds). map_of (lr_fds r) x \<noteq> Some j) (lr_locked r)"
    by (auto simp: delete_conv' intro!: filter_cong)
  with Cons.IH [of "os_close fd r"] show ?case unfolding step by (simp add: os_close_alt)
qed (simp add: close_all_def)

lemma close_all_locked:
  "j \<in> set (lr_locked (close_all fds r)) \<longleftrightarrow> j \<in> set (lr_locked r) \<and> (\<forall>fd \<in> set fds. map_of (lr_fds r) fd \<noteq> Some j)"
  by (subst close_all_alt) simp

lemma close_all_frame [simp]:
  "lr_open (close_all fds r) = lr_open r" "lr_leases (close_all fds r) = lr_leases r"
  "lr_parked (close_all fds r) = lr_parked r" "lr_read_locks (close_all fds r) = lr_read_locks r"
  "lr_deferred (close_all fds r) = lr_deferred r" "lr_lock_files (close_all fds r) = lr_lock_files r"
  "lr_cache (close_all fds r) = lr_cache r" "lr_finalized (close_all fds r) = lr_finalized r"
  "lr_done (close_all fds r) = lr_done r" "lr_connections (close_all fds r) = lr_connections r"
  "lr_conns (close_all fds r) = lr_conns r" "lr_wal (close_all fds r) = lr_wal r"
  by (subst close_all_alt, simp)+

section \<open>Probing\<close>

lemma note_sidecar_grows: "set (os_sidecars st) \<subseteq> set (os_sidecars (note_sidecar p e f st))"
  "os_count (note_sidecar p e f st) = os_count st"
  "set (os_sidecars (note_sidecar p e f st)) \<subseteq> set (os_sidecars st) \<union> {s. f = Some s}"
  by (auto simp: note_sidecar_def split: option.splits if_splits)

definition store_grows :: "identity set \<Rightarrow> open_store \<Rightarrow> open_store \<Rightarrow> bool" where
  "store_grows S st st' \<longleftrightarrow> os_count st' = os_count st \<and> set (os_sidecars st) \<subseteq> set (os_sidecars st')
     \<and> set (os_sidecars st') \<subseteq> set (os_sidecars st) \<union> S"

lemma store_grows_refl [simp]: "store_grows S st st"
  by (simp add: store_grows_def)

lemma store_grows_trans: "store_grows S a b \<Longrightarrow> store_grows S b c \<Longrightarrow> store_grows S a c"
  by (auto simp: store_grows_def)

lemma foldl_grows: "(\<And>x a. x \<in> set xs \<Longrightarrow> store_grows S a (f a x)) \<Longrightarrow> store_grows S a (foldl f a xs)"
  by (induction xs arbitrary: a) (simp, metis (no_types, lifting) foldl_Cons list.set_intros store_grows_trans)

lemma record_sidecars_grows: "store_grows (sidecar_names stat) st (record_sidecars stat i st)"
  unfolding record_sidecars_def
proof (rule foldl_grows)
  fix path st'
  have "store_grows (sidecar_names stat) st'
      (foldl (\<lambda>st ending. note_sidecar path ending (stat (path @ ending)) st) st' sidecar_suffixes)"
    using note_sidecar_grows by (intro foldl_grows) (auto simp: store_grows_def sidecar_names_def; blast)
  then show "store_grows (sidecar_names stat) st' (if stat path \<noteq> Some i then st'
      else foldl (\<lambda>st ending. note_sidecar path ending (stat (path @ ending)) st) st' sidecar_suffixes)"
    by simp
qed

lemma probed_grows: "fst (probed stat x) = fst x" "store_grows (sidecar_names stat) (snd x) (snd (probed stat x))"
  by (cases x; simp add: probed_def record_sidecars_grows)+

text \<open>The registry after its stores recorded sidecars: nothing else changed.\<close>

definition grown :: "(string \<Rightarrow> identity option) \<Rightarrow> registry \<Rightarrow> registry \<Rightarrow> bool" where
  "grown stat r r1 \<longleftrightarrow> r1 = r\<lparr>lr_open := lr_open r1, lr_cache := lr_cache r1\<rparr>
     \<and> map fst (lr_open r1) = map fst (lr_open r)
     \<and> (\<forall>i. rel_option (store_grows (sidecar_names stat)) (map_of (lr_open r) i) (map_of (lr_open r1) i))
     \<and> sidecars r1 \<subseteq> sidecars r \<union> sidecar_names stat
     \<and> set (live_set r) \<subseteq> set (live_set r1) \<and> set (live_set r1) \<subseteq> set (live_set r) \<union> sidecar_names stat
     \<and> cache_ok r1"

lemma grown_frame:
  assumes "grown stat r r1"
  shows "lr_leases r1 = lr_leases r" "lr_parked r1 = lr_parked r" "lr_read_locks r1 = lr_read_locks r"
    "lr_deferred r1 = lr_deferred r" "lr_lock_files r1 = lr_lock_files r" "lr_finalized r1 = lr_finalized r"
    "lr_done r1 = lr_done r" "lr_connections r1 = lr_connections r" "lr_fds r1 = lr_fds r"
    "lr_conns r1 = lr_conns r" "lr_locked r1 = lr_locked r" "lr_wal r1 = lr_wal r"
  using assms unfolding grown_def by (metis registry.ext_inject registry.surjective registry.update_convs(1,7))+

lemma grown_views:
  assumes "grown stat r r1"
  shows "lease r1 = lease r" "deferred r1 = deferred r" "read_locked r1 = read_locked r" "open_count r1 = open_count r"
    "connected r1 = connected r"
  by (simp_all add: fun_eq_iff lease_def deferred_def read_locked_def open_count_def connected_def grown_frame [OF assms])

lemma calm_stat_names:
  "calm_stat stat r \<Longrightarrow> s \<in> sidecar_names stat \<Longrightarrow>
     \<not> lease r s fd \<and> s \<notin> set (map fst (lr_open r)) \<and> s \<notin> set (lr_lock_files r)"
  by (auto simp: calm_stat_def sidecar_names_def)

lemma conns_ok_transfer:
  assumes "conns_ok r" and "lr_conns r' = lr_conns r" "lr_connections r' = lr_connections r" "lr_done r' = lr_done r"
    "lr_finalized r' = lr_finalized r" "lr_wal r' = lr_wal r" and "\<And>c i. (c, i) \<in> set (lr_conns r) \<Longrightarrow> i \<in> set (lr_locked r')"
  shows "conns_ok r'"
proof -
  have "connected r' = connected r" using assms(2) by (simp add: fun_eq_iff connected_def)
  with assms show ?thesis by (simp add: conns_ok_def)
qed

lemma rel_option_keys: "\<forall>i. rel_option R (map_of xs i) (map_of ys i) \<Longrightarrow> set (map fst xs) = set (map fst ys)"
proof -
  assume R: "\<forall>i. rel_option R (map_of xs i) (map_of ys i)"
  have "map_of xs i = None \<longleftrightarrow> map_of ys i = None" for i
    using R [rule_format, of i] by (cases "map_of xs i"; cases "map_of ys i") simp_all
  then show ?thesis by (auto simp: map_of_eq_None_iff)
qed

lemma grown_ok:
  assumes g: "grown stat r r1" and ok: "settling calm r" and "calm \<longrightarrow> calm_stat stat r"
  shows "settling calm r1"
proof -
  note f = grown_frame [OF g] and v = grown_views [OF g]
  have rel: "rel_option (store_grows (sidecar_names stat)) (map_of (lr_open r) i) (map_of (lr_open r1) i)"
    and sc: "sidecars r1 \<subseteq> sidecars r \<union> sidecar_names stat"
    and sub: "set (live_set r1) \<subseteq> set (live_set r) \<union> sidecar_names stat" for i
    using g by (simp_all add: grown_def)
  have keys: "set (map fst (lr_open r1)) = set (map fst (lr_open r))" using rel by (metis rel_option_keys)
  have "map_of (lr_open r1) i = None \<longleftrightarrow> map_of (lr_open r) i = None" for i
    using rel [of i] by (cases "map_of (lr_open r) i"; cases "map_of (lr_open r1) i") simp_all
  moreover have "\<exists>st. map_of (lr_open r) i = Some st \<and> os_count st1 = os_count st" if "map_of (lr_open r1) i = Some st1" for i st1
    using rel [of i] that by (cases "map_of (lr_open r) i") (auto simp: store_grows_def)
  ultimately have "counts_ok r1" using ok unfolding settling_def counts_ok_def v f(8) by metis
  moreover have "conns_ok r" using ok by (simp add: settling_def)
  then have "conns_ok r1" by (rule conns_ok_transfer) (use \<open>conns_ok r\<close> in \<open>auto simp: f conns_ok_def\<close>)
  moreover have "readers_ok calm r1"
    using ok unfolding settling_def readers_ok_def v f keys by blast
  moreover have "calm \<longrightarrow> calm_ok r1"
  proof
    assume calm
    with ok assms(3) have cok: "calm_ok r" and names: "calm_stat stat r" by (simp_all add: settling_def)
    note nm = calm_stat_names [OF names]
    have "\<forall>i fd. lease r i fd \<longrightarrow> i \<notin> set (live_set r1)" using cok sub nm unfolding calm_ok_def by blast
    moreover have "sidecars r1 \<inter> (set (lr_lock_files r) \<union> set (map fst (lr_open r))) = {}"
      using cok sc nm unfolding calm_ok_def by blast
    moreover have "\<exists>st. map_of (lr_open r1) i = Some st \<and> s \<in> set (os_sidecars st)"
      if "map_of (lr_open r) i = Some st" "s \<in> set (os_sidecars st)" for i s st
      using rel [of i] that by (cases "map_of (lr_open r1) i") (auto simp: store_grows_def)
    ultimately show "calm_ok r1" using cok unfolding calm_ok_def v f keys by blast
  qed
  ultimately show ?thesis by (simp add: settling_def)
qed

lemma grown_reg_ok:
  assumes "grown stat r r1" and "reg_ok calm r" and "calm \<longrightarrow> calm_stat stat r"
  shows "reg_ok calm r1"
proof -
  have "settling calm r" using assms(2) by (simp add: reg_ok_def)
  from grown_ok [OF assms(1) this assms(3)] have "settling calm r1" .
  moreover have "cache_ok r1" "set (live_set r) \<subseteq> set (live_set r1)" using assms(1) by (simp_all add: grown_def)
  ultimately show ?thesis using assms(2) unfolding reg_ok_def grown_frame [OF assms(1)] by blast
qed

lemma live_set_probe:
  "set (live_set r) \<subseteq> set (live_set (probe_stores stat r))"
  "set (live_set (probe_stores stat r)) \<subseteq> set (live_set r) \<union> sidecar_names stat"
proof -
  have grows: "set (os_sidecars (snd x)) \<subseteq> set (os_sidecars (snd (probed stat x)))"
    "set (os_sidecars (snd (probed stat x))) \<subseteq> set (os_sidecars (snd x)) \<union> sidecar_names stat" for x
    using probed_grows(2) [of stat x] by (simp_all add: store_grows_def)
  have keys: "map fst (map (probed stat) (lr_open r)) = map fst (lr_open r)" by (simp add: probed_grows)
  have parts: "set (live_set r') = fst ` set (lr_open r') \<union> set (lr_lock_files r') \<union> (\<Union>x \<in> set (lr_open r'). set (os_sidecars (snd x)))" for r'
    by (auto simp: live_set_def)
  show "set (live_set r) \<subseteq> set (live_set (probe_stores stat r))"
    unfolding parts using grows(1) by (auto simp: probe_stores_def probed_grows image_iff; force)
  show "set (live_set (probe_stores stat r)) \<subseteq> set (live_set r) \<union> sidecar_names stat"
    unfolding parts using grows(2) by (auto simp: probe_stores_def probed_grows image_iff; force)
qed

lemma sidecars_probe: "sidecars (probe_stores stat r) \<subseteq> sidecars r \<union> sidecar_names stat"
proof
  fix s assume "s \<in> sidecars (probe_stores stat r)"
  then obtain x where x: "x \<in> set (lr_open r)" "s \<in> set (os_sidecars (snd (probed stat x)))"
    by (auto simp: sidecars_def probe_stores_def)
  then have "s \<in> set (os_sidecars (snd x)) \<union> sidecar_names stat"
    using probed_grows(2) [of stat x] by (auto simp: store_grows_def)
  with x(1) show "s \<in> sidecars r \<union> sidecar_names stat" by (auto simp: sidecars_def)
qed

lemma map_of_probed: "map_of (map (probed stat) xs) i = map_option (\<lambda>st. snd (probed stat (i, st))) (map_of xs i)"
  by (induction xs) (auto simp: probed_def)

lemma live_identities_ok:
  assumes "cache_ok r" and li: "live_identities stat r = (live, r1)"
  shows "grown stat r r1" "set live = set (live_set r1)"
proof -
  let ?p = "probe_stores stat r"
  have same: "live_set ?p = live_set r" if "map (os_sidecars \<circ> snd \<circ> probed stat) (lr_open r) = map (os_sidecars \<circ> snd) (lr_open r)"
  proof -
    have "map (\<lambda>(_, st). os_sidecars st) (map (probed stat) (lr_open r)) = map (os_sidecars \<circ> snd \<circ> probed stat) (lr_open r)"
      by (simp add: comp_def case_prod_unfold)
    also have "\<dots> = map (\<lambda>(_, st). os_sidecars st) (lr_open r)" unfolding that by (simp add: comp_def case_prod_unfold)
    finally have "map (\<lambda>(_, st). os_sidecars st) (lr_open ?p) = map (\<lambda>(_, st). os_sidecars st) (lr_open r)"
      by (simp add: probe_stores_def del: map_eq_conv map_map)
    moreover have "map fst (lr_open ?p) = map fst (lr_open r)" by (simp add: probe_stores_def comp_def probed_grows)
    moreover have "lr_lock_files ?p = lr_lock_files r" by (simp add: probe_stores_def)
    ultimately show ?thesis unfolding live_set_def by simp
  qed
  have cp: "cache_ok ?p"
  proof -
    have "lr_cache ?p = None \<or> (lr_cache ?p = lr_cache r \<and> live_set ?p = live_set r)"
      using same by (simp add: probe_stores_def del: map_eq_conv)
    with assms(1) show ?thesis by (auto simp: cache_ok_def)
  qed
  have r1: "r1 = ?p\<lparr>lr_cache := lr_cache r1\<rparr>" "cache_ok r1 \<and> set live = set (live_set r1)"
    using li cp by (auto simp: live_identities_def Let_def cache_ok_def split: option.splits)
  have ls: "live_set r1 = live_set ?p" using r1(1) by (metis live_set_def registry.select_convs(1,6) registry.surjective registry.update_convs(7))
  have open1: "lr_open r1 = map (probed stat) (lr_open r)"
    by (subst r1(1)) (simp add: probe_stores_def)
  have "r1 = r\<lparr>lr_open := lr_open r1, lr_cache := lr_cache r1\<rparr>"
    by (subst r1(1)) (simp add: probe_stores_def open1)
  moreover have "rel_option (store_grows (sidecar_names stat)) (map_of (lr_open r) i) (map_of (lr_open r1) i)" for i
    using probed_grows(2) [of stat "(i, _)"] by (cases "map_of (lr_open r) i") (simp_all add: open1 map_of_probed)
  moreover have "sidecars r1 \<subseteq> sidecars r \<union> sidecar_names stat"
    using sidecars_probe [of stat r] by (simp add: sidecars_def open1 probe_stores_def)
  ultimately show "grown stat r r1"
    unfolding grown_def ls using live_set_probe(1) [of r stat] live_set_probe(2) [of stat r] r1(2) by (simp add: open1 comp_def probed_grows)
  show "set live = set (live_set r1)" using r1(2) by blast
qed

section \<open>Releases keep the registry\<close>

lemma counts_ok_live:
  assumes "counts_ok r" and "(c, i) \<in> set (lr_connections r)" and "c \<notin> set (lr_done r)"
  shows "i \<in> set (map fst (lr_open r))"
proof -
  have "0 < open_count r i" unfolding open_count_def length_greater_0_conv filter_empty_conv using assms(2,3) by auto
  with assms(1) have "map_of (lr_open r) i \<noteq> None" unfolding counts_ok_def by (metis less_irrefl)
  then show ?thesis by (simp add: map_of_eq_None_iff)
qed

lemma in_live_set: "set (map fst (lr_open r)) \<subseteq> set (live_set r)" "set (lr_lock_files r) \<subseteq> set (live_set r)"
  by (auto simp: set_live_set)

lemma settlingD:
  assumes "settling calm r"
  shows "counts_ok r" "conns_ok r" "readers_ok calm r" "calm \<Longrightarrow> calm_ok r"
  using assms by (simp_all add: settling_def)

lemma parkedD:
  assumes "readers_ok calm r" and "(i, fd) \<in> set (lr_parked r)"
  shows "map_of (lr_fds r) fd = Some i" "\<not> lease r i fd" "calm \<Longrightarrow> \<not> lease r i fd'"
  using assms unfolding readers_ok_def by blast+

lemma leaseD:
  assumes "readers_ok calm r" and "lease r i fd"
  shows "map_of (lr_fds r) fd = Some i" "i \<notin> set (map fst (lr_open r))" "i \<notin> set (lr_lock_files r)"
  using assms unfolding readers_ok_def by blast+

lemma connD:
  assumes "conns_ok r" and "(c, i) \<in> set (lr_conns r)"
  shows "(c, i) \<in> set (lr_connections r)" "c \<notin> set (lr_done r)" "i \<in> set (lr_locked r)"
  using assms unfolding conns_ok_def by blast+

lemma connected_open:
  assumes "counts_ok r" "conns_ok r" and "connected r i"
  shows "i \<in> set (map fst (lr_open r))" "i \<in> set (lr_locked r)"
proof -
  obtain c where c: "(c, i) \<in> set (lr_conns r)" using assms(3) by (auto simp: connected_def)
  note d = connD [OF assms(2) c]
  from counts_ok_live [OF assms(1) d(1,2)] d(3) show "i \<in> set (map fst (lr_open r))" "i \<in> set (lr_locked r)" by simp_all
qed

text \<open>Closing parked descriptors whose inodes are not live takes no lock a connection relies on.\<close>

lemma close_gone_ok:
  assumes ok: "settling calm r" and cache: "cache_ok r"
    and gone: "gone = filter (\<lambda>p. fst p \<notin> set (live_set r)) (lr_parked r)"
  shows "reg_ok calm (close_all (map snd gone) (r\<lparr>lr_parked := filter (\<lambda>p. fst p \<in> set (live_set r)) (lr_parked r)\<rparr>))"
    (is "reg_ok calm ?r3")
proof -
  note st = settlingD [OF ok]
  have views: "lease ?r3 = lease r" "deferred ?r3 = deferred r" "read_locked ?r3 = read_locked r" "open_count ?r3 = open_count r"
    "connected ?r3 = connected r" "live_set ?r3 = live_set r" "sidecars ?r3 = sidecars r"
    by (simp_all add: fun_eq_iff lease_def deferred_def read_locked_def open_count_def connected_def live_set_def sidecars_def)
  have shut: "\<exists>j. (j, fd) \<in> set (lr_parked r) \<and> j \<notin> set (live_set r) \<and> map_of (lr_fds r) fd = Some j"
    if "fd \<in> set (map snd gone)" for fd
    using that parkedD(1) [OF st(3)] by (auto simp: gone)
  have fds: "map_of (lr_fds ?r3) fd = (if fd \<in> set (map snd gone) then None else map_of (lr_fds r) fd)" for fd
    by (simp add: map_of_close)
  have kept: "j \<in> set (lr_locked ?r3)" if "j \<in> set (lr_locked r)" "\<And>fd. (j, fd) \<in> set (lr_parked r) \<Longrightarrow> j \<in> set (live_set r)" for j
  proof -
    have "map_of (lr_fds r) fd \<noteq> Some j" if "fd \<in> set (map snd gone)" for fd
      using shut [OF that] \<open>\<And>fd. (j, fd) \<in> set (lr_parked r) \<Longrightarrow> j \<in> set (live_set r)\<close> by auto
    with that(1) show ?thesis by (simp add: close_all_locked)
  qed
  have live_kept: "j \<in> set (lr_locked ?r3)" if "j \<in> set (lr_locked r)" "j \<in> set (live_set r)" for j
    using kept that by blast
  have "counts_ok ?r3" using st(1) unfolding counts_ok_def views by simp
  moreover have "conns_ok ?r3"
  proof -
    have "i \<in> set (lr_locked ?r3)" if "(c, i) \<in> set (lr_conns r)" for c i
    proof -
      have "connected r i" using that by (force simp: connected_def)
      from connected_open [OF st(1,2) this] in_live_set(1) live_kept show ?thesis by blast
    qed
    then show ?thesis by (intro conns_ok_transfer [OF st(2)]) simp_all
  qed
  moreover have "readers_ok calm ?r3"
    unfolding readers_ok_def views
  proof (intro conjI allI impI)
    fix i fd assume l: "lease r i fd"
    have "fd \<notin> set (map snd gone)"
    proof
      assume "fd \<in> set (map snd gone)"
      with shut obtain j where j: "(j, fd) \<in> set (lr_parked r)" "map_of (lr_fds r) fd = Some j" by blast
      with leaseD(1) [OF st(3) l] have "j = i" by simp
      with parkedD(2) [OF st(3) j(1)] l show False by simp
    qed
    with leaseD(1) [OF st(3) l] show "map_of (lr_fds ?r3) fd = Some i" unfolding fds by simp
    show "i \<notin> set (map fst (lr_open ?r3))" "i \<notin> set (lr_lock_files ?r3)" using leaseD(2,3) [OF st(3) l] by simp_all
  next
    fix i fd assume p: "(i, fd) \<in> set (lr_parked ?r3)"
    then have p': "(i, fd) \<in> set (lr_parked r)" "i \<in> set (live_set r)" by auto
    show "\<not> lease r i fd" by (rule parkedD(2) [OF st(3) p'(1)])
    show "\<not> lease r i fd'" if calm for fd' by (rule parkedD(3) [OF st(3) p'(1) that])
    have "fd \<notin> set (map snd gone)" using shut [of fd] parkedD(1) [OF st(3) p'(1)] p'(2) by auto
    then show "map_of (lr_fds ?r3) fd = Some i" unfolding fds using parkedD(1) [OF st(3) p'(1)] by simp
  next
    fix i show "\<exists>fd. lease r i fd" if "read_locked r i" using st(3) that unfolding readers_ok_def by blast
  next
    fix i fd assume d: "deferred r i fd"
    then show "read_locked r i" "lease r i fd" using st(3) unfolding readers_ok_def by blast+
  qed
  moreover have "calm \<longrightarrow> calm_ok ?r3"
  proof
    assume calm
    note cok = st(4) [OF this]
    have "i \<in> set (lr_locked ?r3)" if "read_locked r i" for i
    proof (rule kept)
      show "i \<in> set (lr_locked r)" using cok that by (simp add: calm_ok_def)
      fix fd assume p: "(i, fd) \<in> set (lr_parked r)"
      from that obtain fd' where "lease r i fd'" using st(3) unfolding readers_ok_def by blast
      with parkedD(3) [OF st(3) p \<open>calm\<close>] show "i \<in> set (live_set r)" by blast
    qed
    moreover have "s \<in> set (lr_locked ?r3)" if "(i, s) \<in> set (lr_wal r)" for i s
    proof (rule live_kept)
      from cok that obtain st where "s \<in> set (lr_locked r)" "map_of (lr_open r) i = Some st" "s \<in> set (os_sidecars st)"
        unfolding calm_ok_def by blast
      then show "s \<in> set (lr_locked r)" "s \<in> set (live_set r)"
        by (auto simp: set_live_set sidecars_def dest!: map_of_SomeD) force
    qed
    moreover have "set (lr_lock_files r) \<subseteq> set (lr_locked ?r3)"
      using cok live_kept in_live_set(2) [of r] unfolding calm_ok_def by blast
    ultimately show "calm_ok ?r3" using cok unfolding calm_ok_def views by simp
  qed
  moreover have "cache_ok ?r3" using cache unfolding cache_ok_def views by simp
  moreover have "\<forall>i fd. (i, fd) \<in> set (lr_parked ?r3) \<longrightarrow> i \<in> set (live_set ?r3)" unfolding views by simp
  ultimately show ?thesis by (simp add: reg_ok_def settling_def)
qed

lemma close_unparked_ok:
  assumes ok: "settling calm r" and "calm \<longrightarrow> calm_stat stat r"
  shows "reg_ok calm (close_unparked stat r)"
proof -
  let ?r = "r\<lparr>lr_cache := None\<rparr>"
  obtain live r1 where li: "live_identities stat ?r = (live, r1)" by fastforce
  have "cache_ok ?r" by (simp add: cache_ok_def)
  note g = live_identities_ok [OF this li]
  have views: "lease ?r = lease r" "deferred ?r = deferred r" "read_locked ?r = read_locked r" "open_count ?r = open_count r"
    "connected ?r = connected r" "sidecars ?r = sidecars r"
    by (simp_all add: fun_eq_iff lease_def deferred_def read_locked_def open_count_def connected_def sidecars_def)
  have "settling calm ?r"
    using ok by (simp add: settling_def counts_ok_def conns_ok_def readers_ok_def calm_ok_def views)
  moreover have "calm \<longrightarrow> calm_stat stat ?r" using assms(2) unfolding calm_stat_def views by simp
  ultimately have s1: "settling calm r1" "cache_ok r1" using grown_ok [OF g(1)] g(1) by (simp_all add: grown_def)
  have "close_unparked stat r = close_all (map snd (filter (\<lambda>p. fst p \<notin> set (live_set r1)) (lr_parked r1)))
      (r1\<lparr>lr_parked := filter (\<lambda>p. fst p \<in> set (live_set r1)) (lr_parked r1)\<rparr>)"
    by (simp add: close_unparked_def li g(2))
  with close_gone_ok [OF s1 refl] show ?thesis by simp
qed

lemma settling_views:
  "lease (r\<lparr>lr_finalized := q\<rparr>) = lease r" "deferred (r\<lparr>lr_finalized := q\<rparr>) = deferred r"
  "read_locked (r\<lparr>lr_finalized := q\<rparr>) = read_locked r" "connected (r\<lparr>lr_finalized := q\<rparr>) = connected r"
  "open_count (r\<lparr>lr_finalized := q\<rparr>) = open_count r" "sidecars (r\<lparr>lr_finalized := q\<rparr>) = sidecars r"
  by (simp_all add: fun_eq_iff lease_def deferred_def read_locked_def open_count_def connected_def sidecars_def)

lemma finalized_ok:
  assumes "reg_ok calm r" and "\<And>c i. (i, c) \<in> set q \<Longrightarrow> (c, i) \<in> set (lr_connections r) \<and> c \<notin> set (map fst (lr_conns r))"
  shows "reg_ok calm (r\<lparr>lr_finalized := q\<rparr>)"
  using assms by (simp add: reg_ok_def settling_def counts_ok_def conns_ok_def readers_ok_def calm_ok_def cache_ok_def settling_views)

text \<open>Fields a release leaves alone.\<close>

definition same_readers :: "registry \<Rightarrow> registry \<Rightarrow> bool" where
  "same_readers r r' \<longleftrightarrow> lr_leases r' = lr_leases r \<and> lr_deferred r' = lr_deferred r \<and> lr_read_locks r' = lr_read_locks r
     \<and> lr_finalized r' = lr_finalized r \<and> lr_connections r' = lr_connections r \<and> lr_conns r' = lr_conns r
     \<and> lr_wal r' = lr_wal r \<and> set (lr_parked r') \<subseteq> set (lr_parked r)
     \<and> (\<forall>fd. fd \<notin> snd ` set (lr_parked r) \<longrightarrow> map_of (lr_fds r') fd = map_of (lr_fds r) fd)"

lemma same_readers_trans: "same_readers a b \<Longrightarrow> same_readers b c \<Longrightarrow> same_readers a c"
  unfolding same_readers_def by (metis (no_types, lifting) image_mono subsetD order_trans)

lemma close_unparked_frame:
  "same_readers r (close_unparked stat r)" "lr_lock_files (close_unparked stat r) = lr_lock_files r"
  "lr_done (close_unparked stat r) = lr_done r" "map fst (lr_open (close_unparked stat r)) = map fst (lr_open r)"
proof -
  let ?r = "r\<lparr>lr_cache := None\<rparr>"
  obtain live r1 where li: "live_identities stat ?r = (live, r1)" by fastforce
  have "cache_ok ?r" by (simp add: cache_ok_def)
  note g = live_identities_ok [OF this li]
  note f = grown_frame [OF g(1), simplified]
  have "map fst (lr_open r1) = map fst (lr_open r)" using g(1) by (simp add: grown_def)
  then show "same_readers r (close_unparked stat r)" "lr_lock_files (close_unparked stat r) = lr_lock_files r"
    "lr_done (close_unparked stat r) = lr_done r" "map fst (lr_open (close_unparked stat r)) = map fst (lr_open r)"
    by (auto simp: close_unparked_def li same_readers_def f map_of_close)
qed

lemma open_count_done:
  assumes "distinct (map fst (lr_connections r))" and "(c, i) \<in> set (lr_connections r)" and "c \<notin> set (lr_done r)"
  shows "open_count r j = open_count (r\<lparr>lr_done := lr_done r @ [c]\<rparr>) j + (if j = i then 1 else 0)"
proof -
  obtain xs ys where split: "lr_connections r = xs @ (c, i) # ys" using split_list [OF assms(2)] by blast
  have "c \<notin> fst ` set xs" "c \<notin> fst ` set ys" using assms(1) by (auto simp: split)
  then have "filter (\<lambda>(d, k). k = j \<and> d \<notin> set (lr_done r @ [c])) zs = filter (\<lambda>(d, k). k = j \<and> d \<notin> set (lr_done r)) zs"
    if "zs = xs \<or> zs = ys" for zs
    using that by (intro filter_cong) (auto intro: rev_image_eqI)
  then show ?thesis using assms(3) by (simp add: open_count_def split)
qed

lemma calm_stat_mono:
  assumes "calm_stat stat r" and "lr_leases r' = lr_leases r" "set (map fst (lr_open r')) \<subseteq> set (map fst (lr_open r))"
    and "set (lr_lock_files r') \<subseteq> set (lr_lock_files r)"
  shows "calm_stat stat r'"
  using assms unfolding calm_stat_def lease_def by (metis subsetD)

lemma sidecars_dict_set:
  assumes "map_of (lr_open r) i = Some s" and "os_sidecars s' = os_sidecars s" and "lr_open r' = dict_set i s' (lr_open r)"
  shows "sidecars r' = sidecars r"
proof -
  have "map (os_sidecars \<circ> snd) (dict_set i s' xs) = map (os_sidecars \<circ> snd) xs" if "map_of xs i = Some s" for xs
    using that assms(2) by (induction xs) (auto split: if_splits)
  from this [OF assms(1)] have "(os_sidecars \<circ> snd) ` set (lr_open r') = (os_sidecars \<circ> snd) ` set (lr_open r)"
    unfolding assms(3) by (metis set_map)
  moreover have "sidecars x = \<Union> (set ` ((os_sidecars \<circ> snd) ` set (lr_open x)))" for x
    by (simp add: sidecars_def image_image)
  ultimately show ?thesis by (simp only:)
qed

lemma apply_release_ok:
  assumes ok: "reg_ok calm r" and c: "(c, i) \<in> set (lr_connections r)" "c \<notin> set (map fst (lr_conns r))"
    and calm: "calm \<longrightarrow> calm_stat stat r"
  shows "reg_ok calm (apply_release stat i c r) \<and> same_readers r (apply_release stat i c r)
    \<and> (calm \<longrightarrow> calm_stat stat (apply_release stat i c r))"
proof (cases "c \<in> set (lr_done r)")
  case True
  with ok calm show ?thesis by (simp add: apply_release_def same_readers_def)
next
  case False
  have set: "settling calm r" using ok by (simp add: reg_ok_def)
  note st = settlingD [OF set]
  let ?r1 = "r\<lparr>lr_done := lr_done r @ [c]\<rparr>"
  have dist: "distinct (map fst (lr_connections r))" using st(1) by (simp add: counts_ok_def)
  note oc = open_count_done [OF dist c(1) False]
  have "i \<in> set (map fst (lr_open r))" by (rule counts_ok_live [OF st(1) c(1) False])
  then obtain s where s: "map_of (lr_open r) i = Some s" by (metis map_of_eq_None_iff not_None_eq set_map)
  then have count: "os_count s = open_count ?r1 i + 1" using st(1) oc [of i] by (simp add: counts_ok_def)
  have cnt: "open_count ?r1 j = 0" if "map_of (lr_open r) j = None" for j
  proof -
    from that st(1) have "open_count r j = 0" by (simp add: counts_ok_def)
    with oc [of j] show ?thesis by simp
  qed
  have cnt': "os_count s' = open_count ?r1 j \<and> 0 < open_count ?r1 j" if "map_of (lr_open r) j = Some s'" "j \<noteq> i" for j s'
  proof -
    from that(1) st(1) have "os_count s' = open_count r j \<and> 0 < open_count r j" by (simp add: counts_ok_def)
    with oc [of j] that(2) show ?thesis by simp
  qed
  have conns: "conns_ok ?r1"
  proof -
    have "d \<noteq> c" if "(d, j) \<in> set (lr_conns r)" for d j using that c(2) by force
    moreover have "connected ?r1 = connected r" by (simp add: fun_eq_iff connected_def)
    ultimately show ?thesis using st(2) by (simp add: conns_ok_def)
  qed
  show ?thesis
  proof (cases "1 < os_count s")
    case True
    let ?r2 = "?r1\<lparr>lr_open := dict_set i (s\<lparr>os_count := os_count s - 1\<rparr>) (lr_open r)\<rparr>"
    have ar: "apply_release stat i c r = ?r2" using False True s by (simp add: apply_release_def)
    have views: "lease ?r2 = lease r" "deferred ?r2 = deferred r" "read_locked ?r2 = read_locked r" "open_count ?r2 = open_count ?r1"
      "connected ?r2 = connected r"
      by (simp_all add: fun_eq_iff lease_def deferred_def read_locked_def open_count_def connected_def)
    have keys: "set (map fst (lr_open ?r2)) = set (map fst (lr_open r))"
      using \<open>i \<in> set (map fst (lr_open r))\<close> by (auto simp: dom_update)
    have sc: "sidecars ?r2 = sidecars r"
      by (rule sidecars_dict_set [OF s, of "s\<lparr>os_count := os_count s - 1\<rparr>"]) simp_all
    have live: "set (live_set ?r2) = set (live_set r)" unfolding set_live_set keys sc by simp
    have "counts_ok ?r2" unfolding counts_ok_def views using dist cnt cnt' count True by auto
    moreover have "conns_ok ?r2"
      by (rule conns_ok_transfer [OF conns]) (use conns in \<open>auto simp: conns_ok_def\<close>)
    moreover have "readers_ok calm ?r2" using st(3) unfolding readers_ok_def views keys by simp
    moreover have "calm \<longrightarrow> calm_ok ?r2"
    proof
      assume calm
      note cok = st(4) [OF this]
      have wal: "\<exists>st. map_of (lr_open ?r2) j = Some st \<and> t \<in> set (os_sidecars st)" if jt: "(j, t) \<in> set (lr_wal r)" for j t
      proof -
        from jt cok obtain st where "map_of (lr_open r) j = Some st" "t \<in> set (os_sidecars st)" unfolding calm_ok_def by blast
        with s show ?thesis by (cases "j = i") simp_all
      qed
      show "calm_ok ?r2" unfolding calm_ok_def views keys sc live
      proof (intro conjI allI impI)
        fix j t assume "(j, t) \<in> set (lr_wal ?r2)"
        then have jt: "(j, t) \<in> set (lr_wal r)" by simp
        show "\<exists>st. map_of (lr_open ?r2) j = Some st \<and> t \<in> set (os_sidecars st)" by (rule wal [OF jt])
        show "connected r j" "t \<in> set (lr_locked ?r2)" using cok jt by (auto simp: calm_ok_def)
      qed (use cok in \<open>auto simp: calm_ok_def\<close>)
    qed
    moreover have "cache_ok ?r2" using ok unfolding cache_ok_def live reg_ok_def by simp
    moreover have "\<forall>i fd. (i, fd) \<in> set (lr_parked ?r2) \<longrightarrow> i \<in> set (live_set ?r2)"
      using ok unfolding live reg_ok_def by simp
    ultimately have "reg_ok calm ?r2" by (simp add: reg_ok_def settling_def)
    moreover have "calm \<longrightarrow> calm_stat stat ?r2" using calm unfolding calm_stat_def views keys by simp
    ultimately show ?thesis unfolding ar by (simp add: same_readers_def)
  next
    case last: False
    let ?r2 = "?r1\<lparr>lr_open := AList.delete i (lr_open r)\<rparr>"
    have ar: "apply_release stat i c r = close_unparked stat ?r2" using False last s by (simp add: apply_release_def)
    have views: "lease ?r2 = lease r" "deferred ?r2 = deferred r" "read_locked ?r2 = read_locked r" "open_count ?r2 = open_count ?r1"
      "connected ?r2 = connected r"
      by (simp_all add: fun_eq_iff lease_def deferred_def read_locked_def open_count_def connected_def)
    have zero: "open_count ?r1 i = 0" using count last by simp
    have keys: "set (map fst (lr_open ?r2)) \<subseteq> set (map fst (lr_open r))" by (auto simp: delete_keys)
    have sc: "sidecars ?r2 \<subseteq> sidecars r" by (auto simp: sidecars_def AList.delete_eq)
    have live: "set (live_set ?r2) \<subseteq> set (live_set r)" using keys sc by (auto simp: set_live_set)
    have "counts_ok ?r2" unfolding counts_ok_def views using dist cnt cnt' zero by (auto simp: delete_conv')
    moreover have "conns_ok ?r2"
      by (rule conns_ok_transfer [OF conns]) (use conns in \<open>auto simp: conns_ok_def\<close>)
    moreover have notin: "j \<notin> set (map fst (lr_open ?r2))" if "j \<notin> set (map fst (lr_open r))" for j
      using keys that by blast
    have "readers_ok calm ?r2" unfolding readers_ok_def views
      using leaseD [OF st(3)] parkedD [OF st(3)] notin st(3) by (auto simp: readers_ok_def)
    moreover have "calm \<longrightarrow> calm_ok ?r2"
    proof
      assume calm
      note cok = st(4) [OF this]
      have unconnected: "\<not> connected r i"
      proof
        assume "connected r i"
        then obtain d where d: "(d, i) \<in> set (lr_conns ?r1)" by (auto simp: connected_def)
        from connD(1,2) [OF conns d] have "0 < open_count ?r1 i"
          unfolding open_count_def length_greater_0_conv filter_empty_conv by auto
        with zero show False by simp
      qed
      have "\<exists>st. map_of (lr_open ?r2) j = Some st \<and> t \<in> set (os_sidecars st)" if "(j, t) \<in> set (lr_wal r)" for j t
        using cok that unconnected unfolding calm_ok_def by (metis delete_conv' fun_upd_other registry.select_convs(1) registry.surjective registry.update_convs(1))
      note wal = this
      show "calm_ok ?r2" unfolding calm_ok_def views
      proof (intro conjI allI impI)
        fix j fd assume "lease r j fd"
        with cok live show "j \<notin> set (live_set ?r2)" unfolding calm_ok_def by blast
      next
        fix j t assume "(j, t) \<in> set (lr_wal ?r2)"
        then have jt: "(j, t) \<in> set (lr_wal r)" by simp
        show "\<exists>st. map_of (lr_open ?r2) j = Some st \<and> t \<in> set (os_sidecars st)" by (rule wal [OF jt])
        show "connected r j" "t \<in> set (lr_locked ?r2)" using cok jt by (auto simp: calm_ok_def)
      next
        show "set (lr_lock_files ?r2) \<inter> set (map fst (lr_open ?r2)) = {}"
          "sidecars ?r2 \<inter> (set (lr_lock_files ?r2) \<union> set (map fst (lr_open ?r2))) = {}"
        proof -
          have "set (lr_lock_files r) \<inter> set (map fst (lr_open r)) = {}"
            "sidecars r \<inter> (set (lr_lock_files r) \<union> set (map fst (lr_open r))) = {}"
            using cok unfolding calm_ok_def by blast+
          moreover have "lr_lock_files ?r2 = lr_lock_files r" by simp
          ultimately show "set (lr_lock_files ?r2) \<inter> set (map fst (lr_open ?r2)) = {}"
            "sidecars ?r2 \<inter> (set (lr_lock_files ?r2) \<union> set (map fst (lr_open ?r2))) = {}"
            using keys sc by (simp_all only:) blast+
        qed
      qed (use cok in \<open>auto simp: calm_ok_def\<close>)
    qed
    ultimately have s2: "settling calm ?r2" by (simp add: settling_def)
    have c2: "calm \<longrightarrow> calm_stat stat ?r2" using calm calm_stat_mono [of stat r ?r2] keys by simp
    from close_unparked_ok [OF s2 c2] have "reg_ok calm (close_unparked stat ?r2)" .
    moreover have "same_readers r ?r2" by (simp add: same_readers_def)
    then have "same_readers r (close_unparked stat ?r2)" using close_unparked_frame(1) same_readers_trans by blast
    moreover have "calm \<longrightarrow> calm_stat stat (close_unparked stat ?r2)"
      using c2 calm_stat_mono [of stat ?r2 "close_unparked stat ?r2"] close_unparked_frame [where r = ?r2 and stat = stat]
      by (simp add: same_readers_def)
    ultimately show ?thesis unfolding ar by blast
  qed
qed

lemma drain_releases_ok:
  assumes "reg_ok calm r" and "\<forall>(i, c) \<in> set q. (c, i) \<in> set (lr_connections r) \<and> c \<notin> set (map fst (lr_conns r))"
    and "calm \<longrightarrow> calm_stat stat r"
  shows "reg_ok calm (drain_releases stat q r) \<and> same_readers r (drain_releases stat q r)
    \<and> (calm \<longrightarrow> calm_stat stat (drain_releases stat q r))"
  using assms
proof (induction q arbitrary: r)
  case Nil
  then show ?case by (simp add: same_readers_def)
next
  case (Cons x q)
  obtain i c where x: "x = (i, c)" by (cases x)
  let ?r = "apply_release stat i c r"
  have c: "(c, i) \<in> set (lr_connections r)" "c \<notin> set (map fst (lr_conns r))" using Cons.prems(2) by (auto simp: x)
  have step: "reg_ok calm ?r" "same_readers r ?r" "calm \<longrightarrow> calm_stat stat ?r"
    using apply_release_ok [OF Cons.prems(1) c Cons.prems(3)] by blast+
  have "\<forall>(i, c) \<in> set q. (c, i) \<in> set (lr_connections ?r) \<and> c \<notin> set (map fst (lr_conns ?r))"
    using Cons.prems(2) step(2) by (auto simp: same_readers_def)
  from Cons.IH [OF step(1) this step(3)] step(2) show ?case
    by (auto simp: x intro: same_readers_trans)
qed

text \<open>Every entry point drains first.\<close>

lemma drain_finalized_ok:
  assumes ok: "reg_ok calm r" and calm: "calm \<longrightarrow> calm_stat stat r"
  defines "r' \<equiv> drain_finalized stat r"
  shows "reg_ok calm r'" "calm \<longrightarrow> calm_stat stat r'" "lease r' = lease r" "deferred r' = deferred r"
    "read_locked r' = read_locked r" "same_readers (r\<lparr>lr_finalized := []\<rparr>) r'"
proof -
  let ?r = "r\<lparr>lr_finalized := []\<rparr>"
  have "reg_ok calm ?r" by (rule finalized_ok [OF ok]) simp
  moreover have "\<forall>(i, c) \<in> set (lr_finalized r). (c, i) \<in> set (lr_connections ?r) \<and> c \<notin> set (map fst (lr_conns ?r))"
  proof clarify
    fix i c assume "(i, c) \<in> set (lr_finalized r)"
    moreover have "conns_ok r" using ok by (simp add: reg_ok_def settling_def)
    ultimately have "(c, i) \<in> set (lr_connections r) \<and> c \<notin> set (map fst (lr_conns r))"
      unfolding conns_ok_def by blast
    then show "(c, i) \<in> set (lr_connections ?r) \<and> c \<notin> set (map fst (lr_conns ?r))" by simp
  qed
  moreover have "calm \<longrightarrow> calm_stat stat ?r" using calm by (simp add: calm_stat_def settling_views)
  ultimately have d: "reg_ok calm r'" "same_readers ?r r'" "calm \<longrightarrow> calm_stat stat r'"
    using drain_releases_ok [of calm ?r] by (auto simp: r'_def drain_finalized_def)
  then show "reg_ok calm r'" "calm \<longrightarrow> calm_stat stat r'" "lease r' = lease r" "deferred r' = deferred r"
    "read_locked r' = read_locked r" "same_readers ?r r'"
    by (simp_all add: same_readers_def fun_eq_iff lease_def deferred_def read_locked_def)
qed

section \<open>Readers keep the registry\<close>

lemma reg_okD:
  assumes "reg_ok calm r"
  shows "counts_ok r" "conns_ok r" "readers_ok calm r" "calm \<Longrightarrow> calm_ok r" "cache_ok r"
    "\<And>i fd. (i, fd) \<in> set (lr_parked r) \<Longrightarrow> i \<in> set (live_set r)"
  using assms by (auto simp: reg_ok_def settling_def)

lemma reg_okI:
  assumes "counts_ok r" "conns_ok r" "readers_ok calm r" "calm \<Longrightarrow> calm_ok r" "cache_ok r"
    "\<And>i fd. (i, fd) \<in> set (lr_parked r) \<Longrightarrow> i \<in> set (live_set r)"
  shows "reg_ok calm r"
  using assms by (simp add: reg_ok_def settling_def)

lemma calm_okD:
  assumes "calm_ok r"
  shows "lease r i fd \<Longrightarrow> i \<notin> set (live_set r)" "read_locked r i \<Longrightarrow> i \<in> set (lr_locked r)"
    "set (lr_lock_files r) \<subseteq> set (lr_locked r)" "set (lr_lock_files r) \<inter> set (map fst (lr_open r)) = {}"
    "sidecars r \<inter> (set (lr_lock_files r) \<union> set (map fst (lr_open r))) = {}"
    "(i, s) \<in> set (lr_wal r) \<Longrightarrow> connected r i \<and> s \<in> set (lr_locked r)"
    "(i, s) \<in> set (lr_wal r) \<Longrightarrow> \<exists>st. map_of (lr_open r) i = Some st \<and> s \<in> set (os_sidecars st)"
  using assms unfolding calm_ok_def by blast+

lemma wal_live: "calm_ok r \<Longrightarrow> (i, s) \<in> set (lr_wal r) \<Longrightarrow> s \<in> sidecars r"
  using calm_okD(7) [of r i s] by (force simp: sidecars_def dest: map_of_SomeD)

lemma calm_ok_transfer:
  assumes "calm_ok r" and "lr_open r' = lr_open r" "lr_lock_files r' = lr_lock_files r" "lr_conns r' = lr_conns r"
    and wal: "set (lr_wal r') \<subseteq> set (lr_wal r)"
    and "\<And>i fd. lease r' i fd \<Longrightarrow> i \<notin> set (live_set r)" "\<And>i. read_locked r' i \<Longrightarrow> i \<in> set (lr_locked r')"
    and "set (lr_lock_files r) \<subseteq> set (lr_locked r')" "\<And>i s. (i, s) \<in> set (lr_wal r') \<Longrightarrow> s \<in> set (lr_locked r')"
  shows "calm_ok r'"
proof -
  have v: "connected r' = connected r" "sidecars r' = sidecars r" "live_set r' = live_set r"
    using assms(2-4) by (simp_all add: fun_eq_iff connected_def sidecars_def live_set_def)
  have "connected r i" "\<exists>st. map_of (lr_open r) i = Some st \<and> s \<in> set (os_sidecars st)" if "(i, s) \<in> set (lr_wal r')" for i s
    using calm_okD(6,7) [OF assms(1)] wal that by blast+
  with calm_okD(4,5) [OF assms(1)] assms(6-9) show ?thesis unfolding calm_ok_def v assms(2,3) by blast
qed

text \<open>The parts of the registry the invariant reads through the leases alone.\<close>

lemma leases_only:
  assumes "reg_ok calm r" and "lease (r\<lparr>lr_leases := l\<rparr>) = lease r"
  shows "reg_ok calm (r\<lparr>lr_leases := l\<rparr>)"
proof -
  have "deferred (r\<lparr>lr_leases := l\<rparr>) = deferred r" "read_locked (r\<lparr>lr_leases := l\<rparr>) = read_locked r"
    "connected (r\<lparr>lr_leases := l\<rparr>) = connected r" "open_count (r\<lparr>lr_leases := l\<rparr>) = open_count r"
    "sidecars (r\<lparr>lr_leases := l\<rparr>) = sidecars r"
    by (simp_all add: fun_eq_iff deferred_def read_locked_def open_count_def connected_def sidecars_def)
  with assms show ?thesis
    by (simp add: reg_ok_def settling_def counts_ok_def conns_ok_def readers_ok_def calm_ok_def cache_ok_def)
qed

lemma sweep_leases_ok:
  assumes ok: "reg_ok calm r"
  shows "reg_ok calm (sweep_leases found r)" "lease (sweep_leases found r) = lease r"
    "sweep_leases found r = r\<lparr>lr_leases := lr_leases (sweep_leases found r)\<rparr>"
proof -
  have held: "held_leases i r = dict_get (lr_leases r) i []" for i
    using leaseD(1) [OF reg_okD(3) [OF ok]] by (simp add: held_leases_def filter_id_conv lease_def)
  show leases: "lease (sweep_leases found r) = lease r"
    by (auto simp: fun_eq_iff lease_def sweep_leases_def held dict_get_def delete_conv' split: option.split)
  show form: "sweep_leases found r = r\<lparr>lr_leases := lr_leases (sweep_leases found r)\<rparr>"
    by (simp add: sweep_leases_def split: option.split)
  show "reg_ok calm (sweep_leases found r)"
    using leases_only [OF ok, of "lr_leases (sweep_leases found r)"] leases form by simp
qed

lemma leased_iff: "reg_ok calm r \<Longrightarrow> leased r (Some i) \<longleftrightarrow> (\<exists>fd. lease r i fd)"
  using leaseD(1) [OF reg_okD(3)] by (fastforce simp: leased_def held_leases_def lease_def filter_empty_conv)

text \<open>Closing a leased descriptor that no read lock shares an inode with.\<close>

lemma close_leased_ok:
  assumes ok: "reg_ok calm r" and l: "lease r i fd \<or> map_of (lr_fds r) fd = None" and unlocked: "\<not> read_locked r i"
  shows "reg_ok calm (close_leased i fd r)"
    and "read_locked (close_leased i fd r) = read_locked r" "deferred (close_leased i fd r) = deferred r"
    and "\<And>j fd'. lease (close_leased i fd r) j fd' \<longleftrightarrow> lease r j fd' \<and> (j, fd') \<noteq> (i, fd)"
    and "map_of (lr_fds (close_leased i fd r)) fd' = (if fd' = fd then None else map_of (lr_fds r) fd')"
proof -
  let ?r = "close_leased i fd r"
  note rd = reg_okD(3) [OF ok]
  have "\<exists>ls. ?r = r\<lparr>lr_fds := AList.delete fd (lr_fds r),
      lr_locked := filter (\<lambda>j. map_of (lr_fds r) fd \<noteq> Some j) (lr_locked r), lr_leases := ls\<rparr>"
  proof (cases "map_of (lr_leases r) i")
    case None
    then show ?thesis by (intro exI [of _ "lr_leases r"]) (simp add: close_leased_def os_close_alt)
  next
    case (Some fds)
    let ?rest = "filter (\<lambda>f. f \<noteq> fd) fds"
    show ?thesis
      by (intro exI [of _ "if ?rest = [] then AList.delete i (lr_leases r) else dict_set i ?rest (lr_leases r)"])
        (simp add: Some close_leased_def os_close_alt Let_def)
  qed
  then obtain ls where form: "?r = r\<lparr>lr_fds := AList.delete fd (lr_fds r),
      lr_locked := filter (\<lambda>j. map_of (lr_fds r) fd \<noteq> Some j) (lr_locked r), lr_leases := ls\<rparr>" by blast
  show leases: "lease ?r j fd' \<longleftrightarrow> lease r j fd' \<and> (j, fd') \<noteq> (i, fd)" for j fd'
    by (auto simp: lease_def close_leased_def os_close_alt Let_def dict_get_def delete_conv' filter_empty_conv split: option.splits)
  show views: "read_locked ?r = read_locked r" "deferred ?r = deferred r"
    by (simp_all add: fun_eq_iff form read_locked_def deferred_def)
  have views2: "connected ?r = connected r" "open_count ?r = open_count r" "sidecars ?r = sidecars r" "live_set ?r = live_set r"
    by (simp_all add: fun_eq_iff form open_count_def connected_def sidecars_def live_set_def)
  show fds: "map_of (lr_fds ?r) fd' = (if fd' = fd then None else map_of (lr_fds r) fd')" for fd'
    by (simp add: form delete_conv')
  have kept: "j \<in> set (lr_locked ?r)" if "j \<in> set (lr_locked r)" "\<not> lease r j fd" for j
    using that l leaseD(1) [OF rd] by (auto simp: form)
  show "reg_ok calm ?r"
  proof (rule reg_okI)
    show "counts_ok ?r" using reg_okD(1) [OF ok] by (simp add: counts_ok_def views2) (simp add: form)
    show "conns_ok ?r"
    proof -
      have "j \<in> set (lr_locked ?r)" if "(c, j) \<in> set (lr_conns r)" for c j
      proof (rule kept)
        have "connected r j" using that by (force simp: connected_def)
        note co = connected_open [OF reg_okD(1,2) [OF ok] this]
        show "j \<in> set (lr_locked r)" by (rule co(2))
        show "\<not> lease r j fd" using co(1) leaseD(2) [OF rd] by blast
      qed
      then show ?thesis by (intro conns_ok_transfer [OF reg_okD(2) [OF ok]]) (simp_all add: form)
    qed
    show "readers_ok calm ?r"
      unfolding readers_ok_def views leases
    proof (intro conjI allI impI)
      fix j fd' assume a: "lease r j fd' \<and> (j, fd') \<noteq> (i, fd)"
      have "fd' \<noteq> fd"
      proof
        assume e: "fd' = fd"
        with a have "map_of (lr_fds r) fd = Some j" using leaseD(1) [OF rd] by blast
        with l leaseD(1) [OF rd, of i fd] have "j = i" by auto
        with a e show False by simp
      qed
      with a leaseD [OF rd] show "map_of (lr_fds ?r) fd' = Some j" by (simp add: fds)
      from a leaseD(2,3) [OF rd] show "j \<notin> set (map fst (lr_open ?r))" "j \<notin> set (lr_lock_files ?r)" by (auto simp: form)
    next
      fix j fd' assume "(j, fd') \<in> set (lr_parked ?r)"
      then have p: "(j, fd') \<in> set (lr_parked r)" by (simp add: form)
      have "fd' \<noteq> fd"
      proof
        assume e: "fd' = fd"
        with parkedD(1) [OF rd p] have "map_of (lr_fds r) fd = Some j" by simp
        with l leaseD(1) [OF rd, of i fd] have "lease r j fd" by auto
        with parkedD(2) [OF rd p] e show False by simp
      qed
      with parkedD [OF rd p] show "map_of (lr_fds ?r) fd' = Some j" "\<not> (lease r j fd' \<and> (j, fd') \<noteq> (i, fd))"
        by (simp_all add: fds)
      show "\<not> (lease r j x \<and> (j, x) \<noteq> (i, fd))" if calm for x using parkedD(3) [OF rd p that] by blast
    next
      fix j assume j: "read_locked r j"
      then obtain x where "lease r j x" using rd unfolding readers_ok_def by blast
      moreover have "j \<noteq> i" using j unlocked by blast
      ultimately show "\<exists>x. lease r j x \<and> (j, x) \<noteq> (i, fd)" by blast
    next
      fix j x assume d: "deferred r j x"
      then show "read_locked r j" "lease r j x" using rd unfolding readers_ok_def by blast+
      show "(j, x) \<noteq> (i, fd)" using \<open>read_locked r j\<close> unlocked by blast
    qed
    show "calm_ok ?r" if calm
    proof -
      note cok = reg_okD(4) [OF ok that]
      have live_kept: "j \<in> set (lr_locked ?r)" if "j \<in> set (lr_locked r)" "j \<in> set (live_set r)" for j
        using kept that calm_okD(1) [OF cok] by blast
      have "j \<in> set (lr_locked ?r)" if "read_locked r j" for j
      proof (rule kept [OF calm_okD(2) [OF cok that]])
        show "\<not> lease r j fd"
        proof
          assume jf: "lease r j fd"
          with l leaseD(1) [OF rd jf] leaseD(1) [OF rd, of i fd] have "j = i" by auto
          with that unlocked show False by simp
        qed
      qed
      moreover have "s \<in> set (lr_locked ?r)" if "(j, s) \<in> set (lr_wal r)" for j s
        using live_kept calm_okD(6) [OF cok that] wal_live [OF cok that] by (auto simp: set_live_set)
      moreover have "set (lr_lock_files r) \<subseteq> set (lr_locked ?r)"
        using calm_okD(3) [OF cok] live_kept in_live_set(2) by blast
      moreover have "lr_wal ?r = lr_wal r" "lr_open ?r = lr_open r" "lr_lock_files ?r = lr_lock_files r" "lr_conns ?r = lr_conns r"
        by (simp_all add: form)
      ultimately show ?thesis
        using calm_okD(1) [OF cok] by (intro calm_ok_transfer [OF cok]) (auto simp: leases views)
    qed
    show "cache_ok ?r" using reg_okD(5) [OF ok] unfolding cache_ok_def views2 by (simp add: form)
    fix j x assume "(j, x) \<in> set (lr_parked ?r)"
    then show "j \<in> set (live_set ?r)" unfolding views2 using reg_okD(6) [OF ok] by (simp add: form)
  qed
qed

end
