(* ===== verification/LiveStoresKept.thy ===== *)
theory LiveStoresKept
  imports LiveStoresInv
begin

text \<open>
  Every step of the registry keeps its invariant, and what follows: no descriptor the process closes
  takes the locks of a connection, a lock file, a read lock or a sidecar.
\<close>

section \<open>Every step keeps the registry\<close>

lemma views_eq:
  assumes "lr_leases r' = lr_leases r" "lr_deferred r' = lr_deferred r" "lr_read_locks r' = lr_read_locks r"
    "lr_conns r' = lr_conns r" "lr_connections r' = lr_connections r" "lr_done r' = lr_done r" "lr_open r' = lr_open r"
    "lr_lock_files r' = lr_lock_files r"
  shows "lease r' = lease r" "deferred r' = deferred r" "read_locked r' = read_locked r" "connected r' = connected r"
    "open_count r' = open_count r" "sidecars r' = sidecars r" "live_set r' = live_set r"
  using assms by (simp_all add: fun_eq_iff lease_def deferred_def read_locked_def connected_def open_count_def sidecars_def live_set_def)

lemma opens_ok: "reg_ok calm r \<Longrightarrow> fd \<notin> set (map fst (lr_fds r)) \<Longrightarrow> reg_ok calm (r\<lparr>lr_fds := (fd, i) # lr_fds r\<rparr>)"
proof -
  let ?r = "r\<lparr>lr_fds := (fd, i) # lr_fds r\<rparr>"
  assume ok: "reg_ok calm r" and new: "fd \<notin> set (map fst (lr_fds r))"
  have v: "lease ?r = lease r" "deferred ?r = deferred r" "read_locked ?r = read_locked r" "connected ?r = connected r"
    "open_count ?r = open_count r" "sidecars ?r = sidecars r" "live_set ?r = live_set r"
    by (rule views_eq; simp)+
  have "map_of (lr_fds r) fd = None" using new by (simp add: map_of_eq_None_iff)
  then have "map_of (lr_fds ?r) x = Some j" if "map_of (lr_fds r) x = Some j" for x j using that by auto
  with ok show ?thesis
    unfolding reg_ok_def settling_def counts_ok_def conns_ok_def readers_ok_def calm_ok_def cache_ok_def v by auto
qed

lemma checks_ok:
  assumes ok: "reg_ok calm r" and calm: "calm \<longrightarrow> calm_stat stat r"
  shows "reg_ok calm (snd (is_known_live stat found r))"
proof -
  note d = drain_finalized_ok [OF ok calm]
  obtain live r1 where li: "live_identities stat (drain_finalized stat r) = (live, r1)" by fastforce
  from grown_reg_ok [OF live_identities_ok(1) [OF reg_okD(5) [OF d(1)] li] d(1,2)] d(1) show ?thesis
    by (simp add: is_known_live_def Let_def li split: option.split)
qed

lemma admits_ok:
  assumes ok: "reg_ok calm r" and calm: "calm \<longrightarrow> calm_stat stat r"
    and fd: "map_of (lr_fds r) fd = Some i" "\<not> lease r i fd" "(i, fd) \<notin> set (lr_parked r)"
  shows "reg_ok calm (snd (admit_reader_fd stat fd i r))"
proof -
  let ?d = "drain_finalized stat r"
  note d = drain_finalized_ok [OF ok calm]
  define s where "s = (if lr_open ?d \<noteq> [] \<or> lr_lock_files ?d \<noteq> [] then live_identities stat ?d else ([], ?d))"
  obtain live r1 where s1: "s = (live, r1)" by (cases s)
  have adm: "admit_reader_fd stat fd i r =
      (if i \<in> set live then (False, r1\<lparr>lr_parked := lr_parked r1 @ [(i, fd)]\<rparr>)
       else (True, r1\<lparr>lr_leases := dict_set i (List.insert fd (dict_get (lr_leases r1) i [])) (lr_leases r1)\<rparr>))"
    unfolding admit_reader_fd_def Let_def s_def [symmetric] s1 prod.case ..
  have "fd \<notin> snd ` set (lr_parked r)" using fd(1,3) parkedD(1) [OF reg_okD(3) [OF ok]] by fastforce
  then have fd1: "map_of (lr_fds ?d) fd = Some i" using d(6) fd(1) by (simp add: same_readers_def)
  have "reg_ok calm r1 \<and> set live = set (live_set r1) \<and> lease r1 = lease r \<and> lr_fds r1 = lr_fds ?d"
  proof (cases "lr_open ?d \<noteq> [] \<or> lr_lock_files ?d \<noteq> []")
    case True
    then have li: "live_identities stat ?d = (live, r1)" using s1 by (simp add: s_def)
    note g = live_identities_ok [OF reg_okD(5) [OF d(1)] li]
    from grown_reg_ok [OF g(1) d(1,2)] g(2) grown_views(1) [OF g(1)] grown_frame(9) [OF g(1)] d(3) show ?thesis by simp
  next
    case False
    then have "live = []" "r1 = ?d" using s1 by (simp_all add: s_def)
    moreover have "live_set ?d = []" using False by (simp add: live_set_def)
    ultimately show ?thesis using d(1,3) by simp
  qed
  then have r1: "reg_ok calm r1" "set live = set (live_set r1)" "lease r1 = lease r" "map_of (lr_fds r1) fd = Some i"
    using fd1 by simp_all
  note rd = reg_okD(3) [OF r1(1)]
  show ?thesis
  proof (cases "i \<in> set live")
    case True
    let ?p = "r1\<lparr>lr_parked := lr_parked r1 @ [(i, fd)]\<rparr>"
    have ar: "snd (admit_reader_fd stat fd i r) = ?p"
      using True by (simp add: adm)
    have v: "lease ?p = lease r1" "deferred ?p = deferred r1" "read_locked ?p = read_locked r1" "connected ?p = connected r1"
      "open_count ?p = open_count r1" "sidecars ?p = sidecars r1" "live_set ?p = live_set r1"
      by (rule views_eq; simp)+
    have "\<not> lease r1 i x" if calm for x using calm_okD(1) [OF reg_okD(4) [OF r1(1) that]] True r1(2) by blast
    then have "readers_ok calm ?p"
      using rd r1(3,4) fd(2) unfolding readers_ok_def v by auto
    then show ?thesis
      unfolding ar using r1(1) True r1(2)
      unfolding reg_ok_def settling_def counts_ok_def conns_ok_def calm_ok_def cache_ok_def v by auto
  next
    case False
    let ?p = "r1\<lparr>lr_leases := dict_set i (List.insert fd (dict_get (lr_leases r1) i [])) (lr_leases r1)\<rparr>"
    have ar: "snd (admit_reader_fd stat fd i r) = ?p"
      using False by (simp add: adm)
    have leases: "lease ?p j x \<longleftrightarrow> lease r1 j x \<or> (j = i \<and> x = fd)" for j x by (auto simp: lease_def)
    have v: "deferred ?p = deferred r1" "read_locked ?p = read_locked r1" "connected ?p = connected r1"
      "open_count ?p = open_count r1" "sidecars ?p = sidecars r1"
      by (simp_all add: fun_eq_iff deferred_def read_locked_def connected_def open_count_def sidecars_def)
    have dead: "i \<notin> set (live_set r1)" using False r1(2) by blast
    then have out: "i \<notin> set (map fst (lr_open r1))" "i \<notin> set (lr_lock_files r1)" using in_live_set by blast+
    have unparked: "(i, x) \<notin> set (lr_parked r1)" for x using reg_okD(6) [OF r1(1)] dead by blast
    have "readers_ok calm ?p"
      unfolding readers_ok_def v leases
    proof (intro conjI allI impI)
      fix j x assume a: "lease r1 j x \<or> (j = i \<and> x = fd)"
      then show "map_of (lr_fds ?p) x = Some j" using leaseD(1) [OF rd] r1(4) by auto
      show "j \<notin> set (map fst (lr_open ?p))" "j \<notin> set (lr_lock_files ?p)" using a leaseD(2,3) [OF rd] out by auto
    next
      fix j x assume "(j, x) \<in> set (lr_parked ?p)"
      then have p: "(j, x) \<in> set (lr_parked r1)" by simp
      then have "j \<noteq> i" using unparked by blast
      with parkedD [OF rd p] show "map_of (lr_fds ?p) x = Some j" "\<not> (lease r1 j x \<or> (j = i \<and> x = fd))" by simp_all
      show "\<not> (lease r1 j y \<or> (j = i \<and> y = fd))" if calm for y using \<open>j \<noteq> i\<close> parkedD(3) [OF rd p that] by blast
    next
      fix j assume "read_locked r1 j"
      then show "\<exists>x. lease r1 j x \<or> (j = i \<and> x = fd)" using rd unfolding readers_ok_def by blast
    next
      fix j x assume "deferred r1 j x"
      then show "read_locked r1 j" "lease r1 j x \<or> (j = i \<and> x = fd)" using rd unfolding readers_ok_def by blast+
    qed
    moreover have "calm_ok ?p" if calm
      by (rule calm_ok_transfer [OF reg_okD(4) [OF r1(1) that]])
        (use calm_okD [OF reg_okD(4) [OF r1(1) that]] dead in \<open>auto simp: leases v\<close>)
    ultimately show ?thesis
      unfolding ar using r1(1)
      unfolding reg_ok_def settling_def counts_ok_def conns_ok_def cache_ok_def v by simp
  qed
qed

lemma closes_ok:
  assumes ok: "reg_ok calm r" and calm: "calm \<longrightarrow> calm_stat stat r" and l: "lease r i fd"
  shows "reg_ok calm (close_reader_fd stat fd i r)"
proof -
  let ?d = "drain_finalized stat r"
  note d = drain_finalized_ok [OF ok calm]
  show ?thesis
  proof (cases "read_locked ?d i")
    case True
    let ?p = "?d\<lparr>lr_deferred := dict_set i (dict_get (lr_deferred ?d) i [] @ [fd]) (lr_deferred ?d)\<rparr>"
    have ar: "close_reader_fd stat fd i r = ?p"
      using True by (simp add: close_reader_fd_def read_locked_def Let_def)
    have def': "deferred ?p j x \<longleftrightarrow> deferred ?d j x \<or> (j = i \<and> x = fd)" for j x by (auto simp: deferred_def)
    have v: "lease ?p = lease ?d" "read_locked ?p = read_locked ?d" "connected ?p = connected ?d"
      "open_count ?p = open_count ?d" "sidecars ?p = sidecars ?d"
      by (simp_all add: fun_eq_iff lease_def read_locked_def connected_def open_count_def sidecars_def)
    have "readers_ok calm ?p"
      using reg_okD(3) [OF d(1)] True l d(3) unfolding readers_ok_def v def' by auto
    with d(1) show ?thesis
      unfolding ar reg_ok_def settling_def counts_ok_def conns_ok_def calm_ok_def cache_ok_def v by simp
  next
    case False
    then show ?thesis
      using close_leased_ok(1) [OF d(1), of i fd] l d(3) by (simp add: close_reader_fd_def read_locked_def Let_def)
  qed
qed

lemma set_frame:
  "lr_leases r' = lr_leases r \<Longrightarrow> lease r' = lease r" "lr_deferred r' = lr_deferred r \<Longrightarrow> deferred r' = deferred r"
  "lr_read_locks r' = lr_read_locks r \<Longrightarrow> read_locked r' = read_locked r"
  "lr_conns r' = lr_conns r \<Longrightarrow> connected r' = connected r"
  "lr_connections r' = lr_connections r \<Longrightarrow> lr_done r' = lr_done r \<Longrightarrow> open_count r' = open_count r"
  "lr_open r' = lr_open r \<Longrightarrow> sidecars r' = sidecars r"
  "lr_open r' = lr_open r \<Longrightarrow> lr_lock_files r' = lr_lock_files r \<Longrightarrow> live_set r' = live_set r"
  by (simp_all add: fun_eq_iff lease_def deferred_def read_locked_def connected_def open_count_def sidecars_def live_set_def)

text \<open>Changing what is read-locked and which locks are held, and nothing else.\<close>

lemma relock_ok:
  assumes ok: "reg_ok calm r"
    and form: "r' = r\<lparr>lr_read_locks := rl, lr_locked := l\<rparr>"
    and conns: "\<And>i. connected r i \<Longrightarrow> i \<in> set l"
    and locked: "\<And>i. read_locked r' i \<Longrightarrow> (\<exists>fd. lease r i fd) \<and> (calm \<longrightarrow> i \<in> set l)"
    and def': "\<And>i fd. deferred r i fd \<Longrightarrow> read_locked r' i"
    and calm: "\<And>j. calm \<Longrightarrow> j \<in> set (lr_locked r) \<Longrightarrow> j \<in> set (live_set r) \<Longrightarrow> j \<in> set l"
  shows "reg_ok calm r'"
proof (rule reg_okI)
  have v: "lease r' = lease r" "deferred r' = deferred r" "connected r' = connected r" "open_count r' = open_count r"
    "live_set r' = live_set r"
    by (rule set_frame; simp add: form)+
  note rd = reg_okD(3) [OF ok]
  show "counts_ok r'" using reg_okD(1) [OF ok] by (simp add: counts_ok_def v) (simp add: form)
  have "i \<in> set l" if "(c, i) \<in> set (lr_conns r)" for c i using conns that by (force simp: connected_def)
  then show "conns_ok r'" by (intro conns_ok_transfer [OF reg_okD(2) [OF ok]]) (simp_all add: form)
  show "readers_ok calm r'" using rd locked def' unfolding readers_ok_def v by (simp add: form)
  show "calm_ok r'" if calm
  proof (rule calm_ok_transfer [OF reg_okD(4) [OF ok that]])
    note cok = reg_okD(4) [OF ok that]
    show "i \<notin> set (live_set r)" if "lease r' i fd" for i fd using calm_okD(1) [OF cok] that unfolding v by blast
    show "set (lr_lock_files r) \<subseteq> set (lr_locked r')"
      using calm_okD(3) [OF cok] calm [OF \<open>calm\<close>] in_live_set(2) [of r] by (auto simp: form)
    show "s \<in> set (lr_locked r')" if "(i, s) \<in> set (lr_wal r')" for i s
    proof -
      have w: "(i, s) \<in> set (lr_wal r)" using that by (simp add: form)
      show ?thesis using calm_okD(6) [OF cok w] wal_live [OF cok w] calm [OF \<open>calm\<close>, of s] by (simp add: form set_live_set)
    qed
  qed (use locked that in \<open>auto simp: form\<close>)
  show "cache_ok r'" using reg_okD(5) [OF ok] unfolding cache_ok_def v by (simp add: form)
  fix i fd assume "(i, fd) \<in> set (lr_parked r')"
  then show "i \<in> set (live_set r')" unfolding v using reg_okD(6) [OF ok] by (simp add: form)
qed

lemma connected_locked: "reg_ok calm r \<Longrightarrow> connected r i \<Longrightarrow> i \<in> set (lr_locked r)"
  using connected_open(2) reg_okD(1,2) by blast

lemma read_locks_ok:
  assumes ok: "reg_ok calm r" and calm: "calm \<longrightarrow> calm_stat stat r" and l: "lease r i fd"
  shows "reg_ok calm (snd (take_read_lock stat free i r))"
proof -
  let ?d = "drain_finalized stat r"
  note d = drain_finalized_ok [OF ok calm]
  have lease: "lease ?d i fd" using l d(3) by simp
  have old: "(\<exists>fd. lease ?d j fd) \<and> (calm \<longrightarrow> j \<in> set (lr_locked ?d))" if "read_locked ?d j" for j
    using that reg_okD(3,4) [OF d(1)] calm_okD(2) unfolding readers_ok_def by blast
  have dl: "read_locked ?d j" if "deferred ?d j x" for j x
    using that reg_okD(3) [OF d(1)] unfolding readers_ok_def by blast
  show ?thesis
  proof (cases "map_of (lr_read_locks ?d) i")
    case None
    let ?r = "?d\<lparr>lr_read_locks := dict_set i 1 (lr_read_locks ?d), lr_locked := List.insert i (lr_locked ?d)\<rparr>"
    have "reg_ok calm ?r"
    proof (rule relock_ok [OF d(1) refl])
      show "j \<in> set (List.insert i (lr_locked ?d))" if "connected ?d j" for j
        using connected_locked [OF d(1) that] by simp
      show "(\<exists>fd. lease ?d j fd) \<and> (calm \<longrightarrow> j \<in> set (List.insert i (lr_locked ?d)))" if "read_locked ?r j" for j
        using that old [of j] lease by (auto simp: read_locked_def split: if_splits)
      show "read_locked ?r j" if "deferred ?d j x" for j x using dl [OF that] by (simp add: read_locked_def)
    qed simp
    then show ?thesis using d(1) by (simp add: take_read_lock_def None Let_def)
  next
    case (Some n)
    let ?r = "?d\<lparr>lr_read_locks := dict_set i (n + 1) (lr_read_locks ?d), lr_locked := lr_locked ?d\<rparr>"
    have "reg_ok calm ?r"
    proof (rule relock_ok [OF d(1) refl])
      show "j \<in> set (lr_locked ?d)" if "connected ?d j" for j by (rule connected_locked [OF d(1) that])
      show "(\<exists>fd. lease ?d j fd) \<and> (calm \<longrightarrow> j \<in> set (lr_locked ?d))" if "read_locked ?r j" for j
        using that old [of j] Some by (auto simp: read_locked_def split: if_splits)
      show "read_locked ?r j" if "deferred ?d j x" for j x using dl [OF that] by (simp add: read_locked_def)
    qed
    then show ?thesis by (simp add: take_read_lock_def Some Let_def)
  qed
qed

lemma close_deferred_ok:
  assumes "reg_ok calm r" and "\<forall>fd \<in> set fds. lease r i fd \<or> map_of (lr_fds r) fd = None" and "\<not> read_locked r i"
  shows "reg_ok calm (foldl (\<lambda>r fd. close_leased i fd r) r fds)"
  using assms
proof (induction fds arbitrary: r)
  case (Cons fd fds)
  have fd: "lease r i fd \<or> map_of (lr_fds r) fd = None" using Cons.prems(2) by simp
  note c = close_leased_ok [OF Cons.prems(1) fd Cons.prems(3)]
  have "\<forall>x \<in> set fds. lease (close_leased i fd r) i x \<or> map_of (lr_fds (close_leased i fd r)) x = None"
    using Cons.prems(2) by (auto simp: c(4,5))
  from Cons.IH [OF c(1) this] Cons.prems(3) show ?case by (simp add: c(2))
qed simp

lemma read_unlocks_ok:
  assumes ok: "reg_ok calm r" and calm: "calm \<longrightarrow> calm_stat stat r" and rl: "read_locked r i"
  shows "reg_ok calm (drop_read_lock stat i r)"
proof -
  let ?d = "drain_finalized stat r"
  note d = drain_finalized_ok [OF ok calm]
  note rd = reg_okD(3) [OF d(1)]
  let ?n = "dict_get (lr_read_locks ?d) i 0"
  have old: "(\<exists>fd. lease ?d j fd) \<and> (calm \<longrightarrow> j \<in> set (lr_locked ?d))" if "read_locked ?d j" for j
    using that rd reg_okD(4) [OF d(1)] calm_okD(2) unfolding readers_ok_def by blast
  have dl: "read_locked ?d j" "lease ?d j x" if "deferred ?d j x" for j x
    using that rd unfolding readers_ok_def by blast+
  have i: "read_locked ?d i" using rl d(5) by simp
  show ?thesis
  proof (cases "1 < ?n")
    case True
    let ?r = "?d\<lparr>lr_read_locks := dict_set i (?n - 1) (lr_read_locks ?d), lr_locked := lr_locked ?d\<rparr>"
    have "reg_ok calm ?r"
    proof (rule relock_ok [OF d(1) refl])
      show "j \<in> set (lr_locked ?d)" if "connected ?d j" for j by (rule connected_locked [OF d(1) that])
      show "(\<exists>fd. lease ?d j fd) \<and> (calm \<longrightarrow> j \<in> set (lr_locked ?d))" if "read_locked ?r j" for j
        using that old [of j] i by (auto simp: read_locked_def split: if_splits)
      show "read_locked ?r j" if "deferred ?d j x" for j x using dl(1) [OF that] by (simp add: read_locked_def)
    qed
    with True show ?thesis by (simp add: drop_read_lock_def Let_def)
  next
    case False
    let ?e = "?d\<lparr>lr_deferred := AList.delete i (lr_deferred ?d)\<rparr>"
    let ?r = "?e\<lparr>lr_read_locks := AList.delete i (lr_read_locks ?d), lr_locked := filter (\<lambda>j. j \<noteq> i) (lr_locked ?d)\<rparr>"
    have v: "lease ?e = lease ?d" "read_locked ?e = read_locked ?d" "connected ?e = connected ?d"
      "open_count ?e = open_count ?d" "sidecars ?e = sidecars ?d" "live_set ?e = live_set ?d"
      by (rule set_frame; simp)+
    have de: "deferred ?e j x \<longleftrightarrow> deferred ?d j x \<and> j \<noteq> i" for j x
      by (auto simp: deferred_def dict_get_def delete_conv')
    have "readers_ok calm ?e" using rd unfolding readers_ok_def v de by auto
    with d(1) have e: "reg_ok calm ?e"
      unfolding reg_ok_def settling_def counts_ok_def conns_ok_def calm_ok_def cache_ok_def v by simp
    obtain fd where "lease ?d i fd" using old [OF i] by blast
    then have away: "i \<notin> set (map fst (lr_open ?d))" "calm \<longrightarrow> i \<notin> set (live_set ?d)"
      using leaseD(2) [OF rd] calm_okD(1) [OF reg_okD(4) [OF d(1)]] by blast+
    have r: "reg_ok calm ?r"
    proof (rule relock_ok [OF e refl])
      show "j \<in> set (filter (\<lambda>j. j \<noteq> i) (lr_locked ?d))" if "connected ?e j" for j
      proof -
        have "connected ?d j" using that v(3) by simp
        with connected_open [OF reg_okD(1,2) [OF d(1)]] away(1) show ?thesis by auto
      qed
      show "(\<exists>fd. lease ?e j fd) \<and> (calm \<longrightarrow> j \<in> set (filter (\<lambda>j. j \<noteq> i) (lr_locked ?d)))" if "read_locked ?r j" for j
        using that old [of j] by (auto simp: read_locked_def v delete_conv' split: if_splits)
      show "read_locked ?r j" if "deferred ?e j x" for j x
        using that dl(1) [of j x] by (simp add: de read_locked_def delete_conv')
      show "j \<in> set (filter (\<lambda>j. j \<noteq> i) (lr_locked ?d))"
        if calm "j \<in> set (lr_locked ?e)" "j \<in> set (live_set ?e)" for j
        using that away(2) by (auto simp: v)
    qed
    have "drop_read_lock stat i r = foldl (\<lambda>r fd. close_leased i fd r) ?r (dict_get (lr_deferred ?d) i [])"
    proof -
      have eq: "?r = ?d\<lparr>lr_read_locks := AList.delete i (lr_read_locks ?d), lr_deferred := AList.delete i (lr_deferred ?d),
          lr_locked := filter (\<lambda>j. j \<noteq> i) (lr_locked ?d)\<rparr>"
        by (rule registry.equality) simp_all
      show ?thesis unfolding eq using False by (simp add: drop_read_lock_def Let_def)
    qed
    moreover have "\<forall>fd \<in> set (dict_get (lr_deferred ?d) i []). lease ?r i fd \<or> map_of (lr_fds ?r) fd = None"
    proof
      fix x assume "x \<in> set (dict_get (lr_deferred ?d) i [])"
      then have "lease ?d i x" using dl(2) by (simp add: deferred_def)
      then show "lease ?r i x \<or> map_of (lr_fds ?r) x = None" by (simp add: lease_def)
    qed
    moreover have "\<not> read_locked ?r i" by (simp add: read_locked_def delete_conv')
    ultimately show ?thesis using close_deferred_ok [OF r] by metis
  qed
qed

text \<open>Giving back a descriptor the driver opened and the registry refused.\<close>

lemma drop_unconnected_ok:
  assumes ok: "reg_ok calm r" and "a \<notin> snd ` set (lr_wal r)"
    and calm: "calm \<longrightarrow> \<not> read_locked r a \<and> a \<notin> set (lr_lock_files r)"
  shows "reg_ok calm (drop_unless_connected a r)"
proof (cases "connected r a")
  case True
  with ok show ?thesis by (simp add: drop_unless_connected_def)
next
  case False
  define l where "l = filter (\<lambda>j. j \<noteq> a \<and> ((a, j) \<notin> set (lr_wal r) \<or> j \<in> snd ` set (lr_wal r))) (lr_locked r)"
  have nowal: "fst p \<noteq> a" if "p \<in> set (lr_wal r)" for p
  proof -
    obtain i s where p: "p = (i, s)" by (cases p)
    with that reg_okD(2) [OF ok] have "connected r i" unfolding conns_ok_def by blast
    with False p show ?thesis by auto
  qed
  then have wal: "filter (\<lambda>p. fst p \<noteq> a) (lr_wal r) = lr_wal r" by (simp add: filter_id_conv)
  have form: "drop_unless_connected a r = r\<lparr>lr_locked := l\<rparr>" using False wal by (simp add: drop_unless_connected_def Let_def l_def)
  have kept: "j \<in> set l" if "j \<in> set (lr_locked r)" "j \<noteq> a" for j
    using that nowal [of "(a, j)"] by (auto simp: l_def)
  let ?r = "r\<lparr>lr_locked := l\<rparr>"
  have v: "lease ?r = lease r" "deferred ?r = deferred r" "read_locked ?r = read_locked r" "connected ?r = connected r"
    "open_count ?r = open_count r" "live_set ?r = live_set r"
    by (rule set_frame; simp)+
  show ?thesis unfolding form
  proof (rule reg_okI)
    show "counts_ok ?r" using reg_okD(1) [OF ok] unfolding counts_ok_def v by simp
    show "conns_ok ?r"
    proof (rule conns_ok_transfer [OF reg_okD(2) [OF ok]])
      fix c i assume "(c, i) \<in> set (lr_conns r)"
      then have "connected r i" by (force simp: connected_def)
      with connected_locked [OF ok] False kept show "i \<in> set (lr_locked ?r)" by auto
    qed simp_all
    show "readers_ok calm ?r" using reg_okD(3) [OF ok] unfolding readers_ok_def v by simp
    show "calm_ok ?r" if c: calm
    proof (rule calm_ok_transfer [OF reg_okD(4) [OF ok c]])
      note cok = reg_okD(4) [OF ok c]
      show "i \<notin> set (live_set r)" if "lease ?r i fd" for i fd using calm_okD(1) [OF cok] that unfolding v by blast
      show "i \<in> set (lr_locked ?r)" if "read_locked ?r i" for i
        using calm_okD(2) [OF cok] that calm c kept by (auto simp: v)
      show "set (lr_lock_files r) \<subseteq> set (lr_locked ?r)" using calm_okD(3) [OF cok] calm c kept by auto
      show "s \<in> set (lr_locked ?r)" if "(i, s) \<in> set (lr_wal ?r)" for i s
      proof -
        have w: "(i, s) \<in> set (lr_wal r)" using that by simp
        then have "s \<noteq> a" using assms(2) by force
        with calm_okD(6) [OF cok w] kept show ?thesis by simp
      qed
    qed simp_all
    show "cache_ok ?r" using reg_okD(5) [OF ok] unfolding cache_ok_def v by simp
    fix i fd assume "(i, fd) \<in> set (lr_parked ?r)"
    then show "i \<in> set (live_set ?r)" unfolding v using reg_okD(6) [OF ok] by simp
  qed
qed

text \<open>Counting a new connection on an inode no reader holds.\<close>

lemma open_count_new:
  "c \<notin> set (lr_done r) \<Longrightarrow>
    open_count (r\<lparr>lr_connections := (c, i) # lr_connections r\<rparr>) j = open_count r j + (if j = i then 1 else 0)"
  by (simp add: open_count_def)

lemma dict_set_has: "(i, v) \<in> set (dict_set i v xs)"
  by (induction xs) auto

lemma dict_set_keeps: "(j, st) \<in> set xs \<Longrightarrow> (j, st) \<in> set (dict_set i v xs) \<or> (j = i \<and> map_of xs i = Some st)"
  by (induction xs) (auto split: if_splits)

lemma counted_ok:
  assumes ok: "reg_ok calm r" and c: "c \<notin> set (map fst (lr_connections r))" "c \<notin> set (lr_done r)"
    and free: "\<And>fd. \<not> lease r i fd" and wal: "i \<notin> snd ` set (lr_wal r)"
    and calm: "calm \<longrightarrow> i \<notin> set (lr_lock_files r) \<and> i \<notin> sidecars r \<union> sidecar_names stat \<and> calm_stat stat r"
  shows "reg_ok calm (counted stat path i c r)"
proof -
  let ?st = "dict_get (lr_open r) i new_store"
  let ?st1 = "?st\<lparr>os_paths := List.insert path (os_paths ?st), os_count := os_count ?st + 1\<rparr>"
  let ?st2 = "record_sidecars stat i ?st1"
  let ?r = "counted stat path i c r"
  have form: "?r = r\<lparr>lr_open := dict_set i ?st2 (lr_open r), lr_cache := None, lr_connections := (c, i) # lr_connections r,
      lr_conns := (c, i) # lr_conns r, lr_locked := List.insert i (lr_locked r)\<rparr>"
    by (simp add: counted_def Let_def)
  have g: "store_grows (sidecar_names stat) ?st1 ?st2" by (rule record_sidecars_grows)
  have v: "lease ?r = lease r" "deferred ?r = deferred r" "read_locked ?r = read_locked r"
    by (rule set_frame; simp add: form)+
  have oc: "open_count ?r j = open_count r j + (if j = i then 1 else 0)" for j
    using c(2) by (simp add: open_count_def form)
  have con: "connected ?r j \<longleftrightarrow> connected r j \<or> j = i" for j by (auto simp: connected_def form)
  have opened: "lr_open ?r = dict_set i ?st2 (lr_open r)" by (simp add: form)
  have keys: "set (map fst (lr_open ?r)) = insert i (set (map fst (lr_open r)))"
    unfolding opened by (rule set_dict_keys_set)
  have map: "map_of (lr_open ?r) j = (if j = i then Some ?st2 else map_of (lr_open r) j)" for j by (simp add: form)
  have sub: "set (os_sidecars ?st2) \<subseteq> sidecars r \<union> sidecar_names stat"
  proof -
    have "set (os_sidecars ?st) \<subseteq> sidecars r"
    proof (cases "map_of (lr_open r) i")
      case None
      then show ?thesis by (simp add: new_store_def)
    next
      case (Some st)
      then have "(i, st) \<in> set (lr_open r)" by (rule map_of_SomeD)
      with Some show ?thesis by (force simp: sidecars_def)
    qed
    with g show ?thesis by (auto simp: store_grows_def)
  qed
  have sc: "sidecars ?r \<subseteq> sidecars r \<union> sidecar_names stat"
  proof -
    have "set (dict_set i ?st2 xs) \<subseteq> insert (i, ?st2) (set xs)" for xs by (induction xs) auto
    then have "set (lr_open ?r) \<subseteq> insert (i, ?st2) (set (lr_open r))" by (simp add: form)
    with sub show ?thesis by (fastforce simp: sidecars_def)
  qed
  have live: "set (live_set r) \<subseteq> set (live_set ?r)"
  proof -
    have "s \<in> sidecars ?r" if "s \<in> sidecars r" for s
    proof -
      from that obtain j st where st: "(j, st) \<in> set (lr_open r)" "s \<in> set (os_sidecars st)"
        by (auto simp: sidecars_def)
      from dict_set_keeps [OF st(1)] have "\<exists>st'. (j, st') \<in> set (lr_open ?r) \<and> s \<in> set (os_sidecars st')"
      proof
        assume same: "j = i \<and> map_of (lr_open r) i = Some st"
        with st(2) g have "s \<in> set (os_sidecars ?st2)" by (auto simp: store_grows_def)
        then show ?thesis unfolding opened using same dict_set_has [of i ?st2 "lr_open r"] by blast
      qed (use st(2) in \<open>auto simp: opened\<close>)
      then show ?thesis by (force simp: sidecars_def)
    qed
    then show ?thesis unfolding set_live_set keys by (auto simp: form)
  qed
  show ?thesis
  proof (rule reg_okI)
    have zero: "map_of (lr_open r) i = None \<Longrightarrow> open_count r i = 0"
      and some: "map_of (lr_open r) j = Some st \<Longrightarrow> os_count st = open_count r j \<and> 0 < open_count r j" for j st
      using reg_okD(1) [OF ok] unfolding counts_ok_def by blast+
    have n: "os_count ?st2 = open_count r i + 1"
      using g zero some [of i] by (cases "map_of (lr_open r) i") (simp_all add: store_grows_def new_store_def)
    have "distinct (map fst (lr_connections ?r))" using reg_okD(1) [OF ok] c(1) by (simp add: form counts_ok_def)
    moreover have "open_count ?r j = 0" if "map_of (lr_open ?r) j = None" for j
      using that reg_okD(1) [OF ok] unfolding oc map counts_ok_def by (auto split: if_splits)
    moreover have "os_count st = open_count ?r j \<and> 0 < open_count ?r j" if "map_of (lr_open ?r) j = Some st" for j st
      using that n some unfolding oc map by (cases "j = i") auto
    ultimately show "counts_ok ?r" unfolding counts_ok_def by blast
    have conns: "(d, j) \<in> set (lr_connections r)" "d \<notin> set (lr_done r)" "j \<in> set (lr_locked r)" if "(d, j) \<in> set (lr_conns r)" for d j
      using connD [OF reg_okD(2) [OF ok] that] by blast+
    have fin: "(d, j) \<in> set (lr_connections r)" "d \<notin> set (map fst (lr_conns r))" if "(j, d) \<in> set (lr_finalized r)" for d j
      using reg_okD(2) [OF ok] that unfolding conns_ok_def by blast+
    have new: "d \<noteq> c" if "(d, j) \<in> set (lr_connections r)" for d j using c(1) that by force
    show "conns_ok ?r"
      unfolding conns_ok_def con
    proof (intro conjI allI impI)
      show "distinct (map fst (lr_conns ?r))"
        using reg_okD(2) [OF ok] conns(1) new by (force simp: form conns_ok_def)
      fix d j assume "(j, d) \<in> set (lr_finalized ?r)"
      then have f: "(j, d) \<in> set (lr_finalized r)" by (simp add: form)
      show "(d, j) \<in> set (lr_connections ?r)" "d \<notin> set (map fst (lr_conns ?r))" using fin [OF f] new by (auto simp: form)
    next
      fix j s assume "(j, s) \<in> set (lr_wal ?r)"
      then have w: "(j, s) \<in> set (lr_wal r)" by (simp add: form)
      then have "connected r j \<and> \<not> connected r s" using reg_okD(2) [OF ok] unfolding conns_ok_def by blast
      moreover have "s \<noteq> i" using w wal by force
      ultimately show "connected r j \<or> j = i" "\<not> (connected r s \<or> s = i)" by blast+
    qed (use conns c(2) in \<open>auto simp: form\<close>)
    show "readers_ok calm ?r"
      using reg_okD(3) [OF ok] free unfolding readers_ok_def v keys by (simp add: form, blast)
    show "calm_ok ?r" if calm
    proof -
      note cok = reg_okD(4) [OF ok that]
      have names: "calm_stat stat r" "i \<notin> set (lr_lock_files r)" "i \<notin> sidecars r \<union> sidecar_names stat" using calm that by blast+
      have dead: "j \<notin> set (live_set ?r)" if "lease r j fd" for j fd
      proof -
        have "j \<notin> set (live_set r)" by (rule calm_okD(1) [OF cok that])
        moreover have "j \<noteq> i" using free that by blast
        moreover have "j \<notin> sidecar_names stat" using calm_stat_names [OF names(1)] that by blast
        moreover have "lr_lock_files ?r = lr_lock_files r" by (simp add: form)
        ultimately show ?thesis using sc unfolding set_live_set keys by simp blast
      qed
      have w: "connected ?r j \<and> s \<in> set (lr_locked ?r) \<and> (\<exists>st. map_of (lr_open ?r) j = Some st \<and> s \<in> set (os_sidecars st))"
        if "(j, s) \<in> set (lr_wal r)" for j s
      proof -
        from calm_okD(6,7) [OF cok that] obtain st where st: "connected r j" "s \<in> set (lr_locked r)"
          "map_of (lr_open r) j = Some st" "s \<in> set (os_sidecars st)" by blast
        then have "\<exists>st. map_of (lr_open ?r) j = Some st \<and> s \<in> set (os_sidecars st)"
          using g by (cases "j = i") (auto simp: map store_grows_def)
        moreover have "s \<in> set (lr_locked ?r)" using st(2) by (simp add: form)
        ultimately show ?thesis using st(1) con by blast
      qed
      have disj: "lr_lock_files ?r = lr_lock_files r" "lr_wal ?r = lr_wal r" by (simp_all add: form)
      have "sidecars ?r \<inter> (set (lr_lock_files r) \<union> insert i (set (map fst (lr_open r)))) = {}"
        using calm_okD(5) [OF cok] sc names calm_stat_names [OF names(1)] by blast
      moreover have "set (lr_lock_files r) \<inter> insert i (set (map fst (lr_open r))) = {}"
        using calm_okD(4) [OF cok] names(2) by blast
      moreover have "set (lr_lock_files r) \<subseteq> set (lr_locked ?r)" using calm_okD(3) [OF cok] by (auto simp: form)
      moreover have "j \<in> set (lr_locked ?r)" if "read_locked r j" for j using calm_okD(2) [OF cok that] by (simp add: form)
      ultimately show ?thesis unfolding calm_ok_def v disj keys using dead w by blast
    qed
    show "cache_ok ?r" by (simp add: cache_ok_def form)
    fix j fd assume "(j, fd) \<in> set (lr_parked ?r)"
    then show "j \<in> set (live_set ?r)" using reg_okD(6) [OF ok] live by (auto simp: form)
  qed
qed

lemma sweep_leases_frame [simp]:
  "lr_wal (sweep_leases found r) = lr_wal r" "lr_connections (sweep_leases found r) = lr_connections r"
  "lr_done (sweep_leases found r) = lr_done r" "lr_lock_files (sweep_leases found r) = lr_lock_files r"
  "lr_open (sweep_leases found r) = lr_open r" "lr_read_locks (sweep_leases found r) = lr_read_locks r"
  by (simp_all add: sweep_leases_def split: option.split)

text \<open>What a drained registry may have gained: released connections and sidecars on disk.\<close>

definition drained_from :: "(string \<Rightarrow> identity option) \<Rightarrow> nat set \<Rightarrow> registry \<Rightarrow> registry \<Rightarrow> bool" where
  "drained_from stat cs r r' \<longleftrightarrow> lr_lock_files r' = lr_lock_files r \<and> set (lr_done r') \<subseteq> set (lr_done r) \<union> cs
     \<and> sidecars r' \<subseteq> sidecars r \<union> sidecar_names stat"

lemma drained_from_trans:
  assumes "drained_from stat A r s" and "drained_from stat B s t"
  shows "drained_from stat (A \<union> B) r t"
proof -
  have "set (lr_done t) \<subseteq> set (lr_done r) \<union> (A \<union> B)" using assms unfolding drained_from_def by blast
  moreover have "sidecars t \<subseteq> sidecars r \<union> sidecar_names stat" using assms unfolding drained_from_def by blast
  ultimately show ?thesis using assms by (simp add: drained_from_def)
qed

lemma close_unparked_drains: "drained_from stat {} r (close_unparked stat r)"
proof -
  let ?r = "r\<lparr>lr_cache := None\<rparr>"
  obtain live r1 where li: "live_identities stat ?r = (live, r1)" by fastforce
  have "cache_ok ?r" by (simp add: cache_ok_def)
  from live_identities_ok(1) [OF this li] have "sidecars r1 \<subseteq> sidecars r \<union> sidecar_names stat"
    by (simp add: grown_def sidecars_def)
  then show ?thesis
    using close_unparked_frame(2,3) [of stat r] by (simp add: drained_from_def) (simp add: close_unparked_def li sidecars_def)
qed

lemma apply_release_drains: "drained_from stat {c} r (apply_release stat i c r)"
proof (cases "c \<in> set (lr_done r) \<or> map_of (lr_open r) i = None")
  case True
  then show ?thesis by (auto simp: apply_release_def drained_from_def sidecars_def)
next
  case False
  then obtain s where s: "c \<notin> set (lr_done r)" "map_of (lr_open r) i = Some s" by auto
  let ?r1 = "r\<lparr>lr_done := lr_done r @ [c]\<rparr>"
  show ?thesis
  proof (cases "1 < os_count s")
    case True
    let ?r2 = "?r1\<lparr>lr_open := dict_set i (s\<lparr>os_count := os_count s - 1\<rparr>) (lr_open ?r1)\<rparr>"
    have "sidecars ?r2 = sidecars r" by (rule sidecars_dict_set [OF s(2)]) simp_all
    moreover have "apply_release stat i c r = ?r2" using s True by (simp add: apply_release_def Let_def)
    ultimately show ?thesis by (simp add: drained_from_def)
  next
    case False
    let ?r2 = "?r1\<lparr>lr_open := AList.delete i (lr_open ?r1)\<rparr>"
    have "set (AList.delete i (lr_open r)) \<subseteq> set (lr_open r)" by (simp add: AList.delete_eq)
    then have "drained_from stat {c} r ?r2" by (auto simp: drained_from_def sidecars_def)
    from drained_from_trans [OF this close_unparked_drains] s False show ?thesis
      by (simp add: apply_release_def Let_def)
  qed
qed

lemma drain_finalized_drains: "drained_from stat (snd ` set (lr_finalized r)) r (drain_finalized stat r)"
proof -
  have "drained_from stat (snd ` set q) s (drain_releases stat q s)" for q s
  proof (induction q arbitrary: s)
    case Nil
    then show ?case by (simp add: drained_from_def)
  next
    case (Cons x q)
    obtain i c where x: "x = (i, c)" by (cases x)
    from drained_from_trans [OF apply_release_drains Cons.IH] show ?case by (simp add: x)
  qed
  from this [of "lr_finalized r" "r\<lparr>lr_finalized := []\<rparr>"] show ?thesis
    by (simp add: drain_finalized_def drained_from_def sidecars_def)
qed

lemma connects_ok:
  assumes ok: "reg_ok calm r" and calm: "calm \<longrightarrow> calm_stat stat r"
    and c: "c \<notin> set (map fst (lr_connections r))" "c \<notin> set (lr_done r)"
    and act: "(pinned = after \<or> pinned = None) \<longrightarrow> after \<noteq> None \<longrightarrow> after = Some actual"
    and wal: "actual \<notin> snd ` set (lr_wal r)"
    and quiet: "calm \<longrightarrow> \<not> read_locked r actual \<and> actual \<notin> set (lr_lock_files r) \<and> actual \<notin> sidecars r \<union> sidecar_names stat"
  shows "reg_ok calm (snd (connect_turn stat path unpinned pinned after actual c r))"
proof -
  let ?d = "drain_finalized stat r"
  note d = drain_finalized_ok [OF ok calm]
  let ?r = "sweep_leases unpinned ?d"
  note sw = sweep_leases_ok [OF d(1), of unpinned]
  note sw1 = sweep_leases_ok [OF sw(1), of after]
  define r1 where "r1 = (if pinned = None then sweep_leases after ?r else ?r)"
  have r1: "reg_ok calm r1" "lease r1 = lease r" using sw sw1 d(3) by (simp_all add: r1_def)
  have dr: "lr_wal ?d = lr_wal r" "lr_connections ?d = lr_connections r" "lr_read_locks ?d = lr_read_locks r"
    using d(6) unfolding same_readers_def by simp_all
  have frame: "lr_wal r1 = lr_wal r" "lr_connections r1 = lr_connections r" "lr_read_locks r1 = lr_read_locks r"
    "lr_lock_files r1 = lr_lock_files ?d" "lr_done r1 = lr_done ?d" "lr_open r1 = lr_open ?d"
    using dr unfolding r1_def by (simp_all only: sweep_leases_frame split: if_split) simp_all
  have sc: "sidecars r1 = sidecars ?d" by (simp add: sidecars_def frame)
  have "snd ` set (lr_finalized r) \<subseteq> set (map fst (lr_connections r))"
  proof clarify
    fix i d assume "(i, d) \<in> set (lr_finalized r)"
    then have "(d, i) \<in> set (lr_connections r)" using reg_okD(2) [OF ok] unfolding conns_ok_def by blast
    then show "snd (i, d) \<in> set (map fst (lr_connections r))" by (auto intro: rev_image_eqI)
  qed
  with c drain_finalized_drains [of stat r] have done1: "c \<notin> set (lr_done r1)"
    unfolding frame drained_from_def by blast
  have quiet1: "calm \<longrightarrow> \<not> read_locked r1 actual \<and> actual \<notin> set (lr_lock_files r1) \<and> actual \<notin> sidecars r1 \<union> sidecar_names stat"
  proof
    assume calm
    with quiet have q: "\<not> read_locked r actual" "actual \<notin> set (lr_lock_files r)" "actual \<notin> sidecars r \<union> sidecar_names stat"
      by blast+
    have "lr_lock_files ?d = lr_lock_files r" "sidecars ?d \<subseteq> sidecars r \<union> sidecar_names stat"
      using drain_finalized_drains [of stat r] by (simp_all add: drained_from_def)
    with q(2,3) have "actual \<notin> set (lr_lock_files r1)" "actual \<notin> sidecars r1 \<union> sidecar_names stat"
      unfolding sc frame(4) by auto
    moreover have "\<not> read_locked r1 actual" using q(1) by (simp add: read_locked_def frame)
    ultimately show "\<not> read_locked r1 actual \<and> actual \<notin> set (lr_lock_files r1) \<and> actual \<notin> sidecars r1 \<union> sidecar_names stat"
      by blast
  qed
  have "reg_ok calm (drop_unless_connected actual r1)"
    by (rule drop_unconnected_ok [OF r1(1)]) (use wal quiet1 in \<open>simp_all add: frame\<close>)
  moreover have "reg_ok calm (counted stat path i c r1)"
    if "\<not> leased ?r unpinned" "pinned = unpinned" "\<not> (pinned = None \<and> leased r1 after)" "after = Some i"
      "\<not> (pinned \<noteq> None \<and> after \<noteq> pinned)" for i
  proof -
    have i: "i = actual" using that act by auto
    have free: "\<not> lease r1 i fd" for fd
    proof (cases "pinned = None")
      case True
      with that have "\<not> leased r1 (Some i)" by simp
      with leased_iff [OF r1(1)] show ?thesis by blast
    next
      case False
      then have same: "pinned = Some i" "unpinned = Some i" using that(2,4,5) by auto
      with that(1) have "\<not> leased ?r (Some i)" "r1 = ?r" by (simp_all add: r1_def)
      with leased_iff [OF sw(1), of i] show ?thesis by blast
    qed
    have "calm_stat stat r1" if calm
      using calm_stat_mono [of stat ?d r1] d(2) that r1(2) d(3) unfolding calm_stat_def frame by simp
    with quiet1 show ?thesis
      by (intro counted_ok [OF r1(1)] free) (use c(1) done1 wal in \<open>simp_all add: frame i\<close>)
  qed
  ultimately show ?thesis
    using sw(1) r1(1) unfolding connect_turn_def Let_def r1_def [symmetric]
    by (auto simp: Let_def split: option.split if_split)
qed

text \<open>Recording sidecars of one open store.\<close>

lemma dict_keys_replace: "map_of xs i = Some st \<Longrightarrow> map fst (dict_set i v xs) = map fst xs"
  by (induction xs) (auto split: if_splits)

lemma record_grown:
  assumes "cache_ok r" and st: "map_of (lr_open r) i = Some st"
    and g: "store_grows (sidecar_names stat) st st1"
    and r1: "r1 = r\<lparr>lr_open := dict_set i st1 (lr_open r), lr_cache := (if os_sidecars st1 = os_sidecars st then lr_cache r else None)\<rparr>"
  shows "grown stat r r1"
proof -
  have opened: "lr_open r1 = dict_set i st1 (lr_open r)" "lr_lock_files r1 = lr_lock_files r" by (simp_all add: r1)
  have keys: "map fst (lr_open r1) = map fst (lr_open r)" unfolding opened by (rule dict_keys_replace [OF st])
  have up: "sidecars r \<subseteq> sidecars r1"
  proof
    fix s assume "s \<in> sidecars r"
    then obtain j x where x: "(j, x) \<in> set (lr_open r)" "s \<in> set (os_sidecars x)" by (auto simp: sidecars_def)
    from dict_set_keeps [OF x(1), of i st1] show "s \<in> sidecars r1"
    proof
      assume "(j, x) \<in> set (dict_set i st1 (lr_open r))"
      with x(2) show ?thesis unfolding sidecars_def opened by force
    next
      assume "j = i \<and> map_of (lr_open r) i = Some x"
      with st x(2) g have "s \<in> set (os_sidecars st1)" by (auto simp: store_grows_def)
      with dict_set_has [of i st1 "lr_open r"] show ?thesis unfolding sidecars_def opened by force
    qed
  qed
  have sub: "set (dict_set i st1 xs) \<subseteq> insert (i, st1) (set xs)" for xs by (induction xs) auto
  have "set (os_sidecars st) \<subseteq> sidecars r" using map_of_SomeD [OF st] by (force simp: sidecars_def)
  with g have "set (os_sidecars st1) \<subseteq> sidecars r \<union> sidecar_names stat" by (auto simp: store_grows_def)
  then have down: "sidecars r1 \<subseteq> sidecars r \<union> sidecar_names stat"
  proof (intro subsetI)
    fix s assume st1: "set (os_sidecars st1) \<subseteq> sidecars r \<union> sidecar_names stat" and "s \<in> sidecars r1"
    then obtain j x where x: "(j, x) \<in> set (lr_open r1)" "s \<in> set (os_sidecars x)" by (auto simp: sidecars_def)
    from x(1) have "(j, x) \<in> insert (i, st1) (set (lr_open r))" unfolding opened(1) by (rule subsetD [OF sub])
    then have "(j, x) = (i, st1) \<or> (j, x) \<in> set (lr_open r)" by (rule insertE) simp_all
    then show "s \<in> sidecars r \<union> sidecar_names stat"
    proof
      assume "(j, x) \<in> set (lr_open r)"
      with x(2) show ?thesis by (force simp: sidecars_def)
    qed (use st1 x(2) in blast)
  qed
  have live: "set (live_set r) \<subseteq> set (live_set r1)" "set (live_set r1) \<subseteq> set (live_set r) \<union> sidecar_names stat"
    using up down unfolding set_live_set keys opened(2) by blast+
  have "cache_ok r1"
  proof (cases "os_sidecars st1 = os_sidecars st")
    case True
    from sidecars_dict_set [OF st this opened(1)] have "set (live_set r1) = set (live_set r)"
      unfolding set_live_set keys opened(2) by simp
    with assms(1) True show ?thesis by (simp add: cache_ok_def r1)
  qed (simp add: cache_ok_def r1)
  moreover have "rel_option (store_grows (sidecar_names stat)) (map_of (lr_open r) j) (map_of (lr_open r1) j)" for j
    using st g by (cases "j = i"; cases "map_of (lr_open r) j") (simp_all add: opened)
  moreover have "r1 = r\<lparr>lr_open := lr_open r1, lr_cache := lr_cache r1\<rparr>" by (simp add: r1)
  ultimately show ?thesis unfolding grown_def using keys down live by blast
qed

lemma notices_ok:
  assumes ok: "reg_ok calm r" and calm: "calm \<longrightarrow> calm_stat stat r"
  shows "reg_ok calm (note_store_sidecars stat path r)"
proof -
  let ?d = "drain_finalized stat r"
  note d = drain_finalized_ok [OF ok calm]
  show ?thesis
  proof (cases "\<exists>i st. stat path = Some i \<and> map_of (lr_open ?d) i = Some st")
    case True
    then obtain i st where i: "stat path = Some i" "map_of (lr_open ?d) i = Some st" by blast
    let ?st = "st\<lparr>os_paths := List.insert path (os_paths st)\<rparr>"
    have "store_grows (sidecar_names stat) ?st (record_sidecars stat i ?st)" by (rule record_sidecars_grows)
    then have "store_grows (sidecar_names stat) st (record_sidecars stat i ?st)" by (simp add: store_grows_def)
    from record_grown [OF reg_okD(5) [OF d(1)] i(2) this refl] have "grown stat ?d (note_store_sidecars stat path r)"
      using i by (simp add: note_store_sidecars_def Let_def)
    from grown_reg_ok [OF this d(1,2)] show ?thesis .
  qed (use d(1) in \<open>auto simp: note_store_sidecars_def Let_def split: option.split\<close>)
qed

lemma finalizedD:
  assumes "conns_ok r" and "(i, c) \<in> set (lr_finalized r)"
  shows "(c, i) \<in> set (lr_connections r)" "c \<notin> set (map fst (lr_conns r))"
  using assms unfolding conns_ok_def by blast+

text \<open>The driver locks a sidecar, and closes a connection.\<close>

lemma driver_locks_ok:
  assumes ok: "reg_ok calm r" and "connected r i" "\<not> connected r s" and st: "map_of (lr_open r) i = Some st" "s \<in> set (os_sidecars st)"
  shows "reg_ok calm (r\<lparr>lr_wal := List.insert (i, s) (lr_wal r), lr_locked := List.insert s (lr_locked r)\<rparr>)" (is "reg_ok calm ?r")
proof (rule reg_okI)
  have v: "lease ?r = lease r" "deferred ?r = deferred r" "read_locked ?r = read_locked r" "connected ?r = connected r"
    "open_count ?r = open_count r" "sidecars ?r = sidecars r" "live_set ?r = live_set r"
    by (rule views_eq; simp)+
  show "counts_ok ?r" using reg_okD(1) [OF ok] unfolding counts_ok_def v by simp
  show "conns_ok ?r" using reg_okD(2) [OF ok] assms(2,3) unfolding conns_ok_def v by auto
  show "readers_ok calm ?r" using reg_okD(3) [OF ok] unfolding readers_ok_def v by simp
  show "calm_ok ?r" if calm using reg_okD(4) [OF ok that] assms(2) st unfolding calm_ok_def v by auto
  show "cache_ok ?r" using reg_okD(5) [OF ok] unfolding cache_ok_def v by simp
  show "j \<in> set (live_set ?r)" if "(j, fd) \<in> set (lr_parked ?r)" for j fd
    using reg_okD(6) [OF ok, of j fd] that unfolding v by simp
qed

lemma driver_close_frame [simp]:
  "lr_connections (driver_close c r) = lr_connections r" "lr_finalized (driver_close c r) = lr_finalized r"
  "lr_conns (driver_close c r) = AList.delete c (lr_conns r)" "lr_open (driver_close c r) = lr_open r"
  "lr_lock_files (driver_close c r) = lr_lock_files r" "lr_parked (driver_close c r) = lr_parked r"
  "lr_cache (driver_close c r) = lr_cache r" "lr_done (driver_close c r) = lr_done r"
  "lr_leases (driver_close c r) = lr_leases r" "lr_fds (driver_close c r) = lr_fds r"
  "lr_read_locks (driver_close c r) = lr_read_locks r" "lr_deferred (driver_close c r) = lr_deferred r"
proof -
  have "AList.delete c (lr_conns r) = lr_conns r" if "map_of (lr_conns r) c = None"
    using that by (simp add: delete_id map_of_eq_None_iff)
  then show "lr_conns (driver_close c r) = AList.delete c (lr_conns r)"
    by (simp add: driver_close_def drop_unless_connected_def Let_def split: option.split)
qed (simp_all add: driver_close_def drop_unless_connected_def Let_def split: option.split)

lemma driver_closes_ok:
  assumes ok: "reg_ok calm r"
  shows "reg_ok calm (driver_close c r)" (is "reg_ok calm ?r")
proof (cases "map_of (lr_conns r) c")
  case None
  with ok show ?thesis by (simp add: driver_close_def)
next
  case (Some i)
  let ?r1 = "r\<lparr>lr_conns := AList.delete c (lr_conns r)\<rparr>"
  have v: "lease ?r = lease r" "deferred ?r = deferred r" "read_locked ?r = read_locked r" "open_count ?r = open_count r"
    "sidecars ?r = sidecars r" "live_set ?r = live_set r"
    by (simp_all add: fun_eq_iff lease_def deferred_def read_locked_def open_count_def sidecars_def live_set_def)
  have dist: "distinct (map fst (lr_conns r))" using reg_okD(2) [OF ok] by (simp add: conns_ok_def)
  have con: "connected r i" using map_of_SomeD [OF Some] by (force simp: connected_def)
  have c1: "connected ?r j \<longleftrightarrow> connected ?r1 j" for j by (simp add: connected_def)
  have others: "connected ?r1 j \<longleftrightarrow> connected r j" if "j \<noteq> i" for j
  proof -
    have "d \<noteq> c" if "(d, j) \<in> set (lr_conns r)" for d
      using map_of_is_SomeI [OF dist that] Some \<open>j \<noteq> i\<close> by auto
    then show ?thesis by (force simp: connected_def AList.delete_eq)
  qed
  have form: "?r = drop_unless_connected i ?r1" using Some by (simp add: driver_close_def)
  have same: "?r = ?r1" if "connected ?r1 i" using that by (simp add: form drop_unless_connected_def)
  have gone: "lr_wal ?r = filter (\<lambda>p. fst p \<noteq> i) (lr_wal r)"
    "lr_locked ?r = filter (\<lambda>j. j \<noteq> i \<and> ((i, j) \<notin> set (lr_wal r) \<or> j \<in> snd ` set (lr_wal ?r))) (lr_locked r)"
    if "\<not> connected ?r1 i"
    using that by (simp_all add: form drop_unless_connected_def Let_def)
  have still: "connected ?r k" if "connected r k" "k = i \<Longrightarrow> connected ?r1 i" for k
    using that others c1 by (cases "k = i") auto
  have fewer: "connected r k" if "connected ?r k" for k
    using that con others c1 by (cases "k = i") auto
  have wal: "(k, s) \<in> set (lr_wal r) \<and> connected ?r k" if "(k, s) \<in> set (lr_wal ?r)" for k s
  proof (cases "connected ?r1 i")
    case True
    with that have w: "(k, s) \<in> set (lr_wal r)" by (simp add: same)
    with reg_okD(2) [OF ok] have "connected r k" unfolding conns_ok_def by blast
    with w still True show ?thesis by blast
  next
    case False
    with that have w: "(k, s) \<in> set (lr_wal r)" "k \<noteq> i" by (auto simp: gone(1))
    with reg_okD(2) [OF ok] have "connected r k" unfolding conns_ok_def by blast
    with w still show ?thesis by blast
  qed
  have lock: "j \<in> set (lr_locked ?r)"
    if "j \<in> set (lr_locked r)" "j = i \<Longrightarrow> connected ?r1 i" "(i, j) \<in> set (lr_wal r) \<Longrightarrow> connected ?r1 i \<or> j \<in> snd ` set (lr_wal ?r)" for j
  proof (cases "connected ?r1 i")
    case True
    with that(1) show ?thesis by (simp add: same)
  next
    case False
    with that have "j \<noteq> i" "(i, j) \<notin> set (lr_wal r) \<or> j \<in> snd ` set (lr_wal ?r)" by blast+
    with that(1) show ?thesis unfolding gone(2) [OF False] by simp
  qed
  show ?thesis
  proof (rule reg_okI)
    show "counts_ok ?r" using reg_okD(1) [OF ok] unfolding counts_ok_def v by simp
    show "conns_ok ?r"
      unfolding conns_ok_def
    proof (intro conjI allI impI)
      fix d j assume "(d, j) \<in> set (lr_conns ?r)"
      then have m: "(d, j) \<in> set (AList.delete c (lr_conns r))" by simp
      then have dj: "(d, j) \<in> set (lr_conns r)" by (auto simp: AList.delete_eq)
      have cj: "connected ?r1 j" using m by (force simp: connected_def)
      note k = connD [OF reg_okD(2) [OF ok] dj]
      from k(1,2) show "(d, j) \<in> set (lr_connections ?r)" "d \<notin> set (lr_done ?r)" by simp_all
      have "connected r j" using dj by (force simp: connected_def)
      with reg_okD(2) [OF ok] have "(i, j) \<notin> set (lr_wal r)" unfolding conns_ok_def by blast
      with k(3) cj show "j \<in> set (lr_locked ?r)" by (intro lock) auto
    next
      show "distinct (map fst (lr_conns ?r))" using dist by (simp add: distinct_delete)
    next
      fix d j assume "(j, d) \<in> set (lr_finalized ?r)"
      then have "(d, j) \<in> set (lr_connections r) \<and> d \<notin> set (map fst (lr_conns r))"
        using finalizedD [OF reg_okD(2) [OF ok]] by simp
      then show "(d, j) \<in> set (lr_connections ?r)" "d \<notin> set (map fst (lr_conns ?r))"
        by (simp_all add: AList.delete_eq) force
    next
      fix k s assume w: "(k, s) \<in> set (lr_wal ?r)"
      from wal [OF w] show "connected ?r k" by blast
      from wal [OF w] reg_okD(2) [OF ok] have "\<not> connected r s" unfolding conns_ok_def by blast
      with fewer show "\<not> connected ?r s" by blast
    qed
    show "readers_ok calm ?r" using reg_okD(3) [OF ok] unfolding readers_ok_def v by simp
    show "calm_ok ?r" if c: calm
    proof -
      note cok = reg_okD(4) [OF ok c]
      have iopen: "i \<in> set (map fst (lr_open r))" by (rule connected_open [OF reg_okD(1,2) [OF ok] con])
      have free: "j \<in> set (lr_locked ?r)" if "j \<in> set (lr_locked r)" "j \<notin> set (map fst (lr_open r))" "j \<notin> sidecars r" for j
        using that iopen wal_live [OF cok] by (intro lock) auto
      have "j \<in> set (lr_locked ?r)" if rl: "read_locked r j" for j
      proof -
        from rl obtain fd where "lease r j fd" using reg_okD(3) [OF ok] unfolding readers_ok_def by blast
        with calm_okD(1) [OF cok] have "j \<notin> set (live_set r)" by blast
        with calm_okD(2) [OF cok rl] show ?thesis by (intro free) (auto simp: set_live_set)
      qed
      moreover have "set (lr_lock_files r) \<subseteq> set (lr_locked ?r)"
        using calm_okD(3-5) [OF cok] by (intro subsetI free) blast+
      moreover have "s \<in> set (lr_locked ?r) \<and> (\<exists>st. map_of (lr_open r) k = Some st \<and> s \<in> set (os_sidecars st))"
        if w: "(k, s) \<in> set (lr_wal ?r)" for k s
      proof -
        from wal [OF w] have k: "(k, s) \<in> set (lr_wal r)" by blast
        have "s \<noteq> i" using wal_live [OF cok k] calm_okD(5) [OF cok] iopen by blast
        moreover have "s \<in> snd ` set (lr_wal ?r)" using w by force
        ultimately have "s \<in> set (lr_locked ?r)" using calm_okD(6) [OF cok k] by (intro lock) auto
        with calm_okD(7) [OF cok k] show ?thesis by blast
      qed
      ultimately show ?thesis
        using calm_okD(1,4,5) [OF cok] wal unfolding calm_ok_def v driver_close_frame by blast
    qed
    show "cache_ok ?r" using reg_okD(5) [OF ok] unfolding cache_ok_def v by simp
    show "j \<in> set (live_set ?r)" if "(j, fd) \<in> set (lr_parked ?r)" for j fd
      using reg_okD(6) [OF ok, of j fd] that unfolding v by simp
  qed
qed

lemma releases_ok:
  assumes ok: "reg_ok calm r" and calm: "calm \<longrightarrow> calm_stat stat r"
    and "map_of (lr_connections r) c = Some i" and "c \<notin> set (map fst (lr_conns r))"
  shows "reg_ok calm (release_connection stat i c r)"
proof -
  note d = drain_finalized_ok [OF ok calm]
  have "(c, i) \<in> set (lr_connections (drain_finalized stat r))" "c \<notin> set (map fst (lr_conns (drain_finalized stat r)))"
    using d(6) assms(4) map_of_SomeD [OF assms(3)] by (simp_all add: same_readers_def)
  from apply_release_ok [OF d(1) this d(2)] show ?thesis by (simp add: release_connection_def)
qed

lemma finalizes_ok:
  assumes ok: "reg_ok calm r" and c: "map_of (lr_connections r) c = Some i"
  shows "reg_ok calm (finalize i c r)"
  unfolding finalize_def
proof (rule finalized_ok [OF driver_closes_ok [OF ok]])
  fix d j assume "(j, d) \<in> set (lr_finalized r @ [(i, c)])"
  then consider "d = c" "j = i" | "(j, d) \<in> set (lr_finalized r)" by auto
  then have "(d, j) \<in> set (lr_connections r) \<and> (d = c \<or> d \<notin> set (map fst (lr_conns r)))"
    by cases (use finalizedD [OF reg_okD(2) [OF ok]] map_of_SomeD [OF c] in auto)
  then show "(d, j) \<in> set (lr_connections (driver_close c r)) \<and> d \<notin> set (map fst (lr_conns (driver_close c r)))"
    by (auto simp: AList.delete_eq)
qed

text \<open>A lock file's descriptor is opened, or closed.\<close>

lemma locks_ok:
  assumes ok: "reg_ok calm r" and calm: "calm \<longrightarrow> calm_stat stat r" and free: "\<And>fd. \<not> lease r i fd"
    and new: "calm \<longrightarrow> i \<notin> set (live_set r) \<union> sidecar_names stat"
  shows "reg_ok calm (track_lock_file stat i True (r\<lparr>lr_locked := List.insert i (lr_locked r)\<rparr>))"
proof -
  let ?r = "r\<lparr>lr_locked := List.insert i (lr_locked r), lr_lock_files := List.insert i (lr_lock_files r)\<rparr>"
  have v: "lease ?r = lease r" "deferred ?r = deferred r" "read_locked ?r = read_locked r" "connected ?r = connected r"
    "open_count ?r = open_count r" "sidecars ?r = sidecars r"
    by (simp_all add: fun_eq_iff lease_def deferred_def read_locked_def connected_def open_count_def sidecars_def)
  have "counts_ok ?r" using reg_okD(1) [OF ok] unfolding counts_ok_def v by simp
  moreover have "conns_ok ?r" using reg_okD(2) [OF ok] unfolding conns_ok_def v by simp
  moreover have "readers_ok calm ?r" using reg_okD(3) [OF ok] free unfolding readers_ok_def v by (simp, blast)
  moreover have "calm_ok ?r \<and> calm_stat stat ?r" if c: calm
  proof
    note cok = reg_okD(4) [OF ok c]
    have i: "i \<notin> set (map fst (lr_open r))" "i \<notin> sidecars r" "i \<notin> sidecar_names stat" using new c unfolding set_live_set by blast+
    have files: "lr_lock_files ?r = List.insert i (lr_lock_files r)" "lr_open ?r = lr_open r" "lr_wal ?r = lr_wal r"
      "lr_locked ?r = List.insert i (lr_locked r)" by simp_all
    have "j \<notin> set (live_set ?r)" if "lease r j fd" for j fd
      using calm_okD(1) [OF cok that] free that unfolding set_live_set v files by auto
    moreover have "set (lr_lock_files ?r) \<subseteq> set (lr_locked ?r)" using calm_okD(3) [OF cok] unfolding files by auto
    moreover have "set (lr_lock_files ?r) \<inter> set (map fst (lr_open r)) = {}" using calm_okD(4) [OF cok] i(1) unfolding files by auto
    moreover have "sidecars r \<inter> (set (lr_lock_files ?r) \<union> set (map fst (lr_open r))) = {}"
      using calm_okD(5) [OF cok] i(2) unfolding files by auto
    ultimately show "calm_ok ?r" using calm_okD(2,6,7) [OF cok] unfolding calm_ok_def v files(2,3) by (simp add: files(4))
    show "calm_stat stat ?r"
    proof -
      have "s \<noteq> i" if "ending \<in> set sidecar_suffixes" "stat (path @ ending) = Some s" for path ending s
        using that i(3) unfolding sidecar_names_def by blast
      with calm c show ?thesis unfolding calm_stat_def v by simp
    qed
  qed
  ultimately have "settling calm ?r" "calm \<longrightarrow> calm_stat stat ?r" by (simp_all add: settling_def)
  from close_unparked_ok [OF this] show ?thesis by (simp add: track_lock_file_def)
qed

lemma unlocks_ok:
  assumes ok: "reg_ok calm r" and calm: "calm \<longrightarrow> calm_stat stat r" and i: "i \<in> set (lr_lock_files r)" and con: "\<not> connected r i"
  shows "reg_ok calm (track_lock_file stat i False (r\<lparr>lr_locked := filter (\<lambda>j. j \<noteq> i) (lr_locked r)\<rparr>))"
proof -
  define l where "l = filter (\<lambda>j. j \<noteq> i) (lr_locked r)"
  define fs where "fs = filter (\<lambda>j. j \<noteq> i) (lr_lock_files r)"
  let ?r = "r\<lparr>lr_locked := l, lr_lock_files := fs\<rparr>"
  have v: "lease ?r = lease r" "deferred ?r = deferred r" "read_locked ?r = read_locked r" "connected ?r = connected r"
    "open_count ?r = open_count r" "sidecars ?r = sidecars r"
    by (simp_all add: fun_eq_iff lease_def deferred_def read_locked_def connected_def open_count_def sidecars_def)
  have l: "j \<in> set l \<longleftrightarrow> j \<in> set (lr_locked r) \<and> j \<noteq> i" and fs: "j \<in> set fs \<longleftrightarrow> j \<in> set (lr_lock_files r) \<and> j \<noteq> i" for j
    by (auto simp: l_def fs_def)
  have "counts_ok ?r" using reg_okD(1) [OF ok] unfolding counts_ok_def v by simp
  moreover have "conns_ok ?r"
  proof (rule conns_ok_transfer [OF reg_okD(2) [OF ok]])
    fix c j assume cj: "(c, j) \<in> set (lr_conns r)"
    then have "connected r j" by (force simp: connected_def)
    with connD(3) [OF reg_okD(2) [OF ok] cj] con show "j \<in> set (lr_locked ?r)" by (auto simp: l)
  qed simp_all
  moreover have "readers_ok calm ?r" using reg_okD(3) [OF ok] unfolding readers_ok_def v by (simp add: fs)
  moreover have "calm_ok ?r \<and> calm_stat stat ?r" if c: calm
  proof
    note cok = reg_okD(4) [OF ok c]
    have files: "lr_lock_files ?r = fs" "lr_open ?r = lr_open r" "lr_wal ?r = lr_wal r" "lr_locked ?r = l" by simp_all
    have sub: "set fs \<subseteq> set (lr_lock_files r)" using fs by blast
    have "j \<in> set l" if rl: "read_locked r j" for j
    proof -
      from rl obtain fd where "lease r j fd" using reg_okD(3) [OF ok] unfolding readers_ok_def by blast
      with calm_okD(1) [OF cok] i have "j \<noteq> i" unfolding set_live_set by blast
      with calm_okD(2) [OF cok rl] show ?thesis by (simp add: l)
    qed
    moreover have "s \<in> set l" if "(k, s) \<in> set (lr_wal r)" for k s
      using wal_live [OF cok that] calm_okD(5) [OF cok] calm_okD(6) [OF cok that] i unfolding l by blast
    moreover have "j \<notin> set (live_set ?r)" if "lease r j fd" for j fd
      using calm_okD(1) [OF cok that] sub unfolding set_live_set v files by blast
    moreover have "set fs \<subseteq> set l" using calm_okD(3) [OF cok] l fs by blast
    ultimately show "calm_ok ?r"
      using calm_okD(4,5,6,7) [OF cok] sub unfolding calm_ok_def v files by blast
    show "calm_stat stat ?r" using calm_stat_mono [of stat r ?r] calm c sub by simp
  qed
  ultimately have "settling calm ?r" "calm \<longrightarrow> calm_stat stat ?r" by (simp_all add: settling_def)
  from close_unparked_ok [OF this] show ?thesis by (simp add: track_lock_file_def l_def fs_def)
qed

lemma live_step_ok: "live_step calm r r' \<Longrightarrow> reg_ok calm r \<Longrightarrow> reg_ok calm r'"
proof (induction rule: live_step.induct)
  case (connects calm stat r c pinned after actual path unpinned)
  then show ?case by (intro connects_ok) simp_all
next
  case (opens fd r calm i)
  then show ?case by (intro opens_ok)
next
  case (admits calm stat r fd i)
  then show ?case by (intro admits_ok)
next
  case (driver_locks r i s st calm)
  then show ?case by (intro driver_locks_ok)
next
  case (releases calm stat r c i)
  then show ?case by (intro releases_ok)
next
  case (locks calm stat r i)
  show ?case by (rule locks_ok [OF locks(4,1,2,3)])
next
  case (unlocks calm stat r i)
  show ?case by (rule unlocks_ok [OF unlocks(4,1,2,3)])
qed (simp_all only: checks_ok closes_ok read_locks_ok read_unlocks_ok notices_ok driver_closes_ok finalizes_ok)

lemma live_reach_ok: "live_reach calm r \<Longrightarrow> reg_ok calm r"
proof (induction rule: live_reach.induct)
  case (start calm)
  show ?case
    by (simp add: empty_registry_def reg_ok_def settling_def counts_ok_def conns_ok_def readers_ok_def calm_ok_def cache_ok_def
        lease_def deferred_def read_locked_def open_count_def sidecars_def dict_get_def)
next
  case (step calm r r')
  from live_step_ok [OF step(2,3)] show ?case .
qed

section \<open>What the registry promises\<close>


definition lone_store :: "string \<Rightarrow> identity option" where
  "lone_store path = (if path = ''m.db'' then Some (Ino 1 1) else None)"

definition store_opened :: registry where
  "store_opened = snd (connect_turn lone_store ''m.db'' (Some (Ino 1 1)) (Some (Ino 1 1)) (Some (Ino 1 1)) (Ino 1 1) 1 empty_registry)"

definition alias_read :: registry where
  "alias_read = snd (admit_reader_fd lone_store 7 (Ino 1 1) (store_opened\<lparr>lr_fds := (7, Ino 1 1) # lr_fds store_opened\<rparr>))"

lemmas run_simps = empty_registry_def connect_turn_def drain_finalized_def sweep_leases_def leased_def held_leases_def
  counted_def record_sidecars_def note_sidecar_def sidecar_suffixes_def new_store_def dict_get_def lone_store_def Let_def
  lease_def admit_reader_fd_def live_identities_def probe_stores_def probed_def probes_def live_set_def

lemma store_opened_reached: "live_reach False store_opened"
  unfolding store_opened_def
  by (rule live_reach.step [OF live_reach.start], rule live_step.connects) (simp_all add: run_simps)

lemma alias_read_reached: "live_reach False alias_read"
proof -
  have "live_step False store_opened (store_opened\<lparr>lr_fds := (7, Ino 1 1) # lr_fds store_opened\<rparr>)"
    by (rule live_step.opens) (simp add: store_opened_def run_simps)
  from live_reach.step [OF store_opened_reached this] have "live_reach False (store_opened\<lparr>lr_fds := (7, Ino 1 1) # lr_fds store_opened\<rparr>)" .
  moreover have "live_step False (store_opened\<lparr>lr_fds := (7, Ino 1 1) # lr_fds store_opened\<rparr>) alias_read"
    unfolding alias_read_def by (rule live_step.admits) (simp_all add: store_opened_def run_simps)
  ultimately show ?thesis by (rule live_reach.step)
qed


text \<open>
  In a calm process a read lock, a lock file and a sidecar the driver locked keep their locks.
  As long as no file a reader holds becomes a sidecar of a store, and no connect opens a file that
  is read-locked, a lock file or a sidecar, every inode the process holds a read lock on, every
  tracked lock file and every sidecar its connections locked is still locked.
\<close>

theorem calm_registry_keeps_every_lock:
  assumes "live_reach True r" and "read_locked r i \<or> i \<in> set (lr_lock_files r) \<or> i \<in> snd ` set (lr_wal r)"
  shows "i \<in> set (lr_locked r)"
proof -
  note cok = reg_okD(4) [OF live_reach_ok [OF assms(1)] TrueI]
  from assms(2) show ?thesis using calm_okD(2,3,6) [OF cok] by auto
qed

lemma calm_lone: "calm_stat lone_store r"
proof -
  have "path @ ending \<noteq> ''m.db''" if e: "ending \<in> set sidecar_suffixes" for path ending
  proof
    assume eq: "path @ ending = ''m.db''"
    from e have "ending \<noteq> []" by (auto simp: sidecar_suffixes_def)
    then have "last ending = last ''m.db''" by (metis eq last_appendR)
    with e show False by (auto simp: sidecar_suffixes_def)
  qed
  then show ?thesis by (auto simp: calm_stat_def lone_store_def)
qed

text \<open>A reader holds SQLite's lock on a file of its own while a store opens beside it.\<close>

definition reading :: registry where
  "reading = snd (take_read_lock lone_store True (Ino 2 2)
     (snd (admit_reader_fd lone_store 5 (Ino 2 2) (empty_registry\<lparr>lr_fds := [(5, Ino 2 2)]\<rparr>))))"

definition read_and_opened :: registry where
  "read_and_opened = snd (connect_turn lone_store ''m.db'' (Some (Ino 1 1)) (Some (Ino 1 1)) (Some (Ino 1 1)) (Ino 1 1) 1 reading)"

lemma reading_reached: "live_reach True reading"
proof -
  have "live_reach True (empty_registry\<lparr>lr_fds := [(5, Ino 2 2)]\<rparr>)"
    using live_reach.step [OF live_reach.start live_step.opens [of 5 empty_registry True "Ino 2 2"]] by (simp add: empty_registry_def)
  then have "live_reach True (snd (admit_reader_fd lone_store 5 (Ino 2 2) (empty_registry\<lparr>lr_fds := [(5, Ino 2 2)]\<rparr>)))"
    by (rule live_reach.step) (rule live_step.admits, simp_all add: calm_lone run_simps)
  then show ?thesis unfolding reading_def
    by (rule live_reach.step) (rule live_step.read_locks [of _ _ _ _ 5], simp_all add: calm_lone run_simps deferred_def)
qed

lemma lone_sidecars: "sidecar_names lone_store = {}"
  using calm_lone [of "empty_registry\<lparr>lr_lock_files := [Ino 1 1]\<rparr>"]
  by (auto simp: sidecar_names_def calm_stat_def lone_store_def split: if_splits)

lemma calm_registry_keeps_every_lock_witness:
  "map fst (lr_open read_and_opened) = [Ino 1 1] \<and> Ino 2 2 \<in> set (lr_locked read_and_opened)"
proof -
  have "live_reach True read_and_opened"
    unfolding read_and_opened_def
    by (rule live_reach.step [OF reading_reached], rule live_step.connects)
      (simp_all add: calm_lone lone_sidecars reading_def take_read_lock_def read_locked_def sidecars_def run_simps)
  moreover have "read_locked read_and_opened (Ino 2 2)" "map fst (lr_open read_and_opened) = [Ino 1 1]"
    by (simp_all add: read_and_opened_def reading_def take_read_lock_def read_locked_def run_simps)
  ultimately show ?thesis using calm_registry_keeps_every_lock [of read_and_opened "Ino 2 2"] by blast
qed

text \<open>
  Without calm a sidecar can lose its lock: a reader leased a leftover \<open>-wal\<close> before its store was
  opened, the connect looks for leases of the store's own inode only, and the reader's close
  takes the lock the connection holds on the sidecar.
\<close>

definition with_leftover :: "string \<Rightarrow> identity option" where
  "with_leftover path = (if path = ''m.db'' then Some (Ino 1 1) else if path = ''m.db-wal'' then Some (Ino 1 2) else None)"

definition leftover_leased :: registry where
  "leftover_leased = snd (admit_reader_fd with_leftover 4 (Ino 1 2) (empty_registry\<lparr>lr_fds := [(4, Ino 1 2)]\<rparr>))"

definition leftover_store :: registry where
  "leftover_store = snd (connect_turn with_leftover ''m.db'' (Some (Ino 1 1)) (Some (Ino 1 1)) (Some (Ino 1 1)) (Ino 1 1) 1 leftover_leased)"

definition leftover_locked :: registry where
  "leftover_locked = leftover_store\<lparr>lr_wal := List.insert (Ino 1 1, Ino 1 2) (lr_wal leftover_store),
     lr_locked := List.insert (Ino 1 2) (lr_locked leftover_store)\<rparr>"

definition leftover_closed :: registry where
  "leftover_closed = close_reader_fd with_leftover 4 (Ino 1 2) leftover_locked"

lemmas leftover_simps = leftover_closed_def leftover_locked_def leftover_store_def leftover_leased_def close_reader_fd_def
  close_leased_def os_close_def connected_def with_leftover_def run_simps

lemma leased_sidecar_loses_lock:
  "live_reach False leftover_closed \<and> connected leftover_closed (Ino 1 1)
   \<and> (Ino 1 1, Ino 1 2) \<in> set (lr_wal leftover_closed) \<and> Ino 1 2 \<notin> set (lr_locked leftover_closed)"
proof -
  have "live_reach False (empty_registry\<lparr>lr_fds := [(4, Ino 1 2)]\<rparr>)"
    using live_reach.step [OF live_reach.start live_step.opens [of 4 empty_registry False "Ino 1 2"]] by (simp add: empty_registry_def)
  then have "live_reach False leftover_leased" unfolding leftover_leased_def
    by (rule live_reach.step) (rule live_step.admits, simp_all add: run_simps)
  then have "live_reach False leftover_store" unfolding leftover_store_def
    by (rule live_reach.step) (rule live_step.connects, simp_all add: leftover_simps)
  then have "live_reach False leftover_locked"
    unfolding leftover_locked_def
    by (rule live_reach.step) (rule live_step.driver_locks [where st = "the (map_of (lr_open leftover_store) (Ino 1 1))"], simp_all add: leftover_simps)
  then have "live_reach False leftover_closed"
    unfolding leftover_closed_def
    by (rule live_reach.step) (rule live_step.closes, simp_all add: leftover_simps deferred_def)
  then show ?thesis by (simp add: leftover_simps)
qed

end
