(* ===== verification/YamlStore.thy ===== *)
theory YamlStore
  imports Reads "HOL-Library.Multiset"
begin

text \<open>
  The second storage backend, one YAML file per entry id (\<^verbatim>\<open>storage/yaml_backend.py\<close> with
  \<^verbatim>\<open>_yaml_row_mapper.py\<close>), and how far it stands in for the SQLite one. A file is what
  \<open>read_yaml\<close> and \<open>dict_to_entry\<close> make of it; a directory lists its files in the order \<open>glob\<close>
  yields them, on which nothing below depends. Writing a file is atomic; the YAML text itself
  is \<open>ruamel.yaml\<close>'s.
\<close>

section \<open>Files\<close>

text \<open>A readable row with the assertions and anchors that did not parse, or a corrupt file.\<close>

datatype yaml_file = YamlRow memory_entry nat nat | Corrupt

record yaml_backend =
  y_dir :: "(string, yaml_file) dict"
  y_ledger :: "ledger option"

datatype yaml_error = BadEntryId string | UnreadableRow string | PartialRow string nat nat | Refused schema_error

text \<open>The methods both backends inherit from \<open>StorageBackend\<close> read the ledger alone.\<close>

definition inherited :: "yaml_backend \<Rightarrow> backend" where
  "inherited y = \<lparr>b_db = empty_db, b_ledger = y_ledger y\<rparr>"

text \<open>\<open>dict_to_entry\<close> of what \<open>entry_to_dict\<close> wrote: every field but \<open>recall_count\<close> is read back.\<close>

definition mapped_back :: "memory_entry \<Rightarrow> memory_entry" where
  "mapped_back e = e\<lparr>recall_count := 0\<rparr>"

definition entry_path_ok :: "string \<Rightarrow> bool" where
  "entry_path_ok i \<longleftrightarrow> i \<noteq> [] \<and> CHR 0x00 \<notin> set i \<and> CHR ''/'' \<notin> set i \<and> CHR 0x5C \<notin> set i"

definition iter_all :: "yaml_backend \<Rightarrow> memory_entry list" where
  "iter_all y = concat (map (\<lambda>(_, f). case f of YamlRow e _ _ \<Rightarrow> [served_view (mapped_back e)] | Corrupt \<Rightarrow> []) (y_dir y))"

section \<open>Rows\<close>

definition locate_unscoped :: "string \<Rightarrow> yaml_backend \<Rightarrow> (yaml_error, memory_entry option) result" where
  "locate_unscoped i y =
     (if \<not> entry_path_ok i then Inl (BadEntryId i)
      else case map_of (y_dir y) i of
             None \<Rightarrow> Inr None
           | Some (YamlRow e _ _) \<Rightarrow> Inr (Some (mapped_back e))
           | Some Corrupt \<Rightarrow> Inl (UnreadableRow i))"

definition locate_scoped :: "string \<Rightarrow> string \<Rightarrow> yaml_backend \<Rightarrow> (yaml_error, memory_entry option) result" where
  "locate_scoped i ns y = bindE (locate_unscoped i y) (\<lambda>found. Inr (case found of
       Some e \<Rightarrow> if namespace e = ns then Some (served_view e) else None | None \<Rightarrow> None))"

definition yaml_get :: "env \<Rightarrow> string \<Rightarrow> string \<Rightarrow> yaml_backend \<Rightarrow> (yaml_error, memory_entry option) result" where
  "yaml_get v i ns y = bindE (locate_scoped i ns y) (\<lambda>found. Inr (Option.bind found (quarantine_admits v (inherited y))))"

definition yaml_holds_id :: "string \<Rightarrow> string \<Rightarrow> yaml_backend \<Rightarrow> (yaml_error, bool) result" where
  "yaml_holds_id i ns y = bindE (locate_scoped i ns y) (\<lambda>found. Inr (found \<noteq> None))"

definition yaml_get_many :: "env \<Rightarrow> string list \<Rightarrow> string \<Rightarrow> yaml_backend \<Rightarrow> (yaml_error, (string, memory_entry) dict) result" where
  "yaml_get_many v ids ns y =
     bindE (mapE (\<lambda>i. yaml_get v i ns y) (uniq ids)) (\<lambda>found.
       Inr (foldl (\<lambda>d e. dict_set (eid e) e d) [] (concat (map (\<lambda>r. case r of Some e \<Rightarrow> [e] | None \<Rightarrow> []) found))))"

definition refused :: "(schema_error, 'a) result \<Rightarrow> (yaml_error, 'a) result" where
  "refused r = (case r of Inl x \<Rightarrow> Inl (Refused x) | Inr a \<Rightarrow> Inr a)"

definition yaml_store :: "env \<Rightarrow> memory_entry \<Rightarrow> yaml_backend \<Rightarrow> (yaml_error, yaml_backend) result" where
  "yaml_store v e y =
     bindE (refused (validate_entry_for_write (env_utf8 v) e)) (\<lambda>_.
     bindE (if violates_evidence_invariant e
            then bindE (locate_unscoped (eid e) y) (\<lambda>found.
                   refused (refuse_new_violation
                     (case found of Some old \<Rightarrow> if namespace old = namespace e then Some old else None | None \<Rightarrow> None) e))
            else Inr ()) (\<lambda>_.
       if \<not> entry_path_ok (eid e) then Inl (BadEntryId (eid e))
       else Inr (y\<lparr>y_dir := dict_set (eid e) (YamlRow (stamp_sync (env_sha v) e) 0 0) (y_dir y)\<rparr>)))"

text \<open>
  \<open>update\<close>. The interface passes the namespace by keyword, so here it is one of the fields: it
  selects no row, it is assigned, and it is never a bookkeeping field.
\<close>

definition yaml_update ::
  "env \<Rightarrow> int \<Rightarrow> string \<Rightarrow> string \<Rightarrow> field_update list \<Rightarrow> yaml_backend
     \<Rightarrow> (yaml_error, yaml_backend \<times> memory_entry option) result" where
  "yaml_update v now i ns us y =
     (if \<not> entry_path_ok i then Inl (BadEntryId i)
      else case map_of (y_dir y) i of
        None \<Rightarrow> Inr (y, None)
      | Some Corrupt \<Rightarrow> Inl (UnreadableRow i)
      | Some (YamlRow e lost_assertions lost_anchors) \<Rightarrow>
          if y_ledger y \<noteq> None \<and> quarantine_admits v (inherited y) (mapped_back e) = None then Inr (y, None)
          else if 0 < lost_assertions + lost_anchors then Inl (PartialRow i lost_assertions lost_anchors)
          else (let existing = mapped_back e;
                    us1 = (if names us ''updated_at'' then us else us @ [UUpdatedAt now]);
                    row = updated_row (env_sha v) us1 (existing\<lparr>namespace := ns\<rparr>)
                in bindE (refused (refuse_new_violation (Some existing) (set_fields (existing\<lparr>namespace := ns\<rparr>) us1))) (\<lambda>_.
                     Inr (y\<lparr>y_dir := dict_set i (YamlRow row 0 0) (y_dir y)\<rparr>,
                          quarantine_admits v (inherited y) (served_view (mapped_back row))))))"

definition yaml_delete :: "string \<Rightarrow> string \<Rightarrow> yaml_backend \<Rightarrow> (yaml_error, yaml_backend \<times> bool) result" where
  "yaml_delete i ns y = bindE (locate_scoped i ns y) (\<lambda>found.
     Inr (if found = None then (y, False) else (y\<lparr>y_dir := drop_key i (y_dir y)\<rparr>, True)))"

section \<open>Scans\<close>

definition quarantine_entry_filter :: "env \<Rightarrow> yaml_backend \<Rightarrow> (memory_entry \<Rightarrow> bool) option \<Rightarrow> (memory_entry \<Rightarrow> bool) option" where
  "quarantine_entry_filter v y p = (case quarantine_view (inherited y) of None \<Rightarrow> p | Some L \<Rightarrow> entry_filter (env_chash v) L p)"

definition list_key :: "memory_entry \<Rightarrow> int \<times> string" where
  "list_key e = (updated_at e, eid e)"

definition yaml_list_entries ::
  "env \<Rightarrow> clock_text \<Rightarrow> list_query \<Rightarrow> temporal option \<Rightarrow> (memory_entry \<Rightarrow> bool) option \<Rightarrow> nat \<Rightarrow> yaml_backend
     \<Rightarrow> (listing_error, memory_entry list) result" where
  "yaml_list_entries v ct q sel p limit y =
     (if sel \<noteq> None \<and> q_after q \<noteq> None then Inl TemporalCursor
      else if limit = 0 then Inr []
      else (let p' = quarantine_entry_filter v y p;
                found = filter (\<lambda>e. listed q e \<and> passes p' e) (iter_all y)
            in case sel of
                 Some t \<Rightarrow> Inr (case select_ranked ct t (int limit) list_key found of Inr es \<Rightarrow> es | Inl _ \<Rightarrow> [])
               | None \<Rightarrow> if p' \<noteq> None then Inr (nlargest limit list_key found)
                         else Inr (take limit (rev (sort_key list_key (rev found))))))"

record search_query =
  s_status :: "memory_status option"
  s_namespace :: "string option"
  s_min_importance :: rat
  s_tags :: "string list"

definition mentions :: "(string \<Rightarrow> string) \<Rightarrow> string \<Rightarrow> memory_entry \<Rightarrow> bool" where
  "mentions lower needle e \<longleftrightarrow>
     sublist needle (lower (content e)) \<or> sublist needle (lower (detail e)) \<or> sublist needle (lower (str_join '' '' (tags e)))"

definition searched :: "(string \<Rightarrow> string) \<Rightarrow> string \<Rightarrow> search_query \<Rightarrow> memory_entry \<Rightarrow> bool" where
  "searched lower needle q e \<longleftrightarrow> mentions lower needle e
     \<and> (s_status q = None \<or> s_status q = Some (status e)) \<and> s_min_importance q \<le> importance e
     \<and> (s_namespace q = None \<or> s_namespace q = Some (namespace e)) \<and> set (s_tags q) \<subseteq> set (tags e)"

definition search_key :: "memory_entry \<Rightarrow> rat \<times> int" where
  "search_key e = (importance e, updated_at e)"

definition yaml_search ::
  "env \<Rightarrow> clock_text \<Rightarrow> (string \<Rightarrow> string) \<Rightarrow> string \<Rightarrow> search_query \<Rightarrow> temporal option \<Rightarrow> (memory_entry \<Rightarrow> bool) option
     \<Rightarrow> nat \<Rightarrow> yaml_backend \<Rightarrow> memory_entry list" where
  "yaml_search v ct lower query q sel p top_k y =
     (if top_k = 0 then []
      else (let p' = quarantine_entry_filter v y p;
                found = filter (\<lambda>e. searched lower (lower query) q e \<and> passes p' e) (iter_all y)
            in case sel of
                 Some t \<Rightarrow> (case select_ranked ct t (int top_k) search_key found of Inr es \<Rightarrow> es | Inl _ \<Rightarrow> [])
               | None \<Rightarrow> if p' \<noteq> None then nlargest top_k search_key found
                         else take top_k (rev (sort_key search_key (rev found)))))"

definition yaml_count :: "string option \<Rightarrow> yaml_backend \<Rightarrow> nat" where
  "yaml_count ns y = (case ns of None \<Rightarrow> length (y_dir y) | Some n \<Rightarrow> length (filter (\<lambda>e. namespace e = n) (iter_all y)))"

definition yaml_list_namespaces :: "string list option \<Rightarrow> yaml_backend \<Rightarrow> string list" where
  "yaml_list_namespaces required y =
     sort (uniq (filter (\<lambda>n. case required of None \<Rightarrow> True | Some ok \<Rightarrow> n \<in> set ok) (map namespace (iter_all y))))"

text \<open>\<open>delete_by_namespace\<close>: a file removed before an error stays removed.\<close>

fun purge_loop :: "string \<Rightarrow> memory_entry list \<Rightarrow> nat \<Rightarrow> yaml_backend \<Rightarrow> yaml_backend \<times> (yaml_error, nat) result" where
  "purge_loop ns [] n y = (y, Inr n)"
| "purge_loop ns (e # es) n y =
     (if namespace e \<noteq> ns then purge_loop ns es n y
      else if \<not> entry_path_ok (eid e) then (y, Inl (BadEntryId (eid e)))
      else if map_of (y_dir y) (eid e) = None then purge_loop ns es n y
      else purge_loop ns es (Suc n) (y\<lparr>y_dir := drop_key (eid e) (y_dir y)\<rparr>))"

definition yaml_delete_by_namespace :: "string \<Rightarrow> yaml_backend \<Rightarrow> yaml_backend \<times> (yaml_error, nat) result" where
  "yaml_delete_by_namespace ns y = purge_loop ns (iter_all y) 0 y"

section \<open>The listing agrees with SQLite's\<close>

lemma listed_served: "listed q (served_view e) = listed q e"
  by (cases "q_after q") (simp_all add: listed_def served_view_def)

lemma list_key_served [simp]: "list_key (served_view e) = list_key e"
  by (simp add: list_key_def served_view_def)

text \<open>With distinct keys there is one sorted list of the same rows.\<close>

lemma sorted_rows_unique:
  fixes key :: "'a \<Rightarrow> 'k::linorder"
  assumes "mset xs = mset ys" and "inj_on key (set xs)" and "sorted (map key ys)"
  shows "sort_key key xs = ys"
  using assms by (rule sort_key_inj_key_eq)

lemma listing_served:
  assumes "inj_on list_key (set (map served_view (map snd (rows d))))"
  shows "listing q d = rev (sort_key list_key (filter (listed q) (map served_view (map snd (rows d)))))"
proof -
  let ?raw = "filter (listed q) (map snd (rows d))"
  let ?served = "filter (listed q) (map served_view (map snd (rows d)))"
  have served: "?served = map served_view ?raw" by (simp add: filter_map comp_def listed_served)
  have key: "list_key = (\<lambda>e. (updated_at e, eid e))" by (simp add: fun_eq_iff list_key_def)
  have "sort_key list_key ?served = map served_view (sort_key list_key (rev ?raw))"
  proof (rule sorted_rows_unique)
    show "mset ?served = mset (map served_view (sort_key list_key (rev ?raw)))" unfolding served by simp
    show "inj_on list_key (set ?served)" by (rule inj_on_subset [OF assms]) auto
    have "map list_key (map served_view xs) = map list_key xs" for xs by simp
    then show "sorted (map list_key (map served_view (sort_key list_key (rev ?raw))))" by (simp only: sorted_sort_key)
  qed
  then show ?thesis unfolding listing_def key by (simp add: rev_map)
qed

lemma ranked_is_shown:
  assumes inj: "inj_on list_key (set es)" and "0 < limit"
  shows "select_ranked ct t (int limit) list_key es = Inr (take limit (shown ct t (rev (sort_key list_key es))))"
proof -
  let ?k = "\<lambda>e. (eligible ct t e, list_key e)"
  let ?c = "filter (\<lambda>e. \<not> is_canary t e \<and> (eligible ct t e \<or> t_superseded t)) es"
  let ?s = "filter (\<lambda>e. \<not> is_canary t e) (sort_key list_key es)"
  let ?asc = "(if t_superseded t then filter (\<lambda>e. \<not> eligible ct t e) ?s else []) @ filter (eligible ct t) ?s"
  have rev: "rev (shown ct t (rev (sort_key list_key es))) = ?asc" by (simp add: shown_def Let_def rev_filter)
  have "sort_key ?k (rev ?c) = ?asc"
  proof (rule sorted_rows_unique)
    have "mset (filter (\<lambda>e. \<not> eligible ct t e) xs) + mset (filter (eligible ct t) xs) = mset xs" for xs
      by (induction xs) auto
    from this [of "filter (\<lambda>e. \<not> is_canary t e) es"] show "mset (rev ?c) = mset ?asc"
      by (auto simp: conj_ac)
    show "inj_on ?k (set (rev ?c))" using inj by (auto simp: inj_on_def)
    have part: "sorted (map ?k (filter a ?s))" if "\<And>e. a e \<Longrightarrow> eligible ct t e = x" for a x
    proof -
      have "sorted (map list_key (filter a ?s))" by (simp add: sorted_filter)
      then have "sorted_wrt (\<lambda>e f. list_key e \<le> list_key f) (filter a ?s)" by (simp add: sorted_map)
      then have "sorted_wrt (\<lambda>e f. ?k e \<le> ?k f) (filter a ?s)"
        by (rule sorted_wrt_mono_rel [rotated]) (use that in auto)
      then show ?thesis by (simp add: sorted_map)
    qed
    show "sorted (map ?k ?asc)"
      using part [of "\<lambda>e. \<not> eligible ct t e" False] part [of "eligible ct t" True]
      by (auto simp: sorted_append)
  qed
  then have "rev (sort_key ?k (rev ?c)) = shown ct t (rev (sort_key list_key es))" using rev by (metis rev_rev_ident)
  with assms(2) show ?thesis by (simp add: select_ranked_def nlargest_def)
qed

text \<open>
  The YAML listing is the SQLite listing. For a directory whose readable files are the rows of a
  database, as they are served and with distinct ids, and the same ledger, \<open>list_entries\<close> answers
  the same rows in the same order whatever the filter, the cursor, the temporal selection, the
  caller's predicate and the limit, and refuses the same combination.
\<close>

theorem yaml_listing_agrees:
  assumes rows: "mset (iter_all y) = mset (map served_view (map snd (rows (b_db b))))"
    and ids: "distinct (map eid (iter_all y))" and ledger: "y_ledger y = b_ledger b"
  shows "yaml_list_entries v ct q sel p limit y = list_entries v ct q sel p limit b"
proof -
  let ?S = "map served_view (map snd (rows (b_db b)))"
  let ?keep = "\<lambda>e. \<not> quarantine_blocks v b e \<and> passes p e"
  let ?found = "filter (\<lambda>e. listed q e \<and> ?keep e) (iter_all y)"
  have same: "quarantine_blocks v (inherited y) e = quarantine_blocks v b e" for e
    by (simp add: quarantine_blocks_def inherited_def ledger)
  have passes: "passes (quarantine_entry_filter v y p) = ?keep"
    using no_view_blocks_nothing [of "inherited y" v] passes_entry_filter [of "inherited y" _ v p]
    by (auto simp: quarantine_entry_filter_def same fun_eq_iff split: option.split)
  have inj: "inj_on list_key (set (iter_all y))" using ids by (auto simp: distinct_map inj_on_def list_key_def)
  have eqset: "set (iter_all y) = set ?S" using rows by (metis set_mset_mset)
  have listing: "filter ?keep (listing q (b_db b)) = rev (sort_key list_key ?found)"
  proof -
    have "sort_key list_key ?found = filter ?keep (sort_key list_key (filter (listed q) ?S))"
    proof (rule sorted_rows_unique)
      have "mset (filter ?keep (sort_key list_key (filter (listed q) ?S))) = filter_mset ?keep (filter_mset (listed q) (mset ?S))"
        by (simp only: mset_filter mset_sort)
      also have "\<dots> = filter_mset ?keep (filter_mset (listed q) (mset (iter_all y)))" by (simp only: rows)
      also have "\<dots> = mset ?found" unfolding mset_filter filter_filter_mset by (rule filter_mset_cong) auto
      finally show "mset ?found = mset (filter ?keep (sort_key list_key (filter (listed q) ?S)))" ..
      show "inj_on list_key (set ?found)" by (rule inj_on_subset [OF inj]) auto
    qed (simp add: sorted_filter)
    then show ?thesis using listing_served [of "b_db b" q] inj unfolding eqset by (simp add: rev_filter)
  qed
  have right: "list_entries v ct q sel p limit b = (if sel \<noteq> None \<and> q_after q \<noteq> None then Inl TemporalCursor
      else Inr (take limit (temporal_order ct sel (rev (sort_key list_key ?found)))))"
    unfolding list_entries_def listed_read.limited_exact listing ..
  have plain: "rev (sort_key list_key (rev ?found)) = rev (sort_key list_key ?found)"
    by (intro arg_cong [where f = rev] sorted_rows_unique) (auto intro: inj_on_subset [OF inj])
  have ranked: "select_ranked ct t (int limit) list_key ?found = Inr (take limit (shown ct t (rev (sort_key list_key ?found))))"
    if "0 < limit" for t
    by (rule ranked_is_shown [OF _ that]) (rule inj_on_subset [OF inj], auto)
  show ?thesis
    unfolding right yaml_list_entries_def Let_def passes
    using plain ranked by (auto simp: nlargest_def temporal_order_def split: option.split)
qed

section \<open>One namespace: the rows are SQLite's rows\<close>

lemma mapped_back_frame [simp]:
  "eid (mapped_back e) = eid e" "namespace (mapped_back e) = namespace e" "sync_seq (mapped_back e) = sync_seq e"
  "mapped_back (mapped_back e) = mapped_back e" "violates_evidence_invariant (mapped_back e) = violates_evidence_invariant e"
  "same_claim (mapped_back a) e = same_claim a e" "same_claim a (mapped_back e) = same_claim a e"
  "evidence_level (mapped_back e) = evidence_level e" "hash_view_of (mapped_back e) = hash_view_of e"
  "entry_identity_keys c (mapped_back e) = entry_identity_keys c e"
  by (simp_all add: mapped_back_def violates_evidence_invariant_def same_claim_def hash_view_of_def entry_identity_keys_def source_of_def)

lemma served_mapped_back: "served_view (mapped_back e) = mapped_back (served_view e)"
  by (simp add: served_view_def) (simp add: mapped_back_def)

lemma refuse_mapped_back [simp]:
  "refuse_new_violation (Some (mapped_back a)) e = refuse_new_violation (Some a) e"
  "refuse_new_violation old (mapped_back e) = refuse_new_violation old e"
  by (simp_all add: refuse_new_violation_def split: option.split)

lemma blocks_mapped_back [simp]: "quarantine_blocks v b (mapped_back e) = quarantine_blocks v b e"
  by (simp add: quarantine_blocks_def blocks_def split: option.split)

lemma mapped_back_set_fields: "mapped_back (set_fields (mapped_back e) us) = mapped_back (set_fields e us)"
proof -
  have base: "mapped_back (set_field (mapped_back e) u) = mapped_back (set_field e u)" for e u
    by (cases u) (simp_all add: mapped_back_def)
  have step: "mapped_back (set_field e u) = mapped_back (set_field f u)" if "mapped_back e = mapped_back f" for e f u
    using that base [of e u] base [of f u] by simp
  have "mapped_back e = mapped_back f \<Longrightarrow> mapped_back (foldl set_field e us) = mapped_back (foldl set_field f us)" for e f
  proof (induction us arbitrary: e f)
    case (Cons u us)
    from Cons.IH [OF step [OF Cons.prems]] show ?case by simp
  qed simp
  note all = this
  show ?thesis unfolding set_fields_def by (rule all) simp
qed

text \<open>
  A directory stands for one namespace of a database: the same ids, the same rows up to the
  recall counter its files lose, and the same ledger.
\<close>

definition stands_for :: "string \<Rightarrow> yaml_backend \<Rightarrow> backend \<Rightarrow> bool" where
  "stands_for ns y b \<longleftrightarrow> y_ledger y = b_ledger b
     \<and> (\<forall>i. db_get i ns (b_db b) = None \<longrightarrow> map_of (y_dir y) i = None)
     \<and> (\<forall>i e. db_get i ns (b_db b) = Some e \<longrightarrow> namespace e = ns \<and> eid e = i
          \<and> (\<exists>f. map_of (y_dir y) i = Some (YamlRow f 0 0) \<and> mapped_back f = mapped_back e))"

lemma stands_forD:
  assumes "stands_for ns y b"
  shows "y_ledger y = b_ledger b" "db_get i ns (b_db b) = None \<Longrightarrow> map_of (y_dir y) i = None"
    "db_get i ns (b_db b) = Some e \<Longrightarrow> namespace e = ns \<and> eid e = i
       \<and> (\<exists>f. map_of (y_dir y) i = Some (YamlRow f 0 0) \<and> mapped_back f = mapped_back e)"
  using assms by (simp_all add: stands_for_def)

lemma stands_for_put:
  assumes R: "stands_for ns y b" and rows: "rows d = dict_set (ns, i) e (rows (b_db b))"
    and e: "namespace e = ns" "eid e = i" "mapped_back f = mapped_back e"
  shows "stands_for ns (y\<lparr>y_dir := dict_set i (YamlRow f 0 0) (y_dir y)\<rparr>) (b\<lparr>b_db := d\<rparr>)"
  using R e unfolding stands_for_def db_get_def by (auto simp: rows)

lemma blocks_inherited:
  "stands_for ns y b \<Longrightarrow> quarantine_admits v (inherited y) (mapped_back e) = map_option mapped_back (quarantine_admits v b e)"
  by (simp add: quarantine_admits_def stands_for_def inherited_def quarantine_blocks_def blocks_def split: option.split)

lemma locate_stands:
  assumes "stands_for ns y b" and "entry_path_ok i"
  shows "locate_unscoped i y = Inr (map_option mapped_back (db_get i ns (b_db b)))"
  using stands_forD(2,3) [OF assms(1), of i] assms(2)
  by (cases "db_get i ns (b_db b)") (auto simp: locate_unscoped_def)

lemma located_stands:
  assumes "stands_for ns y b" and "entry_path_ok i"
  shows "locate_scoped i ns y = Inr (map_option (mapped_back \<circ> served_view) (db_get i ns (b_db b)))"
  using locate_stands [OF assms] stands_forD(3) [OF assms(1), of i]
  by (auto simp: locate_scoped_def served_mapped_back split: option.split)

lemma get_stands:
  assumes "stands_for ns y b" and "entry_path_ok i"
  shows "yaml_get v i ns y = Inr (map_option mapped_back (backend_get v b i ns))"
  by (simp add: yaml_get_def located_stands [OF assms] backend_get_def blocks_inherited [OF assms(1)] split: option.split)

fun simulates ::
  "string \<Rightarrow> (yaml_error, yaml_backend \<times> memory_entry option) result \<Rightarrow> (schema_error, backend \<times> memory_entry option) result \<Rightarrow> bool"
where
  "simulates ns (Inr (y, r)) (Inr (b, s)) \<longleftrightarrow> stands_for ns y b \<and> r = map_option mapped_back s"
| "simulates ns (Inl (Refused x)) (Inl x') \<longleftrightarrow> x = x'"
| "simulates ns _ _ \<longleftrightarrow> False"

lemma store_stands:
  assumes R: "stands_for (namespace e) y b" and path: "entry_path_ok (eid e)"
  shows "simulates (namespace e) (bindE (yaml_store v e y) (\<lambda>y'. Inr (y', None))) (bindE (backend_store v b e) (\<lambda>b'. Inr (b', None)))"
proof -
  let ?old = "db_get (eid e) (namespace e) (b_db b)"
  have old: "?old = Some x \<Longrightarrow> namespace x = namespace e" for x using stands_forD(3) [OF R] by blast
  then have "(case map_option mapped_back ?old of Some old \<Rightarrow> if namespace old = namespace e then Some old else None | None \<Rightarrow> None)
      = map_option mapped_back ?old"
    by (simp split: option.split)
  moreover have "refuse_new_violation (map_option mapped_back ?old) e = refuse_new_violation ?old e"
    by (cases ?old) simp_all
  moreover have "refuse_new_violation ?old e = Inr ()" if "\<not> violates_evidence_invariant e"
    using that by (simp add: refuse_new_violation_def)
  ultimately have check: "(if violates_evidence_invariant e
            then bindE (locate_unscoped (eid e) y) (\<lambda>found.
                   refused (refuse_new_violation
                     (case found of Some old \<Rightarrow> if namespace old = namespace e then Some old else None | None \<Rightarrow> None) e))
            else Inr ()) = refused (refuse_new_violation ?old e)"
    using locate_stands [OF R path] by (simp add: refused_def)
  let ?f = "stamp_sync (env_sha v) e"
  have put: "stands_for (namespace e) (y\<lparr>y_dir := dict_set (eid e) (YamlRow ?f 0 0) (y_dir y)\<rparr>) (b\<lparr>b_db := write_row ?f (b_db b)\<rparr>)"
    by (rule stands_for_put [OF R, of _ _ ?f]) (simp_all add: write_row_rows entry_key_def)
  show ?thesis
    using put path unfolding yaml_store_def check backend_store_def db_store_def
    by (cases "validate_entry_for_write (env_utf8 v) e"; cases "refuse_new_violation ?old e") (simp_all add: refused_def)
qed

lemma mapped_back_updated_row: "mapped_back (updated_row sha us (mapped_back e)) = mapped_back (updated_row sha us e)"
proof -
  let ?a = "set_fields (mapped_back e) us" and ?b = "set_fields e us"
  have eq: "mapped_back ?a = mapped_back ?b" by (rule mapped_back_set_fields)
  have "hash_view_of ?a = hash_view_of ?b" using eq by (metis mapped_back_frame(9))
  moreover have "mapped_back (x\<lparr>sync_seq := n, sync_hash := h, last_synced_at := None\<rparr>)
      = (mapped_back x)\<lparr>sync_seq := n, sync_hash := h, last_synced_at := None\<rparr>" for x n h
    by (simp add: mapped_back_def)
  ultimately show ?thesis using eq by (simp add: updated_row_def Let_def compute_sync_hash_def)
qed

lemma update_stands:
  assumes R: "stands_for ns y b" and path: "entry_path_ok i"
    and us: "\<not> field_name ` set us \<subseteq> set bookkeeping_fields"
    and utf8: "validate_utf8_fields (env_utf8 v) (updated_text_fields i (stamped_updates now us)) = Inr ()"
  shows "simulates ns (yaml_update v now i ns us y) (backend_update v now b i ns us)"
proof (cases "db_get i ns (b_db b)")
  case None
  with stands_forD(2) [OF R] have "map_of (y_dir y) i = None" by blast
  with None path R show ?thesis by (auto simp: yaml_update_def backend_update_def db_update_def backend_get_def db_get_def)
next
  case (Some e)
  from stands_forD(3) [OF R Some] obtain f where e: "namespace e = ns" "eid e = i"
    and f: "map_of (y_dir y) i = Some (YamlRow f 0 0)" "mapped_back f = mapped_back e" by blast
  have same: "(mapped_back e)\<lparr>namespace := ns\<rparr> = mapped_back e" using e(1) by (simp add: mapped_back_def)
  have us1: "(if names us ''updated_at'' then us else us @ [UUpdatedAt now]) = stamped_updates now us"
    using us by (simp add: stamped_updates_def)
  have nonempty: "us \<noteq> []" using us by auto
  let ?us = "stamped_updates now us"
  let ?row = "updated_row (env_sha v) ?us e" and ?yrow = "updated_row (env_sha v) ?us (mapped_back e)"
  have refuse: "refuse_new_violation (Some e) (set_fields (mapped_back e) ?us) = refuse_new_violation (Some e) (set_fields e ?us)"
    by (metis mapped_back_set_fields refuse_mapped_back)
  have gate: "quarantine_admits v (inherited y) (mapped_back e) = None \<longleftrightarrow> backend_get v b i ns = None"
    using Some blocks_inherited [OF R, of v e] by (simp add: backend_get_def quarantine_admits_def split: if_splits)
  show ?thesis
  proof (cases "b_ledger b \<noteq> None \<and> backend_get v b i ns = None")
    case True
    then have "yaml_update v now i ns us y = Inr (y, None)" "backend_update v now b i ns us = Inr (b, None)"
      using f path gate stands_forD(1) [OF R] by (simp_all add: yaml_update_def backend_update_def)
    with R show ?thesis by simp
  next
    case False
    then have shown: "\<not> (y_ledger y \<noteq> None \<and> quarantine_admits v (inherited y) (mapped_back e) = None)"
      using gate stands_forD(1) [OF R] by simp
    let ?d = "put_updated (ns, i) us ?row (prunes_vector us e) (b_db b)"
    let ?y = "y\<lparr>y_dir := dict_set i (YamlRow ?yrow 0 0) (y_dir y)\<rparr>"
    have yaml: "yaml_update v now i ns us y = bindE (refused (refuse_new_violation (Some e) (set_fields e ?us))) (\<lambda>_.
        Inr (?y, quarantine_admits v (inherited y) (served_view (mapped_back ?yrow))))"
    proof -
      have "quarantine_admits v (inherited y) (mapped_back e) \<noteq> None" if "y_ledger y \<noteq> None" using shown that by simp
      then show ?thesis using path f unfolding yaml_update_def us1 by (auto simp: Let_def same refuse)
    qed
    have sqlite: "backend_update v now b i ns us = bindE (refuse_new_violation (Some e) (set_fields e ?us)) (\<lambda>_.
        Inr (b\<lparr>b_db := ?d\<rparr>, Option.bind (db_get i ns ?d) (\<lambda>x. quarantine_admits v (b\<lparr>b_db := ?d\<rparr>) (served_view x))))"
      using False nonempty Some utf8
      by (cases "refuse_new_violation (Some e) (set_fields e ?us)") (auto simp: backend_update_def db_update_def Let_def)
    have put: "stands_for ns ?y (b\<lparr>b_db := ?d\<rparr>)"
      by (rule stands_for_put [OF R, of _ _ ?row]) (simp_all add: e mapped_back_updated_row)
    have "db_get i ns ?d = Some ?row" by (simp add: db_get_def)
    moreover have "quarantine_admits v (inherited y) (served_view (mapped_back ?yrow))
        = map_option mapped_back (quarantine_admits v (b\<lparr>b_db := ?d\<rparr>) (served_view ?row))"
      using blocks_inherited [OF R, of v "served_view ?row"]
      by (simp add: mapped_back_updated_row served_mapped_back quarantine_admits_def)
    ultimately show ?thesis
      using put unfolding yaml sqlite
      by (cases "refuse_new_violation (Some e) (set_fields e ?us)") (simp_all add: refused_def)
  qed
qed

lemma db_delete_rows: "rows (fst (db_delete i ns d)) = drop_key (ns, i) (rows d)" "snd (db_delete i ns d) \<longleftrightarrow> db_get i ns d \<noteq> None"
  by (simp_all add: db_delete_def Let_def db_get_def)

lemma delete_stands:
  assumes R: "stands_for ns y b" and path: "entry_path_ok i"
  shows "\<exists>y'. yaml_delete i ns y = Inr (y', snd (backend_delete b i ns)) \<and> stands_for ns y' (fst (backend_delete b i ns))"
proof -
  obtain d r where d: "db_delete i ns (b_db b) = (d, r)" by (cases "db_delete i ns (b_db b)")
  note rows = db_delete_rows [of i ns "b_db b", unfolded d, simplified]
  have "stands_for ns (y\<lparr>y_dir := drop_key i (y_dir y)\<rparr>) (b\<lparr>b_db := d\<rparr>)"
    using R unfolding stands_for_def db_get_def by (auto simp: rows)
  moreover have "stands_for ns y (b\<lparr>b_db := d\<rparr>)" if "db_get i ns (b_db b) = None"
    using R that unfolding stands_for_def db_get_def by (auto simp: rows)
  ultimately show ?thesis
    using located_stands [OF R path] rows(2) by (auto simp: yaml_delete_def backend_delete_def d)
qed


definition yaml_two :: yaml_backend where
  "yaml_two = \<lparr>y_dir = [(''M-2'', YamlRow (row_of (''project:a'', ''M-2'')) 0 0), (''M-1'', YamlRow (row_of (''project:a'', ''M-1'')) 0 0)],
     y_ledger = b_ledger two_rows\<rparr>"

lemma mapped_row [simp]: "mapped_back (row_of k) = row_of k" "served_view (row_of k) = row_of k"
  by (simp_all add: row_of_def stamp_sync_def new_entry_def mapped_back_def served_view_def violates_evidence_invariant_def)

lemma yaml_two_rows: "iter_all yaml_two = [row_of (''project:a'', ''M-2''), row_of (''project:a'', ''M-1'')]"
  by (simp add: iter_all_def yaml_two_def)

theorem yaml_listing_agrees_witness:
  "yaml_list_entries plain_env plain_clock \<lparr>q_status = None, q_namespace = Some ''project:a'', q_min_importance = 0,
      q_exclude_superseded = False, q_tags = [], q_after = None\<rparr> None None 1 yaml_two
   = list_entries plain_env plain_clock \<lparr>q_status = None, q_namespace = Some ''project:a'', q_min_importance = 0,
      q_exclude_superseded = False, q_tags = [], q_after = None\<rparr> None None 1 two_rows"
  by (rule yaml_listing_agrees) (simp_all add: yaml_two_rows two_rows_simps, simp add: yaml_two_def)

lemma yaml_two_stands: "stands_for ''project:a'' yaml_two two_rows"
  by (simp add: stands_for_def yaml_two_def db_get_def two_rows_simps)


section \<open>Where it does not stand in\<close>

text \<open>
  A store writes over the file of another namespace's row with the same id, an update takes such a
  row into the caller's namespace, and the recall counter of a file is never read back.
\<close>

lemma yaml_store_replaces_foreign_row:
  assumes "yaml_store v e y = Inr y'" and "ns \<noteq> namespace e"
  shows "yaml_get v (eid e) ns y' = Inr None"
proof -
  have "y' = y\<lparr>y_dir := dict_set (eid e) (YamlRow (stamp_sync (env_sha v) e) 0 0) (y_dir y)\<rparr>" "entry_path_ok (eid e)"
    using assms(1) by (auto simp: yaml_store_def bindE_Inr split: if_splits)
  moreover have "namespace (stamp_sync (env_sha v) e) = namespace e" by (simp add: stamp_sync_def)
  ultimately show ?thesis using assms(2) by (simp add: yaml_get_def locate_scoped_def locate_unscoped_def)
qed

definition unledgered :: yaml_backend where
  "unledgered = \<lparr>y_dir = [(''M-2'', YamlRow (row_of (''project:a'', ''M-2'')) 0 0)], y_ledger = None\<rparr>"

lemma unledgered_admits [simp]: "y_ledger y = None \<Longrightarrow> quarantine_admits v (inherited y) e = Some e"
  by (simp add: quarantine_admits_def quarantine_blocks_def inherited_def)

lemma unledgered_update:
  assumes "\<not> names us ''updated_at''" and "\<And>e. violates_evidence_invariant (set_fields e us) = violates_evidence_invariant e"
  shows "yaml_update plain_env now ''M-2'' ns us unledgered
    = (let row = updated_row (\<lambda>_. ''h'') (us @ [UUpdatedAt now]) ((row_of (''project:a'', ''M-2''))\<lparr>namespace := ns\<rparr>)
       in Inr (unledgered\<lparr>y_dir := [(''M-2'', YamlRow row 0 0)]\<rparr>, Some (served_view (mapped_back row))))"
proof -
  let ?e = "(row_of (''project:a'', ''M-2''))\<lparr>namespace := ns\<rparr>"
  have "\<not> violates_evidence_invariant (set_fields ?e us)"
    unfolding assms(2) using row_of_simps(7) by (simp add: violates_evidence_invariant_def)
  then have "\<not> violates_evidence_invariant (set_fields ?e (us @ [UUpdatedAt now]))"
    by (simp add: set_fields_def violates_evidence_invariant_def)
  then have "refuse_new_violation old (set_fields ?e (us @ [UUpdatedAt now])) = Inr ()" for old
    by (simp add: refuse_new_violation_def)
  moreover have "entry_path_ok ''M-2''" by (simp add: entry_path_ok_def)
  ultimately show ?thesis
    using assms(1) by (simp add: yaml_update_def unledgered_def Let_def refused_def plain_env_def)
qed

lemma yaml_update_takes_foreign_row:
  "\<exists>y' r. yaml_update plain_env 9 ''M-2'' ''project:b'' [UImportance 1] unledgered = Inr (y', Some r)
     \<and> namespace r = ''project:b'' \<and> yaml_get plain_env ''M-2'' ''project:a'' y' = Inr None"
  by (subst unledgered_update)
    (simp_all add: names_def set_fields_def violates_evidence_invariant_def Let_def yaml_get_def locate_scoped_def locate_unscoped_def entry_path_ok_def)

text \<open>A bookkeeping update moves \<open>updated_at\<close>, which the SQLite backend leaves alone.\<close>

lemma yaml_bookkeeping_update_restamps:
  "\<exists>y' r. yaml_update plain_env 9 ''M-2'' ''project:a'' [USessionCount 1] unledgered = Inr (y', Some r) \<and> updated_at r = 9"
  "stamped_updates 9 [USessionCount 1] = [USessionCount 1]"
  by (subst unledgered_update)
    (simp_all add: names_def set_fields_def violates_evidence_invariant_def Let_def stamped_updates_def bookkeeping_fields_def
      updated_row_def mapped_back_def served_view_def row_of_def stamp_sync_def new_entry_def)

lemma yaml_loses_recall_count:
  assumes "locate_unscoped i y = Inr (Some e)"
  shows "recall_count e = 0"
  using assms by (auto simp: locate_unscoped_def mapped_back_def split: if_splits option.splits yaml_file.splits)

section \<open>Purging a namespace\<close>

lemma purge_loop_exact:
  assumes "\<forall>e \<in> set es. entry_path_ok (eid e)"
  shows "\<exists>k. purge_loop ns es n y
    = (y\<lparr>y_dir := filter (\<lambda>(i, _). i \<notin> eid ` {e \<in> set es. namespace e = ns}) (y_dir y)\<rparr>, Inr k)"
  using assms
proof (induction es arbitrary: n y)
  case (Cons e es)
  let ?gone = "\<lambda>es i. i \<in> eid ` {e \<in> set es. namespace e = ns}"
  have drop: "filter (\<lambda>(i, _). \<not> ?gone es i) (drop_key (eid e) xs) = filter (\<lambda>(i, _). \<not> ?gone (e # es) i) xs"
    if "namespace e = ns" for xs :: "(string, yaml_file) dict"
    using that by (auto simp: drop_key_def intro!: filter_cong)
  have absent: "drop_key (eid e) (y_dir y) = y_dir y" if "map_of (y_dir y) (eid e) = None"
    using that by (auto simp: drop_key_def map_of_eq_None_iff filter_id_conv image_iff)
  have other: "{x \<in> set (e # es). namespace x = ns} = {x \<in> set es. namespace x = ns}" if "namespace e \<noteq> ns" using that by auto
  show ?case
  proof (cases "namespace e = ns")
    case False
    then have "purge_loop ns (e # es) n y = purge_loop ns es n y" by simp
    with Cons.IH [of n y] Cons.prems show ?thesis unfolding other [OF False] by simp
  next
    case True
    then have "purge_loop ns (e # es) n y = purge_loop ns es (if map_of (y_dir y) (eid e) = None then n else Suc n)
        (y\<lparr>y_dir := drop_key (eid e) (y_dir y)\<rparr>)"
      using Cons.prems absent by simp
    moreover obtain k where "purge_loop ns es (if map_of (y_dir y) (eid e) = None then n else Suc n)
        (y\<lparr>y_dir := drop_key (eid e) (y_dir y)\<rparr>)
      = (y\<lparr>y_dir := filter (\<lambda>(i, _). \<not> ?gone es i) (drop_key (eid e) (y_dir y))\<rparr>, Inr k)"
      using Cons.IH [of _ "y\<lparr>y_dir := drop_key (eid e) (y_dir y)\<rparr>"] Cons.prems by fastforce
    ultimately show ?thesis unfolding drop [OF True] by auto
  qed
qed (simp add: filter_True)

text \<open>When files are named after their rows, what is left is what the namespace does not own.\<close>

lemma yaml_purge_is_exact:
  assumes named: "\<forall>i e m n. (i, YamlRow e m n) \<in> set (y_dir y) \<longrightarrow> eid e = i \<and> entry_path_ok i"
    and keys: "distinct (dict_keys (y_dir y))"
  shows "\<exists>k. yaml_delete_by_namespace ns y
    = (y\<lparr>y_dir := filter (\<lambda>(_, f). case f of YamlRow e _ _ \<Rightarrow> namespace e \<noteq> ns | Corrupt \<Rightarrow> True) (y_dir y)\<rparr>, Inr k)"
proof -
  have rows: "x \<in> set (iter_all y) \<longleftrightarrow> (\<exists>i e m n. (i, YamlRow e m n) \<in> set (y_dir y) \<and> x = served_view (mapped_back e))" for x
    by (auto simp: iter_all_def split: yaml_file.splits) force
  have "\<forall>e \<in> set (iter_all y). entry_path_ok (eid e)" using named by (auto simp: rows) metis
  moreover have "i \<notin> eid ` {e \<in> set (iter_all y). namespace e = ns} \<longleftrightarrow> (case f of YamlRow e _ _ \<Rightarrow> namespace e \<noteq> ns | Corrupt \<Rightarrow> True)"
    if f: "(i, f) \<in> set (y_dir y)" for i f
  proof -
    have one: "g = f" if "(i, g) \<in> set (y_dir y)" for g using keys f that by (metis map_of_is_SomeI option.inject)
    have "i \<in> eid ` {e \<in> set (iter_all y). namespace e = ns} \<longleftrightarrow> (\<exists>e m n. f = YamlRow e m n \<and> namespace e = ns)"
    proof
      assume "i \<in> eid ` {e \<in> set (iter_all y). namespace e = ns}"
      then obtain j e m n where e: "(j, YamlRow e m n) \<in> set (y_dir y)" "eid e = i" "namespace e = ns" by (auto simp: rows)
      with named have "j = i" by blast
      with e one show "\<exists>e m n. f = YamlRow e m n \<and> namespace e = ns" by blast
    next
      assume "\<exists>e m n. f = YamlRow e m n \<and> namespace e = ns"
      then obtain e m n where e: "f = YamlRow e m n" "namespace e = ns" by blast
      with named f have "eid e = i" by blast
      moreover have "served_view (mapped_back e) \<in> set (iter_all y)" using f e rows by blast
      ultimately show "i \<in> eid ` {e \<in> set (iter_all y). namespace e = ns}"
        using e(2) by (intro image_eqI [of _ _ "served_view (mapped_back e)"]) simp_all
    qed
    then show ?thesis by (cases f) auto
  qed
  then have "filter (\<lambda>(i, _). i \<notin> eid ` {e \<in> set (iter_all y). namespace e = ns}) (y_dir y)
      = filter (\<lambda>(_, f). case f of YamlRow e _ _ \<Rightarrow> namespace e \<noteq> ns | Corrupt \<Rightarrow> True) (y_dir y)"
    by (intro filter_cong refl) auto
  ultimately show ?thesis using purge_loop_exact [of "iter_all y" ns 0 y] by (simp add: yaml_delete_by_namespace_def)
qed

end
