(* ===== verification/ClaimTree.thy ===== *)
theory ClaimTree
  imports Prelude
begin

text \<open>
  Which commit a checkout is at, and whether a claim was written at a later one
  (\<^verbatim>\<open>lifecycle/claim_tree.py\<close>). Git is a parameter: what the \<open>n\<close>-th process of a tree answers to a
  question and how long it ran, \<open>None\<close> where it did not run to an exit. The trace \<open>asked\<close> of the
  questions put to git is not a field of the class; nothing in the code depends on it but the
  number of the next process.
\<close>

section \<open>One tree\<close>

definition max_distinct_shas :: nat where "max_distinct_shas = 256"

definition git_budget :: rat where "git_budget = 5"

definition is_hex :: "char \<Rightarrow> bool" where
  "is_hex c \<longleftrightarrow> c \<in> set ''0123456789abcdef''"

definition is_valid_sha :: "string \<Rightarrow> bool" where
  "is_valid_sha s \<longleftrightarrow> length s = 40 \<and> list_all is_hex s"

datatype git_question = HeadOf | CommitOf string | IsAncestor string string

record git_world =
  root :: string
  answer :: "nat \<Rightarrow> git_question \<Rightarrow> (int \<times> string) option"
  took :: "nat \<Rightarrow> rat"

text \<open>\<open>str.splitlines\<close>: a carriage return and line feed are one break, and a last break ends no line.\<close>

definition is_break :: "char \<Rightarrow> bool" where
  "is_break c \<longleftrightarrow> c \<in> {CHR 0x0A, CHR 0x0B, CHR 0x0C, CHR 0x0D, CHR 0x1C, CHR 0x1D, CHR 0x1E, CHR 0x85}"

fun lines_from :: "string \<Rightarrow> string \<Rightarrow> string list" where
  "lines_from cur [] = (if cur = [] then [] else [rev cur])"
| "lines_from cur [c] = (if is_break c then [rev cur] else [rev (c # cur)])"
| "lines_from cur (c # c' # cs) =
     (if c = CHR 0x0D \<and> c' = CHR 0x0A then rev cur # lines_from [] cs
      else if is_break c then rev cur # lines_from [] (c' # cs)
      else lines_from (c # cur) (c' # cs))"

definition split_lines :: "string \<Rightarrow> string list" where
  "split_lines s = lines_from [] s"

text \<open>\<open>_head_of\<close> on what git answered: the commit, and whether git ran to an exit.\<close>

fun head_of :: "string \<Rightarrow> (int \<times> string) option \<Rightarrow> string option \<times> bool" where
  "head_of r None = (None, False)"
| "head_of r (Some (code, out)) =
     (let ls = split_lines out
      in if code \<noteq> 0 \<or> length ls \<noteq> 2 \<or> ls ! 0 \<noteq> r \<or> \<not> is_valid_sha (ls ! 1) then (None, True)
         else (Some (ls ! 1), True))"

declare head_of.simps(2) [simp del]

definition checkout_head :: "git_world \<Rightarrow> string option" where
  "checkout_head w = fst (head_of (root w) (answer w 0 HeadOf))"

record claim_tree =
  known_head :: "string option"
  looked_up :: bool
  broken :: bool
  spent :: rat
  answers :: "(string, bool) dict"
  asked :: "git_question list"

definition fresh_tree :: claim_tree where
  "fresh_tree = \<lparr>known_head = None, looked_up = False, broken = False, spent = 0, answers = [], asked = []\<rparr>"

definition may_start :: "claim_tree \<Rightarrow> bool" where
  "may_start t \<longleftrightarrow> \<not> broken t \<and> spent t \<le> git_budget"

definition next_answer :: "git_world \<Rightarrow> git_question \<Rightarrow> claim_tree \<Rightarrow> (int \<times> string) option" where
  "next_answer w q t = answer w (length (asked t)) q"

text \<open>\<open>_run\<close>; \<open>head\<close> accounts for its own process in the same way.\<close>

definition run_git :: "git_world \<Rightarrow> git_question \<Rightarrow> claim_tree \<Rightarrow> claim_tree" where
  "run_git w q t =
     t\<lparr>spent := spent t + took w (length (asked t)), broken := broken t \<or> next_answer w q t = None,
       asked := asked t @ [q]\<rparr>"

definition tree_head :: "git_world \<Rightarrow> claim_tree \<Rightarrow> string option \<times> claim_tree" where
  "tree_head w t =
     (if looked_up t then (known_head t, t)
      else (let t1 = t\<lparr>looked_up := True\<rparr>
            in if may_start t1
               then (let h = fst (head_of (root w) (next_answer w HeadOf t1)); t2 = run_git w HeadOf t1
                     in (h, t2\<lparr>known_head := h\<rparr>))
               else (known_head t1, t1)))"

definition remember :: "string \<Rightarrow> bool \<Rightarrow> claim_tree \<Rightarrow> bool \<times> claim_tree" where
  "remember sha v t = (v, t\<lparr>answers := dict_set sha v (answers t)\<rparr>)"

text \<open>The two questions about one object name, once the head is known and differs from it.\<close>

definition ask_ancestor :: "git_world \<Rightarrow> string \<Rightarrow> string \<Rightarrow> claim_tree \<Rightarrow> bool \<times> claim_tree" where
  "ask_ancestor w h sha t =
     (let t1 = run_git w (CommitOf sha) t
      in case next_answer w (CommitOf sha) t of
           None \<Rightarrow> (False, t1)
         | Some (code, out) \<Rightarrow>
             if code = 0 \<and> str_strip out = sha \<and> may_start t1
             then (let t2 = run_git w (IsAncestor h sha) t1
                   in case next_answer w (IsAncestor h sha) t1 of
                        None \<Rightarrow> (False, t2)
                      | Some (code', _) \<Rightarrow> remember sha (code' = 0) t2)
             else remember sha False t1)"

text \<open>\<open>behind\<close>; \<open>None\<close> stands for a stored value that is no text.\<close>

definition behind :: "git_world \<Rightarrow> string option \<Rightarrow> claim_tree \<Rightarrow> bool \<times> claim_tree" where
  "behind w stored t =
     (case stored of
        None \<Rightarrow> (False, t)
      | Some sha \<Rightarrow>
          if \<not> is_valid_sha sha then (False, t)
          else (case map_of (answers t) sha of
                  Some v \<Rightarrow> (v, t)
                | None \<Rightarrow>
                    if max_distinct_shas \<le> length (answers t) then (False, t)
                    else (let (h, t1) = tree_head w t
                          in case h of
                               None \<Rightarrow> remember sha False t1
                             | Some c \<Rightarrow>
                                 if c \<noteq> sha \<and> may_start t1 then ask_ancestor w c sha t1
                                 else remember sha False t1)))"

text \<open>What one owner does with a tree: it reads the head and asks about stored values, in any order.\<close>

datatype tree_call = ReadHead | AskBehind "string option"

fun tree_step :: "git_world \<Rightarrow> tree_call \<Rightarrow> claim_tree \<Rightarrow> claim_tree" where
  "tree_step w ReadHead t = snd (tree_head w t)"
| "tree_step w (AskBehind s) t = snd (behind w s t)"

definition tree_calls :: "git_world \<Rightarrow> tree_call list \<Rightarrow> claim_tree \<Rightarrow> claim_tree" where
  "tree_calls w cs t = foldl (\<lambda>t c. tree_step w c t) t cs"

fun behinds :: "git_world \<Rightarrow> string option list \<Rightarrow> claim_tree \<Rightarrow> bool list" where
  "behinds w [] t = []"
| "behinds w (s # ss) t = fst (behind w s t) # behinds w ss (snd (behind w s t))"

section \<open>What every tree satisfies\<close>

text \<open>
  Answer \<open>v\<close> about \<open>sha\<close> is justified by the trace: git named the head, named \<open>sha\<close> a commit, and
  said that the one is an ancestor of the other.
\<close>

definition answered :: "git_world \<Rightarrow> claim_tree \<Rightarrow> nat \<Rightarrow> git_question \<Rightarrow> int \<times> string \<Rightarrow> bool" where
  "answered w t i q r \<longleftrightarrow> i < length (asked t) \<and> asked t ! i = q \<and> answer w i q = Some r"

definition justified :: "git_world \<Rightarrow> claim_tree \<Rightarrow> string \<Rightarrow> bool" where
  "justified w t sha \<longleftrightarrow>
     (\<exists>h i j k out out' r. answered w t i HeadOf r \<and> fst (head_of (root w) (Some r)) = Some h \<and> h \<noteq> sha
        \<and> answered w t j (CommitOf sha) (0, out) \<and> str_strip out = sha
        \<and> answered w t k (IsAncestor h sha) (0, out'))"

definition tree_ok :: "git_world \<Rightarrow> claim_tree \<Rightarrow> bool" where
  "tree_ok w t \<longleftrightarrow>
     distinct (asked t)
     \<and> (HeadOf \<in> set (asked t) \<longrightarrow> looked_up t)
     \<and> (\<forall>s. CommitOf s \<in> set (asked t) \<longrightarrow> broken t \<or> map_of (answers t) s \<noteq> None)
     \<and> (\<forall>h s. IsAncestor h s \<in> set (asked t) \<longrightarrow> broken t \<or> map_of (answers t) s \<noteq> None)
     \<and> (\<forall>h. known_head t = Some h \<longrightarrow>
          (\<exists>i r. answered w t i HeadOf r \<and> fst (head_of (root w) (Some r)) = Some h))
     \<and> (known_head t \<noteq> None \<longrightarrow> looked_up t)
     \<and> (\<forall>s. map_of (answers t) s = Some True \<longrightarrow> justified w t s)
     \<and> length (answers t) \<le> max_distinct_shas
     \<and> length (asked t) \<le> of_bool (looked_up t)
          + 2 * (if broken t then max_distinct_shas else length (answers t))"

lemma answered_mono: "answered w t i q r \<Longrightarrow> answered w (run_git w q' t) i q r"
  by (auto simp: answered_def run_git_def nth_append)

lemma answered_new: "next_answer w q t = Some r \<Longrightarrow> answered w (run_git w q t) (length (asked t)) q r"
  by (simp add: answered_def run_git_def next_answer_def)

lemma answered_frame [simp]:
  "answered w (t\<lparr>known_head := h\<rparr>) = answered w t" "answered w (t\<lparr>looked_up := l\<rparr>) = answered w t"
  "answered w (t\<lparr>answers := a\<rparr>) = answered w t"
  by (simp_all add: fun_eq_iff answered_def)

lemma justified_frame [simp]:
  "justified w (t\<lparr>known_head := h\<rparr>) = justified w t" "justified w (t\<lparr>looked_up := l\<rparr>) = justified w t"
  "justified w (t\<lparr>answers := a\<rparr>) = justified w t"
  by (simp_all add: fun_eq_iff justified_def)

lemma justified_mono: "justified w t s \<Longrightarrow> justified w (run_git w q t) s"
  unfolding justified_def by (blast intro: answered_mono)

lemma run_git_simps [simp]:
  "known_head (run_git w q t) = known_head t" "looked_up (run_git w q t) = looked_up t"
  "answers (run_git w q t) = answers t" "asked (run_git w q t) = asked t @ [q]"
  "broken (run_git w q t) \<longleftrightarrow> broken t \<or> next_answer w q t = None"
  "spent (run_git w q t) = spent t + took w (length (asked t))"
  by (simp_all add: run_git_def)

lemma tree_okD:
  assumes "tree_ok w t"
  shows "distinct (asked t)" "HeadOf \<in> set (asked t) \<Longrightarrow> looked_up t"
    "CommitOf s \<in> set (asked t) \<Longrightarrow> broken t \<or> map_of (answers t) s \<noteq> None"
    "IsAncestor h s \<in> set (asked t) \<Longrightarrow> broken t \<or> map_of (answers t) s \<noteq> None"
    "known_head t = Some h \<Longrightarrow> \<exists>i r. answered w t i HeadOf r \<and> fst (head_of (root w) (Some r)) = Some h"
    "known_head t \<noteq> None \<Longrightarrow> looked_up t"
    "map_of (answers t) s = Some True \<Longrightarrow> justified w t s"
    "length (answers t) \<le> max_distinct_shas"
    "length (asked t) \<le> of_bool (looked_up t)
       + 2 * (if broken t then max_distinct_shas else length (answers t))"
  using assms unfolding tree_ok_def by blast+

lemma tree_ok_fresh: "tree_ok w fresh_tree"
  by (simp add: tree_ok_def fresh_tree_def)

lemma tree_ok_looked:
  assumes t: "tree_ok w t"
  shows "tree_ok w (t\<lparr>looked_up := True\<rparr>)"
  using tree_okD [OF t] unfolding tree_ok_def by (auto simp: of_bool_def split: if_splits)

lemma tree_ok_head:
  assumes t: "tree_ok w t"
  shows "tree_ok w (snd (tree_head w t))"
proof (cases "looked_up t")
  case True
  with t show ?thesis by (simp add: tree_head_def)
next
  case False
  let ?t1 = "t\<lparr>looked_up := True\<rparr>"
  show ?thesis
  proof (cases "may_start ?t1")
    case False
    with \<open>\<not> looked_up t\<close> tree_ok_looked [OF t] show ?thesis by (simp add: tree_head_def)
  next
    case True
    define h where "h = fst (head_of (root w) (next_answer w HeadOf ?t1))"
    have "tree_ok w ((run_git w HeadOf ?t1)\<lparr>known_head := h\<rparr>)"
      unfolding tree_ok_def
    proof (intro conjI allI impI)
      show "\<exists>i r. answered w (run_git w HeadOf ?t1\<lparr>known_head := h\<rparr>) i HeadOf r
          \<and> fst (head_of (root w) (Some r)) = Some c"
        if "known_head (run_git w HeadOf ?t1\<lparr>known_head := h\<rparr>) = Some c" for c
      proof (cases "next_answer w HeadOf ?t1")
        case None
        with that show ?thesis by (simp add: h_def)
      next
        case (Some r)
        have "fst (head_of (root w) (Some r)) = Some c" using Some that by (simp add: h_def)
        with answered_new [OF Some] show ?thesis unfolding answered_frame by blast
      qed
      show "justified w (run_git w HeadOf ?t1\<lparr>known_head := h\<rparr>) s"
        if "map_of (answers (run_git w HeadOf ?t1\<lparr>known_head := h\<rparr>)) s = Some True" for s
        using justified_mono [of w ?t1 s HeadOf] that tree_okD(7) [OF t] by simp
    qed (use False tree_okD [OF t] in \<open>auto simp: of_bool_def split: if_splits\<close>)
    with \<open>\<not> looked_up t\<close> True show ?thesis by (simp add: tree_head_def Let_def h_def)
  qed
qed

lemma tree_head_facts:
  assumes "tree_ok w t"
  shows "answers (snd (tree_head w t)) = answers t" "looked_up (snd (tree_head w t))"
    "fst (tree_head w t) = known_head (snd (tree_head w t))"
  using tree_okD(6) [OF assms] by (auto simp: tree_head_def Let_def)

lemma length_dict_set: "map_of d k = None \<Longrightarrow> length (dict_set k v d) = Suc (length d)"
  by (induction d) (auto split: if_splits)

lemma tree_ok_remember:
  assumes "distinct (asked t)" "looked_up t"
    "\<And>s. CommitOf s \<in> set (asked t) \<Longrightarrow> broken t \<or> map_of (answers t) s \<noteq> None \<or> s = sha"
    "\<And>h s. IsAncestor h s \<in> set (asked t) \<Longrightarrow> broken t \<or> map_of (answers t) s \<noteq> None \<or> s = sha"
    "\<And>h. known_head t = Some h \<Longrightarrow> \<exists>i r. answered w t i HeadOf r \<and> fst (head_of (root w) (Some r)) = Some h"
    "\<And>s. map_of (answers t) s = Some True \<Longrightarrow> justified w t s"
    "map_of (answers t) sha = None" "length (answers t) < max_distinct_shas"
    "length (asked t) \<le> 1 + 2 * (if broken t then max_distinct_shas else Suc (length (answers t)))"
    "v \<Longrightarrow> justified w t sha"
  shows "tree_ok w (snd (remember sha v t))"
proof -
  have len: "length (dict_set sha v (answers t)) = Suc (length (answers t))"
    using assms(7) by (simp add: length_dict_set)
  show ?thesis
    unfolding tree_ok_def remember_def snd_conv
    by (intro conjI allI impI) (use assms len in \<open>auto simp: of_bool_def split: if_splits\<close>)
qed

lemma tree_ok_broke:
  assumes "distinct (asked t)" "looked_up t" "broken t"
    "\<And>h. known_head t = Some h \<Longrightarrow> \<exists>i r. answered w t i HeadOf r \<and> fst (head_of (root w) (Some r)) = Some h"
    "\<And>s. map_of (answers t) s = Some True \<Longrightarrow> justified w t s"
    "length (answers t) < max_distinct_shas" "length (asked t) \<le> 3 + 2 * length (answers t)"
  shows "tree_ok w t"
  unfolding tree_ok_def by (intro conjI allI impI) (use assms in \<open>auto simp: max_distinct_shas_def\<close>)

lemma tree_ok_ask_ancestor:
  assumes t: "tree_ok w t" and l: "looked_up t" and h: "known_head t = Some h" "h \<noteq> sha"
    and m: "may_start t" and u: "map_of (answers t) sha = None" and len: "length (answers t) < max_distinct_shas"
  shows "tree_ok w (snd (ask_ancestor w h sha t))"
proof -
  define t1 where "t1 = run_git w (CommitOf sha) t"
  define t2 where "t2 = run_git w (IsAncestor h sha) t1"
  note D = tree_okD [OF t]
  have nb: "\<not> broken t" using m by (simp add: may_start_def)
  have fresh: "CommitOf sha \<notin> set (asked t)" "\<And>g. IsAncestor g sha \<notin> set (asked t)"
    using D(3) [of sha] D(4) [of _ sha] nb u by blast+
  have short: "length (asked t) \<le> 1 + 2 * length (answers t)" using D(9) l nb by simp
  have head1: "\<And>g. known_head t1 = Some g \<Longrightarrow> \<exists>i r. answered w t1 i HeadOf r \<and> fst (head_of (root w) (Some r)) = Some g"
    using D(5) answered_mono unfolding t1_def by (metis run_git_simps(1))
  have head2: "\<And>g. known_head t2 = Some g \<Longrightarrow> \<exists>i r. answered w t2 i HeadOf r \<and> fst (head_of (root w) (Some r)) = Some g"
    using head1 answered_mono unfolding t2_def by (metis run_git_simps(1))
  have just1: "\<And>s. map_of (answers t1) s = Some True \<Longrightarrow> justified w t1 s"
    using D(7) by (simp add: t1_def justified_mono)
  have just2: "\<And>s. map_of (answers t2) s = Some True \<Longrightarrow> justified w t2 s"
    using just1 by (simp add: t2_def justified_mono)
  show ?thesis
  proof (cases "next_answer w (CommitOf sha) t")
    case None
    have "tree_ok w t1"
      by (rule tree_ok_broke [OF _ _ _ head1 just1]) (use None l len short fresh D(1) in \<open>auto simp: t1_def\<close>)
    with None show ?thesis by (simp add: ask_ancestor_def t1_def)
  next
    case (Some a)
    obtain code out where a: "a = (code, out)" by (cases a)
    show ?thesis
    proof (cases "code = 0 \<and> str_strip out = sha \<and> may_start t1")
      case False
      have "tree_ok w (snd (remember sha False t1))"
        by (rule tree_ok_remember [OF _ _ _ _ head1 just1])
          (use D(1,3,4) u nb l len short fresh Some in \<open>auto simp: t1_def\<close>)
      with False Some a show ?thesis by (auto simp: ask_ancestor_def t1_def)
    next
      case True
      then have a1: "answered w t1 (length (asked t)) (CommitOf sha) (0, out)"
        using answered_new [OF Some] a by (simp add: t1_def)
      show ?thesis
      proof (cases "next_answer w (IsAncestor h sha) t1")
        case None
        have "tree_ok w t2"
          by (rule tree_ok_broke [OF _ _ _ head2 just2])
            (use None l len short fresh D(1) in \<open>auto simp: t1_def t2_def\<close>)
        with None True Some a show ?thesis by (simp add: ask_ancestor_def t1_def t2_def)
      next
        case (Some b)
        obtain code' out' where b: "b = (code', out')" by (cases b)
        have just: "justified w t2 sha" if "code' = 0"
        proof -
          obtain i r where ir: "answered w t2 i HeadOf r" "fst (head_of (root w) (Some r)) = Some h"
            using head2 [of h] h(1) by (auto simp: t1_def t2_def)
          have "answered w t2 (length (asked t)) (CommitOf sha) (0, out)"
            unfolding t2_def by (rule answered_mono [OF a1])
          moreover have "answered w t2 (length (asked t1)) (IsAncestor h sha) (0, out')"
            using answered_new [OF Some] b that by (simp add: t2_def)
          ultimately show ?thesis
            using ir h(2) True unfolding justified_def by blast
        qed
        have "tree_ok w (snd (remember sha (code' = 0) t2))"
          by (rule tree_ok_remember [OF _ _ _ _ head2 just2])
            (use D(1,3,4) u nb l len short fresh Some just \<open>next_answer w (CommitOf sha) t = Some a\<close>
              in \<open>auto simp: t1_def t2_def\<close>)
        with Some b True a \<open>next_answer w (CommitOf sha) t = Some a\<close> show ?thesis
          by (simp add: ask_ancestor_def t1_def t2_def)
      qed
    qed
  qed
qed

lemma tree_ok_behind:
  assumes t: "tree_ok w t"
  shows "tree_ok w (snd (behind w s t))"
proof (cases s)
  case None
  with t show ?thesis by (simp add: behind_def)
next
  case (Some sha)
  define t1 where "t1 = snd (tree_head w t)"
  show ?thesis
  proof (cases "is_valid_sha sha \<and> map_of (answers t) sha = None \<and> length (answers t) < max_distinct_shas")
    case False
    with t Some show ?thesis by (auto simp: behind_def split: option.splits)
  next
    case True
    have ok: "tree_ok w t1" unfolding t1_def by (rule tree_ok_head [OF t])
    note F = tree_head_facts [OF t, folded t1_def]
    note D = tree_okD [OF ok]
    have T: "tree_head w t = (known_head t1, t1)" using F(3) by (metis prod.collapse t1_def)
    have u: "map_of (answers t1) sha = None" "length (answers t1) < max_distinct_shas" using True F(1) by simp_all
    have no: "tree_ok w (snd (remember sha False t1))"
      by (rule tree_ok_remember [OF D(1) F(2) _ _ D(5) D(7) u(1,2)])
        (use D(3,4,9) F(2) in \<open>auto split: if_splits\<close>)
    show ?thesis
      using True Some T no tree_ok_ask_ancestor [OF ok F(2) _ _ _ u, of _]
      by (auto simp: behind_def split: option.splits)
  qed
qed

lemma tree_ok_calls: "tree_ok w (tree_calls w cs fresh_tree)"
proof -
  have "tree_ok w t \<Longrightarrow> tree_ok w (tree_calls w cs t)" for t
  proof (induction cs arbitrary: t)
    case (Cons c cs)
    have "tree_ok w (tree_step w c t)"
      using Cons.prems tree_ok_head tree_ok_behind by (cases c) simp_all
    with Cons.IH show ?case by (simp add: tree_calls_def)
  qed (simp add: tree_calls_def)
  then show ?thesis using tree_ok_fresh by blast
qed

section \<open>What a tree costs\<close>

lemma spent_start: "may_start t \<Longrightarrow> 0 \<le> took w n \<and> took w n \<le> T \<Longrightarrow> spent t + took w n \<le> git_budget + T"
  by (simp add: may_start_def add_mono)

lemma spent_head:
  assumes T: "\<And>n. 0 \<le> took w n \<and> took w n \<le> T" and t: "spent t \<le> git_budget + T"
  shows "spent (snd (tree_head w t)) \<le> git_budget + T"
  using t T [of "length (asked t)"] spent_start [of "t\<lparr>looked_up := True\<rparr>" w "length (asked t)" T]
  by (auto simp: tree_head_def Let_def)

lemma spent_remember [simp]: "spent (snd (remember s v t)) = spent t"
  by (simp add: remember_def)

lemma spent_ask_ancestor:
  assumes T: "\<And>n. 0 \<le> took w n \<and> took w n \<le> T" and m: "may_start t"
  shows "spent (snd (ask_ancestor w h sha t)) \<le> git_budget + T"
proof -
  let ?t1 = "run_git w (CommitOf sha) t"
  have 1: "spent ?t1 \<le> git_budget + T" using spent_start [OF m T] by simp
  have 2: "may_start ?t1 \<Longrightarrow> spent (run_git w (IsAncestor h sha) ?t1) \<le> git_budget + T"
    using spent_start [OF _ T, of ?t1] by simp
  show ?thesis
    using 1 2 by (auto simp: ask_ancestor_def Let_def simp del: run_git_simps split: option.splits)
qed

lemma spent_behind:
  assumes T: "\<And>n. 0 \<le> took w n \<and> took w n \<le> T" and t: "spent t \<le> git_budget + T"
  shows "spent (snd (behind w s t)) \<le> git_budget + T"
  using t spent_head [OF T t] spent_ask_ancestor [OF T]
  by (auto simp: behind_def split: option.splits prod.splits dest: sym)

lemma spent_calls:
  assumes T: "\<And>n. 0 \<le> took w n \<and> took w n \<le> T"
  shows "spent (tree_calls w cs fresh_tree) \<le> git_budget + T"
proof -
  have "spent t \<le> git_budget + T \<Longrightarrow> spent (tree_calls w cs t) \<le> git_budget + T" for t
  proof (induction cs arbitrary: t)
    case (Cons c cs)
    have "spent (tree_step w c t) \<le> git_budget + T"
      using Cons.prems spent_head [OF T] spent_behind [OF T] by (cases c) simp_all
    with Cons.IH show ?case by (simp add: tree_calls_def)
  qed (simp add: tree_calls_def)
  moreover have "spent fresh_tree \<le> git_budget + T"
    using T [of 0] by (simp add: fresh_tree_def git_budget_def)
  ultimately show ?thesis by blast
qed

text \<open>
  C26: Whatever its owner asks and whatever git prints, one tree never puts the same question to git
  twice, starts at most \<open>1 + 2 * 256\<close> processes, and spends at most its budget and one more timeout
  on them.
\<close>

theorem claim_tree_is_bounded:
  assumes "\<forall>n. 0 \<le> took w n \<and> took w n \<le> timeout"
  shows "distinct (asked (tree_calls w cs fresh_tree))
     \<and> length (asked (tree_calls w cs fresh_tree)) \<le> 1 + 2 * max_distinct_shas
     \<and> spent (tree_calls w cs fresh_tree) \<le> git_budget + timeout"
proof -
  note D = tree_okD [OF tree_ok_calls [of w cs]]
  have "of_bool b + 2 * (if c then max_distinct_shas else n) \<le> 1 + 2 * max_distinct_shas"
    if "n \<le> max_distinct_shas" for b c n using that by simp
  from order_trans [OF D(9) this [OF D(8)]] D(1) spent_calls [of w timeout cs] assms
  show ?thesis by simp
qed

section \<open>What a tree answers\<close>

lemma remember_answer: "fst (remember sha v t) = v" "map_of (answers (snd (remember sha v t))) sha = Some v"
  by (simp_all add: remember_def)

lemma ask_ancestor_answer:
  "fst (ask_ancestor w h sha t) \<Longrightarrow> map_of (answers (snd (ask_ancestor w h sha t))) sha = Some True"
  by (auto simp: ask_ancestor_def Let_def remember_answer simp del: run_git_simps
      split: option.splits prod.splits if_splits)

lemma behind_cases:
  obtains (other) "behind w s t = (False, t)"
  | (known) sha v where "s = Some sha" "is_valid_sha sha" "map_of (answers t) sha = Some v" "behind w s t = (v, t)"
  | (no) sha where "s = Some sha" "is_valid_sha sha" "map_of (answers t) sha = None"
      "behind w s t = remember sha False (snd (tree_head w t))"
      "\<forall>c. fst (tree_head w t) = Some c \<longrightarrow> c = sha \<or> \<not> may_start (snd (tree_head w t))"
      "length (answers t) < max_distinct_shas"
  | (asks) sha c where "s = Some sha" "is_valid_sha sha" "map_of (answers t) sha = None"
      "fst (tree_head w t) = Some c" "c \<noteq> sha" "may_start (snd (tree_head w t))"
      "behind w s t = ask_ancestor w c sha (snd (tree_head w t))" "length (answers t) < max_distinct_shas"
proof (cases s)
  case None
  then show ?thesis using other by (simp add: behind_def)
next
  case (Some sha)
  show ?thesis
  proof (cases "is_valid_sha sha \<and> map_of (answers t) sha = None \<and> length (answers t) < max_distinct_shas")
    case False
    then show ?thesis using Some other known
      by (cases "is_valid_sha sha"; cases "map_of (answers t) sha") (auto simp: behind_def)
  next
    case True
    obtain h t1 where T: "tree_head w t = (h, t1)" by (cases "tree_head w t")
    show ?thesis
      using True Some T no [of sha] asks [of sha]
      by (cases h; cases "h = Some sha \<or> \<not> may_start t1") (auto simp: behind_def)
  qed
qed

lemma behind_answer:
  assumes "fst (behind w s t)"
  shows "\<exists>sha. s = Some sha \<and> is_valid_sha sha \<and> map_of (answers (snd (behind w s t))) sha = Some True"
proof (cases w s t rule: behind_cases)
  case (asks sha c)
  then show ?thesis using assms ask_ancestor_answer [of w c sha] by simp
qed (use assms in \<open>auto simp: remember_answer\<close>)

text \<open>
  A claim is held as written at a later commit only on git's own word: git named the head of
  exactly this checkout, named the stored value itself a commit, and said that the head is an
  ancestor of it, and the two differ. A value that is no object name never reaches git.
\<close>

theorem held_claims_are_justified:
  assumes "fst (behind w stored (tree_calls w cs fresh_tree))"
  shows "\<exists>sha. stored = Some sha \<and> is_valid_sha sha
     \<and> justified w (snd (behind w stored (tree_calls w cs fresh_tree))) sha"
  using behind_answer [OF assms] tree_okD(7) [OF tree_ok_behind [OF tree_ok_calls]] by blast

text \<open>
  A git that serves the tree: it always runs to an exit, names one head for this root, and answers
  by a fixed set of commits and a fixed ancestry. It is quick enough when no process takes more
  than its share of the budget.
\<close>

definition git_serves :: "git_world \<Rightarrow> string \<Rightarrow> (string \<Rightarrow> bool) \<Rightarrow> (string \<Rightarrow> string \<Rightarrow> bool) \<Rightarrow> bool" where
  "git_serves w h commit ancestor \<longleftrightarrow>
     (\<forall>n. \<exists>r. answer w n HeadOf = Some r \<and> fst (head_of (root w) (Some r)) = Some h)
     \<and> (\<forall>n s. \<exists>code out. answer w n (CommitOf s) = Some (code, out)
          \<and> (code = 0 \<and> str_strip out = s) = commit s)
     \<and> (\<forall>n a b. \<exists>code out. answer w n (IsAncestor a b) = Some (code, out) \<and> (code = 0) = ancestor a b)"

definition process_share :: rat where
  "process_share = git_budget / of_nat (1 + 2 * max_distinct_shas)"

definition git_is_quick :: "git_world \<Rightarrow> bool" where
  "git_is_quick w \<longleftrightarrow> (\<forall>n. took w n \<le> process_share)"

definition strictly_behind ::
  "string \<Rightarrow> (string \<Rightarrow> bool) \<Rightarrow> (string \<Rightarrow> string \<Rightarrow> bool) \<Rightarrow> string option \<Rightarrow> bool" where
  "strictly_behind h commit ancestor s =
     (case s of None \<Rightarrow> False
      | Some sha \<Rightarrow> is_valid_sha sha \<and> h \<noteq> sha \<and> commit sha \<and> ancestor h sha)"

definition on_course :: "git_world \<Rightarrow> string \<Rightarrow> (string \<Rightarrow> bool) \<Rightarrow> claim_tree \<Rightarrow> bool" where
  "on_course w h spec t \<longleftrightarrow>
     \<not> broken t \<and> spent t \<le> of_nat (length (asked t)) * process_share
     \<and> (looked_up t \<longrightarrow> known_head t = Some h)
     \<and> distinct (dict_keys (answers t)) \<and> (\<forall>s v. map_of (answers t) s = Some v \<longrightarrow> v = spec s)"

lemma on_courseD:
  assumes "on_course w h spec t"
  shows "\<not> broken t" "spent t \<le> of_nat (length (asked t)) * process_share"
    "looked_up t \<Longrightarrow> known_head t = Some h" "distinct (dict_keys (answers t))"
    "map_of (answers t) s = Some v \<Longrightarrow> v = spec s"
  using assms unfolding on_course_def by blast+

lemma process_share: "n \<le> 1 + 2 * max_distinct_shas \<Longrightarrow> of_nat n * process_share \<le> git_budget"
  by (simp add: process_share_def git_budget_def max_distinct_shas_def field_simps)

lemma quick_spent:
  "git_is_quick w \<Longrightarrow> x \<le> of_nat n * process_share \<Longrightarrow> x + took w k \<le> of_nat (Suc n) * process_share"
  unfolding git_is_quick_def of_nat_Suc distrib_right by (simp add: add.commute [of x] add_mono)

lemma on_course_starts:
  assumes "on_course w h spec t" "length (asked t) \<le> 1 + 2 * max_distinct_shas"
  shows "may_start t"
  using on_courseD(1,2) [OF assms(1)] order_trans [OF _ process_share [OF assms(2)]]
  by (simp add: may_start_def)

lemma on_course_run:
  assumes "on_course w h spec t" "git_is_quick w" "next_answer w q t \<noteq> None"
  shows "on_course w h spec (run_git w q t)"
  using assms(3) on_courseD [OF assms(1)] quick_spent [OF assms(2) on_courseD(2) [OF assms(1)]]
  by (simp add: on_course_def)

lemma on_course_remember:
  assumes "on_course w h spec t" "v = spec sha"
  shows "on_course w h spec (snd (remember sha v t))"
  using on_courseD [OF assms(1)] assms(2) by (simp add: on_course_def remember_def)

lemma on_course_head:
  assumes t: "on_course w h spec t" "tree_ok w t" and g: "git_serves w h commit ancestor" "git_is_quick w"
  shows "on_course w h spec (snd (tree_head w t)) \<and> fst (tree_head w t) = Some h"
proof (cases "looked_up t")
  case True
  with t on_courseD(3) [OF t(1)] show ?thesis by (simp add: tree_head_def)
next
  case False
  let ?t1 = "t\<lparr>looked_up := True\<rparr>"
  have "length (asked t) \<le> 1 + 2 * max_distinct_shas"
    using tree_okD(8,9) [OF t(2)] on_courseD(1) [OF t(1)] False by simp
  then have m: "may_start ?t1" using on_course_starts [OF t(1)] by (simp add: may_start_def)
  obtain r where r: "next_answer w HeadOf ?t1 = Some r" "fst (head_of (root w) (Some r)) = Some h"
    using g(1) unfolding git_serves_def next_answer_def by blast
  have "spent t + took w (length (asked t)) \<le> of_nat (Suc (length (asked t))) * process_share"
    by (rule quick_spent [OF g(2) on_courseD(2) [OF t(1)]])
  with False m r on_courseD [OF t(1)] show ?thesis
    by (simp add: tree_head_def Let_def on_course_def)
qed

lemma on_course_ask:
  assumes t: "on_course w h spec t" and l: "length (asked t) < 1 + 2 * max_distinct_shas"
    and g: "git_serves w h commit ancestor" "git_is_quick w"
    and s: "spec sha = (commit sha \<and> ancestor h sha)"
  shows "on_course w h spec (snd (ask_ancestor w h sha t)) \<and> fst (ask_ancestor w h sha t) = spec sha"
proof -
  define t1 where "t1 = run_git w (CommitOf sha) t"
  obtain code out where a: "next_answer w (CommitOf sha) t = Some (code, out)"
    "(code = 0 \<and> str_strip out = sha) = commit sha"
    using g(1) unfolding git_serves_def next_answer_def by metis
  obtain code' out' where b: "next_answer w (IsAncestor h sha) t1 = Some (code', out')"
    "(code' = 0) = ancestor h sha"
    using g(1) unfolding git_serves_def next_answer_def by metis
  have 1: "on_course w h spec t1"
    unfolding t1_def by (rule on_course_run [OF t g(2)]) (simp add: a)
  have m: "may_start t1" by (rule on_course_starts [OF 1]) (use l in \<open>simp add: t1_def\<close>)
  have 2: "on_course w h spec (run_git w (IsAncestor h sha) t1)"
    by (rule on_course_run [OF 1 g(2)]) (simp add: b)
  show ?thesis
  proof (cases "commit sha")
    case True
    then have "ask_ancestor w h sha t = remember sha (code' = 0) (run_git w (IsAncestor h sha) t1)"
      using a b m by (simp add: ask_ancestor_def t1_def)
    then show ?thesis using on_course_remember [OF 2, of "code' = 0" sha] True b s by (simp add: remember_answer)
  next
    case False
    then have "ask_ancestor w h sha t = remember sha False t1"
      using a by (auto simp: ask_ancestor_def t1_def)
    then show ?thesis using on_course_remember [OF 1, of False sha] False s by (simp add: remember_answer)
  qed
qed

lemma keys_fit:
  assumes "distinct (dict_keys d)" "finite A" "card A \<le> n" "set (dict_keys d) \<subseteq> A" "a \<in> A" "map_of d a = None"
  shows "length d < n"
proof -
  have "length d = card (set (dict_keys d))" using distinct_card [OF assms(1)] by simp
  also have "\<dots> < card A"
    using assms(2,4,5,6) by (intro psubset_card_mono) (auto simp: map_of_eq_None_iff)
  finally show ?thesis using assms(3) by simp
qed

lemma answers_head: "answers (snd (tree_head w t)) = answers t"
  by (simp add: tree_head_def Let_def)

lemma keys_remember: "fst ` set (answers (snd (remember sha v t))) = insert sha (fst ` set (answers t))"
  unfolding remember_def snd_conv using set_dict_keys_set [of sha v "answers t"] by simp

lemma keys_ask: "fst ` set (answers (snd (ask_ancestor w h sha t))) \<subseteq> insert sha (fst ` set (answers t))"
  by (simp add: ask_ancestor_def Let_def keys_remember subset_insertI split: option.splits prod.splits)

lemma keys_behind: "set (dict_keys (answers (snd (behind w s t)))) \<subseteq> set_option s \<union> set (dict_keys (answers t))"
proof (cases w s t rule: behind_cases)
  case (no sha)
  then show ?thesis by (simp add: keys_remember answers_head)
next
  case (asks sha c)
  then show ?thesis using keys_ask [of w c sha "snd (tree_head w t)"] by (simp add: answers_head)
qed auto

lemma on_course_behind:
  assumes t: "on_course w h (\<lambda>s. strictly_behind h commit ancestor (Some s)) t" "tree_ok w t"
    and g: "git_serves w h commit ancestor" "git_is_quick w"
    and A: "finite A" "card A \<le> max_distinct_shas" "set (dict_keys (answers t)) \<subseteq> A" "set_option s \<inter> {x. is_valid_sha x} \<subseteq> A"
  shows "on_course w h (\<lambda>s. strictly_behind h commit ancestor (Some s)) (snd (behind w s t))
    \<and> fst (behind w s t) = strictly_behind h commit ancestor s"
proof (cases s)
  case None
  with t show ?thesis by (simp add: behind_def strictly_behind_def)
next
  case (Some sha)
  let ?spec = "\<lambda>s. strictly_behind h commit ancestor (Some s)"
  define t1 where "t1 = snd (tree_head w t)"
  show ?thesis
  proof (cases "is_valid_sha sha \<and> map_of (answers t) sha = None")
    case False
    with Some t on_courseD(5) [OF t(1), of sha] show ?thesis
      by (auto simp: behind_def strictly_behind_def split: option.splits)
  next
    case True
    have "sha \<in> A" using A(4) Some True by auto
    have len: "length (answers t) < max_distinct_shas"
      using keys_fit [OF on_courseD(4) [OF t(1)] A(1,2,3) \<open>sha \<in> A\<close>] True by simp
    have 1: "on_course w h ?spec t1" and h: "fst (tree_head w t) = Some h"
      using on_course_head [OF t g] by (simp_all add: t1_def)
    note ok = tree_ok_head [OF t(2), folded t1_def] and F = tree_head_facts [OF t(2), folded t1_def]
    have asked: "length (asked t1) < 1 + 2 * max_distinct_shas"
      using tree_okD(9) [OF ok] F(1,2) on_courseD(1) [OF 1] len by simp
    have m: "may_start t1" by (rule on_course_starts [OF 1]) (use asked in simp)
    have T: "tree_head w t = (Some h, t1)" using h by (metis prod.collapse t1_def)
    show ?thesis
    proof (cases "h = sha")
      case True
      then have "behind w s t = remember sha False t1"
        using T Some len \<open>is_valid_sha sha \<and> map_of (answers t) sha = None\<close> by (simp add: behind_def)
      moreover have "?spec sha = False" using True by (simp add: strictly_behind_def)
      ultimately show ?thesis using on_course_remember [OF 1, of False sha] Some by (simp add: remember_answer)
    next
      case False
      then have b: "behind w s t = ask_ancestor w h sha t1"
        using T Some len m \<open>is_valid_sha sha \<and> map_of (answers t) sha = None\<close> by (simp add: behind_def)
      have "?spec sha = (commit sha \<and> ancestor h sha)"
        using False True by (simp add: strictly_behind_def)
      from on_course_ask [OF 1 asked g this] show ?thesis unfolding b using Some by simp
    qed
  qed
qed

lemma on_course_fresh: "on_course w h spec fresh_tree"
  by (simp add: on_course_def fresh_tree_def)

lemma behinds_on_course:
  assumes g: "git_serves w h commit ancestor" "git_is_quick w"
    and A: "finite A" "card A \<le> max_distinct_shas"
  shows "on_course w h (\<lambda>s. strictly_behind h commit ancestor (Some s)) t \<Longrightarrow> tree_ok w t \<Longrightarrow>
    set (dict_keys (answers t)) \<subseteq> A \<Longrightarrow> \<Union> (set_option ` set ss) \<subseteq> A \<Longrightarrow>
    behinds w ss t = map (strictly_behind h commit ancestor) ss"
proof (induction ss arbitrary: t)
  case (Cons s ss)
  have b: "on_course w h (\<lambda>s. strictly_behind h commit ancestor (Some s)) (snd (behind w s t))
      \<and> fst (behind w s t) = strictly_behind h commit ancestor s"
    by (rule on_course_behind [OF Cons.prems(1,2) g A Cons.prems(3)]) (use Cons.prems(4) in auto)
  have "set (dict_keys (answers (snd (behind w s t)))) \<subseteq> A"
    using keys_behind [of w s t] Cons.prems(3,4) by auto
  with b Cons.IH [OF _ tree_ok_behind [OF Cons.prems(2)]] Cons.prems(4) show ?case by simp
qed simp

text \<open>
  C27: With a git that serves the tree quickly enough, and at most 256 distinct stored values, the
  cached answers are exactly strict ancestry: a value is held when it is the full name of a commit
  that differs from the head and has the head among its ancestors, in any order and any number of
  repetitions of the questions.
\<close>

theorem timely_tree_decides_ancestry:
  assumes "git_serves w h commit ancestor" "git_is_quick w"
    and "card (set stored) \<le> max_distinct_shas"
  shows "behinds w stored fresh_tree = map (strictly_behind h commit ancestor) stored"
proof (rule behinds_on_course [OF assms(1,2) _ _ on_course_fresh tree_ok_fresh])
  let ?A = "\<Union> (set_option ` set stored)"
  show "finite ?A" by simp
  have "Some ` ?A \<subseteq> set stored" by auto
  then have "card (Some ` ?A) \<le> card (set stored)" by (rule card_mono [OF finite_set])
  then show "card ?A \<le> max_distinct_shas" using assms(3) by (simp add: card_image)
  show "\<Union> (set_option ` set stored) \<subseteq> ?A" by blast
qed (simp add: fresh_tree_def)

section \<open>A concrete checkout\<close>

text \<open>
  A history of three commits named by their first letter, \<open>a\<close> before \<open>b\<close> before \<open>c\<close>, with the
  checkout at \<open>b\<close>, and a tag object \<open>d\<close> that sits on \<open>c\<close>.
\<close>

definition full_name :: "char \<Rightarrow> string" where
  "full_name c = replicate 40 c"

fun small_repo :: "git_question \<Rightarrow> (int \<times> string) option" where
  "small_repo HeadOf = Some (0, ''/repo'' @ [CHR 0x0A] @ full_name CHR ''b'' @ [CHR 0x0A])"
| "small_repo (CommitOf s) =
     (if s \<in> full_name ` {CHR ''a'', CHR ''b'', CHR ''c''} then Some (0, s @ [CHR 0x0A])
      else if s = full_name CHR ''d'' then Some (0, full_name CHR ''c'' @ [CHR 0x0A])
      else Some (128, []))"
| "small_repo (IsAncestor x y) =
     Some (if y \<in> full_name ` {CHR ''a'', CHR ''b'', CHR ''c''} \<and> hd x \<le> hd y then 0 else 1, [])"

definition small_world :: git_world where
  "small_world = \<lparr>root = ''/repo'', answer = (\<lambda>_. small_repo), took = (\<lambda>_. 1/200)\<rparr>"

definition small_commit :: "string \<Rightarrow> bool" where
  "small_commit s \<longleftrightarrow> s \<in> full_name ` {CHR ''a'', CHR ''b'', CHR ''c''}"

definition small_ancestor :: "string \<Rightarrow> string \<Rightarrow> bool" where
  "small_ancestor x y \<longleftrightarrow> small_commit y \<and> hd x \<le> hd y"

lemma small_serves: "git_serves small_world (full_name CHR ''b'') small_commit small_ancestor"
  unfolding git_serves_def
proof (intro conjI allI)
  have "fst (head_of (root small_world) (small_repo HeadOf)) = Some (full_name CHR ''b'')" by code_simp
  then show "\<exists>r. answer small_world n HeadOf = Some r
      \<and> fst (head_of (root small_world) (Some r)) = Some (full_name CHR ''b'')" for n
    by (simp add: small_world_def)
  have strip: "str_strip (s @ [CHR 0x0A]) = s" if "s \<in> full_name ` {CHR ''a'', CHR ''b'', CHR ''c''}" for s
  proof -
    have "list_all (\<lambda>c. str_strip (full_name c @ [CHR 0x0A]) = full_name c) ''abc''" by code_simp
    with that show ?thesis by auto
  qed
  have tag: "str_strip (full_name CHR ''c'' @ [CHR 0x0A]) \<noteq> full_name CHR ''d''" by code_simp
  show "\<exists>code out. answer small_world n (CommitOf s) = Some (code, out)
      \<and> (code = 0 \<and> str_strip out = s) = small_commit s" for n s
    using strip tag by (auto simp: small_world_def small_commit_def)
  show "\<exists>code out. answer small_world n (IsAncestor x y) = Some (code, out) \<and> (code = 0) = small_ancestor x y"
    for n x y by (simp add: small_world_def small_ancestor_def small_commit_def)
qed

lemma small_behinds:
  "behinds small_world (map Some [full_name CHR ''c'', full_name CHR ''a'', full_name CHR ''d'', ''zz''])
     fresh_tree = [True, False, False, False]"
  by code_simp

theorem claim_tree_is_bounded_witness:
  "distinct (asked (tree_calls small_world [AskBehind (Some (full_name CHR ''c'')), ReadHead] fresh_tree))
   \<and> length (asked (tree_calls small_world [AskBehind (Some (full_name CHR ''c'')), ReadHead] fresh_tree)) = 3"
proof -
  have "\<forall>n. 0 \<le> took small_world n \<and> took small_world n \<le> 1" by (simp add: small_world_def)
  from claim_tree_is_bounded [OF this, of "[AskBehind (Some (full_name CHR ''c'')), ReadHead]"]
  have "distinct (asked (tree_calls small_world [AskBehind (Some (full_name CHR ''c'')), ReadHead] fresh_tree))"
    by blast
  moreover have "length (asked (tree_calls small_world [AskBehind (Some (full_name CHR ''c'')), ReadHead] fresh_tree)) = 3"
    by code_simp
  ultimately show ?thesis by blast
qed

theorem held_claims_are_justified_witness:
  "justified small_world (snd (behind small_world (Some (full_name CHR ''c'')) (tree_calls small_world [] fresh_tree)))
     (full_name CHR ''c'')"
proof -
  have "fst (behind small_world (Some (full_name CHR ''c'')) (tree_calls small_world [] fresh_tree))"
    by code_simp
  from held_claims_are_justified [OF this] show ?thesis by auto
qed

theorem timely_tree_decides_ancestry_witness:
  "behinds small_world [Some (full_name CHR ''c''), None, Some (full_name CHR ''a''), Some (full_name CHR ''c'')]
     fresh_tree = [True, False, False, True]"
proof -
  have "git_is_quick small_world"
    by (simp add: git_is_quick_def small_world_def process_share_def git_budget_def max_distinct_shas_def)
  from timely_tree_decides_ancestry [OF small_serves this,
      of "[Some (full_name CHR ''c''), None, Some (full_name CHR ''a''), Some (full_name CHR ''c'')]"]
  have "behinds small_world [Some (full_name CHR ''c''), None, Some (full_name CHR ''a''), Some (full_name CHR ''c'')] fresh_tree
    = map (strictly_behind (full_name CHR ''b'') small_commit small_ancestor)
        [Some (full_name CHR ''c''), None, Some (full_name CHR ''a''), Some (full_name CHR ''c'')]"
    by (simp add: max_distinct_shas_def card_insert_if)
  moreover have "\<dots> = [True, False, False, True]" by code_simp
  ultimately show ?thesis by simp
qed

end
