(* ===== verification/CheckoutWalk.thy ===== *)
theory CheckoutWalk
  imports Prelude
begin

text \<open>
  How an assertion's target is enumerated in a checkout (\<^verbatim>\<open>lifecycle/_checkout_walk.py\<close>), down to
  \<open>fnmatch\<close>. A checkout is the tree below an opened directory, as it is while one call runs; what a
  process may do with a directory or file is part of the tree, so a directory it cannot list still has
  contents. A path is the list of its names. The clock is a parameter, read once per call of
  \<open>time.monotonic\<close>.
\<close>

section \<open>File name patterns\<close>

text \<open>
  \<open>fnmatch\<close> on a case-sensitive system. \<open>bracket\<close> splits what follows an opening bracket into the set
  and the rest of the pattern, \<open>None\<close> where no bracket closes it and the opening one is literal.
\<close>

fun drop_lead :: "char \<Rightarrow> string \<Rightarrow> string \<times> string" where
  "drop_lead c [] = ([], [])"
| "drop_lead c (x # xs) = (if x = c then ([x], xs) else ([], x # xs))"

definition bracket :: "string \<Rightarrow> (string \<times> string) option" where
  "bracket ps =
     (let (neg, b) = drop_lead CHR ''!'' ps; (shut, c) = drop_lead CHR '']'' b;
          inner = takeWhile (\<lambda>x. x \<noteq> CHR '']'') c; rest = dropWhile (\<lambda>x. x \<noteq> CHR '']'') c
      in if rest = [] then None else Some (neg @ shut @ inner, tl rest))"

fun in_class :: "char \<Rightarrow> string \<Rightarrow> bool" where
  "in_class c [] = False"
| "in_class c [x] = (c = x)"
| "in_class c [x, y] = (c = x \<or> c = y)"
| "in_class c (x # y # z # zs) =
     (if y = CHR ''-'' then (x \<le> c \<and> c \<le> z) \<or> in_class c zs else c = x \<or> in_class c (y # z # zs))"

definition class_matches :: "string \<Rightarrow> char \<Rightarrow> bool" where
  "class_matches stuff c =
     (let (neg, members) = drop_lead CHR ''!'' stuff in if neg = [] then in_class c members else \<not> in_class c members)"

lemma length_drop_lead: "drop_lead c xs = (a, b) \<Longrightarrow> length b \<le> length xs"
  by (cases "(c, xs)" rule: drop_lead.cases) (auto split: if_splits)

lemma bracket_shorter: "bracket ps = Some (stuff, rest) \<Longrightarrow> length rest < length ps"
proof -
  assume b: "bracket ps = Some (stuff, rest)"
  obtain neg xs where 1: "drop_lead CHR ''!'' ps = (neg, xs)" by fastforce
  obtain shut c where 2: "drop_lead CHR '']'' xs = (shut, c)" by fastforce
  from b 1 2 have "dropWhile (\<lambda>x. x \<noteq> CHR '']'') c \<noteq> []" "rest = tl (dropWhile (\<lambda>x. x \<noteq> CHR '']'') c)"
    by (auto simp: bracket_def Let_def split: if_splits)
  then have "length rest < length (dropWhile (\<lambda>x. x \<noteq> CHR '']'') c)" by (cases "dropWhile (\<lambda>x. x \<noteq> CHR '']'') c") auto
  also have "\<dots> \<le> length c" by (rule length_dropWhile_le)
  also have "\<dots> \<le> length ps" using length_drop_lead [OF 1] length_drop_lead [OF 2] by simp
  finally show ?thesis .
qed

function fnmatches :: "string \<Rightarrow> string \<Rightarrow> bool" where
  "fnmatches [] n = (n = [])"
| "fnmatches (c # ps) n =
     (if c = CHR ''*'' then fnmatches ps n \<or> (if n = [] then False else fnmatches (c # ps) (tl n))
      else if n = [] then False
      else if c = CHR ''?'' then fnmatches ps (tl n)
      else if c = CHR ''['' then
        (case bracket ps of
           None \<Rightarrow> hd n = c \<and> fnmatches ps (tl n)
         | Some sr \<Rightarrow> class_matches (fst sr) (hd n) \<and> fnmatches (snd sr) (tl n))
      else hd n = c \<and> fnmatches ps (tl n))"
  by pat_completeness auto
termination
  by (relation "measure (\<lambda>(p, n). length p + length n)")
    (auto dest: bracket_shorter)

declare fnmatches.simps(2) [simp del]

lemma fnmatches_star:
  "fnmatches (CHR ''*'' # ps) n = (fnmatches ps n \<or> (if n = [] then False else fnmatches (CHR ''*'' # ps) (tl n)))"
  by (rule trans [OF fnmatches.simps(2)]) (simp only: if_True refl)

lemma star_matches [simp]: "fnmatches ''*'' n"
  by (induction n) (simp_all add: fnmatches_star)

section \<open>The checkout\<close>

datatype access = Listable | NotListable | NotOpenable

datatype node =
  Regular string bool   \<comment> \<open>its bytes, and whether they can be read\<close>
| Directory access "(string \<times> node) list"
| Symlink | Special | Vanished

type_synonym path = "string list"

record walk_env =
  excludes :: "string list"
  clock :: "nat \<Rightarrow> rat"
  deadline :: rat
  dirs_only :: bool   \<comment> \<open>the target ends in a slash\<close>

record walk_state =
  files :: "path list"
  glob_only :: "path list"
  refused :: "path list"
  incomplete :: "path list"
  visited :: "(path \<times> string list) list"
  work :: int
  reads :: nat

definition default_excludes :: "string list" where
  "default_excludes = [''.git'', ''__pycache__'', ''node_modules'', ''.egg-info'', ''dist'',
     ''.mypy_cache'', ''.pytest_cache'', ''.ruff_cache'']"

definition skipped_name :: "walk_env \<Rightarrow> string \<Rightarrow> bool" where
  "skipped_name v n \<longleftrightarrow> n \<in> set (excludes v) \<or> suffix ''.egg-info'' n"

definition late :: "walk_env \<Rightarrow> walk_state \<Rightarrow> bool" where
  "late v s \<longleftrightarrow> deadline v \<le> clock v (reads s)"

definition tick :: "walk_state \<Rightarrow> walk_state" where
  "tick s = s\<lparr>reads := Suc (reads s)\<rparr>"

text \<open>What \<open>takewhile\<close> lets through of the entries, with the number of clock readings it made.\<close>

fun in_time :: "walk_env \<Rightarrow> nat \<Rightarrow> 'a list \<Rightarrow> 'a list \<times> nat" where
  "in_time v n [] = ([], n)"
| "in_time v n (x # xs) =
     (if clock v n < deadline v then (let (ys, m) = in_time v (Suc n) xs in (x # ys, m)) else ([], Suc n))"

text \<open>
  \<open>entries_of\<close>: the listing of an opened directory, charged to the budget. The first component says
  whether the walk goes on (no exception), the second is the entries.
\<close>

definition entries_of ::
  "walk_env \<Rightarrow> node \<Rightarrow> path \<Rightarrow> bool \<Rightarrow> walk_state \<Rightarrow> bool \<times> (string \<times> node) list \<times> walk_state" where
  "entries_of v d q strict s =
     (case d of
        Directory Listable kids \<Rightarrow>
          (let (listed, n) = in_time v (reads s) (take (nat (max (work s) 0)) kids);
               s1 = s\<lparr>work := work s - (1 + int (length listed)), reads := n\<rparr>
           in if work s1 < 0 then (False, [], s1)
              else if late v s1 then (False, [], tick s1)
              else (True, filter (\<lambda>(n, _). \<not> skipped_name v n) listed, tick s1))
      | _ \<Rightarrow> if strict then (False, [], s) else (True, [], s\<lparr>incomplete := incomplete s @ [q]\<rparr>))"

fun node_size :: "node \<Rightarrow> nat" where
  "node_size (Directory a kids) = Suc (\<Sum>(n, k) \<leftarrow> kids. Suc (node_size k))"
| "node_size _ = 1"

definition entries_size :: "(string \<times> node) list \<Rightarrow> nat" where
  "entries_size es = (\<Sum>(n, k) \<leftarrow> es. Suc (node_size k))"

definition weight :: "string list \<Rightarrow> nat" where
  "weight r = (\<Sum>p \<leftarrow> r. if p = ''**'' then 2 else 1)"

lemma entries_size_simps [simp]:
  "entries_size [] = 0" "entries_size ((n, k) # es) = Suc (node_size k) + entries_size es"
  by (simp_all add: entries_size_def)

lemma entries_size_filter: "entries_size (filter P es) \<le> entries_size es"
  by (induction es) auto

lemma entries_size_take: "entries_size (take n es) \<le> entries_size es"
  by (induction es arbitrary: n) (auto simp: take_Cons split: nat.splits)

lemma entries_size_in_time: "entries_size (fst (in_time v n es)) \<le> entries_size es"
  by (induction v n es rule: in_time.induct) (auto split: prod.splits)

lemma entries_of_size: "entries_of v d q strict s = (ok, es, s') \<Longrightarrow> entries_size es < node_size d"
proof -
  assume e: "entries_of v d q strict s = (ok, es, s')"
  show ?thesis
  proof (cases "\<exists>kids. d = Directory Listable kids")
    case True
    then obtain kids where d: "d = Directory Listable kids" by blast
    obtain listed n where l: "in_time v (reads s) (take (nat (max (work s) 0)) kids) = (listed, n)" by fastforce
    have "entries_size listed \<le> entries_size kids"
      using entries_size_in_time [of v "reads s" "take (nat (max (work s) 0)) kids"] entries_size_take l
      by (metis fst_conv le_trans)
    moreover have "entries_size es \<le> entries_size listed"
      using e d l entries_size_filter by (auto simp: entries_of_def Let_def split: if_splits)
    ultimately show ?thesis by (simp add: d flip: entries_size_def)
  next
    case False
    with e have "es = []" by (auto simp: entries_of_def split: node.splits access.splits if_splits)
    then show ?thesis by (cases d) auto
  qed
qed

section \<open>The walk\<close>

text \<open>
  \<open>walk\<close> with the two loops of its body: \<open>walk_subs\<close> descends under \<open>**\<close>, \<open>walk_names\<close> matches one
  component. The first component of an answer is false when an exception ended the walk.
\<close>

definition is_directory :: "node \<Rightarrow> bool" where
  "is_directory k = (case k of Directory _ _ \<Rightarrow> True | _ \<Rightarrow> False)"

definition opens :: "node \<Rightarrow> bool" where
  "opens k = (case k of Directory a _ \<Rightarrow> a \<noteq> NotOpenable | _ \<Rightarrow> False)"

definition collect_leaf :: "walk_env \<Rightarrow> node \<Rightarrow> path \<Rightarrow> walk_state \<Rightarrow> walk_state" where
  "collect_leaf v k p s =
     (let regular = (case k of Regular _ _ \<Rightarrow> True | _ \<Rightarrow> False)
      in if regular \<and> \<not> dirs_only v then s\<lparr>files := files s @ [p]\<rparr>
         else if is_directory k \<or> \<not> (regular \<or> dirs_only v) then s\<lparr>glob_only := glob_only s @ [p]\<rparr>
         else s)"

function walk :: "walk_env \<Rightarrow> node \<Rightarrow> string list \<Rightarrow> path \<Rightarrow> bool \<Rightarrow> walk_state \<Rightarrow> bool \<times> walk_state"
  and walk_subs :: "walk_env \<Rightarrow> (string \<times> node) list \<Rightarrow> string list \<Rightarrow> path \<Rightarrow> walk_state \<Rightarrow> bool \<times> walk_state"
  and walk_names :: "walk_env \<Rightarrow> (string \<times> node) list \<Rightarrow> string \<Rightarrow> string list \<Rightarrow> path \<Rightarrow> walk_state \<Rightarrow> bool \<times> walk_state"
where
  "walk v d [] q strict s = (False, s)"
| "walk v d (h # tail) q strict s =
     (if (q, h # tail) \<in> set (visited s) then (True, s)
      else (let s0 = s\<lparr>visited := visited s @ [(q, h # tail)]\<rparr>
            in if h = ''**'' then
                 (case walk v d (if tail = [] then [''*''] else tail) q strict s0 of
                    (False, s1) \<Rightarrow> (False, s1)
                  | (True, s1) \<Rightarrow>
                      (case entries_of v d q strict s1 of
                         (False, es, s2) \<Rightarrow> (False, s2)
                       | (True, es, s2) \<Rightarrow> walk_subs v es (h # tail) q s2))
               else (case entries_of v d q strict s0 of
                       (False, es, s1) \<Rightarrow> (False, s1)
                     | (True, es, s1) \<Rightarrow> walk_names v es h tail q s1)))"
| "walk_subs v [] r q s = (True, s)"
| "walk_subs v ((n, k) # es) r q s =
     (if k = Vanished then walk_subs v es r q (s\<lparr>incomplete := incomplete s @ [q @ [n]]\<rparr>)
      else if \<not> is_directory k then walk_subs v es r q s
      else if \<not> opens k then walk_subs v es r q (s\<lparr>incomplete := incomplete s @ [q @ [n]]\<rparr>)
      else (case walk v k r (q @ [n]) False s of
              (False, s1) \<Rightarrow> (False, s1)
            | (True, s1) \<Rightarrow> walk_subs v es r q s1))"
| "walk_names v [] h tail q s = (True, s)"
| "walk_names v ((n, k) # es) h tail q s =
     (if \<not> fnmatches h n then walk_names v es h tail q s
      else if k = Vanished then walk_names v es h tail q (s\<lparr>incomplete := incomplete s @ [q @ [n]]\<rparr>)
      else if k = Symlink then walk_names v es h tail q (s\<lparr>refused := refused s @ [q @ [n]]\<rparr>)
      else if tail = [] then walk_names v es h tail q (collect_leaf v k (q @ [n]) s)
      else if \<not> is_directory k then walk_names v es h tail q s
      else if \<not> opens k then walk_names v es h tail q (s\<lparr>refused := refused s @ [q @ [n]]\<rparr>)
      else (case walk v k tail (q @ [n]) False s of
              (False, s1) \<Rightarrow> (False, s1)
            | (True, s1) \<Rightarrow> walk_names v es h tail q s1))"
  by pat_completeness auto
termination
proof (relation "measures
    [(\<lambda>x. case x of Inl (v, d, r, q, strict, s) \<Rightarrow> node_size d
       | Inr (Inl (v, es, r, q, s)) \<Rightarrow> entries_size es | Inr (Inr (v, es, h, tail, q, s)) \<Rightarrow> entries_size es),
     (\<lambda>x. case x of Inl (v, d, r, q, strict, s) \<Rightarrow> weight r | Inr _ \<Rightarrow> 0)]", goal_cases)
  case 1
  show ?case by simp
qed (auto simp: weight_def dest: entries_of_size [OF sym])

declare walk.simps [simp del] walk_subs.simps [simp del] walk_names.simps [simp del]

text \<open>\<open>_walk_checkout\<close>. The budget (units of work left and clock readings made) outlives the call.\<close>

type_synonym budget = "int \<times> nat"

definition raw_parts :: "string \<Rightarrow> string list" where
  "raw_parts target = filter (\<lambda>p. p \<noteq> [] \<and> p \<noteq> ''.'') (split_char CHR ''/'' target)"

fun collapse :: "string list \<Rightarrow> string list" where
  "collapse [] = []"
| "collapse [p] = [p]"
| "collapse (p # p' # ps) = (if p = ''**'' \<and> p' = ''**'' then collapse (p' # ps) else p # collapse (p' # ps))"

definition start_walk :: "budget \<Rightarrow> walk_state" where
  "start_walk b = \<lparr>files = [], glob_only = [], refused = [], incomplete = [], visited = [],
     work = fst b, reads = snd b\<rparr>"

definition walk_checkout :: "walk_env \<Rightarrow> node \<Rightarrow> string \<Rightarrow> budget \<Rightarrow> walk_state option \<times> budget" where
  "walk_checkout v0 d target b =
     (let v = v0\<lparr>dirs_only := suffix ''/'' target\<rparr>; parts = collapse (raw_parts target)
      in if parts = [] then (None, b)
         else (case walk v d parts [] True (start_walk b) of
                 (False, s) \<Rightarrow> (None, (work s, reads s))
               | (True, s) \<Rightarrow>
                   if late v s then (None, (work s, Suc (reads s)))
                   else (Some (s\<lparr>refused := uniq (refused s), incomplete := uniq (incomplete s)\<rparr>),
                         (work s, Suc (reads s)))))"

end
