(* ===== verification/WalkCovers.thy ===== *)
theory WalkCovers
  imports CheckoutWalk
begin

text \<open>
  What an enumeration of a checkout is worth: the walk with its visited set, its budget and its two
  loops finds exactly the paths that match the target in the plain sense of a pattern over path
  components, and where it could not look it says so.
\<close>

section \<open>The plain meaning of a target\<close>

fun parts_match :: "string list \<Rightarrow> path \<Rightarrow> bool" where
  "parts_match [] p = (p = [])"
| "parts_match (h # ps) [] = (h = ''**'' \<and> ps \<noteq> [] \<and> parts_match ps [])"
| "parts_match (h # ps) (n # p) =
     (if h = ''**'' then ps = [] \<or> parts_match ps (n # p) \<or> parts_match (h # ps) p
      else fnmatches h n \<and> parts_match ps p)"

text \<open>
  A path leads to a node through the entries \<open>L\<close> shows of each directory: \<open>all_entries\<close> all that are
  not excluded, \<open>open_entries\<close> those of directories the process can list.
\<close>

definition all_entries :: "walk_env \<Rightarrow> node \<Rightarrow> (string \<times> node) list" where
  "all_entries v d = (case d of Directory a kids \<Rightarrow> filter (\<lambda>(n, _). \<not> skipped_name v n) kids | _ \<Rightarrow> [])"

definition open_entries :: "walk_env \<Rightarrow> node \<Rightarrow> (string \<times> node) list" where
  "open_entries v d = (case d of Directory a kids \<Rightarrow> (if a = Listable then all_entries v d else []) | _ \<Rightarrow> [])"

fun reach_by :: "(node \<Rightarrow> (string \<times> node) list) \<Rightarrow> node \<Rightarrow> path \<Rightarrow> node \<Rightarrow> bool" where
  "reach_by L d [] k = False"
| "reach_by L d [n] k = ((n, k) \<in> set (L d))"
| "reach_by L d (n # m # p) k = (\<exists>d'. (n, d') \<in> set (L d) \<and> reach_by L d' (m # p) k)"

fun distinct_names :: "node \<Rightarrow> bool" where
  "distinct_names (Directory a kids) \<longleftrightarrow> distinct (map fst kids) \<and> (\<forall>(n, k) \<in> set kids. distinct_names k)"
| "distinct_names _ \<longleftrightarrow> True"

definition stands_at :: "walk_env \<Rightarrow> node \<Rightarrow> path \<Rightarrow> node \<Rightarrow> bool" where
  "stands_at v base q d \<longleftrightarrow> (if q = [] then d = base else reach_by (open_entries v) base q d)"

lemma parts_match_Nil: "parts_match r [] \<longleftrightarrow> r = []"
  by (induction r "[] :: path" rule: parts_match.induct) auto

lemma reach_Cons: "p \<noteq> [] \<Longrightarrow> reach_by L d (n # p) k \<longleftrightarrow> (\<exists>d'. (n, d') \<in> set (L d) \<and> reach_by L d' p k)"
  by (cases p) auto

lemma reach_append:
  "reach_by L d q d' \<Longrightarrow> reach_by L d' p k \<Longrightarrow> reach_by L d (q @ p) k"
proof (induction q arbitrary: d)
  case (Cons n q)
  have p: "p \<noteq> []" using Cons.prems(2) by auto
  show ?case
  proof (cases q)
    case Nil
    with Cons.prems p show ?thesis by (auto simp: reach_Cons)
  next
    case (Cons m ms)
    with Cons.prems Cons.IH show ?thesis by (auto simp: reach_Cons)
  qed
qed simp

lemma stands_child:
  "stands_at v base q d \<Longrightarrow> (n, k) \<in> set (open_entries v d) \<Longrightarrow> stands_at v base (q @ [n]) k"
  using reach_append [of "open_entries v" base q d "[n]" k] by (auto simp: stands_at_def split: if_splits)

lemma stands_reach:
  "stands_at v base q d \<Longrightarrow> reach_by (open_entries v) d p k \<Longrightarrow> reach_by (open_entries v) base (q @ p) k"
  using reach_append by (auto simp: stands_at_def split: if_splits)

lemma listed_visible: "set (open_entries v d) \<subseteq> set (all_entries v d)"
  by (auto simp: open_entries_def split: node.splits)

lemma listed_distinct:
  assumes "distinct_names d"
  shows "distinct (map fst (open_entries v d))" "(n, k) \<in> set (open_entries v d) \<Longrightarrow> distinct_names k"
  using assms by (cases d; fastforce simp: open_entries_def all_entries_def distinct_map_filter split: if_splits)+

lemma reach_unique:
  "distinct_names d \<Longrightarrow> reach_by (open_entries v) d p k \<Longrightarrow> reach_by (open_entries v) d p k' \<Longrightarrow> k = k'"
proof (induction p arbitrary: d)
  case (Cons n p)
  have one: "e = e'" if "(n, e) \<in> set (open_entries v d)" "(n, e') \<in> set (open_entries v d)" for e e'
    using listed_distinct(1) [OF Cons.prems(1)] that by (auto dest: eq_key_imp_eq_value)
  show ?case
  proof (cases p)
    case Nil
    with Cons.prems one show ?thesis by auto
  next
    case (Cons m ms)
    with Cons.prems(2,3) obtain e e' where e: "(n, e) \<in> set (open_entries v d)" "reach_by (open_entries v) e p k"
      "(n, e') \<in> set (open_entries v d)" "reach_by (open_entries v) e' p k'" by auto
    with one have "e' = e" by blast
    with e Cons.IH [OF listed_distinct(2) [OF Cons.prems(1) e(1)]] show ?thesis by blast
  qed
qed simp

lemma stands_unique:
  "distinct_names base \<Longrightarrow> stands_at v base q d \<Longrightarrow> stands_at v base q d' \<Longrightarrow> d = d'"
  using reach_unique by (auto simp: stands_at_def split: if_splits)

section \<open>What a walk keeps\<close>

definition recorded :: "walk_env \<Rightarrow> walk_state \<Rightarrow> path \<Rightarrow> node \<Rightarrow> bool" where
  "recorded v st p k \<longleftrightarrow>
     (case k of
        Regular _ _ \<Rightarrow> dirs_only v \<or> p \<in> set (files st)
      | Directory _ _ \<Rightarrow> p \<in> set (glob_only st)
      | Special \<Rightarrow> dirs_only v \<or> p \<in> set (glob_only st)
      | Symlink \<Rightarrow> p \<in> set (refused st)
      | Vanished \<Rightarrow> p \<in> set (incomplete st))"

definition blind :: "walk_state \<Rightarrow> bool" where
  "blind st \<longleftrightarrow> refused st \<noteq> [] \<or> incomplete st \<noteq> []"

definition covered :: "walk_env \<Rightarrow> node \<Rightarrow> path \<Rightarrow> string list \<Rightarrow> walk_state \<Rightarrow> bool" where
  "covered v d q r st \<longleftrightarrow>
     (\<forall>p k. parts_match r p \<longrightarrow>
        (reach_by (open_entries v) d p k \<longrightarrow> recorded v st (q @ p) k)
        \<and> (reach_by (all_entries v) d p k \<longrightarrow> reach_by (open_entries v) d p k \<or> blind st))"

definition grows :: "walk_state \<Rightarrow> walk_state \<Rightarrow> bool" where
  "grows s t \<longleftrightarrow> set (files s) \<subseteq> set (files t) \<and> set (glob_only s) \<subseteq> set (glob_only t)
     \<and> set (refused s) \<subseteq> set (refused t) \<and> set (incomplete s) \<subseteq> set (incomplete t)
     \<and> set (visited s) \<subseteq> set (visited t)"

definition settled :: "walk_env \<Rightarrow> node \<Rightarrow> (path \<times> string list) set \<Rightarrow> walk_state \<Rightarrow> bool" where
  "settled v base X st \<longleftrightarrow>
     (\<forall>q r. (q, r) \<in> set (visited st) \<longrightarrow> (q, r) \<in> X \<or> (\<exists>d. stands_at v base q d \<and> covered v d q r st))"

definition found_only :: "walk_env \<Rightarrow> node \<Rightarrow> string list \<Rightarrow> walk_state \<Rightarrow> bool" where
  "found_only v base parts st \<longleftrightarrow>
     (\<forall>p. p \<in> set (files st) \<longrightarrow>
        \<not> dirs_only v \<and> parts_match parts p \<and> (\<exists>c b. reach_by (open_entries v) base p (Regular c b)))
     \<and> (\<forall>p. p \<in> set (glob_only st) \<longrightarrow>
        parts_match parts p
        \<and> (\<exists>k. reach_by (open_entries v) base p k \<and> (is_directory k \<or> k = Special \<and> \<not> dirs_only v)))"

definition above :: "(path \<times> string list) set \<Rightarrow> path \<Rightarrow> string list \<Rightarrow> bool" where
  "above X q r \<longleftrightarrow>
     (\<forall>q' r'. (q', r') \<in> X \<longrightarrow> (\<exists>p. p \<noteq> [] \<and> q = q' @ p) \<or> (q' = q \<and> weight r < weight r'))"

definition leads :: "string list \<Rightarrow> path \<Rightarrow> string list \<Rightarrow> bool" where
  "leads parts q r \<longleftrightarrow> (\<forall>p. parts_match r p \<longrightarrow> parts_match parts (q @ p))"

lemma grows_refl [simp]: "grows s s"
  by (simp add: grows_def)

lemma grows_trans [trans]: "grows s t \<Longrightarrow> grows t u \<Longrightarrow> grows s u"
  unfolding grows_def by blast

lemma recorded_mono: "grows s t \<Longrightarrow> recorded v s p k \<Longrightarrow> recorded v t p k"
  by (auto simp: grows_def recorded_def split: node.splits)

lemma blind_mono: "grows s t \<Longrightarrow> blind s \<Longrightarrow> blind t"
  by (auto simp: grows_def blind_def)

lemma covered_mono: "grows s t \<Longrightarrow> covered v d q r s \<Longrightarrow> covered v d q r t"
  unfolding covered_def by (blast intro: recorded_mono blind_mono)

lemma coveredD:
  assumes "covered v d q r st" "parts_match r p"
  shows "reach_by (open_entries v) d p k \<Longrightarrow> recorded v st (q @ p) k"
    "reach_by (all_entries v) d p k \<Longrightarrow> reach_by (open_entries v) d p k \<or> blind st"
  using assms unfolding covered_def by blast+

lemma above_deeper: "above X q r \<Longrightarrow> above (insert (q, r) X) (q @ [n]) r'"
  unfolding above_def by (metis append.assoc append_is_Nil_conv insert_iff not_Cons_self2 prod.inject)

lemma above_lighter: "above X q r \<Longrightarrow> weight r' < weight r \<Longrightarrow> above (insert (q, r) X) q r'"
  unfolding above_def by (metis insert_iff less_trans prod.inject)

lemma above_not_in: "above X q r \<Longrightarrow> (q, r) \<notin> X"
  unfolding above_def by (metis append_self_conv less_irrefl)

definition quiet :: "walk_state \<Rightarrow> walk_state \<Rightarrow> bool" where
  "quiet s t \<longleftrightarrow> grows s t \<and> files t = files s \<and> glob_only t = glob_only s \<and> visited t = visited s"

lemma quiet_refl [simp]: "quiet s s"
  by (simp add: quiet_def)

lemma quiet_steps [simp]:
  "quiet s (tick s)" "quiet s (s\<lparr>work := w, reads := n\<rparr>)" "quiet s (tick (s\<lparr>work := w, reads := n\<rparr>))"
  "quiet s (s\<lparr>incomplete := incomplete s @ xs\<rparr>)" "quiet s (s\<lparr>refused := refused s @ xs\<rparr>)"
  by (auto simp: quiet_def grows_def tick_def)

lemma quiet_grows: "quiet s t \<Longrightarrow> grows s t"
  by (simp add: quiet_def)

lemma found_only_quiet: "quiet s t \<Longrightarrow> found_only v base parts s \<Longrightarrow> found_only v base parts t"
  by (simp add: quiet_def found_only_def)

lemma settled_grows:
  "settled v base X s \<Longrightarrow> grows s t \<Longrightarrow> visited t = visited s \<Longrightarrow> settled v base X t"
  unfolding settled_def by (metis covered_mono)

lemma settled_quiet: "quiet s t \<Longrightarrow> settled v base X s \<Longrightarrow> settled v base X t"
  using settled_grows by (simp add: quiet_def)

lemma settled_visit:
  "settled v base X s \<Longrightarrow> settled v base (insert (q, r) X) (s\<lparr>visited := visited s @ [(q, r)]\<rparr>)"
proof -
  assume s: "settled v base X s"
  have "grows s (s\<lparr>visited := visited s @ [(q, r)]\<rparr>)" by (auto simp: grows_def)
  with s show ?thesis unfolding settled_def by (auto intro: covered_mono)
qed

lemma settled_done:
  "settled v base (insert (q, r) X) s \<Longrightarrow> stands_at v base q d \<Longrightarrow> covered v d q r s \<Longrightarrow> settled v base X s"
  unfolding settled_def by blast

lemma in_time_all:
  "mono (clock v) \<Longrightarrow> in_time v n xs = (ys, m) \<Longrightarrow> clock v m < deadline v \<Longrightarrow> ys = xs"
proof (induction v n xs arbitrary: ys m rule: in_time.induct)
  case (2 v n x xs)
  show ?case
  proof (cases "clock v n < deadline v")
    case True
    with 2 show ?thesis by (auto split: prod.splits)
  next
    case False
    with "2.prems" have "m = Suc n" by simp
    then have "clock v n \<le> clock v m" using "2.prems"(1) by (simp add: monoD)
    with False "2.prems"(3) show ?thesis by simp
  qed
qed simp

lemma entries_of_quiet:
  assumes "entries_of v d q strict s = (ok, es, t)"
  shows "quiet s t"
  using assms
  by (auto simp: entries_of_def Let_def split: node.splits access.splits if_splits prod.splits)

lemma entries_of_all:
  assumes m: "mono (clock v)" and e: "entries_of v d q strict s = (True, es, t)"
  shows "es = open_entries v d" "all_entries v d = open_entries v d \<or> blind t"
proof -
  have "es = open_entries v d \<and> (all_entries v d = open_entries v d \<or> blind t)"
  proof (cases "\<exists>kids. d = Directory Listable kids")
    case True
    then obtain kids where d: "d = Directory Listable kids" by blast
    obtain xs n where l: "in_time v (reads s) (take (nat (max (work s) 0)) kids) = (xs, n)" by fastforce
    from e l d have w: "1 + int (length xs) \<le> work s" and c: "clock v n < deadline v"
      and es: "es = filter (\<lambda>(n, _). \<not> skipped_name v n) xs"
      by (auto simp: entries_of_def Let_def late_def split: if_splits)
    have "xs = take (nat (max (work s) 0)) kids" by (rule in_time_all [OF m l c])
    with w have "xs = kids" by (cases "length kids \<le> nat (max (work s) 0)") auto
    with es show ?thesis by (simp add: d open_entries_def all_entries_def)
  next
    case False
    with e show ?thesis
      by (cases d) (auto simp: entries_of_def open_entries_def all_entries_def blind_def split: access.splits if_splits)
  qed
  then show "es = open_entries v d" "all_entries v d = open_entries v d \<or> blind t" by blast+
qed

section \<open>The walk keeps it\<close>

text \<open>The steps of the two loops: what one entry adds, and what it settles.\<close>

definition deeper :: "(path \<times> string list) set \<Rightarrow> path \<Rightarrow> bool" where
  "deeper X q \<longleftrightarrow> (\<forall>q' r'. (q', r') \<in> X \<longrightarrow> (\<exists>p. q = q' @ p))"

lemma deeper_above: "deeper X q \<Longrightarrow> above X (q @ [n]) r"
  unfolding deeper_def above_def by (metis append.assoc append_is_Nil_conv not_Cons_self2)

lemma above_deeper_insert: "above X q r \<Longrightarrow> deeper (insert (q, r) X) q"
  unfolding deeper_def above_def by (metis append_Nil2 insert_iff prod.inject)

lemma covered_closed: "open_entries v k = [] \<Longrightarrow> all_entries v k = [] \<or> blind st \<Longrightarrow> covered v k q r st"
  unfolding covered_def
proof (intro allI impI conjI)
  fix p k' assume n: "open_entries v k = []" "all_entries v k = [] \<or> blind st"
  have none: "\<not> reach_by L k p k'" if "L k = []" for L
    using that by (cases "(L, k, p, k')" rule: reach_by.cases) auto
  show "recorded v st (q @ p) k'" if "reach_by (open_entries v) k p k'" using none [of "open_entries v", OF n(1)] that by blast
  show "reach_by (open_entries v) k p k' \<or> blind st" if "reach_by (all_entries v) k p k'"
    using none [of "all_entries v"] n(2) that by blast
qed

lemma covered_not_directory: "\<not> is_directory k \<Longrightarrow> covered v k q r st"
  by (rule covered_closed) (auto simp: is_directory_def open_entries_def all_entries_def split: node.splits)

lemma covered_not_opened: "\<not> opens k \<Longrightarrow> blind st \<Longrightarrow> covered v k q r st"
  by (rule covered_closed) (auto simp: opens_def open_entries_def split: node.splits access.splits)

lemma leads_star: "leads parts q (''**'' # tail) \<Longrightarrow> leads parts (q @ [n]) (''**'' # tail)"
  unfolding leads_def append.assoc by simp

lemma leads_name: "leads parts q (h # tail) \<Longrightarrow> h \<noteq> ''**'' \<Longrightarrow> fnmatches h n \<Longrightarrow> leads parts (q @ [n]) tail"
  unfolding leads_def append.assoc by simp

lemma leads_zero: "leads parts q (''**'' # tail) \<Longrightarrow> leads parts q (if tail = [] then [''*''] else tail)"
  unfolding leads_def
proof (intro allI impI)
  fix p assume l: "\<forall>p. parts_match (''**'' # tail) p \<longrightarrow> parts_match parts (q @ p)"
    and p: "parts_match (if tail = [] then [''*''] else tail) p"
  from p have "p \<noteq> []" by (auto simp: parts_match_Nil split: if_splits)
  with p have "parts_match (''**'' # tail) p" by (cases p) (auto split: if_splits)
  with l show "parts_match parts (q @ p)" by blast
qed

lemma collect_leaf_grows: "grows s (collect_leaf v k p s)"
  by (auto simp: collect_leaf_def grows_def Let_def)

lemma collect_leaf_visited [simp]: "visited (collect_leaf v k p s) = visited s"
  by (simp add: collect_leaf_def Let_def)

lemma collect_leaf_recorded: "k \<noteq> Vanished \<Longrightarrow> k \<noteq> Symlink \<Longrightarrow> recorded v (collect_leaf v k p s) p k"
  by (cases k) (auto simp: recorded_def collect_leaf_def is_directory_def)

lemma collect_leaf_found:
  assumes "found_only v base parts s" "reach_by (open_entries v) base p k" "parts_match parts p" "k \<noteq> Vanished" "k \<noteq> Symlink"
  shows "found_only v base parts (collect_leaf v k p s)"
  using assms by (cases k) (auto simp: found_only_def collect_leaf_def is_directory_def)

lemma star_parts:
  assumes "parts_match (''**'' # tail) (n # p)"
  shows "parts_match (if tail = [] then [''*''] else tail) (n # p) \<or> (p \<noteq> [] \<and> parts_match (''**'' # tail) p)"
  using assms by (cases p) (auto simp: parts_match_Nil split: if_splits)

lemma covered_star:
  assumes zero: "covered v d q (if tail = [] then [''*''] else tail) t"
    and more: "\<And>n k. (n, k) \<in> set (open_entries v d) \<Longrightarrow> covered v k (q @ [n]) (''**'' # tail) t"
    and all: "all_entries v d = open_entries v d \<or> blind t"
  shows "covered v d q (''**'' # tail) t"
  unfolding covered_def
proof (intro allI impI)
  fix p k assume p: "parts_match (''**'' # tail) p"
  then obtain n p' where c: "p = n # p'" by (cases p) (auto simp: parts_match_Nil split: if_splits)
  show "(reach_by (open_entries v) d p k \<longrightarrow> recorded v t (q @ p) k)
    \<and> (reach_by (all_entries v) d p k \<longrightarrow> reach_by (open_entries v) d p k \<or> blind t)"
    using star_parts [OF p [unfolded c]]
  proof
    assume "parts_match (if tail = [] then [''*''] else tail) (n # p')"
    from coveredD [OF zero this] show ?thesis unfolding c by blast
  next
    assume m: "p' \<noteq> [] \<and> parts_match (''**'' # tail) p'"
    have a: "recorded v t (q @ p) k" if r: "reach_by (open_entries v) d p k"
    proof -
      from r m c obtain e where "(n, e) \<in> set (open_entries v d)" "reach_by (open_entries v) e p' k"
        by (auto simp: reach_Cons)
      with coveredD(1) [OF more conjunct2 [OF m]] show ?thesis by (simp add: c)
    qed
    have b: "reach_by (open_entries v) d p k \<or> blind t" if r: "reach_by (all_entries v) d p k"
    proof (cases "blind t")
      case False
      with all have eq: "all_entries v d = open_entries v d" by blast
      from r m c obtain e where e: "(n, e) \<in> set (all_entries v d)" "reach_by (all_entries v) e p' k"
        by (auto simp: reach_Cons)
      with coveredD(2) [OF more conjunct2 [OF m], of n e k] False eq have "reach_by (open_entries v) e p' k" by simp
      with e(1) eq m c show ?thesis by (auto simp: reach_Cons)
    qed simp
    from a b show ?thesis by blast
  qed
qed

lemma covered_name:
  assumes h: "h \<noteq> ''**''"
    and each: "\<And>n k. (n, k) \<in> set (open_entries v d) \<Longrightarrow> fnmatches h n \<Longrightarrow>
      (if tail = [] then recorded v t (q @ [n]) k else covered v k (q @ [n]) tail t)"
    and all: "all_entries v d = open_entries v d \<or> blind t"
  shows "covered v d q (h # tail) t"
  unfolding covered_def
proof (intro allI impI)
  fix p k assume p: "parts_match (h # tail) p"
  then obtain n p' where c: "p = n # p'" by (cases p) (use h in auto)
  from p c h have m: "fnmatches h n" "parts_match tail p'" by simp_all
  show "(reach_by (open_entries v) d p k \<longrightarrow> recorded v t (q @ p) k)
    \<and> (reach_by (all_entries v) d p k \<longrightarrow> reach_by (open_entries v) d p k \<or> blind t)"
  proof (cases "tail = []")
    case True
    with m have "p' = []" by simp
    with True m(1) each all show ?thesis unfolding c by auto
  next
    case False
    with m have p': "p' \<noteq> []" by (auto simp: parts_match_Nil)
    have e: "covered v k' (q @ [n]) tail t" if "(n, k') \<in> set (open_entries v d)" for k'
      using each [OF that m(1)] False by simp
    have a: "recorded v t (q @ p) k" if r: "reach_by (open_entries v) d p k"
    proof -
      from r p' c obtain e' where "(n, e') \<in> set (open_entries v d)" "reach_by (open_entries v) e' p' k"
        by (auto simp: reach_Cons)
      with coveredD(1) [OF e m(2)] show ?thesis by (simp add: c)
    qed
    have b: "reach_by (open_entries v) d p k \<or> blind t" if r: "reach_by (all_entries v) d p k"
    proof (cases "blind t")
      case False
      with all have eq: "all_entries v d = open_entries v d" by blast
      from r p' c obtain e' where e': "(n, e') \<in> set (all_entries v d)" "reach_by (all_entries v) e' p' k"
        by (auto simp: reach_Cons)
      with coveredD(2) [OF e m(2), of e' k] False eq have "reach_by (open_entries v) e' p' k" by simp
      with e'(1) eq p' c show ?thesis by (auto simp: reach_Cons)
    qed simp
    from a b show ?thesis by blast
  qed
qed

definition ready :: "walk_env \<Rightarrow> node \<Rightarrow> string list \<Rightarrow> (path \<times> string list) set \<Rightarrow> node \<Rightarrow> path \<Rightarrow> walk_state \<Rightarrow> bool" where
  "ready v base parts X d q s \<longleftrightarrow>
     mono (clock v) \<and> stands_at v base q d \<and> settled v base X s \<and> found_only v base parts s"

definition kept :: "walk_env \<Rightarrow> node \<Rightarrow> string list \<Rightarrow> (path \<times> string list) set \<Rightarrow> walk_state \<Rightarrow> bool \<Rightarrow> walk_state \<Rightarrow> bool" where
  "kept v base parts X s ok t \<longleftrightarrow> grows s t \<and> found_only v base parts t \<and> (ok \<longrightarrow> settled v base X t)"

lemma kept_trans: "kept v base parts X s True t \<Longrightarrow> kept v base parts X t ok u \<Longrightarrow> kept v base parts X s ok u"
  unfolding kept_def by (blast intro: grows_trans)

lemma ready_kept: "ready v base parts X d q s \<Longrightarrow> kept v base parts X s True t \<Longrightarrow> ready v base parts X d q t"
  unfolding ready_def kept_def by blast

lemma kept_raise: "kept v base parts X s True t \<Longrightarrow> kept v base parts X s ok t"
  unfolding kept_def by blast

lemma ready_stay: "ready v base parts X d q s \<Longrightarrow> kept v base parts X s True s"
  unfolding ready_def kept_def by simp

lemma kept_quiet: "ready v base parts X d q s \<Longrightarrow> quiet s t \<Longrightarrow> kept v base parts X s True t"
  unfolding ready_def kept_def by (blast intro: quiet_grows found_only_quiet settled_quiet)

lemma ready_child:
  "ready v base parts X d q s \<Longrightarrow> (n, k) \<in> set (open_entries v d) \<Longrightarrow> ready v base parts X k (q @ [n]) s"
  unfolding ready_def by (blast intro: stands_child)

lemma kept_grows: "kept v base parts X s ok t \<Longrightarrow> grows s t"
  by (simp add: kept_def)

lemma subs_step:
  assumes "kept v base parts X s True s1" "covered v k (q @ [n]) r s1"
    and "kept v base parts X s1 ok t \<and> (ok \<longrightarrow> (\<forall>(n, k) \<in> set es. covered v k (q @ [n]) r t))"
  shows "kept v base parts X s ok t \<and> (ok \<longrightarrow> (\<forall>(n, k) \<in> set ((n, k) # es). covered v k (q @ [n]) r t))"
  using kept_trans [OF assms(1)] assms(3) covered_mono [OF _ assms(2)] by (auto dest: kept_grows)

definition name_done :: "walk_env \<Rightarrow> string \<Rightarrow> string list \<Rightarrow> path \<Rightarrow> walk_state \<Rightarrow> string \<Rightarrow> node \<Rightarrow> bool" where
  "name_done v h tail q t n k \<longleftrightarrow>
     (fnmatches h n \<longrightarrow> (if tail = [] then recorded v t (q @ [n]) k else covered v k (q @ [n]) tail t))"

lemma name_done_mono: "grows s t \<Longrightarrow> name_done v h tail q s n k \<Longrightarrow> name_done v h tail q t n k"
  unfolding name_done_def by (auto intro: recorded_mono covered_mono)

lemma names_step:
  assumes "kept v base parts X s True s1" "name_done v h tail q s1 n k"
    and "kept v base parts X s1 ok t \<and> (ok \<longrightarrow> (\<forall>(n, k) \<in> set es. name_done v h tail q t n k))"
  shows "kept v base parts X s ok t \<and> (ok \<longrightarrow> (\<forall>(n, k) \<in> set ((n, k) # es). name_done v h tail q t n k))"
  using kept_trans [OF assms(1)] assms(3) name_done_mono [OF _ assms(2)] by (auto dest: kept_grows)

lemma collect_leaf_kept:
  assumes "ready v base parts X d q s" "(n, k) \<in> set (open_entries v d)" "leads parts q [h]" "h \<noteq> ''**''" "fnmatches h n"
    "k \<noteq> Vanished" "k \<noteq> Symlink"
  shows "kept v base parts X s True (collect_leaf v k (q @ [n]) s)"
proof -
  have "reach_by (open_entries v) base (q @ [n]) k"
    using assms(1,2) stands_reach [of v base q d "[n]" k] by (simp add: ready_def)
  moreover have "parts_match parts (q @ [n])" using assms(3-5) by (simp add: leads_def)
  ultimately show ?thesis
    using assms collect_leaf_grows settled_grows [OF _ collect_leaf_grows] collect_leaf_found
    unfolding ready_def kept_def by auto
qed

lemma walk_keeps:
  "walk v d r q strict s = (ok, t) \<Longrightarrow> ready v base parts X d q s \<Longrightarrow> r \<noteq> [] \<Longrightarrow> above X q r \<Longrightarrow>
    distinct_names base \<Longrightarrow> leads parts q r \<Longrightarrow>
    kept v base parts X s ok t \<and> (ok \<longrightarrow> covered v d q r t)"
  "walk_subs v es r q s = (ok, t) \<Longrightarrow> ready v base parts X d q s \<Longrightarrow> hd r = ''**'' \<Longrightarrow> r \<noteq> [] \<Longrightarrow> deeper X q \<Longrightarrow>
    distinct_names base \<Longrightarrow> leads parts q r \<Longrightarrow> set es \<subseteq> set (open_entries v d) \<Longrightarrow>
    kept v base parts X s ok t \<and> (ok \<longrightarrow> (\<forall>(n, k) \<in> set es. covered v k (q @ [n]) r t))"
  "walk_names v es h tail q s = (ok, t) \<Longrightarrow> ready v base parts X d q s \<Longrightarrow> h \<noteq> ''**'' \<Longrightarrow> deeper X q \<Longrightarrow>
    distinct_names base \<Longrightarrow> leads parts q (h # tail) \<Longrightarrow> set es \<subseteq> set (open_entries v d) \<Longrightarrow>
    kept v base parts X s ok t \<and> (ok \<longrightarrow> (\<forall>(n, k) \<in> set es. name_done v h tail q t n k))"
proof (induction v d r q strict s and v es r q s and v es h tail q s
    arbitrary: X ok t and X ok t d and X ok t d rule: walk_walk_subs_walk_names.induct)
  case (1 v d q strict s)
  then show ?case by simp
next
  case (2 v d h tail q strict s)
  let ?s0 = "s\<lparr>visited := visited s @ [(q, h # tail)]\<rparr>" and ?X = "insert (q, h # tail) X"
  note R = "2.prems"(2)
  have at: "stands_at v base q d" and m: "mono (clock v)" using R by (simp_all add: ready_def)
  show ?case
  proof (cases "(q, h # tail) \<in> set (visited s)")
    case True
    with "2.prems"(1) have st: "ok" "t = s" by (simp_all add: walk.simps)
    from R True above_not_in [OF "2.prems"(4)] obtain d' where "stands_at v base q d'" "covered v d' q (h # tail) s"
      unfolding ready_def settled_def by blast
    with stands_unique [OF "2.prems"(5) at] ready_stay [OF R] st show ?thesis by auto
  next
    case False
    have g0: "grows s ?s0" by (auto simp: grows_def)
    have R0: "ready v base parts ?X d q ?s0"
      using R settled_visit by (simp add: ready_def found_only_def)
    have finish: "kept v base parts X s ok t \<and> (ok \<longrightarrow> covered v d q (h # tail) t)"
      if "kept v base parts ?X ?s0 ok t" "ok \<Longrightarrow> covered v d q (h # tail) t"
      using that grows_trans [OF g0] settled_done [OF _ at] unfolding kept_def by blast
    have D: "deeper ?X q" by (rule above_deeper_insert [OF "2.prems"(4)])
    show ?thesis
    proof (cases "h = ''**''")
      case True
      let ?r = "if tail = [] then [''*''] else tail"
      obtain ok1 s1 where w: "walk v d ?r q strict ?s0 = (ok1, s1)" by fastforce
      have "weight ?r < weight (h # tail)" by (simp add: weight_def True)
      then have A: "above ?X q ?r" by (rule above_lighter [OF "2.prems"(4)])
      have L: "leads parts q ?r" using leads_zero "2.prems"(6) True by blast
      have k1: "kept v base parts ?X ?s0 ok1 s1" "ok1 \<Longrightarrow> covered v d q ?r s1"
        using "2.IH"(1) [OF False refl True w R0 _ A "2.prems"(5) L] by simp_all
      show ?thesis
      proof (cases ok1)
        case False
        with "2.prems"(1) \<open>(q, h # tail) \<notin> _\<close> True w have "ok = False" "t = s1" by (simp_all add: walk.simps)
        with finish k1(1) False show ?thesis by simp
      next
        case ok1: True
        note k2 = k1(1) [unfolded eqTrueI [OF ok1]] k1(2) [OF ok1]
        obtain ok2 es s2 where e: "entries_of v d q strict s1 = (ok2, es, s2)" using prod_cases3 by blast
        have k3: "kept v base parts ?X s1 True s2" by (rule kept_quiet [OF ready_kept [OF R0 k2(1)] entries_of_quiet [OF e]])
        note k4 = kept_trans [OF k2(1) k3]
        show ?thesis
        proof (cases ok2)
          case False
          with "2.prems"(1) \<open>(q, h # tail) \<notin> _\<close> True w ok1 e have "ok = False" "t = s2" by (simp_all add: walk.simps)
          with finish k4 show ?thesis by (auto dest: kept_raise)
        next
          case ok2: True
          note all = entries_of_all [OF m e [unfolded eqTrueI [OF ok2]]]
          have ws: "walk_subs v es (h # tail) q s2 = (ok, t)"
            using "2.prems"(1) \<open>(q, h # tail) \<notin> _\<close> True w ok1 e ok2 by (simp add: walk.simps)
          have k5: "kept v base parts ?X s2 ok t \<and> (ok \<longrightarrow> (\<forall>(n, k) \<in> set es. covered v k (q @ [n]) (h # tail) t))"
            by (rule "2.IH"(2) [OF False refl True w [symmetric] _ e [symmetric] _ refl ws ready_kept [OF R0 k4] _ _ D "2.prems"(5,6)])
              (use True ok1 ok2 all in simp_all)
          show ?thesis
          proof (rule finish)
            show "kept v base parts ?X ?s0 ok t" using kept_trans [OF k4] k5 by blast
            assume ok: ok
            have "grows s1 t" using grows_trans [OF kept_grows [OF k3]] k5 by (blast dest: kept_grows)
            from covered_mono [OF this k2(2)] have zero: "covered v d q ?r t" .
            have "all_entries v d = open_entries v d \<or> blind t"
              using all(2) blind_mono k5 by (blast dest: kept_grows)
            from covered_star [OF zero _ this] k5 ok all(1) show "covered v d q (h # tail) t"
              unfolding True by blast
          qed
        qed
      qed
    next
      case name: False
      obtain ok1 es s1 where e: "entries_of v d q strict ?s0 = (ok1, es, s1)" using prod_cases3 by blast
      have k1: "kept v base parts ?X ?s0 True s1" by (rule kept_quiet [OF R0 entries_of_quiet [OF e]])
      show ?thesis
      proof (cases ok1)
        case False
        with "2.prems"(1) \<open>(q, h # tail) \<notin> _\<close> name e have "ok = False" "t = s1" by (simp_all add: walk.simps)
        with finish k1 show ?thesis by (auto dest: kept_raise)
      next
        case ok1: True
        note all = entries_of_all [OF m e [unfolded eqTrueI [OF ok1]]]
        have wn: "walk_names v es h tail q s1 = (ok, t)"
          using "2.prems"(1) \<open>(q, h # tail) \<notin> _\<close> name e ok1 by (simp add: walk.simps)
        have k2: "kept v base parts ?X s1 ok t \<and> (ok \<longrightarrow> (\<forall>(n, k) \<in> set es. name_done v h tail q t n k))"
          by (rule "2.IH"(3) [OF False refl name e [symmetric] _ refl wn ready_kept [OF R0 k1] name D "2.prems"(5,6)])
            (use ok1 all in simp_all)
        show ?thesis
        proof (rule finish)
          show "kept v base parts ?X ?s0 ok t" using kept_trans [OF k1] k2 by blast
          assume ok: ok
          have "all_entries v d = open_entries v d \<or> blind t"
            using all(2) blind_mono k2 by (blast dest: kept_grows)
          from covered_name [OF name _ this] k2 ok all(1) show "covered v d q (h # tail) t"
            unfolding name_done_def by blast
        qed
      qed
    qed
  qed
next
  case (3 v r q s)
  then show ?case by (auto simp: walk_subs.simps dest: ready_stay)
next
  case (4 v n k es r q s)
  have in_d: "(n, k) \<in> set (open_entries v d)" "set es \<subseteq> set (open_entries v d)" using "4.prems"(8) by simp_all
  note ctx = "4.prems"(3-7) in_d(2)
  consider (gone) "k = Vanished" | (leaf) "k \<noteq> Vanished" "\<not> is_directory k"
    | (shut) "k \<noteq> Vanished" "is_directory k" "\<not> opens k" | (dir) "k \<noteq> Vanished" "is_directory k" "opens k" by blast
  then show ?case
  proof cases
    case gone
    let ?s1 = "s\<lparr>incomplete := incomplete s @ [q @ [n]]\<rparr>"
    have k1: "kept v base parts X s True ?s1" using kept_quiet [OF "4.prems"(2)] by simp
    have "walk_subs v es r q ?s1 = (ok, t)" using "4.prems"(1) gone by (simp add: walk_subs.simps)
    note r = "4.IH"(1) [OF gone this ready_kept [OF "4.prems"(2) k1] ctx]
    have "covered v k (q @ [n]) r ?s1" by (rule covered_not_directory) (simp add: gone is_directory_def)
    from subs_step [OF k1 this r] show ?thesis .
  next
    case leaf
    have "walk_subs v es r q s = (ok, t)" using "4.prems"(1) leaf by (simp add: walk_subs.simps)
    from subs_step [OF ready_stay [OF "4.prems"(2)] covered_not_directory [OF leaf(2)]
        "4.IH"(2) [OF leaf this "4.prems"(2) ctx]]
    show ?thesis .
  next
    case shut
    let ?s1 = "s\<lparr>incomplete := incomplete s @ [q @ [n]]\<rparr>"
    have k1: "kept v base parts X s True ?s1" using kept_quiet [OF "4.prems"(2)] by simp
    have "walk_subs v es r q ?s1 = (ok, t)" using "4.prems"(1) shut by (simp add: walk_subs.simps)
    from "4.IH"(3) [OF shut(1) _ shut(3) this ready_kept [OF "4.prems"(2) k1] ctx] shut(2)
    have r: "kept v base parts X ?s1 ok t \<and> (ok \<longrightarrow> (\<forall>(n, k) \<in> set es. covered v k (q @ [n]) r t))" by simp
    have "covered v k (q @ [n]) r ?s1" by (rule covered_not_opened [OF shut(3)]) (simp add: blind_def)
    from subs_step [OF k1 this r] show ?thesis .
  next
    case dir
    obtain ok1 s1 where w: "walk v k r (q @ [n]) False s = (ok1, s1)" by fastforce
    have "leads parts (q @ [n]) r" using leads_star [of parts q "tl r" n] "4.prems"(3,4,7) by (cases r) auto
    with "4.IH"(4) [OF dir(1) _ _ w ready_child [OF "4.prems"(2) in_d(1)] "4.prems"(4) deeper_above [OF "4.prems"(5)] "4.prems"(6)] dir(2,3)
    have k1: "kept v base parts X s ok1 s1" "ok1 \<Longrightarrow> covered v k (q @ [n]) r s1" by simp_all
    show ?thesis
    proof (cases ok1)
      case False
      with "4.prems"(1) dir w have "ok = False" "t = s1" by (simp_all add: walk_subs.simps)
      with k1(1) False show ?thesis by simp
    next
      case True
      with "4.prems"(1) dir w have "walk_subs v es r q s1 = (ok, t)" by (simp add: walk_subs.simps)
      from "4.IH"(5) [OF dir(1) _ _ w [symmetric] _ this ready_kept [OF "4.prems"(2)] ctx] dir(2,3) k1(1) True
      have r: "kept v base parts X s1 ok t \<and> (ok \<longrightarrow> (\<forall>(n, k) \<in> set es. covered v k (q @ [n]) r t))" by simp
      from subs_step [OF k1(1) [unfolded eqTrueI [OF True]] k1(2) [OF True] r] show ?thesis .
    qed
  qed
next
  case (5 v h tail q s)
  then show ?case by (auto simp: walk_names.simps dest: ready_stay)
next
  case (6 v n k es h tail q s)
  have in_d: "(n, k) \<in> set (open_entries v d)" "set es \<subseteq> set (open_entries v d)" using "6.prems"(7) by simp_all
  note ctx = "6.prems"(3-6) in_d(2)
  note R = "6.prems"(2)
  consider (other) "\<not> fnmatches h n" | (gone) "fnmatches h n" "k = Vanished"
    | (link) "fnmatches h n" "k = Symlink"
    | (leaf) "fnmatches h n" "k \<noteq> Vanished" "k \<noteq> Symlink" "tail = []"
    | (plain) "fnmatches h n" "k \<noteq> Vanished" "k \<noteq> Symlink" "tail \<noteq> []" "\<not> is_directory k"
    | (shut) "fnmatches h n" "k \<noteq> Vanished" "k \<noteq> Symlink" "tail \<noteq> []" "is_directory k" "\<not> opens k"
    | (dir) "fnmatches h n" "k \<noteq> Vanished" "k \<noteq> Symlink" "tail \<noteq> []" "is_directory k" "opens k" by blast
  then show ?case
  proof cases
    case other
    have "walk_names v es h tail q s = (ok, t)" using "6.prems"(1) other by (simp add: walk_names.simps)
    note r = "6.IH"(1) [OF other this R ctx]
    have "name_done v h tail q s n k" by (simp add: other name_done_def)
    from names_step [OF ready_stay [OF R] this r] show ?thesis .
  next
    case gone
    let ?s1 = "s\<lparr>incomplete := incomplete s @ [q @ [n]]\<rparr>"
    have k1: "kept v base parts X s True ?s1" using kept_quiet [OF R] by simp
    have "walk_names v es h tail q ?s1 = (ok, t)" using "6.prems"(1) gone by (simp add: walk_names.simps)
    from "6.IH"(2) [OF _ gone(2) this ready_kept [OF R k1] ctx] gone(1)
    have r: "kept v base parts X ?s1 ok t \<and> (ok \<longrightarrow> (\<forall>(n, k) \<in> set es. name_done v h tail q t n k))" by simp
    have "name_done v h tail q ?s1 n k"
      using covered_not_directory [of k v] by (simp add: name_done_def gone recorded_def is_directory_def)
    from names_step [OF k1 this r] show ?thesis .
  next
    case link
    let ?s1 = "s\<lparr>refused := refused s @ [q @ [n]]\<rparr>"
    have k1: "kept v base parts X s True ?s1" using kept_quiet [OF R] by simp
    have "walk_names v es h tail q ?s1 = (ok, t)" using "6.prems"(1) link by (simp add: walk_names.simps)
    from "6.IH"(3) [OF _ _ link(2) this ready_kept [OF R k1] ctx] link
    have r: "kept v base parts X ?s1 ok t \<and> (ok \<longrightarrow> (\<forall>(n, k) \<in> set es. name_done v h tail q t n k))" by simp
    have "name_done v h tail q ?s1 n k"
      using covered_not_directory [of k v] by (simp add: name_done_def link recorded_def is_directory_def)
    from names_step [OF k1 this r] show ?thesis .
  next
    case leaf
    let ?s1 = "collect_leaf v k (q @ [n]) s"
    have k1: "kept v base parts X s True ?s1"
      by (rule collect_leaf_kept [OF R in_d(1)]) (use leaf "6.prems"(3,6) in simp_all)
    have "walk_names v es h tail q ?s1 = (ok, t)" using "6.prems"(1) leaf by (simp add: walk_names.simps)
    from "6.IH"(4) [OF _ leaf(2,3,4) this ready_kept [OF R k1] ctx] leaf(1)
    have r: "kept v base parts X ?s1 ok t \<and> (ok \<longrightarrow> (\<forall>(n, k) \<in> set es. name_done v h tail q t n k))" by simp
    have "name_done v h tail q ?s1 n k"
      using collect_leaf_recorded [OF leaf(2,3)] leaf(4) by (simp add: name_done_def)
    from names_step [OF k1 this r] show ?thesis .
  next
    case plain
    have "walk_names v es h tail q s = (ok, t)" using "6.prems"(1) plain by (simp add: walk_names.simps)
    from "6.IH"(5) [OF _ plain(2-5) this R ctx] plain(1)
    have r: "kept v base parts X s ok t \<and> (ok \<longrightarrow> (\<forall>(n, k) \<in> set es. name_done v h tail q t n k))" by simp
    have "name_done v h tail q s n k"
      using covered_not_directory [OF plain(5)] plain(4) by (simp add: name_done_def)
    from names_step [OF ready_stay [OF R] this r] show ?thesis .
  next
    case shut
    let ?s1 = "s\<lparr>refused := refused s @ [q @ [n]]\<rparr>"
    have k1: "kept v base parts X s True ?s1" using kept_quiet [OF R] by simp
    have "walk_names v es h tail q ?s1 = (ok, t)" using "6.prems"(1) shut by (simp add: walk_names.simps)
    from "6.IH"(6) [OF _ shut(2-4) _ shut(6) this ready_kept [OF R k1] ctx] shut(1,5)
    have r: "kept v base parts X ?s1 ok t \<and> (ok \<longrightarrow> (\<forall>(n, k) \<in> set es. name_done v h tail q t n k))" by simp
    have "name_done v h tail q ?s1 n k"
      using covered_not_opened [OF shut(6), of ?s1 v] shut(4) by (simp add: name_done_def blind_def)
    from names_step [OF k1 this r] show ?thesis .
  next
    case dir
    obtain ok1 s1 where w: "walk v k tail (q @ [n]) False s = (ok1, s1)" by fastforce
    have "leads parts (q @ [n]) tail" by (rule leads_name [OF "6.prems"(6,3) dir(1)])
    with "6.IH"(7) [OF _ dir(2-4) _ _ w ready_child [OF R in_d(1)] dir(4) deeper_above [OF "6.prems"(4)] "6.prems"(5)] dir
    have k1: "kept v base parts X s ok1 s1" "ok1 \<Longrightarrow> covered v k (q @ [n]) tail s1" by simp_all
    show ?thesis
    proof (cases ok1)
      case False
      with "6.prems"(1) dir w have "ok = False" "t = s1" by (simp_all add: walk_names.simps)
      with k1(1) False show ?thesis by simp
    next
      case True
      note k2 = k1(1) [unfolded eqTrueI [OF True]] k1(2) [OF True]
      from True "6.prems"(1) dir w have "walk_names v es h tail q s1 = (ok, t)" by (simp add: walk_names.simps)
      from "6.IH"(8) [OF _ dir(2-4) _ _ w [symmetric] _ this ready_kept [OF R k2(1)] ctx] dir True
      have r: "kept v base parts X s1 ok t \<and> (ok \<longrightarrow> (\<forall>(n, k) \<in> set es. name_done v h tail q t n k))" by simp
      have "name_done v h tail q s1 n k" using k2(2) dir(4) by (simp add: name_done_def)
      from names_step [OF k2(1) this r] show ?thesis .
    qed
  qed
qed

section \<open>What an answer says\<close>

lemma parts_match_cong:
  assumes "\<And>p. parts_match a p = parts_match b p"
  shows "parts_match (h # a) p = parts_match (h # b) p"
proof -
  have "a = [] \<longleftrightarrow> b = []" using assms [of "[]"] by (simp add: parts_match_Nil)
  then show ?thesis using assms by (induction p) auto
qed

lemma parts_match_twice: "parts_match (''**'' # ''**'' # ps) p = parts_match (''**'' # ps) p"
proof (induction p)
  case (Cons n p)
  have "parts_match (''**'' # ps) p \<Longrightarrow> parts_match (''**'' # ps) (n # p)" by simp
  with Cons show ?case by (auto simp del: parts_match.simps simp: parts_match.simps(3) [of "''**''" "''**'' # ps"])
qed (simp add: parts_match_Nil)

lemma parts_match_collapse: "parts_match (collapse ps) p = parts_match ps p"
proof (induction ps arbitrary: p rule: collapse.induct)
  case (3 a b ps)
  show ?case
  proof (cases "a = ''**'' \<and> b = ''**''")
    case True
    then show ?thesis using "3.IH"(1) parts_match_twice [of ps p] by (simp del: parts_match.simps)
  next
    case False
    then have c: "collapse (a # b # ps) = a # collapse (b # ps)" by auto
    show ?thesis unfolding c by (rule parts_match_cong) (rule "3.IH"(2) [OF False])
  qed
qed simp_all

lemma collapse_Nil: "collapse ps = [] \<longleftrightarrow> ps = []"
  by (induction ps rule: collapse.induct) auto

lemma visible_dirs_only [simp]: "all_entries (v\<lparr>dirs_only := b\<rparr>) = all_entries v" "open_entries (v\<lparr>dirs_only := b\<rparr>) = open_entries v"
  by (simp_all add: fun_eq_iff all_entries_def open_entries_def skipped_name_def split: node.splits)

lemma walk_checkout_covers:
  assumes "mono (clock v)" "distinct_names d" "walk_checkout v d target b = (Some s, b')"
  defines "u \<equiv> v\<lparr>dirs_only := suffix ''/'' target\<rparr>"
  shows "found_only u d (collapse (raw_parts target)) s \<and> covered u d [] (collapse (raw_parts target)) s"
proof -
  let ?r = "collapse (raw_parts target)"
  obtain ok t where w: "walk u d ?r [] True (start_walk b) = (ok, t)" by fastforce
  have r: "?r \<noteq> []" using assms(3) by (auto simp: walk_checkout_def Let_def)
  from assms(3) w r have ok: ok and s: "s = t\<lparr>refused := uniq (refused t), incomplete := uniq (incomplete t)\<rparr>"
    by (auto simp: walk_checkout_def u_def Let_def split: if_splits bool.splits)
  have ready: "ready u d ?r {} d [] (start_walk b)"
    using assms(1) by (simp add: ready_def u_def stands_at_def settled_def found_only_def start_walk_def)
  from walk_keeps(1) [OF w ready r _ assms(2)] ok
  have k: "found_only u d ?r t" "covered u d [] ?r t" by (simp_all add: above_def leads_def kept_def)
  have "grows t s" by (simp add: s grows_def)
  from covered_mono [OF this k(2)] k(1) show ?thesis by (simp add: s found_only_def)
qed

lemma walk_exact:
  assumes "mono (clock v)" "distinct_names d" "walk_checkout v d target b = (Some s, b')"
  shows "(p \<in> set (files s) \<longleftrightarrow> \<not> suffix ''/'' target \<and> parts_match (raw_parts target) p
      \<and> (\<exists>c readable. reach_by (open_entries v) d p (Regular c readable)))
    \<and> (p \<in> set (glob_only s) \<longleftrightarrow> parts_match (raw_parts target) p
      \<and> (\<exists>k. reach_by (open_entries v) d p k \<and> (is_directory k \<or> k = Special \<and> \<not> suffix ''/'' target)))"
proof -
  note W = walk_checkout_covers [OF assms]
  have found: "p \<in> set (files s) \<Longrightarrow> \<not> suffix ''/'' target \<and> parts_match (raw_parts target) p
      \<and> (\<exists>c readable. reach_by (open_entries v) d p (Regular c readable))"
    "p \<in> set (glob_only s) \<Longrightarrow> parts_match (raw_parts target) p
      \<and> (\<exists>k. reach_by (open_entries v) d p k \<and> (is_directory k \<or> k = Special \<and> \<not> suffix ''/'' target))"
    using conjunct1 [OF W] by (simp_all add: found_only_def parts_match_collapse)
  have rec: "parts_match (raw_parts target) p \<Longrightarrow> reach_by (open_entries v) d p k \<Longrightarrow>
      recorded (v\<lparr>dirs_only := suffix ''/'' target\<rparr>) s p k" for k
    using coveredD(1) [OF conjunct2 [OF W], of p k] by (simp add: parts_match_collapse)
  show ?thesis
  proof (intro conjI iffI)
    assume a: "\<not> suffix ''/'' target \<and> parts_match (raw_parts target) p
      \<and> (\<exists>c readable. reach_by (open_entries v) d p (Regular c readable))"
    then obtain c readable where "reach_by (open_entries v) d p (Regular c readable)" by blast
    from rec [OF _ this] a show "p \<in> set (files s)" by (simp add: recorded_def)
  next
    assume a: "parts_match (raw_parts target) p
      \<and> (\<exists>k. reach_by (open_entries v) d p k \<and> (is_directory k \<or> k = Special \<and> \<not> suffix ''/'' target))"
    then obtain k where k: "reach_by (open_entries v) d p k" "is_directory k \<or> k = Special \<and> \<not> suffix ''/'' target" by blast
    from rec [OF _ k(1)] a k(2) show "p \<in> set (glob_only s)"
      by (cases k) (auto simp: recorded_def is_directory_def)
  qed (use found in blast)+
qed

lemma walk_clean_open:
  assumes "mono (clock v)" "distinct_names d" "walk_checkout v d target b = (Some s, b')"
    and "refused s = []" "incomplete s = []"
    and "parts_match (raw_parts target) p" "reach_by (all_entries v) d p k"
  shows "reach_by (open_entries v) d p k"
proof -
  have "parts_match (collapse (raw_parts target)) p" using assms(6) by (simp add: parts_match_collapse)
  from coveredD(2) [OF conjunct2 [OF walk_checkout_covers [OF assms(1-3)]] this, of k] assms(4,5,7)
  show ?thesis by (simp add: blind_def)
qed

lemma walk_clean:
  assumes "mono (clock v)" "distinct_names d" "walk_checkout v d target b = (Some s, b')"
    and "refused s = []" "incomplete s = []"
    and "parts_match (raw_parts target) p" "reach_by (all_entries v) d p k"
  shows "k \<noteq> Symlink \<and> k \<noteq> Vanished
    \<and> (p \<in> set (files s) \<or> p \<in> set (glob_only s) \<or> suffix ''/'' target \<and> \<not> is_directory k)"
proof -
  note W = walk_checkout_covers [OF assms(1-3)]
  have p: "parts_match (collapse (raw_parts target)) p" using assms(6) by (simp add: parts_match_collapse)
  have "recorded (v\<lparr>dirs_only := suffix ''/'' target\<rparr>) s p k"
    using coveredD(1) [OF conjunct2 [OF W] p, of k] walk_clean_open [OF assms] by simp
  with assms(4,5) show ?thesis by (cases k) (auto simp: recorded_def is_directory_def)
qed

text \<open>
  C28: An enumeration that answers finds exactly the paths that match the target component by
  component, with \<open>**\<close> for any directories, through real directories that can be open_entries and are not
  excluded: the regular files, unless the target ends in a slash, and apart from them the matching
  directories and special files. The visited set, the collapsed \<open>**\<close> and the budget change nothing.
\<close>

theorem walk_finds_exactly_the_matches:
  assumes "mono (clock v)" "distinct_names d" "walk_checkout v d target b = (Some s, b')"
  shows "(p \<in> set (files s) \<longleftrightarrow> \<not> suffix ''/'' target \<and> parts_match (raw_parts target) p
      \<and> (\<exists>c readable. reach_by (open_entries v) d p (Regular c readable)))
    \<and> (p \<in> set (glob_only s) \<longleftrightarrow> parts_match (raw_parts target) p
      \<and> (\<exists>k. reach_by (open_entries v) d p k \<and> (is_directory k \<or> k = Special \<and> \<not> suffix ''/'' target)))"
  by (rule walk_exact [OF assms])


section \<open>A concrete checkout\<close>

definition sample_env :: walk_env where
  "sample_env = \<lparr>excludes = default_excludes, clock = (\<lambda>_. 0), deadline = 5, dirs_only = False\<rparr>"

definition sample_tree :: node where
  "sample_tree = Directory Listable
     [(''src'', Directory Listable
         [(''a.py'', Regular ''x = 1'' True), (''link.py'', Symlink),
          (''sub'', Directory Listable [(''b.py'', Regular ''y = 2'' True)])]),
      (''dist'', Directory Listable [(''c.py'', Regular ''z'' True)]),
      (''priv'', Directory NotListable [(''key.py'', Regular ''k'' True)]),
      (''d.py'', Regular ''w'' True)]"

lemma sample_mono: "mono (clock sample_env)"
  by (simp add: sample_env_def mono_def)

lemma sample_distinct: "distinct_names sample_tree"
  by code_simp

definition sample_walk :: "string \<Rightarrow> walk_state option" where
  "sample_walk target = fst (walk_checkout sample_env sample_tree target (100, 0))"

lemma sample_walk_deep:
  "map_option (\<lambda>s. (files s, glob_only s, refused s, incomplete s)) (sample_walk ''**/*.py'')
   = Some ([[''d.py''], [''src'', ''a.py''], [''src'', ''sub'', ''b.py'']], [], [[''src'', ''link.py'']], [[''priv'']])"
  by code_simp

lemma sample_walk_flat:
  "map_option (\<lambda>s. (files s, glob_only s, refused s, incomplete s)) (sample_walk ''src/**/[!l]*'')
   = Some ([[''src'', ''a.py''], [''src'', ''sub'', ''b.py'']], [[''src'', ''sub'']], [], [])"
  by code_simp

lemma sample_names:
  "map (skipped_name sample_env) [''src'', ''a.py'', ''link.py'', ''sub'', ''b.py'', ''dist'', ''priv'', ''d.py'']
   = [False, False, False, False, False, True, False, False]"
  by code_simp

lemmas sample_reach = sample_names [simplified] sample_tree_def open_entries_def all_entries_def

theorem walk_finds_exactly_the_matches_witness:
  "\<exists>s b'. walk_checkout sample_env sample_tree ''**/*.py'' (100, 0) = (Some s, b')
     \<and> [''src'', ''sub'', ''b.py''] \<in> set (files s) \<and> [''dist'', ''c.py''] \<notin> set (files s)"
proof -
  obtain s b' where w: "walk_checkout sample_env sample_tree ''**/*.py'' (100, 0) = (Some s, b')"
    using sample_walk_deep by (cases "walk_checkout sample_env sample_tree ''**/*.py'' (100, 0)")
      (auto simp: sample_walk_def)
  note E = walk_finds_exactly_the_matches [OF sample_mono sample_distinct w]
  have "\<not> suffix ''/'' ''**/*.py'' \<and> parts_match (raw_parts ''**/*.py'') [''src'', ''sub'', ''b.py'']"
    by code_simp
  moreover have "reach_by (open_entries sample_env) sample_tree [''src'', ''sub'', ''b.py''] (Regular ''y = 2'' True)"
    by (simp add: sample_reach)
  moreover have "\<not> reach_by (open_entries sample_env) sample_tree [''dist'', ''c.py''] k" for k
    by (simp add: sample_reach)
  ultimately show ?thesis using w E by blast
qed


end
