(* ===== verification/WalkCost.thy ===== *)
theory WalkCost
  imports WalkCovers
begin

text \<open>
  What an enumeration of a checkout costs: it lists each directory at most once for each remaining
  part of the target, so its work is linear in the tree, and a budget of that size is enough for an
  answer.
\<close>

section \<open>Directories and their listings\<close>

fun node_at :: "walk_env \<Rightarrow> node \<Rightarrow> path \<Rightarrow> node option" where
  "node_at v d [] = Some d"
| "node_at v d (n # q) = (case map_of (open_entries v d) n of None \<Rightarrow> None | Some k \<Rightarrow> node_at v k q)"

definition listing_cost :: "node \<Rightarrow> int" where
  "listing_cost d = (case d of Directory a kids \<Rightarrow> 1 + int (length kids) | _ \<Rightarrow> 0)"

fun directories :: "node \<Rightarrow> (path \<times> int) list" where
  "directories (Directory a kids) =
     ([], 1 + int (length kids)) # concat (map (\<lambda>(n, k). map (\<lambda>(p, c). (n # p, c)) (directories k)) kids)"
| "directories _ = []"

definition tree_cost :: "node \<Rightarrow> int" where
  "tree_cost d = sum_list (map snd (directories d))"

definition cost_at :: "walk_env \<Rightarrow> node \<Rightarrow> path \<Rightarrow> int" where
  "cost_at v base q = (case node_at v base q of None \<Rightarrow> 0 | Some d \<Rightarrow> listing_cost d)"

lemma listing_cost_nonneg [simp]: "0 \<le> listing_cost d"
  by (simp add: listing_cost_def split: node.splits)

lemma cost_at_nonneg [simp]: "0 \<le> cost_at v base q"
  by (simp add: cost_at_def split: option.splits)

lemma node_at_append: "node_at v d (p @ q) = (case node_at v d p of None \<Rightarrow> None | Some k \<Rightarrow> node_at v k q)"
  by (induction v d p rule: node_at.induct) (auto split: option.splits)

lemma node_at_distinct: "distinct_names d \<Longrightarrow> node_at v d q = Some k \<Longrightarrow> distinct_names k"
  by (induction v d q rule: node_at.induct) (auto split: option.splits dest!: map_of_SomeD dest: listed_distinct(2))

lemma node_at_child:
  assumes "distinct_names base" "node_at v base q = Some d" "(n, k) \<in> set (open_entries v d)"
  shows "node_at v base (q @ [n]) = Some k"
proof -
  have "map_of (open_entries v d) n = Some k"
    using assms(3) listed_distinct(1) [OF node_at_distinct [OF assms(1,2)]] by (simp add: map_of_is_SomeI)
  then show ?thesis by (simp add: node_at_append assms(2))
qed

lemma listed_kids: "set (open_entries v d) \<subseteq> (case d of Directory a kids \<Rightarrow> set kids | _ \<Rightarrow> {})"
  by (auto simp: open_entries_def all_entries_def split: node.splits if_splits)

lemma directories_at:
  "node_at v d q = Some (Directory a kids) \<Longrightarrow> (q, 1 + int (length kids)) \<in> set (directories d)"
proof (induction v d q rule: node_at.induct)
  case (2 v d n q)
  from "2.prems" obtain k where k: "map_of (open_entries v d) n = Some k" "node_at v k q = Some (Directory a kids)"
    by (auto split: option.splits)
  with listed_kids [of v d] obtain b ks where d: "d = Directory b ks" "(n, k) \<in> set ks"
    by (auto dest!: map_of_SomeD split: node.splits)
  have "(n # q, 1 + int (length kids)) \<in> set (map (\<lambda>(p, c). (n # p, c)) (directories k))"
    using "2.IH" [OF k] by (auto intro: rev_image_eqI)
  with d show ?case by (auto intro!: bexI [of _ "(n, k)"])
qed simp

lemma directories_nonneg: "(p, c) \<in> set (directories d) \<Longrightarrow> 0 \<le> c"
  by (induction d arbitrary: p rule: directories.induct) fastforce+

lemma distinct_directories: "distinct_names d \<Longrightarrow> distinct (map fst (directories d))"
proof (induction d rule: directories.induct)
  case (1 a kids)
  have fst_map: "map fst (map (\<lambda>(p, c). (n # p, c)) xs) = map ((#) n) (map fst xs)"
    for n :: string and xs :: "(path \<times> int) list" by (induction xs) auto
  have "distinct (concat (map (\<lambda>(n, k). map ((#) n) (map fst (directories k))) ks))"
    if "set ks \<subseteq> set kids" "distinct (map fst ks)" for ks
    using that
  proof (induction ks)
    case (Cons e ks)
    obtain n k where e: "e = (n, k)" by fastforce
    have "distinct (map fst (directories k))"
      using "1.IH" [of "(n, k)"] "1.prems" Cons.prems(1) e by auto
    then have "distinct (map ((#) n) (map fst (directories k)))" by (simp add: distinct_map inj_on_def)
    moreover have "distinct (concat (map (\<lambda>(n, k). map ((#) n) (map fst (directories k))) ks))"
      using Cons by simp
    moreover have "n \<notin> fst ` set ks" using Cons.prems(2) e by simp
    then have "set (map ((#) n) (map fst (directories k)))
        \<inter> set (concat (map (\<lambda>(n, k). map ((#) n) (map fst (directories k))) ks)) = {}"
      by (auto simp: image_iff)
    ultimately show ?case unfolding e list.map prod.case concat.simps distinct_append by blast
  qed simp
  then have "distinct (concat (map (\<lambda>(n, k). map ((#) n) (map fst (directories k))) kids))"
    using "1.prems" by simp
  moreover have "map fst (concat (map (\<lambda>(n, k). map (\<lambda>(p, c). (n # p, c)) (directories k)) ks))
      = concat (map (\<lambda>(n, k). map ((#) n) (map fst (directories k))) ks)" for ks
    by (induction ks) (auto simp only: list.map concat.simps map_append prod.case fst_map split: prod.splits)
  ultimately show ?case by (auto simp only: directories.simps list.map fst_conv distinct.simps set_concat set_map)
qed simp_all

section \<open>Charging the budget\<close>

definition visit_cost :: "walk_env \<Rightarrow> node \<Rightarrow> walk_state \<Rightarrow> int" where
  "visit_cost v base s = sum_list (map (cost_at v base \<circ> fst) (visited s))"

definition charged :: "walk_env \<Rightarrow> node \<Rightarrow> walk_state \<Rightarrow> walk_state \<Rightarrow> bool" where
  "charged v base s t \<longleftrightarrow> work s + visit_cost v base s \<le> work t + visit_cost v base t"

definition states_in :: "walk_env \<Rightarrow> node \<Rightarrow> string list set \<Rightarrow> walk_state \<Rightarrow> bool" where
  "states_in v base S s \<longleftrightarrow>
     distinct (visited s) \<and> (\<forall>q r. (q, r) \<in> set (visited s) \<longrightarrow> node_at v base q \<noteq> None \<and> r \<in> S)"

definition tails_in :: "string list set \<Rightarrow> bool" where
  "tails_in S \<longleftrightarrow> (\<forall>h tail. h # tail \<in> S \<longrightarrow> (if tail = [] then h = ''**'' \<longrightarrow> [''*''] \<in> S else tail \<in> S))"

definition never_late :: "walk_env \<Rightarrow> bool" where
  "never_late v \<longleftrightarrow> (\<forall>n. clock v n < deadline v)"

definition fair :: "walk_env \<Rightarrow> node \<Rightarrow> string list set \<Rightarrow> walk_state \<Rightarrow> bool \<Rightarrow> walk_state \<Rightarrow> bool" where
  "fair v base S s ok t \<longleftrightarrow>
     charged v base s t \<and> states_in v base S t \<and> (never_late v \<and> (\<exists>kids. base = Directory Listable kids) \<and> \<not> ok \<longrightarrow> work t < 0)"

lemma fair_trans: "fair v base S s True t \<Longrightarrow> fair v base S t ok u \<Longrightarrow> fair v base S s ok u"
  by (auto simp: fair_def charged_def)

lemma fair_refl: "states_in v base S s \<Longrightarrow> fair v base S s True s"
  by (simp add: fair_def charged_def)

lemma fair_same:
  "states_in v base S s \<Longrightarrow> visited t = visited s \<Longrightarrow> work t = work s \<Longrightarrow> fair v base S s True t"
  by (simp add: fair_def charged_def visit_cost_def states_in_def)

lemma collect_leaf_work [simp]: "work (collect_leaf v k p s) = work s"
  by (simp add: collect_leaf_def Let_def)

lemma fair_states: "fair v base S s ok t \<Longrightarrow> states_in v base S t"
  by (simp add: fair_def)

lemma in_time_length: "in_time v n xs = (ys, m) \<Longrightarrow> length ys \<le> length xs"
  by (induction v n xs arbitrary: ys m rule: in_time.induct) (auto split: if_splits prod.splits)

lemma in_time_subset: "in_time v n xs = (ys, m) \<Longrightarrow> set ys \<subseteq> set xs"
  by (induction v n xs arbitrary: ys m rule: in_time.induct) (auto split: if_splits prod.splits)

lemma never_late: "never_late v \<Longrightarrow> \<not> late v s"
  by (simp add: never_late_def late_def not_le)

lemma entries_of_cost:
  assumes e: "entries_of v d q strict s = (ok, es, t)"
  shows "work s - listing_cost d \<le> work t \<and> visited t = visited s \<and> set es \<subseteq> set (open_entries v d)
    \<and> (never_late v \<longrightarrow> \<not> ok \<longrightarrow> (strict \<longrightarrow> (\<exists>kids. d = Directory Listable kids)) \<longrightarrow> work t < 0)"
proof (cases "\<exists>kids. d = Directory Listable kids")
  case True
  then obtain kids where d: "d = Directory Listable kids" by blast
  obtain xs n where l: "in_time v (reads s) (take (nat (max (work s) 0)) kids) = (xs, n)" by fastforce
  have len: "length xs \<le> length kids" using in_time_length [OF l] by simp
  have sub: "set xs \<subseteq> set kids" using in_time_subset [OF l] by (auto dest: in_set_takeD)
  let ?s1 = "s\<lparr>work := work s - (1 + int (length xs)), reads := n\<rparr>"
  have e': "(ok, es, t) = (if work ?s1 < 0 then (False, [], ?s1) else if late v ?s1 then (False, [], tick ?s1)
      else (True, filter (\<lambda>(n, _). \<not> skipped_name v n) xs, tick ?s1))"
    using e l by (auto simp: d entries_of_def Let_def)
  have "set (filter (\<lambda>(n, _). \<not> skipped_name v n) xs) \<subseteq> set (open_entries v d)"
    using sub by (auto simp: d open_entries_def all_entries_def)
  with e' len show ?thesis
    by (auto simp: listing_cost_def d tick_def dest: never_late split: if_splits)
next
  case False
  with e show ?thesis
    by (cases d) (auto simp: entries_of_def listing_cost_def split: access.splits if_splits)
qed

lemma fair_entries:
  assumes e: "entries_of v d q strict s = (ok, es, t)" and s: "states_in v base S s"
    and n: "node_at v base q = Some d" and c: "states_in v base S s0"
    and k: "work s0 + visit_cost v base s0 + cost_at v base q \<le> work s + visit_cost v base s"
    and l: "strict \<longrightarrow> q = []"
  shows "fair v base S s0 ok t" "states_in v base S t" "set es \<subseteq> set (open_entries v d)"
  using entries_of_cost [OF e] s n c k l
  by (auto simp: fair_def charged_def visit_cost_def states_in_def cost_at_def)

lemma states_visit:
  assumes "states_in v base S s" "(q, r) \<notin> set (visited s)" "node_at v base q = Some d" "r \<in> S"
  shows "states_in v base S (s\<lparr>visited := visited s @ [(q, r)]\<rparr>)"
    "visit_cost v base (s\<lparr>visited := visited s @ [(q, r)]\<rparr>) = visit_cost v base s + cost_at v base q"
  using assms by (auto simp: states_in_def visit_cost_def)

lemma walk_fair:
  assumes base: "distinct_names base" and S: "tails_in S"
  shows
  "walk v d r q strict s = (ok, t) \<Longrightarrow> states_in v base S s \<Longrightarrow> node_at v base q = Some d \<Longrightarrow> r \<in> S \<Longrightarrow> r \<noteq> [] \<Longrightarrow>
    (strict \<longrightarrow> q = []) \<Longrightarrow> fair v base S s ok t"
  "walk_subs v es r q s = (ok, t) \<Longrightarrow> states_in v base S s \<Longrightarrow> node_at v base q = Some d \<Longrightarrow> r \<in> S \<Longrightarrow> r \<noteq> [] \<Longrightarrow>
    set es \<subseteq> set (open_entries v d) \<Longrightarrow> fair v base S s ok t"
  "walk_names v es h tail q s = (ok, t) \<Longrightarrow> states_in v base S s \<Longrightarrow> node_at v base q = Some d \<Longrightarrow> h # tail \<in> S \<Longrightarrow>
    set es \<subseteq> set (open_entries v d) \<Longrightarrow> fair v base S s ok t"
proof (induction v d r q strict s and v es r q s and v es h tail q s
    arbitrary: ok t and ok t d and ok t d rule: walk_walk_subs_walk_names.induct)
  case (1 v d q strict s)
  then show ?case by simp
next
  case (2 v d h tail q strict s)
  let ?s0 = "s\<lparr>visited := visited s @ [(q, h # tail)]\<rparr>"
  note P = "2.prems"
  show ?case
  proof (cases "(q, h # tail) \<in> set (visited s)")
    case True
    with P(1) have "ok" "t = s" by (simp_all add: walk.simps)
    with fair_refl [OF P(2)] show ?thesis by simp
  next
    case new: False
    note V = states_visit [OF P(2) new P(3,4)]
    show ?thesis
    proof (cases "h = ''**''")
      case True
      let ?r = "if tail = [] then [''*''] else tail"
      have r: "?r \<in> S" "?r \<noteq> []" using S P(4) True unfolding tails_in_def by (auto split: if_splits)
      obtain ok1 s1 where w: "walk v d ?r q strict ?s0 = (ok1, s1)" by fastforce
      have f1: "fair v base S ?s0 ok1 s1" by (rule "2.IH"(1) [OF new refl True w V(1) P(3) r P(6)])
      have k: "work s + visit_cost v base s + cost_at v base q \<le> work s1 + visit_cost v base s1"
        using f1 V(2) by (simp add: fair_def charged_def)
      show ?thesis
      proof (cases ok1)
        case False
        with P(1) new True w have "ok = False" "t = s1" by (simp_all add: walk.simps)
        moreover have "charged v base s s1" using k cost_at_nonneg [of v base q] unfolding charged_def by linarith
        ultimately show ?thesis using f1 False by (simp add: fair_def)
      next
        case ok1: True
        obtain ok2 es s2 where e: "entries_of v d q strict s1 = (ok2, es, s2)" using prod_cases3 by blast
        note f2 = fair_entries [OF e fair_states [OF f1] P(3,2) k P(6)]
        show ?thesis
        proof (cases ok2)
          case False
          with P(1) new True w ok1 e have "ok = False" "t = s2" by (simp_all add: walk.simps)
          with f2(1) False show ?thesis by simp
        next
          case ok2: True
          have ws: "walk_subs v es (h # tail) q s2 = (ok, t)"
            using P(1) new True w ok1 e ok2 by (simp add: walk.simps)
          have "fair v base S s2 ok t"
            by (rule "2.IH"(2) [OF new refl True w [symmetric] _ e [symmetric] _ refl ws f2(2) P(3,4,5) f2(3)])
              (use ok1 ok2 in simp_all)
          from fair_trans [OF f2(1) [unfolded eqTrueI [OF ok2]] this] show ?thesis .
        qed
      qed
    next
      case name: False
      obtain ok1 es s1 where e: "entries_of v d q strict ?s0 = (ok1, es, s1)" using prod_cases3 by blast
      note f1 = fair_entries [OF e V(1) P(3,2) _ P(6)]
      have f1: "fair v base S s ok1 s1" "states_in v base S s1" "set es \<subseteq> set (open_entries v d)"
        using f1 V(2) by simp_all
      show ?thesis
      proof (cases ok1)
        case False
        with P(1) new name e have "ok = False" "t = s1" by (simp_all add: walk.simps)
        with f1(1) False show ?thesis by simp
      next
        case ok1: True
        have wn: "walk_names v es h tail q s1 = (ok, t)" using P(1) new name e ok1 by (simp add: walk.simps)
        have "fair v base S s1 ok t"
          by (rule "2.IH"(3) [OF new refl name e [symmetric] _ refl wn f1(2) P(3,4) f1(3)]) (use ok1 in simp)
        from fair_trans [OF f1(1) [unfolded eqTrueI [OF ok1]] this] show ?thesis .
      qed
    qed
  qed
next
  case (3 v r q s)
  then show ?case by (auto simp: walk_subs.simps dest: fair_refl)
next
  case (4 v n k es r q s)
  note P = "4.prems"
  have kid: "node_at v base (q @ [n]) = Some k" by (rule node_at_child [OF base P(3)]) (use P(6) in simp)
  have es: "set es \<subseteq> set (open_entries v d)" using P(6) by simp
  let ?s1 = "s\<lparr>incomplete := incomplete s @ [q @ [n]]\<rparr>"
  have f0: "fair v base S s True ?s1" by (rule fair_same [OF P(2)]) simp_all
  consider (gone) "k = Vanished" | (leaf) "k \<noteq> Vanished" "\<not> is_directory k"
    | (shut) "k \<noteq> Vanished" "is_directory k" "\<not> opens k" | (dir) "k \<noteq> Vanished" "is_directory k" "opens k" by blast
  then show ?case
  proof cases
    case gone
    have "walk_subs v es r q ?s1 = (ok, t)" using P(1) gone by (simp add: walk_subs.simps)
    from fair_trans [OF f0 "4.IH"(1) [OF gone this fair_states [OF f0] P(3,4,5) es]] show ?thesis .
  next
    case leaf
    have "walk_subs v es r q s = (ok, t)" using P(1) leaf by (simp add: walk_subs.simps)
    from "4.IH"(2) [OF leaf this P(2,3,4,5) es] show ?thesis .
  next
    case shut
    have "walk_subs v es r q ?s1 = (ok, t)" using P(1) shut by (simp add: walk_subs.simps)
    from fair_trans [OF f0 "4.IH"(3) [OF shut(1) _ shut(3) this fair_states [OF f0] P(3,4,5) es]] shut(2)
    show ?thesis by simp
  next
    case dir
    obtain ok1 s1 where w: "walk v k r (q @ [n]) False s = (ok1, s1)" by fastforce
    from "4.IH"(4) [OF dir(1) _ _ w P(2) kid P(4,5)] dir have f1: "fair v base S s ok1 s1" by simp
    show ?thesis
    proof (cases ok1)
      case False
      with P(1) dir w have "ok = False" "t = s1" by (simp_all add: walk_subs.simps)
      with f1 False show ?thesis by simp
    next
      case True
      with P(1) dir w have "walk_subs v es r q s1 = (ok, t)" by (simp add: walk_subs.simps)
      from "4.IH"(5) [OF dir(1) _ _ w [symmetric] _ this fair_states [OF f1] P(3,4,5) es] dir True
      have "fair v base S s1 ok t" by simp
      from fair_trans [OF f1 [unfolded eqTrueI [OF True]] this] show ?thesis .
    qed
  qed
next
  case (5 v h tail q s)
  then show ?case by (auto simp: walk_names.simps dest: fair_refl)
next
  case (6 v n k es h tail q s)
  note P = "6.prems"
  have kid: "node_at v base (q @ [n]) = Some k" by (rule node_at_child [OF base P(3)]) (use P(5) in simp)
  have es: "set es \<subseteq> set (open_entries v d)" using P(5) by simp
  let ?s1 = "s\<lparr>incomplete := incomplete s @ [q @ [n]]\<rparr>" and ?s2 = "s\<lparr>refused := refused s @ [q @ [n]]\<rparr>"
    and ?s3 = "collect_leaf v k (q @ [n]) s"
  have f0: "fair v base S s True ?s1" "fair v base S s True ?s2" "fair v base S s True ?s3"
    by (rule fair_same [OF P(2)]; simp)+
  consider (other) "\<not> fnmatches h n" | (gone) "fnmatches h n" "k = Vanished"
    | (link) "fnmatches h n" "k = Symlink"
    | (leaf) "fnmatches h n" "k \<noteq> Vanished" "k \<noteq> Symlink" "tail = []"
    | (plain) "fnmatches h n" "k \<noteq> Vanished" "k \<noteq> Symlink" "tail \<noteq> []" "\<not> is_directory k"
    | (shut) "fnmatches h n" "k \<noteq> Vanished" "k \<noteq> Symlink" "tail \<noteq> []" "is_directory k" "\<not> opens k"
    | (dir) "fnmatches h n" "k \<noteq> Vanished" "k \<noteq> Symlink" "tail \<noteq> []" "is_directory k" "opens k" by blast
  then show ?case
  proof cases
    case other
    have "walk_names v es h tail q s = (ok, t)" using P(1) other by (simp add: walk_names.simps)
    from "6.IH"(1) [OF other this P(2,3,4) es] show ?thesis .
  next
    case gone
    have "walk_names v es h tail q ?s1 = (ok, t)" using P(1) gone by (simp add: walk_names.simps)
    from fair_trans [OF f0(1) "6.IH"(2) [OF _ gone(2) this fair_states [OF f0(1)] P(3,4) es]] gone(1)
    show ?thesis by simp
  next
    case link
    have "walk_names v es h tail q ?s2 = (ok, t)" using P(1) link by (simp add: walk_names.simps)
    from fair_trans [OF f0(2) "6.IH"(3) [OF _ _ link(2) this fair_states [OF f0(2)] P(3,4) es]] link
    show ?thesis by simp
  next
    case leaf
    have "walk_names v es h tail q ?s3 = (ok, t)" using P(1) leaf by (simp add: walk_names.simps)
    from fair_trans [OF f0(3) "6.IH"(4) [OF _ leaf(2,3,4) this fair_states [OF f0(3)] P(3,4) es]] leaf(1)
    show ?thesis by simp
  next
    case plain
    have "walk_names v es h tail q s = (ok, t)" using P(1) plain by (simp add: walk_names.simps)
    from "6.IH"(5) [OF _ plain(2-5) this P(2,3,4) es] plain(1) show ?thesis by simp
  next
    case shut
    have "walk_names v es h tail q ?s2 = (ok, t)" using P(1) shut by (simp add: walk_names.simps)
    from fair_trans [OF f0(2) "6.IH"(6) [OF _ shut(2-4) _ shut(6) this fair_states [OF f0(2)] P(3,4) es]] shut(1,5)
    show ?thesis by simp
  next
    case dir
    have r: "tail \<in> S" using S P(4) dir(4) unfolding tails_in_def by force
    obtain ok1 s1 where w: "walk v k tail (q @ [n]) False s = (ok1, s1)" by fastforce
    from "6.IH"(7) [OF _ dir(2-4) _ _ w P(2) kid r dir(4)] dir have f1: "fair v base S s ok1 s1" by simp
    show ?thesis
    proof (cases ok1)
      case False
      with P(1) dir w have "ok = False" "t = s1" by (simp_all add: walk_names.simps)
      with f1 False show ?thesis by simp
    next
      case True
      with P(1) dir w have "walk_names v es h tail q s1 = (ok, t)" by (simp add: walk_names.simps)
      from "6.IH"(8) [OF _ dir(2-4) _ _ w [symmetric] _ this fair_states [OF f1] P(3,4) es] dir True
      have "fair v base S s1 ok t" by simp
      from fair_trans [OF f1 [unfolded eqTrueI [OF True]] this] show ?thesis .
    qed
  qed
qed

section \<open>The bound\<close>

definition tails_of :: "string list \<Rightarrow> string list set" where
  "tails_of parts = insert [''*''] (set (suffixes parts) - {[]})"

lemma tails_in_tails_of: "tails_in (tails_of parts)"
proof -
  have "tail \<in> set (suffixes parts)" if "h # tail \<in> set (suffixes parts)" for h tail
    using that suffix_order.trans [OF suffix_ConsI [OF suffix_order.refl, of tail h]] by auto
  then show ?thesis unfolding tails_in_def tails_of_def by auto
qed

lemma card_tails_of: "card (tails_of parts) \<le> Suc (length parts)"
proof -
  have "card (set (suffixes parts) - {[]}) = card (set (suffixes parts)) - 1"
    by (rule card_Diff_singleton) (simp add: suffix_def)
  also have "\<dots> \<le> length parts" using card_length [of "suffixes parts"] by simp
  finally show ?thesis
    unfolding tails_of_def using card_insert_le_m1 [of "Suc (length parts)" "set (suffixes parts) - {[]}" "[''*'']"] by simp
qed

lemma cost_at_directory: "cost_at v base q \<noteq> 0 \<Longrightarrow> (q, cost_at v base q) \<in> set (directories base)"
  using directories_at [of v base q]
  by (auto simp: cost_at_def listing_cost_def split: option.splits node.splits)

lemma paths_cost:
  assumes "distinct_names base" "finite Q"
  shows "(\<Sum>q\<in>Q. cost_at v base q) \<le> tree_cost base"
proof -
  let ?Q = "{q \<in> Q. cost_at v base q \<noteq> 0}" and ?f = "\<lambda>q. (q, cost_at v base q)"
  have d: "distinct (directories base)" using distinct_directories [OF assms(1)] by (simp add: distinct_map)
  have "(\<Sum>q\<in>Q. cost_at v base q) = (\<Sum>q\<in>?Q. cost_at v base q)"
    by (rule sum.mono_neutral_right) (use assms(2) in auto)
  also have "\<dots> = (\<Sum>x\<in>?f ` ?Q. snd x)" by (simp add: sum.reindex inj_on_def)
  also have "\<dots> \<le> (\<Sum>x\<in>set (directories base). snd x)"
    by (rule sum_mono2) (auto simp: cost_at_directory dest: directories_nonneg)
  also have "\<dots> = tree_cost base" by (simp add: tree_cost_def sum_list_distinct_conv_sum_set [OF d])
  finally show ?thesis .
qed

lemma visit_cost_bound:
  assumes "distinct_names base" "states_in v base S s" "finite S"
  shows "visit_cost v base s \<le> int (card S) * tree_cost base"
proof -
  let ?Q = "fst ` set (visited s)"
  have "visit_cost v base s = (\<Sum>x\<in>set (visited s). cost_at v base (fst x))"
    using assms(2) by (simp add: visit_cost_def states_in_def sum_list_distinct_conv_sum_set)
  also have "\<dots> \<le> (\<Sum>x\<in>?Q \<times> S. cost_at v base (fst x))"
  proof (rule sum_mono2)
    show "set (visited s) \<subseteq> ?Q \<times> S"
    proof
      fix x assume x: "x \<in> set (visited s)"
      then have "snd x \<in> S" using assms(2) unfolding states_in_def by (metis prod.collapse)
      with x show "x \<in> ?Q \<times> S" by (simp add: mem_Times_iff)
    qed
  qed (use assms(3) in simp_all)
  also have "\<dots> = (\<Sum>q\<in>?Q. \<Sum>r\<in>S. cost_at v base q)"
    unfolding sum.cartesian_product by (simp add: split_beta)
  also have "\<dots> = int (card S) * (\<Sum>q\<in>?Q. cost_at v base q)" by (simp add: sum_distrib_left)
  also have "\<dots> \<le> int (card S) * tree_cost base"
    by (rule mult_left_mono [OF paths_cost [OF assms(1)]]) simp_all
  finally show ?thesis .
qed

lemma walk_budget:
  assumes "distinct_names d" "walk v d parts [] strict (start_walk b) = (ok, t)" "parts \<noteq> []"
  shows "fst b - work t \<le> int (Suc (length parts)) * tree_cost d" "never_late v \<Longrightarrow> \<exists>kids. d = Directory Listable kids \<Longrightarrow> \<not> ok \<Longrightarrow> work t < 0"
proof -
  have f: "fair v d (tails_of parts) (start_walk b) ok t"
    by (rule walk_fair(1) [OF assms(1) tails_in_tails_of assms(2)])
      (use assms(3) in \<open>auto simp: states_in_def start_walk_def tails_of_def\<close>)
  have "visit_cost v d t \<le> int (card (tails_of parts)) * tree_cost d"
    by (rule visit_cost_bound [OF assms(1) fair_states [OF f]]) (simp add: tails_of_def)
  also have "\<dots> \<le> int (Suc (length parts)) * tree_cost d"
    using card_tails_of [of parts] directories_nonneg
    by (intro mult_right_mono) (auto simp: tree_cost_def intro!: sum_list_nonneg)
  finally show "fst b - work t \<le> int (Suc (length parts)) * tree_cost d"
    using f by (simp add: fair_def charged_def visit_cost_def start_walk_def)
  show "never_late v \<Longrightarrow> \<exists>kids. d = Directory Listable kids \<Longrightarrow> \<not> ok \<Longrightarrow> work t < 0" using f by (simp add: fair_def)
qed

lemma length_collapse: "length (collapse ps) \<le> length ps"
  by (induction ps rule: collapse.induct) auto

text \<open>
  C30: The work of an enumeration, in listings and open_entries entries, is linear: at most once through the
  whole tree for each part of the target and once more, whatever the number of \<open>**\<close> in it. A budget
  of that size is enough: when the deadline is not reached and the checkout itself can be open_entries, the
  enumeration of any target that names something answers.
\<close>

theorem walk_is_linear_and_answers:
  assumes "distinct_names d"
  shows "fst b - fst (snd (walk_checkout v d target b)) \<le> int (Suc (length (raw_parts target))) * tree_cost d
    \<and> (never_late v \<and> (\<exists>kids. d = Directory Listable kids) \<and> raw_parts target \<noteq> []
        \<and> int (Suc (length (raw_parts target))) * tree_cost d \<le> fst b
       \<longrightarrow> fst (walk_checkout v d target b) \<noteq> None)"
proof -
  define u where "u = v\<lparr>dirs_only := suffix ''/'' target\<rparr>"
  define n where "n = int (Suc (length (raw_parts target))) * tree_cost d"
  have pos: "0 \<le> tree_cost d" using directories_nonneg by (auto simp: tree_cost_def intro!: sum_list_nonneg)
  show ?thesis
  proof (cases "raw_parts target = []")
    case True
    then show ?thesis using pos by (simp add: walk_checkout_def)
  next
    case False
    obtain ok t where w: "walk u d (collapse (raw_parts target)) [] True (start_walk b) = (ok, t)" by fastforce
    have res: "walk_checkout v d target b = (if \<not> ok then (None, (work t, reads t))
        else if late u t then (None, (work t, Suc (reads t)))
        else (Some (t\<lparr>refused := uniq (refused t), incomplete := uniq (incomplete t)\<rparr>), (work t, Suc (reads t))))"
      using False w by (simp add: walk_checkout_def u_def Let_def collapse_Nil split: bool.splits)
    have nl: "never_late v \<Longrightarrow> never_late u" by (simp add: never_late_def u_def)
    have le: "int (Suc (length (collapse (raw_parts target)))) * tree_cost d \<le> n"
      unfolding n_def by (intro mult_right_mono pos) (simp add: length_collapse)
    note B = walk_budget [OF assms w]
    have 1: "fst b - work t \<le> n" using B(1) le False by (simp add: collapse_Nil)
    have "ok" if "never_late v" "n \<le> fst b" "\<exists>kids. d = Directory Listable kids"
    proof (rule ccontr)
      assume "\<not> ok"
      with B(2) nl that False have "work t < 0" by (simp add: collapse_Nil)
      with 1 that(2) show False by simp
    qed
    with 1 res nl never_late [of u t] show ?thesis unfolding n_def by auto
  qed
qed

theorem walk_is_linear_and_answers_witness:
  "fst (walk_checkout sample_env sample_tree ''**/**/*.py'' (1000, 0)) \<noteq> None"
proof -
  have "tree_cost sample_tree = 15" "raw_parts ''**/**/*.py'' = [''**'', ''**'', ''*.py'']" by code_simp+
  moreover have "never_late sample_env" by (simp add: never_late_def sample_env_def)
  moreover have "\<exists>kids. sample_tree = Directory Listable kids" by (simp add: sample_tree_def)
  ultimately show ?thesis
    using walk_is_linear_and_answers [OF sample_distinct, of "(1000, 0)" sample_env "''**/**/*.py''"] by simp
qed

end
