(* ===== verification/Verification.thy ===== *)
theory Verification
  imports Entry WalkCovers
begin

text \<open>
  Checking a learning's assertions against a checkout (\<^verbatim>\<open>lifecycle/verification.py\<close>). The regular
  expression engine is a parameter: whether a pattern compiles, whether it is found in the text a
  file's bytes decode to, and whether the matcher runs out of time when it is started at a given
  reading of the clock.
\<close>

section \<open>Limits\<close>

definition max_pattern_len :: nat where "max_pattern_len = 1024"
definition max_file_size :: nat where "max_file_size = 1048576"
definition binary_check_bytes :: nat where "binary_check_bytes = 512"
definition match_deadline :: rat where "match_deadline = 5"
definition max_walk_work :: int where "max_walk_work = 1000000"
definition max_pattern_cost :: nat where "max_pattern_cost = 100000"

definition overlong :: "assertion \<Rightarrow> bool" where
  "overlong a \<longleftrightarrow> max (length (a_pattern a)) (length (a_target a)) > max_pattern_len"

text \<open>\<open>_VERBOSE_FLAG\<close>: an inline group that names \<open>x\<close> before a character that ends its flags.\<close>

fun names_x :: "string \<Rightarrow> bool" where
  "names_x [] = False"
| "names_x (c # cs) =
     (if c = CHR ''x'' then True else if c \<in> set ''()<:=!>'' \<or> c = CHR 0x27 then False else names_x cs)"

fun verbose_flag :: "string \<Rightarrow> bool" where
  "verbose_flag (c # c' # cs) = ((c = CHR ''('' \<and> c' = CHR ''?'' \<and> names_x cs) \<or> verbose_flag (c' # cs))"
| "verbose_flag _ = False"

text \<open>\<open>_BRACES.findall\<close>: an opening brace with no other brace before the next closing one.\<close>

fun braces_from :: "string option \<Rightarrow> string \<Rightarrow> string list" where
  "braces_from _ [] = []"
| "braces_from open_at (c # cs) =
     (if c = CHR ''{'' then braces_from (Some []) cs
      else case open_at of
             None \<Rightarrow> braces_from None cs
           | Some acc \<Rightarrow> if c = CHR ''}'' then rev acc # braces_from None cs else braces_from (Some (c # acc)) cs)"

definition is_digit :: "char \<Rightarrow> bool" where
  "is_digit c \<longleftrightarrow> CHR ''0'' \<le> c \<and> c \<le> CHR ''9''"

fun digit_runs :: "string \<Rightarrow> string \<Rightarrow> string list" where
  "digit_runs cur [] = (if cur = [] then [] else [rev cur])"
| "digit_runs cur (c # cs) =
     (if is_digit c then digit_runs (c # cur) cs
      else if cur = [] then digit_runs [] cs else rev cur # digit_runs [] cs)"

definition digits_value :: "string \<Rightarrow> nat" where
  "digits_value s = foldl (\<lambda>n c. 10 * n + (of_char c - 48)) 0 s"

definition run_value :: "string \<Rightarrow> nat" where
  "run_value s = digits_value (take 10 (dropWhile (\<lambda>c. c = CHR ''0'') s))"

fun cost_loop :: "string list \<Rightarrow> nat \<Rightarrow> nat" where
  "cost_loop [] cost = cost"
| "cost_loop (b # bs) cost =
     (let c = cost * max_from 1 (map run_value (digit_runs [] b))
      in if c > max_pattern_cost then c else cost_loop bs c)"

definition pattern_cost :: "string \<Rightarrow> nat" where
  "pattern_cost p =
     (if length p > max_pattern_len then max_pattern_cost + 1
      else cost_loop (braces_from None p) (if verbose_flag p then max_pattern_cost + 1 else length p))"

section \<open>Results\<close>

record assertion_result =
  r_type :: assertion_type
  r_pattern :: string
  r_target :: string
  r_passed :: "bool option"
  r_evidence :: string

definition result_of :: "assertion \<Rightarrow> bool option \<Rightarrow> string \<Rightarrow> assertion_result" where
  "result_of a passed ev =
     \<lparr>r_type = a_type a, r_pattern = a_pattern a, r_target = a_target a, r_passed = passed, r_evidence = ev\<rparr>"

definition show_path :: "path \<Rightarrow> string" where
  "show_path p = (if p = [] then ''.'' else str_join ''/'' p)"

definition some_names :: "string list \<Rightarrow> string" where
  "some_names xs = str_join '', '' (take 5 xs)"

definition quoted :: "string \<Rightarrow> string" where
  "quoted s = [CHR 0x27] @ s @ [CHR 0x27]"

record regex_engine =
  compile_error :: "string \<Rightarrow> string option"
  finds :: "string \<Rightarrow> string \<Rightarrow> bool"
  times_out :: "string \<Rightarrow> string \<Rightarrow> nat \<Rightarrow> bool"

section \<open>Reading through the checkout\<close>

definition kids_of :: "node \<Rightarrow> (string \<times> node) list" where
  "kids_of d = (case d of Directory a kids \<Rightarrow> kids | _ \<Rightarrow> [])"

text \<open>\<open>_read_bytes_through_checkout\<close>: at most one byte more than the limit is read.\<close>

fun read_through :: "node \<Rightarrow> path \<Rightarrow> string option" where
  "read_through d [] = None"
| "read_through d [n] =
     (case map_of (kids_of d) n of
        Some (Regular c True) \<Rightarrow> Some (take (Suc max_file_size) c)
      | _ \<Rightarrow> None)"
| "read_through d (n # m # p) =
     (case map_of (kids_of d) n of
        Some k \<Rightarrow> if opens k then read_through k (m # p) else None
      | None \<Rightarrow> None)"

section \<open>Searching the files\<close>

record grep_state =
  matching :: "path list"
  oversized :: "path list"
  unsearched :: "path list"
  scanned :: nat
  g_reads :: nat

text \<open>The loop over the files; \<open>None\<close> where a deadline ended it. Also the clock readings made.\<close>

fun grep_files ::
  "walk_env \<Rightarrow> regex_engine \<Rightarrow> string \<Rightarrow> node \<Rightarrow> path list \<Rightarrow> grep_state \<Rightarrow> grep_state option \<times> nat" where
  "grep_files v re pat d [] g = (Some g, g_reads g)"
| "grep_files v re pat d (p # ps) g =
     (if deadline v \<le> clock v (g_reads g) then (None, Suc (g_reads g))
      else (let g1 = g\<lparr>g_reads := Suc (g_reads g)\<rparr>
            in case read_through d p of
                 None \<Rightarrow> grep_files v re pat d ps (g1\<lparr>unsearched := unsearched g1 @ [p]\<rparr>)
               | Some c \<Rightarrow>
                   if length c > max_file_size then grep_files v re pat d ps (g1\<lparr>oversized := oversized g1 @ [p]\<rparr>)
                   else if CHR 0x00 \<in> set (take binary_check_bytes c) then grep_files v re pat d ps g1
                   else (let g2 = g1\<lparr>scanned := Suc (scanned g1), g_reads := Suc (g_reads g1)\<rparr>
                         in if times_out re pat c (g_reads g1) then (None, g_reads g2)
                            else if finds re pat c then grep_files v re pat d ps (g2\<lparr>matching := matching g2 @ [p]\<rparr>)
                            else grep_files v re pat d ps g2)))"

definition not_enumerated :: "string \<Rightarrow> string" where
  "not_enumerated target = ''could not enumerate files matching '' @ quoted target @ ''; assertion unverified''"

text \<open>The verdict of the search for each sense of the assertion.\<close>

definition present_verdict :: "string \<Rightarrow> walk_state \<Rightarrow> grep_state \<Rightarrow> bool option \<times> string" where
  "present_verdict target w g =
     (if matching g \<noteq> [] then
        (Some True, ''pattern found in '' @ show_nat (length (matching g)) @ '' file(s): ''
           @ some_names (map show_path (matching g)))
      else if refused w \<noteq> [] then
        (None, ''target resolves outside the checkout, so it was never read: ''
           @ some_names (map show_path (refused w)))
      else if incomplete w \<noteq> [] then
        (None, ''could not fully enumerate matches for '' @ quoted target @ '': ''
           @ some_names (map show_path (incomplete w)))
      else
        (Some False, ''pattern not found in '' @ show_nat (scanned g) @ '' file(s) matching '' @ quoted target
           @ (if oversized g = [] then []
              else ''; skipped '' @ some_names (map (\<lambda>p. ''file exceeds 1MB limit: '' @ show_path p) (oversized g)))))"

definition skipped_files :: "walk_state \<Rightarrow> grep_state \<Rightarrow> string list" where
  "skipped_files w g =
     map (\<lambda>p. ''file exceeds 1MB limit: '' @ show_path p) (oversized g)
     @ map (\<lambda>p. ''unreadable: '' @ last p) (unsearched g)
     @ map (\<lambda>p. ''outside the checkout: '' @ show_path p) (refused w)
     @ map (\<lambda>p. ''could not classify: '' @ show_path p) (incomplete w)"

definition absent_verdict :: "string \<Rightarrow> walk_state \<Rightarrow> grep_state \<Rightarrow> bool option \<times> string" where
  "absent_verdict target w g =
     (if matching g \<noteq> [] then
        (Some False, ''pattern unexpectedly found in '' @ show_nat (length (matching g)) @ '' file(s): ''
           @ some_names (map show_path (matching g)))
      else if skipped_files w g \<noteq> [] then
        (None, ''pattern absent from the '' @ show_nat (scanned g) @ '' file(s) searched, but ''
           @ show_nat (length (skipped_files w g)) @ '' could not be read, so absence is unverified: ''
           @ some_names (skipped_files w g))
      else
        (Some True, ''pattern correctly absent from '' @ show_nat (scanned g) @ '' file(s) matching '' @ quoted target))"

section \<open>One assertion\<close>

definition verify_grep ::
  "walk_env \<Rightarrow> regex_engine \<Rightarrow> bool \<Rightarrow> assertion \<Rightarrow> node \<Rightarrow> budget \<Rightarrow> assertion_result \<times> budget" where
  "verify_grep v re expect_present a d b =
     (if pattern_cost (a_pattern a) > max_pattern_cost
      then (result_of a None (''invalid regex: refused before compiling: its cost exceeds MAX_PATTERN_COST (''
              @ show_nat max_pattern_cost @ '')''), b)
      else (case compile_error re (a_pattern a) of
        Some e \<Rightarrow> (result_of a None (''invalid regex: '' @ e), b)
      | None \<Rightarrow>
          (case walk_checkout v d (a_target a) b of
             (None, b1) \<Rightarrow> (result_of a None (not_enumerated (a_target a)), b1)
           | (Some w, b1) \<Rightarrow>
               (case grep_files v re (a_pattern a) d (files w)
                       \<lparr>matching = [], oversized = [], unsearched = [], scanned = 0, g_reads = snd b1\<rparr> of
                  (None, n) \<Rightarrow> (result_of a None ''verification exceeded its 5s budget; assertion unverified'', (fst b1, n))
                | (Some g, n) \<Rightarrow>
                    (let (passed, ev) = (if expect_present then present_verdict (a_target a) w g
                                         else absent_verdict (a_target a) w g)
                     in (result_of a passed ev, (fst b1, n)))))))"

definition verify_glob ::
  "walk_env \<Rightarrow> bool \<Rightarrow> assertion \<Rightarrow> node \<Rightarrow> budget \<Rightarrow> assertion_result \<times> budget" where
  "verify_glob v expect_exists a d b =
     (case walk_checkout v d (a_target a) b of
        (None, b1) \<Rightarrow> (result_of a None (not_enumerated (a_target a)), b1)
      | (Some w, b1) \<Rightarrow>
          (let inside = files w @ glob_only w;
               excluded = map (\<lambda>p. ''outside the checkout: '' @ show_path p) (refused w)
                 @ map (\<lambda>p. ''could not classify: '' @ show_path p) (incomplete w);
               verdict =
                 (if expect_exists then
                    if inside \<noteq> [] then
                      (Some True, show_nat (length inside) @ '' file(s) found matching '' @ quoted (a_target a))
                    else if excluded \<noteq> [] then
                      (None, ''only match(es) outside the checkout or unreadable: '' @ some_names excluded)
                    else (Some False, ''no files found matching '' @ quoted (a_target a))
                  else
                    if inside \<noteq> [] then
                      (Some False, show_nat (length inside) @ '' file(s) unexpectedly found matching '' @ quoted (a_target a))
                    else if excluded \<noteq> [] then
                      (None, ''no matches confirmed inside the checkout, but '' @ show_nat (length excluded)
                         @ '' could not be verified: '' @ some_names excluded)
                    else (Some True, ''correctly no files matching '' @ quoted (a_target a)))
           in (result_of a (fst verdict) (snd verdict), b1)))"

fun verify_single :: "walk_env \<Rightarrow> regex_engine \<Rightarrow> assertion \<Rightarrow> node \<Rightarrow> budget \<Rightarrow> assertion_result \<times> budget" where
  "verify_single v re a d b =
     (if overlong a
      then (result_of a None (''pattern or target longer than '' @ show_nat max_pattern_len
              @ '' characters; refused unverified''), b)
      else (case a_type a of
              GrepPresent \<Rightarrow> verify_grep v re True a d b
            | GrepAbsent \<Rightarrow> verify_grep v re False a d b
            | GlobExists \<Rightarrow> verify_glob v True a d b
            | GlobAbsent \<Rightarrow> verify_glob v False a d b))"

section \<open>All of them\<close>

text \<open>
  What opening the root of the checkout gives: there is none, it is absent, it is refused (with the
  reason), or its directory.
\<close>

datatype checkout = NoRoot | MissingRoot | RefusedRoot string | OpenRoot node

fun verify_loop ::
  "walk_env \<Rightarrow> regex_engine \<Rightarrow> assertion list \<Rightarrow> node \<Rightarrow> budget \<Rightarrow> assertion_result list" where
  "verify_loop v re [] d b = []"
| "verify_loop v re (a # as) d b =
     (let b1 = (fst b, Suc (snd b))
      in if deadline v \<le> clock v (snd b)
         then result_of a None ''the call's verification budget is spent; assertion unverified''
           # verify_loop v re as d b1
         else (let (r, b2) = verify_single v re a d b1 in r # verify_loop v re as d b2))"

text \<open>The clock is read twice before the loop, for the log and for the deadline.\<close>

definition verify_assertions ::
  "walk_env \<Rightarrow> regex_engine \<Rightarrow> assertion list \<Rightarrow> checkout \<Rightarrow> assertion_result list" where
  "verify_assertions v re as co =
     (if as = [] then []
      else (case co of
        NoRoot \<Rightarrow> map (\<lambda>a. result_of a None ''project_root unavailable'') as
      | MissingRoot \<Rightarrow> map (\<lambda>a. result_of a None ''project_root unavailable'') as
      | RefusedRoot why \<Rightarrow> map (\<lambda>a. result_of a None why) as
      | OpenRoot d \<Rightarrow>
          verify_loop (v\<lparr>deadline := clock v 1 + match_deadline\<rparr>) re as d (max_walk_work, 2)))"

section \<open>What the search of the files says\<close>

definition is_binary :: "string \<Rightarrow> bool" where
  "is_binary c \<longleftrightarrow> CHR 0x00 \<in> set (take binary_check_bytes c)"

definition hit :: "regex_engine \<Rightarrow> string \<Rightarrow> node \<Rightarrow> path \<Rightarrow> bool" where
  "hit re pat d p = (case read_through d p of None \<Rightarrow> False
     | Some c \<Rightarrow> length c \<le> max_file_size \<and> \<not> is_binary c \<and> finds re pat c)"

definition too_big :: "node \<Rightarrow> path \<Rightarrow> bool" where
  "too_big d p = (case read_through d p of None \<Rightarrow> False | Some c \<Rightarrow> max_file_size < length c)"

lemma grep_files_finds:
  "grep_files v re pat d ps g = (Some h, n) \<Longrightarrow>
    matching h = matching g @ filter (hit re pat d) ps \<and> oversized h = oversized g @ filter (too_big d) ps
    \<and> unsearched h = unsearched g @ filter (\<lambda>p. read_through d p = None) ps"
proof (induction v re pat d ps g rule: grep_files.induct)
  case (2 v re pat d p ps g)
  note IH = "2.IH" and G = "2.prems"
  from G have t: "\<not> deadline v \<le> clock v (g_reads g)" by (auto split: if_splits)
  show ?case
  proof (cases "read_through d p")
    case None
    with G t IH(1) [OF t refl None] show ?thesis by (simp add: hit_def too_big_def Let_def)
  next
    case (Some c)
    show ?thesis
    proof (cases "length c > max_file_size")
      case True
      with G t Some IH(2) [OF t refl Some True] show ?thesis by (simp add: hit_def too_big_def Let_def)
    next
      case small: False
      show ?thesis
      proof (cases "is_binary c")
        case True
        with G t Some small IH(3) [OF t refl Some small] show ?thesis
          by (simp add: hit_def too_big_def is_binary_def Let_def)
      next
        case False
        then have nb: "CHR 0x00 \<notin> set (take binary_check_bytes c)" by (simp add: is_binary_def)
        from G t Some small nb have m: "\<not> times_out re pat c (g_reads (g\<lparr>g_reads := Suc (g_reads g)\<rparr>))"
          by (auto simp: Let_def split: if_splits)
        show ?thesis
        proof (cases "finds re pat c")
          case True
          with G t Some small nb m IH(4) [OF t refl Some small nb refl m True] False show ?thesis
            by (simp add: hit_def too_big_def Let_def)
        next
          case no: False
          with G t Some small nb m IH(5) [OF t refl Some small nb refl m no] False show ?thesis
            by (simp add: hit_def too_big_def Let_def)
        qed
      qed
    qed
  qed
qed simp

lemma open_entry:
  assumes "distinct_names d" "(n, k) \<in> set (open_entries v d)"
  shows "map_of (kids_of d) n = Some k"
proof -
  from assms(2) obtain a kids where d: "d = Directory a kids" "(n, k) \<in> set kids"
    by (auto simp: open_entries_def all_entries_def split: node.splits if_splits)
  with assms(1) show ?thesis by (simp add: kids_of_def)
qed

lemma reach_opens: "reach_by (open_entries v) k (m # p) e \<Longrightarrow> opens k"
  by (cases p) (auto simp: open_entries_def opens_def split: node.splits if_splits)

lemma read_reached:
  "distinct_names d \<Longrightarrow> reach_by (open_entries v) d p (Regular c rd) \<Longrightarrow>
    read_through d p = (if rd then Some (take (Suc max_file_size) c) else None)"
proof (induction p arbitrary: d)
  case (Cons n p)
  show ?case
  proof (cases p)
    case Nil
    with Cons.prems open_entry [of d n "Regular c rd" v] show ?thesis by (cases rd) simp_all
  next
    case (Cons m ms)
    with Cons.prems obtain k where k: "(n, k) \<in> set (open_entries v d)" "reach_by (open_entries v) k p (Regular c rd)"
      by auto
    have "distinct_names k" by (rule listed_distinct(2) [OF Cons.prems(1) k(1)])
    from Cons.IH [OF this k(2)] open_entry [OF Cons.prems(1) k(1)] reach_opens k(2) Cons
    show ?thesis by auto
  qed
qed simp

text \<open>What is true of a checkout, in terms of its files alone.\<close>

definition target_file :: "walk_env \<Rightarrow> string \<Rightarrow> node \<Rightarrow> path \<Rightarrow> string \<Rightarrow> bool \<Rightarrow> bool" where
  "target_file v target d p c rd \<longleftrightarrow>
     reach_by (all_entries v) d p (Regular c rd) \<and> parts_match (raw_parts target) p \<and> \<not> suffix ''/'' target"

definition target_exists :: "walk_env \<Rightarrow> string \<Rightarrow> node \<Rightarrow> bool" where
  "target_exists v target d \<longleftrightarrow>
     (\<exists>p k. reach_by (all_entries v) d p k \<and> parts_match (raw_parts target) p
        \<and> (suffix ''/'' target \<longrightarrow> is_directory k))"

definition plain_text :: "string \<Rightarrow> bool \<Rightarrow> bool" where
  "plain_text c rd \<longleftrightarrow> rd \<and> length c \<le> max_file_size \<and> \<not> is_binary c"

definition verdict_holds :: "walk_env \<Rightarrow> regex_engine \<Rightarrow> assertion \<Rightarrow> node \<Rightarrow> bool \<Rightarrow> bool" where
  "verdict_holds v re a d passed =
     (case a_type a of
        GlobExists \<Rightarrow> passed = target_exists v (a_target a) d
      | GlobAbsent \<Rightarrow> passed = (\<not> target_exists v (a_target a) d)
      | GrepPresent \<Rightarrow>
          (if passed then \<exists>p c. target_file v (a_target a) d p c True \<and> plain_text c True \<and> finds re (a_pattern a) c
           else \<forall>p c rd. target_file v (a_target a) d p c rd \<and> plain_text c rd \<longrightarrow> \<not> finds re (a_pattern a) c)
      | GrepAbsent \<Rightarrow>
          (if passed then \<forall>p c rd. target_file v (a_target a) d p c rd \<longrightarrow>
             rd \<and> length c \<le> max_file_size \<and> (is_binary c \<or> \<not> finds re (a_pattern a) c)
           else \<exists>p c. target_file v (a_target a) d p c True \<and> plain_text c True \<and> finds re (a_pattern a) c))"

lemma open_reach_all: "reach_by (open_entries v) d p k \<Longrightarrow> reach_by (all_entries v) d p k"
proof (induction p arbitrary: d)
  case (Cons n p)
  have sub: "\<And>e. e \<in> set (open_entries v d) \<Longrightarrow> e \<in> set (all_entries v d)" using listed_visible by blast
  show ?case
  proof (cases p)
    case Nil
    with Cons.prems sub show ?thesis by simp
  next
    case (Cons m ms)
    with Cons.prems Cons.IH sub show ?thesis by auto
  qed
qed simp

lemma found_file:
  assumes "mono (clock v)" "distinct_names d" "walk_checkout v d target b = (Some w, b1)" "p \<in> set (files w)"
  shows "\<exists>c rd. target_file v target d p c rd
    \<and> read_through d p = (if rd then Some (take (Suc max_file_size) c) else None)"
proof -
  note E = conjunct1 [OF walk_exact [OF assms(1-3), of p]]
  from E assms(4) obtain c rd where f: "\<not> suffix ''/'' target" "parts_match (raw_parts target) p"
    "reach_by (open_entries v) d p (Regular c rd)" by blast
  then have "target_file v target d p c rd" using open_reach_all unfolding target_file_def by blast
  with read_reached [OF assms(2) f(3)] show ?thesis by blast
qed

lemma found_hit:
  assumes "mono (clock v)" "distinct_names d" "walk_checkout v d target b = (Some w, b1)"
    "p \<in> set (files w)" "hit re pat d p"
  shows "\<exists>p c. target_file v target d p c True \<and> plain_text c True \<and> finds re pat c"
proof -
  from found_file [OF assms(1-4)] obtain c rd where f: "target_file v target d p c rd"
    "read_through d p = (if rd then Some (take (Suc max_file_size) c) else None)" by blast
  with assms(5) have rd: "rd" "length (take (Suc max_file_size) c) \<le> max_file_size"
    "\<not> is_binary (take (Suc max_file_size) c)" "finds re pat (take (Suc max_file_size) c)"
    by (auto simp: hit_def split: if_splits)
  from rd(2) have "take (Suc max_file_size) c = c" by simp
  with rd f(1) show ?thesis by (auto simp: plain_text_def)
qed

text \<open>A clean enumeration has every file that matches, so the loop has looked at each.\<close>

lemma clean_file:
  assumes "mono (clock v)" "distinct_names d" "walk_checkout v d target b = (Some w, b1)"
    "refused w = []" "incomplete w = []" "target_file v target d p c rd"
  shows "p \<in> set (files w) \<and> read_through d p = (if rd then Some (take (Suc max_file_size) c) else None)"
proof -
  from assms(6) have t: "reach_by (all_entries v) d p (Regular c rd)" "parts_match (raw_parts target) p"
    "\<not> suffix ''/'' target" by (simp_all add: target_file_def)
  have o: "reach_by (open_entries v) d p (Regular c rd)" by (rule walk_clean_open [OF assms(1-5) t(2,1)])
  with walk_exact [OF assms(1-3), of p] t have "p \<in> set (files w)" by blast
  with read_reached [OF assms(2) o] show ?thesis by blast
qed

section \<open>What a verdict says of the checkout\<close>

lemma exists_found:
  assumes "mono (clock v)" "distinct_names d" "walk_checkout v d target b = (Some w, b1)"
    "files w \<noteq> [] \<or> glob_only w \<noteq> []"
  shows "target_exists v target d"
proof -
  from assms(4) obtain p where "p \<in> set (files w) \<or> p \<in> set (glob_only w)" by (cases "files w"; cases "glob_only w") auto
  with walk_exact [OF assms(1-3), of p] obtain k where "reach_by (open_entries v) d p k"
    "parts_match (raw_parts target) p" "suffix ''/'' target \<longrightarrow> is_directory k" by blast
  then show ?thesis using open_reach_all unfolding target_exists_def by blast
qed

lemma exists_clean:
  assumes "mono (clock v)" "distinct_names d" "walk_checkout v d target b = (Some w, b1)"
    "refused w = []" "incomplete w = []" "files w = []" "glob_only w = []"
  shows "\<not> target_exists v target d"
  using walk_clean [OF assms(1-5)] assms(6,7) unfolding target_exists_def by fastforce

lemma verify_glob_true:
  assumes "mono (clock v)" "distinct_names d" "verify_glob v want a d b = (r, b')" "r_passed r = Some passed"
  shows "passed = (want = target_exists v (a_target a) d)"
proof -
  obtain o1 b1 where w: "walk_checkout v d (a_target a) b = (o1, b1)" by (rule prod.exhaust)
  with assms(3,4) obtain w' where o1: "o1 = Some w'" by (cases o1) (auto simp: verify_glob_def result_of_def)
  note W = w [unfolded o1]
  show ?thesis
  proof (cases "files w' = [] \<and> glob_only w' = []")
    case False
    with assms(3,4) W exists_found [OF assms(1,2) W] show ?thesis
      by (auto simp: verify_glob_def result_of_def Let_def split: if_splits)
  next
    case True
    with assms(3,4) W have "refused w' = []" "incomplete w' = []"
      by (auto simp: verify_glob_def result_of_def Let_def split: if_splits)
    with True assms(3,4) W exists_clean [OF assms(1,2) W] show ?thesis
      by (auto simp: verify_glob_def result_of_def Let_def split: if_splits)
  qed
qed

lemma verify_grep_cases:
  assumes "verify_grep v re want a d b = (r, b')" "r_passed r = Some passed"
  obtains w b1 g n where "walk_checkout v d (a_target a) b = (Some w, b1)"
    "grep_files v re (a_pattern a) d (files w)
       \<lparr>matching = [], oversized = [], unsearched = [], scanned = 0, g_reads = snd b1\<rparr> = (Some g, n)"
    "Some passed = fst (if want then present_verdict (a_target a) w g else absent_verdict (a_target a) w g)"
proof -
  obtain o1 b1 where w: "walk_checkout v d (a_target a) b = (o1, b1)" by (rule prod.exhaust)
  from assms w obtain w' where o1: "o1 = Some w'"
    by (cases o1) (auto simp: verify_grep_def result_of_def split: if_splits option.splits)
  obtain o2 n where g: "grep_files v re (a_pattern a) d (files w')
       \<lparr>matching = [], oversized = [], unsearched = [], scanned = 0, g_reads = snd b1\<rparr> = (o2, n)" by (rule prod.exhaust)
  from assms w o1 g obtain g' where o2: "o2 = Some g'"
    by (cases o2) (auto simp: verify_grep_def result_of_def split: if_splits option.splits)
  have "Some passed = fst (if want then present_verdict (a_target a) w' g' else absent_verdict (a_target a) w' g')"
    using assms w o1 g o2
    by (auto simp: verify_grep_def result_of_def split: if_splits option.splits prod.splits)
  with that w o1 g o2 show ?thesis by blast
qed

lemma file_searched:
  assumes "mono (clock v)" "distinct_names d" "walk_checkout v d target b = (Some w, b1)"
    "refused w = []" "incomplete w = []" "target_file v target d p c rd"
  shows "rd \<Longrightarrow> length c \<le> max_file_size \<Longrightarrow> \<not> is_binary c \<Longrightarrow> finds re pat c \<Longrightarrow> hit re pat d p"
    "\<not> rd \<Longrightarrow> read_through d p = None" "rd \<Longrightarrow> max_file_size < length c \<Longrightarrow> too_big d p" "p \<in> set (files w)"
  using clean_file [OF assms] by (auto simp: hit_def too_big_def)

lemma verify_grep_true:
  assumes "mono (clock v)" "distinct_names d" "verify_grep v re want a d b = (r, b')" "r_passed r = Some passed"
  shows "if want
    then (if passed then \<exists>p c. target_file v (a_target a) d p c True \<and> plain_text c True \<and> finds re (a_pattern a) c
          else \<forall>p c rd. target_file v (a_target a) d p c rd \<and> plain_text c rd \<longrightarrow> \<not> finds re (a_pattern a) c)
    else (if passed then \<forall>p c rd. target_file v (a_target a) d p c rd \<longrightarrow>
             rd \<and> length c \<le> max_file_size \<and> (is_binary c \<or> \<not> finds re (a_pattern a) c)
          else \<exists>p c. target_file v (a_target a) d p c True \<and> plain_text c True \<and> finds re (a_pattern a) c)"
proof -
  obtain w b1 g n where w: "walk_checkout v d (a_target a) b = (Some w, b1)"
    and g: "grep_files v re (a_pattern a) d (files w)
       \<lparr>matching = [], oversized = [], unsearched = [], scanned = 0, g_reads = snd b1\<rparr> = (Some g, n)"
    and p: "Some passed = fst (if want then present_verdict (a_target a) w g else absent_verdict (a_target a) w g)"
    by (rule verify_grep_cases [OF assms(3,4)])
  from grep_files_finds [OF g] have G: "matching g = filter (hit re (a_pattern a) d) (files w)"
    "oversized g = filter (too_big d) (files w)" "unsearched g = filter (\<lambda>p. read_through d p = None) (files w)"
    by simp_all
  note S = file_searched [OF assms(1,2) w]
  show ?thesis
  proof (cases "matching g = []")
    case False
    then obtain q where "q \<in> set (files w)" "hit re (a_pattern a) d q"
      using G(1) by (metis filter_False)
    from found_hit [OF assms(1,2) w this]
    have found: "\<exists>p c. target_file v (a_target a) d p c True \<and> plain_text c True \<and> finds re (a_pattern a) c" .
    have "passed = want" using False p by (auto simp: present_verdict_def absent_verdict_def split: if_splits)
    with found show ?thesis by auto
  next
    case True
    then have none: "\<And>q. q \<in> set (files w) \<Longrightarrow> \<not> hit re (a_pattern a) d q"
      using G(1) by (simp add: filter_empty_conv)
    have passed: "passed = (\<not> want)" and clean: "refused w = []" "incomplete w = []"
      and whole: "\<not> want \<Longrightarrow> oversized g = [] \<and> unsearched g = []"
      using True p by (auto simp: present_verdict_def absent_verdict_def skipped_files_def split: if_splits)
    note S = file_searched [OF assms(1,2) w clean]
    show ?thesis
    proof (cases want)
      case True
      have "\<not> finds re (a_pattern a) c"
        if t: "target_file v (a_target a) d q c rd" and pl: "plain_text c rd" for q c rd
        using S(1) [OF t, of re "a_pattern a"] none [OF S(4) [OF t]] pl unfolding plain_text_def by blast
      with True passed show ?thesis by auto
    next
      case False
      have all_read: "\<And>q. q \<in> set (files w) \<Longrightarrow> read_through d q \<noteq> None"
        and none_big: "\<And>q. q \<in> set (files w) \<Longrightarrow> \<not> too_big d q"
        using whole [OF False] G(2,3) by (simp_all add: filter_empty_conv)
      have "rd \<and> length c \<le> max_file_size \<and> (is_binary c \<or> \<not> finds re (a_pattern a) c)"
        if t: "target_file v (a_target a) d q c rd" for q c rd
      proof -
        note in_files = S(4) [OF t]
        have "rd" using S(2) [OF t] all_read [OF in_files] by blast
        moreover from this have "length c \<le> max_file_size"
          using S(3) [OF t] none_big [OF in_files] not_less by blast
        ultimately show ?thesis using S(1) [OF t, of re "a_pattern a"] none [OF in_files] by blast
      qed
      with False passed show ?thesis by auto
    qed
  qed
qed

lemma verify_single_true:
  assumes "mono (clock v)" "distinct_names d" "verify_single v re a d b = (r, b')" "r_passed r = Some passed"
  shows "verdict_holds v re a d passed"
proof -
  have no: "\<not> overlong a" using assms(3,4) by (auto simp: result_of_def)
  show ?thesis
  proof (cases "a_type a")
    case GrepPresent
    with no assms(3) verify_grep_true [OF assms(1,2) _ assms(4), of re True a b b'] show ?thesis
      by (simp add: verdict_holds_def)
  next
    case GrepAbsent
    with no assms(3) verify_grep_true [OF assms(1,2) _ assms(4), of re False a b b'] show ?thesis
      by (simp add: verdict_holds_def)
  next
    case GlobExists
    with no assms(3) verify_glob_true [OF assms(1,2) _ assms(4), of True a b b'] show ?thesis
      by (simp add: verdict_holds_def)
  next
    case GlobAbsent
    with no assms(3) verify_glob_true [OF assms(1,2) _ assms(4), of False a b b'] show ?thesis
      by (simp add: verdict_holds_def)
  qed
qed

text \<open>What a result says of the assertion it is for.\<close>

definition answers_to :: "walk_env \<Rightarrow> regex_engine \<Rightarrow> checkout \<Rightarrow> assertion \<Rightarrow> assertion_result \<Rightarrow> bool" where
  "answers_to v re co a r \<longleftrightarrow>
     (r_type r, r_pattern r, r_target r) = (a_type a, a_pattern a, a_target a)
     \<and> (\<forall>passed. r_passed r = Some passed \<longrightarrow> (\<exists>d. co = OpenRoot d \<and> verdict_holds v re a d passed))"

lemma verdict_holds_deadline [simp]: "verdict_holds (v\<lparr>deadline := t\<rparr>) = verdict_holds v"
proof -
  have e: "all_entries (v\<lparr>deadline := t\<rparr>) = all_entries v"
    by (simp add: fun_eq_iff all_entries_def skipped_name_def split: node.splits)
  have T: "target_file (v\<lparr>deadline := t\<rparr>) = target_file v" "target_exists (v\<lparr>deadline := t\<rparr>) = target_exists v"
    unfolding fun_eq_iff target_file_def target_exists_def e by simp_all
  show ?thesis by (intro ext) (simp only: verdict_holds_def T)
qed

lemma result_of_fields [simp]:
  "r_type (result_of a p e) = a_type a" "r_pattern (result_of a p e) = a_pattern a"
  "r_target (result_of a p e) = a_target a" "r_passed (result_of a p e) = p" "r_evidence (result_of a p e) = e"
  by (simp_all add: result_of_def)

lemma verify_single_names:
  assumes "verify_single v re a d b = (r, b')"
  shows "(r_type r, r_pattern r, r_target r) = (a_type a, a_pattern a, a_target a)"
  using assms
  by (auto simp: verify_grep_def verify_glob_def Let_def split: if_splits option.splits prod.splits assertion_type.splits)

lemma verify_loop_answers:
  assumes "mono (clock v)" "distinct_names d"
  shows "list_all2 (answers_to v re (OpenRoot d)) as (verify_loop v re as d b)"
proof (induction as arbitrary: b)
  case (Cons a as)
  show ?case
  proof (cases "deadline v \<le> clock v (snd b)")
    case True
    with Cons show ?thesis by (simp add: answers_to_def)
  next
    case False
    obtain r b2 where s: "verify_single v re a d (fst b, Suc (snd b)) = (r, b2)" by (rule prod.exhaust)
    have "answers_to v re (OpenRoot d) a r"
      using verify_single_names [OF s] verify_single_true [OF assms s] unfolding answers_to_def by blast
    with False s Cons show ?thesis by (simp del: verify_single.simps)
  qed
qed simp

lemma verify_assertions_answers:
  assumes "mono (clock v)" "\<forall>d. co = OpenRoot d \<longrightarrow> distinct_names d"
  shows "list_all2 (answers_to v re co) as (verify_assertions v re as co)"
proof (cases "as = []")
  case True
  then show ?thesis by (simp add: verify_assertions_def)
next
  case False
  have unknown: "list_all2 (answers_to v re co) as (map (\<lambda>a. result_of a None (f a)) as)" for f
    by (simp add: list.rel_map list_all2_same answers_to_def)
  show ?thesis
  proof (cases co)
    case (OpenRoot d)
    let ?u = "v\<lparr>deadline := clock v 1 + match_deadline\<rparr>"
    have "list_all2 (answers_to ?u re (OpenRoot d)) as (verify_loop ?u re as d (max_walk_work, 2))"
      by (rule verify_loop_answers) (use assms OpenRoot in simp_all)
    moreover have "answers_to ?u = answers_to v" by (simp add: fun_eq_iff answers_to_def)
    ultimately show ?thesis using False OpenRoot by (simp add: verify_assertions_def)
  qed (use False unknown in \<open>simp_all add: verify_assertions_def\<close>)
qed


section \<open>What a compiled pattern costs\<close>

definition largest_count :: "string \<Rightarrow> nat" where
  "largest_count braces = max_from 1 (map run_value (digit_runs [] braces))"

lemma cost_loop_product:
  "cost_loop bs c \<le> max_pattern_cost \<Longrightarrow> c * prod_list (map largest_count bs) \<le> max_pattern_cost"
  by (induction bs c rule: cost_loop.induct) (auto simp: Let_def largest_count_def mult.assoc split: if_splits)

lemma compiled_pattern_is_small:
  assumes "pattern_cost p \<le> max_pattern_cost"
  shows "length p \<le> max_pattern_len \<and> \<not> verbose_flag p
    \<and> length p * prod_list (map largest_count (braces_from None p)) \<le> max_pattern_cost"
proof -
  have len: "length p \<le> max_pattern_len"
    and loop: "cost_loop (braces_from None p) (if verbose_flag p then max_pattern_cost + 1 else length p) \<le> max_pattern_cost"
    using assms by (auto simp: pattern_cost_def split: if_splits)
  have pos: "0 < prod_list (map largest_count bs)" for bs
  proof (induction bs)
    case (Cons b bs)
    have "0 < largest_count b" using max_from_ge [of 1 "map run_value (digit_runs [] b)"]
      unfolding largest_count_def by linarith
    with Cons show ?case by simp
  qed simp
  have "\<not> verbose_flag p"
  proof
    assume "verbose_flag p"
    with cost_loop_product [OF loop] have "Suc max_pattern_cost * prod_list (map largest_count (braces_from None p)) \<le> max_pattern_cost"
      by simp
    moreover have "Suc max_pattern_cost * 1 \<le> Suc max_pattern_cost * prod_list (map largest_count (braces_from None p))"
      using pos [of "braces_from None p"] by (intro mult_le_mono2) simp
    ultimately show False by simp
  qed
  with len cost_loop_product [OF loop] show ?thesis by simp
qed

section \<open>Concrete assertions\<close>

definition plain_engine :: regex_engine where
  "plain_engine = \<lparr>compile_error = (\<lambda>_. None), finds = sublist, times_out = (\<lambda>_ _ _. False)\<rparr>"

definition asserts :: "assertion_type \<Rightarrow> string \<Rightarrow> string \<Rightarrow> assertion" where
  "asserts t p target = \<lparr>a_type = t, a_pattern = p, a_target = target, a_last_result = None,
     a_last_verified_at = None, a_last_evidence = [], a_first_failed_at = None, a_commit_hash = None,
     a_line_range = None, a_git_url = None\<rparr>"

definition verdicts :: "node \<Rightarrow> assertion list \<Rightarrow> bool option list" where
  "verdicts d as = map r_passed (verify_assertions sample_env plain_engine as (OpenRoot d))"

lemmas walk_eval = verdicts_def verify_assertions_def verify_grep_def verify_glob_def walk_checkout_def
  walk.simps walk_subs.simps walk_names.simps entries_of_def collect_leaf_def start_walk_def raw_parts_def
  is_directory_def opens_def late_def tick_def skipped_name_def sample_env_def default_excludes_def
  overlong_def pattern_cost_def max_pattern_len_def max_pattern_cost_def max_file_size_def
  binary_check_bytes_def max_walk_work_def match_deadline_def asserts_def plain_engine_def result_of_def
  present_verdict_def absent_verdict_def skipped_files_def kids_of_def fnmatches.simps
  suffix_to_prefix sublist_Cons_right bracket_def class_matches_def Let_def

lemma sample_verdicts:
  "verdicts sample_tree
     [asserts GrepPresent ''x = 1'' ''src/[!l]*.py'', asserts GrepAbsent ''x = 9'' ''src/*.py'',
      asserts GlobExists [] ''src/sub'', asserts GlobAbsent [] ''src/*.rs'']
   = [Some True, None, Some True, Some True]"
  by (simp add: walk_eval sample_tree_def)

text \<open>
  A file with a zero byte near its start is passed over in silence, so an assertion of absence passes
  over a file that holds the pattern.
\<close>

lemma absence_passes_over_binary:
  "verdicts (Directory Listable [(''data.bin'', Regular (CHR 0x00 # ''secret'') True)])
     [asserts GrepAbsent ''secret'' ''*.bin''] = [Some True]"
  by (simp add: walk_eval)

text \<open>
  A file that cannot be read makes an assertion of absence unverified, but one of presence fails: the
  pattern is reported as not found though the only file of the target was never searched.
\<close>

lemma presence_fails_on_unread_file:
  "verdicts (Directory Listable [(''key.pem'', Regular ''secret'' False)])
     [asserts GrepPresent ''secret'' ''*.pem'', asserts GrepAbsent ''secret'' ''*.pem''] = [Some False, None]"
  by (simp add: walk_eval)


end
