(* ===== verification/VerificationPass.thy ===== *)
theory VerificationPass
  imports Verification ClaimTree Reads
begin

text \<open>
  The verification pass of one entry and what it writes (\<^verbatim>\<open>lifecycle/verification_pass.py\<close>, with the
  anchor scores of \<^verbatim>\<open>lifecycle/anchor_validation.py\<close>): which assertions are held because the checkout
  is behind their commit, the verdict, and the conditional update of the row. A verification status is
  \<open>Some True\<close> for ``verified'' and \<open>Some False\<close> for ``stale''.
\<close>

section \<open>Anchors\<close>

text \<open>
  What the standard library does with a file's bytes: their text, and which characters are word
  characters. \<open>iso\<close> writes an instant.
\<close>

record text_env =
  decode :: "string \<Rightarrow> string"
  is_word :: "char \<Rightarrow> bool"
  iso :: "int \<Rightarrow> string"

definition whole_name_at :: "text_env \<Rightarrow> string \<Rightarrow> string \<Rightarrow> nat \<Rightarrow> bool" where
  "whole_name_at x nm c i \<longleftrightarrow>
     take (length nm) (drop i c) = nm
     \<and> (i = 0 \<or> \<not> is_word x (c ! (i - 1)))
     \<and> (length c \<le> i + length nm \<or> \<not> is_word x (c ! (i + length nm)))"

definition names_symbol :: "text_env \<Rightarrow> string \<Rightarrow> string \<Rightarrow> bool" where
  "names_symbol x nm c \<longleftrightarrow> list_ex (whole_name_at x nm c) [0..<Suc (length c - length nm)]"

text \<open>
  \<open>_anchor_relative_parts\<close>: the components below the root, which is given by its own; \<open>None\<close> where the
  path is refused.
\<close>

definition anchor_parts :: "string list \<Rightarrow> string \<Rightarrow> path option" where
  "anchor_parts root_parts f =
     (let ps = raw_parts f
      in if ''..'' \<in> set ps then None
         else if prefix ''/'' f then
           (if prefix root_parts ps \<and> ps \<noteq> root_parts then Some (drop (length root_parts) ps) else None)
         else if ps = [] then None else Some ps)"

definition read_anchor_file :: "text_env \<Rightarrow> string list \<Rightarrow> checkout \<Rightarrow> string \<Rightarrow> string option" where
  "read_anchor_file x root_parts co f =
     (case co of
        OpenRoot d \<Rightarrow>
          (case anchor_parts root_parts f of
             None \<Rightarrow> None
           | Some ps \<Rightarrow>
               (case read_through d ps of
                  None \<Rightarrow> None
                | Some c \<Rightarrow> if length c > max_file_size then None else Some (decode x c)))
      | _ \<Rightarrow> None)"

definition anchor_valid :: "text_env \<Rightarrow> string list \<Rightarrow> checkout \<Rightarrow> anchor \<Rightarrow> bool" where
  "anchor_valid x root_parts co a \<longleftrightarrow>
     an_symbol_name a \<noteq> [] \<and> an_file a \<noteq> []
     \<and> (case read_anchor_file x root_parts co (an_file a) of
          None \<Rightarrow> False | Some c \<Rightarrow> names_symbol x (an_symbol_name a) c)"

definition compute_anchor_validity :: "text_env \<Rightarrow> string list \<Rightarrow> checkout \<Rightarrow> anchor list \<Rightarrow> rat" where
  "compute_anchor_validity x root_parts co as =
     (if as = [] then 1
      else round_decimals 2
        (min 1 (of_nat (length (filter (anchor_valid x root_parts co) as)) / of_nat (length as))))"

definition reverify_anchors :: "text_env \<Rightarrow> string list \<Rightarrow> checkout \<Rightarrow> anchor list \<Rightarrow> rat option" where
  "reverify_anchors x root_parts co as =
     (if as = [] \<or> co = NoRoot then None else Some (compute_anchor_validity x root_parts co as))"

section \<open>The pass over one entry\<close>

record verification_outcome =
  o_id :: string
  o_namespace :: string
  o_updated :: "assertion list"
  o_details :: "(string \<times> assertion_result) list"
  o_passing :: nat
  o_failing :: nat
  o_unknown :: nat
  o_penalty :: rat
  o_status :: "bool option"
  o_checked_at :: string
  o_anchor_validity :: "rat option"
  o_verifiable :: bool
  o_tree_behind :: bool

definition fresh_outcome :: "string \<Rightarrow> string \<Rightarrow> verification_outcome" where
  "fresh_outcome i ns =
     \<lparr>o_id = i, o_namespace = ns, o_updated = [], o_details = [], o_passing = 0, o_failing = 0, o_unknown = 0,
      o_penalty = 0, o_status = None, o_checked_at = [], o_anchor_validity = None, o_verifiable = True,
      o_tree_behind = False\<rparr>"

record verify_settings =
  penalty_scale :: rat
  stale_days :: int
  anchor_floor :: rat

definition default_settings :: verify_settings where
  "default_settings = \<lparr>penalty_scale = 15/100, stale_days = 30, anchor_floor = 1\<rparr>"

definition day_length :: int where "day_length = 86400000000"

text \<open>Everything outside the entry: the clock and engine of the checks, git, and the texts.\<close>

record pass_env =
  p_walk :: walk_env
  p_engine :: regex_engine
  p_git :: git_world
  p_text :: text_env
  p_root_parts :: "string list"

fun held_flags :: "git_world \<Rightarrow> checkout \<Rightarrow> claim_tree option \<Rightarrow> assertion list \<Rightarrow> bool list \<times> claim_tree option" where
  "held_flags w co ct [] = ([], ct)"
| "held_flags w co ct (a # as) =
     (case ct of
        Some t \<Rightarrow>
          if co = NoRoot then (let (hs, ct') = held_flags w co ct as in (False # hs, ct'))
          else (let (h, t') = ClaimTree.behind w (a_commit_hash a) t; (hs, ct') = held_flags w co (Some t') as in (h # hs, ct'))
      | None \<Rightarrow> (let (hs, ct') = held_flags w co ct as in (False # hs, ct')))"

definition held_evidence :: "claim_tree option \<Rightarrow> string option \<Rightarrow> string" where
  "held_evidence ct sha =
     ''checkout HEAD '' @ take 12 (case ct of None \<Rightarrow> [] | Some t \<Rightarrow> (case known_head t of None \<Rightarrow> [] | Some h \<Rightarrow> h))
     @ '' is an ancestor of '' @ take 12 (case sha of None \<Rightarrow> [] | Some s \<Rightarrow> s)
     @ '', the commit this assertion was written at; this tree cannot contain the claim''
     @ [CHR 0x27] @ ''s state''"

text \<open>The results in the order of the assertions; the evaluated ones are consumed in turn.\<close>

fun merge_results ::
  "claim_tree option \<Rightarrow> assertion list \<Rightarrow> bool list \<Rightarrow> assertion_result list \<Rightarrow> assertion_result list" where
  "merge_results ct (a # as) (h # hs) rs =
     (if h then result_of a None (held_evidence ct (a_commit_hash a)) # merge_results ct as hs rs
      else (case rs of [] \<Rightarrow> [] | r # rs' \<Rightarrow> r # merge_results ct as hs rs'))"
| "merge_results ct _ _ rs = []"

definition updated_assertion :: "int \<Rightarrow> assertion \<Rightarrow> assertion_result \<Rightarrow> bool \<Rightarrow> assertion" where
  "updated_assertion now a r h =
     (if h then a\<lparr>a_last_result := None, a_last_verified_at := Some now, a_last_evidence := r_evidence r,
                 a_first_failed_at := None\<rparr>
      else (case r_passed r of
              None \<Rightarrow> a
            | Some ok \<Rightarrow>
                (let a1 = a\<lparr>a_last_result := Some ok, a_last_verified_at := Some now, a_last_evidence := r_evidence r\<rparr>
                 in if ok then a1\<lparr>a_first_failed_at := None\<rparr>
                    else if a_first_failed_at a = None then a1\<lparr>a_first_failed_at := Some now\<rparr> else a1)))"

definition apply_verdict :: "text_env \<Rightarrow> int \<Rightarrow> rat \<Rightarrow> verification_outcome \<Rightarrow> verification_outcome" where
  "apply_verdict x now floor_score vo =
     (if \<not> (0 < o_passing vo + o_failing vo \<or> o_anchor_validity vo \<noteq> None) then vo
      else (let vo1 = vo\<lparr>o_checked_at := iso x now\<rparr>
            in if o_status vo1 = Some False then vo1
               else if o_failing vo1 = 0 \<and> o_unknown vo1 = 0
                       \<and> (case o_anchor_validity vo1 of None \<Rightarrow> True | Some s \<Rightarrow> floor_score \<le> s)
               then vo1\<lparr>o_status := Some True\<rparr> else vo1))"

definition persistently_failing :: "int \<Rightarrow> verify_settings \<Rightarrow> assertion_result list \<Rightarrow> assertion list \<Rightarrow> bool" where
  "persistently_failing now st rs updated \<longleftrightarrow>
     rs \<noteq> [] \<and> list_all (\<lambda>r. r_passed r = Some False) rs \<and> updated \<noteq> []
     \<and> list_all (\<lambda>a. case a_first_failed_at a of None \<Rightarrow> False | Some t \<Rightarrow> t < now - stale_days st * day_length) updated"

definition count_results :: "bool option \<Rightarrow> assertion_result list \<Rightarrow> nat" where
  "count_results b rs = length (filter (\<lambda>r. r_passed r = b) rs)"

text \<open>The outcome once the results are known, before the positive verdict.\<close>

definition folded_outcome ::
  "verify_settings \<Rightarrow> int \<Rightarrow> assertion list \<Rightarrow> bool list \<Rightarrow> assertion_result list \<Rightarrow> verification_outcome
     \<Rightarrow> verification_outcome" where
  "folded_outcome cfg now as held rs vo =
     (let updated = map (\<lambda>(a, r, h). updated_assertion now a r h) (zip as (zip rs held))
      in vo\<lparr>o_passing := count_results (Some True) rs, o_failing := count_results (Some False) rs,
            o_unknown := count_results None rs,
            o_verifiable := o_tree_behind vo \<or> list_ex (\<lambda>r. r_passed r \<noteq> None) rs,
            o_details := zip (map (\<lambda>k. o_id vo @ '':'' @ show_nat k) [1..<Suc (length rs)]) rs,
            o_penalty := (if 0 < count_results (Some False) rs
              then penalty_scale cfg * (of_nat (count_results (Some False) rs) / of_nat (length rs)) else 0),
            o_updated := updated,
            o_status := (if persistently_failing now cfg rs updated then Some False else None)\<rparr>)"

definition run_verification_pass ::
  "pass_env \<Rightarrow> verify_settings \<Rightarrow> int \<Rightarrow> checkout \<Rightarrow> claim_tree option \<Rightarrow> string \<Rightarrow> string \<Rightarrow> assertion list
     \<Rightarrow> anchor list \<Rightarrow> verification_outcome \<times> claim_tree option" where
  "run_verification_pass p cfg now co ct i ns as ans =
     (let (held, ct1) = held_flags (p_git p) co ct as;
          tree_behind = True \<in> set held;
          validity = (if tree_behind then None else reverify_anchors (p_text p) (p_root_parts p) co ans);
          o0 = (fresh_outcome i ns)\<lparr>o_tree_behind := tree_behind, o_anchor_validity := validity\<rparr>
      in if as = [] then
           (apply_verdict (p_text p) now (anchor_floor cfg) (o0\<lparr>o_verifiable := validity \<noteq> None\<rparr>), ct1)
         else
           (let evaluated = verify_assertions (p_walk p) (p_engine p) (map fst (filter (\<lambda>(a, h). \<not> h) (zip as held))) co;
                rs = merge_results ct1 as held evaluated
            in (apply_verdict (p_text p) now (anchor_floor cfg) (folded_outcome cfg now as held rs o0), ct1)))"

section \<open>Writing the verdict\<close>

definition update_fields :: "verification_outcome \<Rightarrow> field_update list" where
  "update_fields vo =
     [UAssertions (o_updated vo), UVerificationStatus (o_status vo)]
     @ (case o_anchor_validity vo of None \<Rightarrow> [] | Some s \<Rightarrow> [UAnchorValidity (Some s)])
     @ (if o_checked_at vo = [] then [] else [UVerificationCheckedAt (o_checked_at vo)])"

definition checked :: "memory_entry option \<Rightarrow> (assertion list \<times> anchor list) option" where
  "checked r = map_option (\<lambda>e. (assertions e, anchors e)) r"

text \<open>\<open>Some True\<close> landed, \<open>None\<close> superseded, \<open>Some False\<close> not written.\<close>

definition persist_verification_outcome ::
  "env \<Rightarrow> int \<Rightarrow> backend \<Rightarrow> verification_outcome \<Rightarrow> memory_entry option \<Rightarrow> backend \<times> bool option" where
  "persist_verification_outcome v now b vo reading =
     (if \<not> o_verifiable vo then (b, Some False)
      else if reading \<noteq> None \<and> checked (backend_get v b (o_id vo) (o_namespace vo)) \<noteq> checked reading
      then (b, None)
      else (case backend_update v now b (o_id vo) (o_namespace vo) (update_fields vo) of
              Inl _ \<Rightarrow> (b, Some False)
            | Inr (b', _) \<Rightarrow> (b', Some True)))"

record verify_summary =
  entries_processed :: nat
  stale_transitions :: nat
  cleared_transitions :: nat
  persist_failures :: nat
  entry_failures :: nat
  invalidated :: nat
  rows_behind :: nat

definition empty_summary :: verify_summary where
  "empty_summary = \<lparr>entries_processed = 0, stale_transitions = 0, cleared_transitions = 0, persist_failures = 0,
     entry_failures = 0, invalidated = 0, rows_behind = 0\<rparr>"

record sweep_state =
  s_store :: backend
  s_tree :: "claim_tree option"
  s_summary :: verify_summary

definition counted_failure :: "sweep_state \<Rightarrow> sweep_state" where
  "counted_failure st = st\<lparr>s_summary := (s_summary st)\<lparr>entry_failures := Suc (entry_failures (s_summary st))\<rparr>\<rparr>"

text \<open>The counters once the row's outcome is known and, where it is verifiable, what the write answered.\<close>

definition counted ::
  "bool option \<Rightarrow> verification_outcome \<Rightarrow> bool option \<Rightarrow> verify_summary \<Rightarrow> verify_summary" where
  "counted prior vo landed s =
     (let s1 = s\<lparr>entries_processed := Suc (entries_processed s), rows_behind := rows_behind s + of_bool (o_tree_behind vo)\<rparr>
      in if \<not> o_verifiable vo then s1
         else if landed \<noteq> Some True
         then s1\<lparr>persist_failures := persist_failures s1 + of_bool (landed = Some False)\<rparr>
         else if o_status vo = Some False \<and> prior \<noteq> Some False
         then s1\<lparr>stale_transitions := Suc (stale_transitions s1)\<rparr>
         else if prior = Some False \<and> o_status vo \<noteq> Some False
         then s1\<lparr>cleared_transitions := Suc (cleared_transitions s1)\<rparr> else s1)"

definition verify_entry ::
  "env \<Rightarrow> pass_env \<Rightarrow> verify_settings \<Rightarrow> int \<Rightarrow> checkout \<Rightarrow> memory_entry \<Rightarrow> sweep_state \<Rightarrow> sweep_state" where
  "verify_entry v p cfg now co e st =
     (if assertions e = [] \<and> anchors e = [] then counted_failure st
      else (let (vo, ct) = run_verification_pass p cfg now co (s_tree st) (eid e) (namespace e) (assertions e) (anchors e);
                st1 = st\<lparr>s_tree := ct\<rparr>
            in if \<not> o_verifiable vo then
                 (if verification_status e = Some True then
                    (case backend_update v now (s_store st) (eid e) (namespace e) [UVerificationStatus None] of
                       Inl _ \<Rightarrow> counted_failure st1
                     | Inr (b', _) \<Rightarrow>
                         st1\<lparr>s_store := b',
                             s_summary := counted (verification_status e) vo None
                               ((s_summary st)\<lparr>invalidated := Suc (invalidated (s_summary st))\<rparr>)\<rparr>)
                  else st1\<lparr>s_summary := counted (verification_status e) vo None (s_summary st)\<rparr>)
               else (let (b', landed) = persist_verification_outcome v now (s_store st) vo (Some e)
                     in st1\<lparr>s_store := b', s_summary := counted (verification_status e) vo landed (s_summary st)\<rparr>)))"

section \<open>What the pass computes\<close>

lemma apply_verdict_frame [simp]:
  "o_id (apply_verdict x now f vo) = o_id vo" "o_namespace (apply_verdict x now f vo) = o_namespace vo"
  "o_updated (apply_verdict x now f vo) = o_updated vo" "o_tree_behind (apply_verdict x now f vo) = o_tree_behind vo"
  "o_anchor_validity (apply_verdict x now f vo) = o_anchor_validity vo"
  "o_verifiable (apply_verdict x now f vo) = o_verifiable vo"
  by (simp_all add: apply_verdict_def Let_def split: option.split)

lemma apply_verdict_stale [simp]:
  "o_status (apply_verdict x now f vo) = Some False \<longleftrightarrow> o_status vo = Some False"
  by (simp add: apply_verdict_def Let_def split: option.split)

lemma apply_verdict_verified:
  assumes "o_status (apply_verdict x now f vo) = Some True" "o_status vo \<noteq> Some True"
  shows "o_failing vo = 0 \<and> o_unknown vo = 0 \<and> (\<forall>s. o_anchor_validity vo = Some s \<longrightarrow> f \<le> s)
    \<and> (0 < o_passing vo \<or> o_anchor_validity vo \<noteq> None)"
  using assms by (auto simp: apply_verdict_def Let_def split: if_splits option.splits)

lemma count_results_0 [simp]: "count_results b rs = 0 \<longleftrightarrow> (\<forall>r \<in> set rs. r_passed r \<noteq> b)"
  by (auto simp: count_results_def filter_empty_conv)

lemma held_flags_length [simp]: "length (fst (held_flags w co ct as)) = length as"
  by (induction as arbitrary: ct) (simp_all add: Let_def split: option.split prod.split, (metis fst_conv)+)

lemma merged_answers:
  assumes "length hs = length as" "list_all2 A (map fst (filter (\<lambda>(a, h). \<not> h) (zip as hs))) rs"
  shows "list_all2 (\<lambda>(a, h) r. if h then r_passed r = None else A a r) (zip as hs) (merge_results ct as hs rs)"
  using assms
proof (induction as arbitrary: hs rs)
  case (Cons a as)
  from Cons.prems(1) obtain h hs' where hs: "hs = h # hs'" "length hs' = length as" by (cases hs) auto
  show ?case
  proof (cases h)
    case True
    with Cons.IH [OF hs(2)] Cons.prems(2) hs show ?thesis by simp
  next
    case False
    with Cons.prems(2) hs obtain r rs' where "rs = r # rs'" "A a r"
      "list_all2 A (map fst (filter (\<lambda>(a, h). \<not> h) (zip as hs'))) rs'" by (auto simp: list_all2_Cons1)
    with False hs Cons.IH [OF hs(2)] show ?thesis by simp
  qed
qed simp

text \<open>A verdict of the checkout itself, whatever was recorded before.\<close>

definition stands_as :: "pass_env \<Rightarrow> checkout \<Rightarrow> assertion \<Rightarrow> bool \<Rightarrow> bool" where
  "stands_as p co a passed \<longleftrightarrow> (\<exists>d. co = OpenRoot d \<and> verdict_holds (p_walk p) (p_engine p) a d passed)"

definition result_for :: "pass_env \<Rightarrow> checkout \<Rightarrow> assertion \<times> bool \<Rightarrow> assertion_result \<Rightarrow> bool" where
  "result_for p co = (\<lambda>(a, h) r.
     if h then r_passed r = None else \<forall>passed. r_passed r = Some passed \<longrightarrow> stands_as p co a passed)"

lemma results_stand:
  assumes "mono (clock (p_walk p))" "\<forall>d. co = OpenRoot d \<longrightarrow> distinct_names d" "length hs = length as"
  shows "list_all2 (result_for p co) (zip as hs)
    (merge_results ct as hs (verify_assertions (p_walk p) (p_engine p)
       (map fst (filter (\<lambda>(a, h). \<not> h) (zip as hs))) co))"
proof -
  from merged_answers [OF assms(3) verify_assertions_answers [OF assms(1,2)], of "p_engine p" ct]
  show ?thesis
    by (rule list_all2_mono) (auto simp: result_for_def answers_to_def stands_as_def split: if_splits)
qed

lemma folded_outcome_simps [simp]:
  "o_passing (folded_outcome cfg now as held rs vo) = count_results (Some True) rs"
  "o_failing (folded_outcome cfg now as held rs vo) = count_results (Some False) rs"
  "o_unknown (folded_outcome cfg now as held rs vo) = count_results None rs"
  "o_updated (folded_outcome cfg now as held rs vo)
     = map (\<lambda>(a, r, h). updated_assertion now a r h) (zip as (zip rs held))"
  "o_tree_behind (folded_outcome cfg now as held rs vo) = o_tree_behind vo"
  "o_anchor_validity (folded_outcome cfg now as held rs vo) = o_anchor_validity vo"
  "o_id (folded_outcome cfg now as held rs vo) = o_id vo"
  "o_namespace (folded_outcome cfg now as held rs vo) = o_namespace vo"
  "o_verifiable (folded_outcome cfg now as held rs vo)
     \<longleftrightarrow> o_tree_behind vo \<or> list_ex (\<lambda>r. r_passed r \<noteq> None) rs"
  "o_status (folded_outcome cfg now as held rs vo) =
     (if persistently_failing now cfg rs (map (\<lambda>(a, r, h). updated_assertion now a r h) (zip as (zip rs held)))
      then Some False else None)"
  by (simp_all add: folded_outcome_def Let_def)

lemma run_pass_judges:
  assumes "run_verification_pass p cfg now co ct i ns as ans = (vo, ct')" "as \<noteq> []"
    and "mono (clock (p_walk p))" "\<forall>d. co = OpenRoot d \<longrightarrow> distinct_names d"
  obtains held rs where "held_flags (p_git p) co ct as = (held, ct')" "length held = length as"
    "list_all2 (result_for p co) (zip as held) rs"
    "o_updated vo = map (\<lambda>(a, r, h). updated_assertion now a r h) (zip as (zip rs held))"
    "o_tree_behind vo = (True \<in> set held)"
    "o_anchor_validity vo = (if True \<in> set held then None else reverify_anchors (p_text p) (p_root_parts p) co ans)"
    "o_status vo = Some False \<longleftrightarrow> persistently_failing now cfg rs (o_updated vo)"
    "o_status vo = Some True \<longrightarrow>
       (\<forall>r \<in> set rs. r_passed r = Some True) \<and> (\<forall>s. o_anchor_validity vo = Some s \<longrightarrow> anchor_floor cfg \<le> s)"
proof -
  obtain held t where h: "held_flags (p_git p) co ct as = (held, t)" by (rule prod.exhaust)
  then have len: "length held = length as" using held_flags_length [of "p_git p" co ct as] by simp
  define rs where "rs = merge_results t as held (verify_assertions (p_walk p) (p_engine p)
       (map fst (filter (\<lambda>(a, h). \<not> h) (zip as held))) co)"
  define o0 where "o0 = (fresh_outcome i ns)\<lparr>o_tree_behind := True \<in> set held,
    o_anchor_validity := if True \<in> set held then None else reverify_anchors (p_text p) (p_root_parts p) co ans\<rparr>"
  have vo: "vo = apply_verdict (p_text p) now (anchor_floor cfg) (folded_outcome cfg now as held rs o0)" and t: "ct' = t"
    using assms(1,2) by (auto simp: run_verification_pass_def h Let_def rs_def o0_def split del: if_split)
  have o0: "o_tree_behind o0 = (True \<in> set held)" "o_anchor_validity o0 =
      (if True \<in> set held then None else reverify_anchors (p_text p) (p_root_parts p) co ans)"
    by (simp_all add: o0_def)
  show thesis
  proof (rule that [of held rs])
    show "list_all2 (result_for p co) (zip as held) rs" unfolding rs_def by (rule results_stand [OF assms(3,4) len])
    show "o_status vo = Some True \<longrightarrow>
       (\<forall>r \<in> set rs. r_passed r = Some True) \<and> (\<forall>s. o_anchor_validity vo = Some s \<longrightarrow> anchor_floor cfg \<le> s)"
    proof
      assume "o_status vo = Some True"
      from apply_verdict_verified [OF this [unfolded vo]]
      have n: "(\<forall>r \<in> set rs. r_passed r \<noteq> Some False)" "(\<forall>r \<in> set rs. r_passed r \<noteq> None)"
        "\<forall>s. o_anchor_validity vo = Some s \<longrightarrow> anchor_floor cfg \<le> s" by (simp_all add: vo)
      have "r_passed r = Some True" if "r \<in> set rs" for r
        using n(1,2) [rule_format, OF that] by (cases "r_passed r") auto
      with n(3) show "(\<forall>r \<in> set rs. r_passed r = Some True)
        \<and> (\<forall>s. o_anchor_validity vo = Some s \<longrightarrow> anchor_floor cfg \<le> s)" by blast
    qed
  qed (simp_all add: h t len vo o0)
qed

lemma result_forD:
  assumes "list_all2 (result_for p co) (zip as held) rs" "length held = length as" "k < length as"
  shows "k < length rs" "result_for p co (as ! k, held ! k) (rs ! k)"
  using assms by (auto simp: list_all2_conv_all_nth)

lemma updated_nth:
  assumes "length held = length as" "length rs = length as" "k < length as"
  shows "map (\<lambda>(a, r, h). updated_assertion now a r h) (zip as (zip rs held)) ! k
    = updated_assertion now (as ! k) (rs ! k) (held ! k)"
  using assms by simp

lemma run_pass_anchors_only:
  assumes "run_verification_pass p cfg now co ct i ns [] ans = (vo, ct')"
  shows "ct' = ct \<and> o_status vo \<noteq> Some False
    \<and> o_anchor_validity vo = reverify_anchors (p_text p) (p_root_parts p) co ans
    \<and> (o_status vo = Some True \<longrightarrow> ans \<noteq> [] \<and> co \<noteq> NoRoot
         \<and> anchor_floor cfg \<le> compute_anchor_validity (p_text p) (p_root_parts p) co ans)"
proof -
  define v where "v = reverify_anchors (p_text p) (p_root_parts p) co ans"
  have vo: "vo = apply_verdict (p_text p) now (anchor_floor cfg)
      ((fresh_outcome i ns)\<lparr>o_tree_behind := False, o_anchor_validity := v, o_verifiable := v \<noteq> None\<rparr>)" and "ct' = ct"
    using assms by (auto simp: run_verification_pass_def v_def Let_def)
  moreover have "v \<noteq> None \<and> (\<forall>s. v = Some s \<longrightarrow> anchor_floor cfg \<le> s)" if "o_status vo = Some True"
    using apply_verdict_verified [OF that [unfolded vo]] by (simp add: fresh_outcome_def)
  ultimately show ?thesis by (auto simp: v_def reverify_anchors_def fresh_outcome_def split: if_splits)
qed

lemma judged_each:
  assumes "list_all2 (result_for p co) (zip as held) rs" "length held = length as" "k < length as"
    and "r_passed (rs ! k) = Some b"
  shows "\<not> held ! k" "stands_as p co (as ! k) b"
  using result_forD(2) [OF assms(1,2,3)] assms(4) by (auto simp: result_for_def split: if_splits)

lemma convicted_each:
  assumes "list_all2 (result_for p co) (zip as held) rs" "length held = length as" "k < length as"
    and "persistently_failing now cfg rs (map (\<lambda>(a, r, h). updated_assertion now a r h) (zip as (zip rs held)))"
    and "0 \<le> stale_days cfg"
  shows "stands_as p co (as ! k) False
    \<and> (\<exists>t. a_first_failed_at (as ! k) = Some t \<and> t < now - stale_days cfg * day_length)"
proof -
  let ?us = "map (\<lambda>(a, r, h). updated_assertion now a r h) (zip as (zip rs held))"
  have len: "length rs = length as" using list_all2_lengthD [OF assms(1)] assms(2) by simp
  have r: "r_passed (rs ! k) = Some False"
    using assms(3,4) len by (auto simp: persistently_failing_def list_all_iff)
  note j = judged_each [OF assms(1-3) r]
  from j have u: "?us ! k = updated_assertion now (as ! k) (rs ! k) False"
    by (subst updated_nth) (use assms(2,3) len in auto)
  have "?us ! k \<in> set ?us" using assms(2,3) len by (intro nth_mem) simp
  with assms(4) obtain t where "a_first_failed_at (?us ! k) = Some t" "t < now - stale_days cfg * day_length"
    unfolding persistently_failing_def list_all_iff by (auto split: option.splits simp del: set_map)
  moreover have "\<not> now < now - stale_days cfg * day_length" using assms(5) by (simp add: day_length_def)
  ultimately show ?thesis using j r u by (auto simp: updated_assertion_def Let_def split: if_splits)
qed


section \<open>A claim the checkout is behind\<close>

lemma behind_keeps:
  assumes "map_of (answers t) sha = Some b"
  shows "map_of (answers (snd (ClaimTree.behind w s t))) sha = Some b"
proof (cases w s t rule: behind_cases)
  case (no sha')
  with assms show ?thesis by (auto simp: remember_def answers_head map_of_dict_set)
next
  case (asks sha' c)
  with assms have "sha' \<noteq> sha" by auto
  with asks assms show ?thesis
    by (auto simp: ask_ancestor_def Let_def remember_def answers_head map_of_dict_set
        split: option.splits prod.splits if_splits)
qed (use assms in simp_all)

lemma held_flags_keep:
  assumes "held_flags w co (Some t) as = (held, ct')"
  shows "\<exists>t'. ct' = Some t' \<and> (tree_ok w t \<longrightarrow> tree_ok w t')
    \<and> (\<forall>sha b. map_of (answers t) sha = Some b \<longrightarrow> map_of (answers t') sha = Some b)
    \<and> (\<forall>k < length as. held ! k \<longrightarrow> co \<noteq> NoRoot
         \<and> (\<exists>sha. a_commit_hash (as ! k) = Some sha \<and> map_of (answers t') sha = Some True))"
  using assms
proof (induction as arbitrary: t held ct')
  case (Cons a as)
  define h where "h = (if co = NoRoot then False else fst (ClaimTree.behind w (a_commit_hash a) t))"
  define t1 where "t1 = (if co = NoRoot then t else snd (ClaimTree.behind w (a_commit_hash a) t))"
  obtain hs ct2 where rec: "held_flags w co (Some t1) as = (hs, ct2)" by (rule prod.exhaust)
  with Cons.prems have held: "held = h # hs" "ct' = ct2"
    by (auto simp: h_def t1_def Let_def split: if_splits prod.splits)
  from Cons.IH [OF rec] obtain t' where t': "ct2 = Some t'" "tree_ok w t1 \<longrightarrow> tree_ok w t'"
    "\<forall>sha b. map_of (answers t1) sha = Some b \<longrightarrow> map_of (answers t') sha = Some b"
    "\<forall>k < length as. hs ! k \<longrightarrow> co \<noteq> NoRoot
         \<and> (\<exists>sha. a_commit_hash (as ! k) = Some sha \<and> map_of (answers t') sha = Some True)" by blast
  have mine: "co \<noteq> NoRoot \<and> (\<exists>sha. a_commit_hash a = Some sha \<and> map_of (answers t') sha = Some True)" if h
    using that behind_answer [of w "a_commit_hash a" t] t'(3) by (auto simp: h_def t1_def split: if_splits)
  have "co \<noteq> NoRoot \<and> (\<exists>sha. a_commit_hash ((a # as) ! k) = Some sha \<and> map_of (answers t') sha = Some True)"
    if "k < length (a # as)" "held ! k" for k
    using that mine t'(4) held by (cases k) auto
  moreover have "tree_ok w t \<longrightarrow> tree_ok w t'" using t'(2) tree_ok_behind by (simp add: t1_def)
  moreover have "map_of (answers t) sha = Some b \<longrightarrow> map_of (answers t') sha = Some b" for sha b
    using t'(3) behind_keeps by (simp add: t1_def)
  ultimately show ?case using t'(1) held(2) by blast
qed auto

text \<open>
  A claim the checkout is behind is never judged, and nothing of its entry is. An assertion is held
  only on git's own word that the checkout's head is a strict ancestor of the commit it was written at.
  It is stored as unknown with no failure on record, even where a failure was stored; the entry gets no
  verdict, and its anchor score is left as it stands.
\<close>

theorem held_claims_stay_unknown:
  assumes "mono (clock (p_walk p))" "\<forall>d. co = OpenRoot d \<longrightarrow> distinct_names d" "as \<noteq> []"
    and "run_verification_pass p cfg now co (Some (tree_calls (p_git p) cs fresh_tree)) i ns as ans = (vo, ct')"
  shows "\<exists>held t'. ct' = Some t' \<and> length held = length as \<and> (o_tree_behind vo \<longleftrightarrow> True \<in> set held)
    \<and> (\<forall>k < length as. held ! k \<longrightarrow>
         (\<exists>sha. a_commit_hash (as ! k) = Some sha \<and> justified (p_git p) t' sha)
         \<and> a_last_result (o_updated vo ! k) = None \<and> a_first_failed_at (o_updated vo ! k) = None)
    \<and> (o_tree_behind vo \<longrightarrow> o_status vo = None \<and> o_anchor_validity vo = None)"
proof -
  obtain held rs where j: "held_flags (p_git p) co (Some (tree_calls (p_git p) cs fresh_tree)) as = (held, ct')"
    "length held = length as" "list_all2 (result_for p co) (zip as held) rs"
    "o_updated vo = map (\<lambda>(a, r, h). updated_assertion now a r h) (zip as (zip rs held))"
    "o_tree_behind vo = (True \<in> set held)"
    "o_anchor_validity vo = (if True \<in> set held then None else reverify_anchors (p_text p) (p_root_parts p) co ans)"
    "o_status vo = Some False \<longleftrightarrow> persistently_failing now cfg rs (o_updated vo)"
    "o_status vo = Some True \<longrightarrow>
       (\<forall>r \<in> set rs. r_passed r = Some True) \<and> (\<forall>s. o_anchor_validity vo = Some s \<longrightarrow> anchor_floor cfg \<le> s)"
    by (rule run_pass_judges [OF assms(4,3,1,2)])
  have len: "length rs = length as" using list_all2_lengthD [OF j(3)] j(2) by simp
  from held_flags_keep [OF j(1)] tree_ok_calls obtain t' where t': "ct' = Some t'" "tree_ok (p_git p) t'"
    "\<forall>k < length as. held ! k \<longrightarrow> (\<exists>sha. a_commit_hash (as ! k) = Some sha \<and> map_of (answers t') sha = Some True)"
    by blast
  have "o_updated vo ! k = updated_assertion now (as ! k) (rs ! k) (held ! k)" if "k < length as" for k
    unfolding j(4) by (rule updated_nth [OF j(2) len that])
  then have stored: "a_last_result (o_updated vo ! k) = None \<and> a_first_failed_at (o_updated vo ! k) = None"
    if "k < length as" "held ! k" for k using that by (simp add: updated_assertion_def)
  have "\<exists>r \<in> set rs. r_passed r = None" if "True \<in> set held"
  proof -
    from that j(2) obtain k where "k < length as" "held ! k" by (auto simp: in_set_conv_nth)
    with result_forD(2) [OF j(3,2)] len show ?thesis by (intro bexI [of _ "rs ! k"]) (auto simp: result_for_def)
  qed
  then have "o_status vo \<noteq> Some False \<and> o_status vo \<noteq> Some True" if "True \<in> set held"
    using that j(7,8) by (auto simp: persistently_failing_def list_all_iff)
  then have "o_status vo = None" if "True \<in> set held" using that by (cases "o_status vo") auto
  with stored t' j(2,5,6) tree_okD(7) [OF t'(2)] show ?thesis by (intro exI [of _ held] exI [of _ t']) auto
qed

section \<open>What the writes change\<close>

text \<open>\<open>rewritten old new\<close>: the rows differ at most in what a verdict is, and in the bookkeeping of a write.\<close>

definition rewritten :: "memory_entry \<Rightarrow> memory_entry \<Rightarrow> bool" where
  "rewritten old new \<longleftrightarrow>
     new = old\<lparr>assertions := assertions new, verification_status := verification_status new,
       anchor_validity := anchor_validity new, verification_checked_at := verification_checked_at new,
       updated_at := updated_at new, sync_seq := sync_seq new, sync_hash := sync_hash new,
       last_synced_at := last_synced_at new\<rparr>"

lemma served_view_verdict [simp]:
  "assertions (served_view e) = assertions e" "anchors (served_view e) = anchors e"
  "verification_status (served_view e) = verification_status e"
  by (simp_all add: served_view_def)

lemma backend_update_keeps:
  assumes "backend_update v now b i ns us = Inr (b', r)"
  shows "b_ledger b' = b_ledger b"
    and "\<And>k. k \<noteq> (ns, i) \<Longrightarrow> map_of (rows (b_db b')) k = map_of (rows (b_db b)) k"
  using assms
  by (auto simp: backend_update_def db_update_def bindE_Inr Let_def map_of_dict_set split: if_splits option.splits)

lemma rewritten_updated_row:
  assumes "rewritten old (set_fields old us)"
  shows "rewritten old (updated_row sha us old)"
proof -
  define x where "x = set_fields old us"
  from assms have "x = old\<lparr>assertions := assertions x, verification_status := verification_status x,
       anchor_validity := anchor_validity x, verification_checked_at := verification_checked_at x,
       updated_at := updated_at x, sync_seq := sync_seq x, sync_hash := sync_hash x,
       last_synced_at := last_synced_at x\<rparr>" by (simp add: rewritten_def x_def)
  then obtain a s v c u q h l where "x = old\<lparr>assertions := a, verification_status := s,
       anchor_validity := v, verification_checked_at := c,
       updated_at := u, sync_seq := q, sync_hash := h, last_synced_at := l\<rparr>" by blast
  then show ?thesis by (simp add: updated_row_def Let_def x_def [symmetric] rewritten_def)
qed

lemma updated_row_verdict:
  "assertions (updated_row sha us e) = assertions (set_fields e us)"
  "verification_status (updated_row sha us e) = verification_status (set_fields e us)"
  by (simp_all add: updated_row_def Let_def)

lemma rewritten_set_field:
  assumes "rewritten old x" "field_name u \<in> {''assertions'', ''verification_status'', ''anchor_validity'',
    ''verification_checked_at'', ''updated_at''}"
  shows "rewritten old (set_field x u)"
proof -
  from assms(1) obtain a s v c t q h l where "x = old\<lparr>assertions := a, verification_status := s,
       anchor_validity := v, verification_checked_at := c,
       updated_at := t, sync_seq := q, sync_hash := h, last_synced_at := l\<rparr>" unfolding rewritten_def by blast
  with assms(2) show ?thesis by (cases u) (simp_all add: rewritten_def)
qed

lemma rewritten_set_fields:
  "rewritten old x \<Longrightarrow> field_name ` set us \<subseteq> {''assertions'', ''verification_status'', ''anchor_validity'',
     ''verification_checked_at'', ''updated_at''} \<Longrightarrow> rewritten old (set_fields x us)"
  by (induction us arbitrary: x) (simp_all add: rewritten_set_field)

lemma verdict_row:
  assumes "us = update_fields vo \<or> us = [UVerificationStatus s]"
  shows "rewritten old (updated_row sha (stamped_updates now us) old)"
    and "us = update_fields vo \<Longrightarrow> assertions (updated_row sha (stamped_updates now us) old) = o_updated vo
           \<and> verification_status (updated_row sha (stamped_updates now us) old) = o_status vo"
    and "us = [UVerificationStatus s] \<Longrightarrow>
           verification_status (updated_row sha (stamped_updates now us) old) = s"
proof -
  have "field_name ` set (stamped_updates now us) \<subseteq> {''assertions'', ''verification_status'', ''anchor_validity'',
      ''verification_checked_at'', ''updated_at''}"
    using assms by (auto simp: stamped_updates_def update_fields_def split: option.splits if_splits)
  then show "rewritten old (updated_row sha (stamped_updates now us) old)"
    by (intro rewritten_updated_row rewritten_set_fields) (simp_all add: rewritten_def)
qed (simp_all add: updated_row_verdict update_fields_def stamped_updates_def split: option.split)

lemma update_fields_some [simp]: "update_fields vo \<noteq> []"
  by (simp add: update_fields_def)

text \<open>
  A verdict is written only over what it was computed from. The write lands only on a row that still
  has the assertions and anchors that were read; it changes the verdict, the folded assertions and the
  bookkeeping of that row and nothing else of the store. Otherwise (a changed or deleted row, a refused
  update, an outcome nothing could be checked for) the store is left as it was.
\<close>

theorem verdict_write_is_conditional:
  assumes "persist_verification_outcome v now b vo (Some e) = (b', landed)"
  shows "if landed = Some True
    then (\<exists>old new. db_get (o_id vo) (o_namespace vo) (b_db b) = Some old
            \<and> assertions old = assertions e \<and> anchors old = anchors e
            \<and> db_get (o_id vo) (o_namespace vo) (b_db b') = Some new \<and> rewritten old new
            \<and> assertions new = o_updated vo \<and> verification_status new = o_status vo)
      \<and> (\<forall>k. k \<noteq> (o_namespace vo, o_id vo) \<longrightarrow> map_of (rows (b_db b')) k = map_of (rows (b_db b)) k)
      \<and> b_ledger b' = b_ledger b
    else b' = b"
proof (cases "landed = Some True")
  case True
  with assms obtain r where same: "checked (backend_get v b (o_id vo) (o_namespace vo)) = checked (Some e)"
    and up: "backend_update v now b (o_id vo) (o_namespace vo) (update_fields vo) = Inr (b', r)"
    by (auto simp: persist_verification_outcome_def split: if_splits sum.splits prod.splits)
  from same obtain x where x: "backend_get v b (o_id vo) (o_namespace vo) = Some x"
    "assertions x = assertions e" "anchors x = anchors e" by (auto simp: checked_def)
  from backend_update_row(2) [OF up] x(1) obtain old
    where old: "db_get (o_id vo) (o_namespace vo) (b_db b) = Some old"
      and new: "db_get (o_id vo) (o_namespace vo) (b_db b')
        = Some (updated_row (env_sha v) (stamped_updates now (update_fields vo)) old)" by auto
  from backend_get_SomeD [OF x(1)] old x(2,3) have "assertions old = assertions e" "anchors old = anchors e" by auto
  with True old new verdict_row [of "update_fields vo" vo] backend_update_keeps [OF up] show ?thesis by auto
next
  case False
  with assms show ?thesis
    by (auto simp: persist_verification_outcome_def split: if_splits sum.splits prod.splits)
qed

section \<open>A positive verdict needs current evidence\<close>

lemma run_pass_identity:
  assumes "run_verification_pass p cfg now co ct i ns as ans = (vo, ct')"
  shows "o_id vo = i" "o_namespace vo = ns"
  using assms by (auto simp: run_verification_pass_def Let_def fresh_outcome_def split: prod.splits if_splits)

text \<open>The failures a sweep reports.\<close>

definition failures :: "sweep_state \<Rightarrow> nat" where
  "failures st = entry_failures (s_summary st) + persist_failures (s_summary st)"

lemma counted_fields [simp]:
  "entry_failures (counted prior vo landed s) = entry_failures s"
  "persist_failures (counted prior vo landed s) =
     persist_failures s + (if o_verifiable vo \<and> landed = Some False then 1 else 0)"
  "entries_processed (counted prior vo landed s) = Suc (entries_processed s)"
  by (simp_all add: counted_def Let_def)

lemma counted_failure_simps [simp]:
  "s_store (counted_failure st) = s_store st" "failures (counted_failure st) = Suc (failures st)"
  "entries_processed (s_summary (counted_failure st)) = entries_processed (s_summary st)"
  "entry_failures (s_summary (counted_failure st)) = Suc (entry_failures (s_summary st))"
  "s_tree (counted_failure st) = s_tree st"
  by (simp_all add: counted_failure_def failures_def)

lemma verify_entry_run:
  assumes "assertions e \<noteq> [] \<or> anchors e \<noteq> []"
    and "run_verification_pass p cfg now co (s_tree st) (eid e) (namespace e) (assertions e) (anchors e) = (vo, ct)"
  shows "verify_entry v p cfg now co e st =
     (if \<not> o_verifiable vo then
        (if verification_status e = Some True then
           (case backend_update v now (s_store st) (eid e) (namespace e) [UVerificationStatus None] of
              Inl _ \<Rightarrow> counted_failure (st\<lparr>s_tree := ct\<rparr>)
            | Inr (b', _) \<Rightarrow> st\<lparr>s_tree := ct, s_store := b',
                s_summary := counted (verification_status e) vo None
                  ((s_summary st)\<lparr>invalidated := Suc (invalidated (s_summary st))\<rparr>)\<rparr>)
         else st\<lparr>s_tree := ct, s_summary := counted (verification_status e) vo None (s_summary st)\<rparr>)
      else (let (b', landed) = persist_verification_outcome v now (s_store st) vo (Some e)
            in st\<lparr>s_tree := ct, s_store := b',
                 s_summary := counted (verification_status e) vo landed (s_summary st)\<rparr>))"
proof -
  from assms(1) have some: "(assertions e = [] \<and> anchors e = []) = False" by blast
  show ?thesis unfolding verify_entry_def some if_False assms(2) Let_def prod.case
    by (simp split: sum.split prod.split)
qed

text \<open>What one row's visit does to its row: a failure is counted, or the row says what the pass found.\<close>

lemma verify_entry_settles:
  assumes here: "backend_get v (s_store st) (eid e) (namespace e) = Some e"
    and run: "run_verification_pass p cfg now co (s_tree st) (eid e) (namespace e) (assertions e) (anchors e) = (vo, ct)"
    and new: "db_get (eid e) (namespace e) (b_db (s_store (verify_entry v p cfg now co e st))) = Some e'"
    and fine: "failures (verify_entry v p cfg now co e st) = failures st"
  shows "verification_status e' = Some True \<longrightarrow> o_status vo = Some True \<and> o_verifiable vo"
proof -
  let ?b = "s_store st"
  note id = run_pass_identity [OF run]
  from here obtain old where old: "db_get (eid e) (namespace e) (b_db ?b) = Some old" "served_view old = e"
    using backend_get_SomeD by blast
  have some: "assertions e \<noteq> [] \<or> anchors e \<noteq> []" using fine by (auto simp: verify_entry_def)
  note ve = verify_entry_run [OF some run]
  show ?thesis
  proof (cases "o_verifiable vo")
    case False
    show ?thesis
    proof (cases "verification_status e = Some True")
      case True
      with False fine obtain b' r
        where up: "backend_update v now ?b (eid e) (namespace e) [UVerificationStatus None] = Inr (b', r)"
        by (auto simp: ve failures_def counted_failure_def split: sum.splits)
      with True False new have "db_get (eid e) (namespace e) (b_db b') = Some e'"
        by (auto simp: ve)
      with backend_update_row(2) [OF up] here verdict_row(3) [of "[UVerificationStatus None]" vo None] show ?thesis
        by auto
    next
      case other: False
      from False new have "db_get (eid e) (namespace e) (b_db ?b) = Some e'"
        using other by (auto simp: ve)
      with old other show ?thesis by auto
    qed
  next
    case True
    obtain b' landed where w: "persist_verification_outcome v now ?b vo (Some e) = (b', landed)" by (rule prod.exhaust)
    from True new w have new': "db_get (eid e) (namespace e) (b_db b') = Some e'"
      by (auto simp: ve)
    from True fine w have "landed \<noteq> Some False" by (auto simp: ve failures_def)
    moreover have "landed \<noteq> None" using w True here id
      by (auto simp: persist_verification_outcome_def split: if_splits sum.splits prod.splits)
    ultimately obtain r where "backend_update v now ?b (eid e) (namespace e) (update_fields vo) = Inr (b', r)"
      using w True id by (auto simp: persist_verification_outcome_def split: if_splits sum.splits prod.splits)
    from backend_update_row(2) [OF this] here new' True verdict_row(2) [of "update_fields vo" vo] show ?thesis by auto
  qed
qed

text \<open>
  No positive verdict outlives its evidence. Once an entry has been visited, its row says
  ``verified'' only if the pass just found it so; a row nothing could be checked for loses the word.
  The one exception is counted: the visit then reports a failure.
\<close>

theorem positive_verdict_is_current:
  assumes "backend_get v (s_store st) (eid e) (namespace e) = Some e"
    and "run_verification_pass p cfg now co (s_tree st) (eid e) (namespace e) (assertions e) (anchors e) = (vo, ct)"
    and "db_get (eid e) (namespace e) (b_db (s_store (verify_entry v p cfg now co e st))) = Some e'"
    and "verification_status e' = Some True"
  shows "(o_status vo = Some True \<and> o_verifiable vo)
    \<or> failures (verify_entry v p cfg now co e st) \<noteq> failures st"
  using verify_entry_settles [OF assms(1-3)] assms(4) by blast

section \<open>The properties on concrete entries\<close>

definition sample_pass :: pass_env where
  "sample_pass = \<lparr>p_walk = sample_env, p_engine = plain_engine, p_git = small_world,
     p_text = \<lparr>decode = (\<lambda>s. s), is_word = (\<lambda>c. CHR ''a'' \<le> c \<and> c \<le> CHR ''z''), iso = (\<lambda>_. ''now'')\<rparr>,
     p_root_parts = [''/'', ''repo'']\<rparr>"

definition sample_run :: "claim_tree option \<Rightarrow> checkout \<Rightarrow> assertion list \<Rightarrow> anchor list \<Rightarrow> verification_outcome" where
  "sample_run ct co as ans = fst (run_verification_pass sample_pass default_settings 100 co ct ''M-1'' ''default'' as ans)"

lemma sample_settings: "0 \<le> stale_days default_settings"
  by (simp add: default_settings_def)

lemma sample_pass_mono: "mono (clock (p_walk sample_pass))"
  by (simp add: sample_pass_def sample_mono)

lemma sample_open: "\<forall>d. OpenRoot sample_tree = OpenRoot d \<longrightarrow> distinct_names d"
  using sample_distinct by simp

definition anchor_at :: "string \<Rightarrow> string \<Rightarrow> anchor" where
  "anchor_at f nm = \<lparr>an_file = f, an_symbol_name = nm, an_symbol_type = [], an_signature = [], an_line_range = None\<rparr>"

lemma sample_result:
  obtains r where "verify_assertions sample_env plain_engine [asserts GlobExists [] ''d.py''] (OpenRoot sample_tree) = [r]"
    "r_passed r = Some True"
proof -
  have "verdicts sample_tree [asserts GlobExists [] ''d.py''] = [Some True]"
    by (simp add: walk_eval sample_tree_def)
  then show thesis using that by (auto simp: verdicts_def)
qed

lemma sample_anchor:
  "compute_anchor_validity (p_text sample_pass) (p_root_parts sample_pass) (OpenRoot sample_tree)
     [anchor_at ''src/a.py'' ''x''] = 1"
  by (simp add: compute_anchor_validity_def anchor_valid_def read_anchor_file_def anchor_parts_def anchor_at_def
      raw_parts_def sample_pass_def sample_tree_def kids_of_def opens_def max_file_size_def names_symbol_def whole_name_at_def
      round_decimals_def round_half_even_def upt_rec)

lemma sample_verified:
  "o_status (sample_run None (OpenRoot sample_tree) [asserts GlobExists [] ''d.py''] [anchor_at ''src/a.py'' ''x'']) = Some True"
proof -
  obtain r where "verify_assertions sample_env plain_engine [asserts GlobExists [] ''d.py''] (OpenRoot sample_tree) = [r]"
    "r_passed r = Some True" by (rule sample_result)
  then show ?thesis using sample_anchor
    by (simp add: sample_run_def run_verification_pass_def Let_def apply_verdict_def fresh_outcome_def
        persistently_failing_def count_results_def reverify_anchors_def sample_pass_def default_settings_def)
qed


definition later_claim :: assertion where
  "later_claim = (asserts GlobExists [] ''gone.py'')\<lparr>a_commit_hash := Some (full_name CHR ''c''),
     a_last_result := Some False, a_first_failed_at := Some 1\<rparr>"

lemma sample_held:
  "o_tree_behind (sample_run (Some fresh_tree) (OpenRoot sample_tree) [later_claim] [])"
  by code_simp

theorem held_claims_stay_unknown_witness:
  "o_status (sample_run (Some fresh_tree) (OpenRoot sample_tree) [later_claim] []) = None"
proof -
  obtain vo ct' where run: "run_verification_pass sample_pass default_settings 100 (OpenRoot sample_tree)
      (Some (tree_calls (p_git sample_pass) [] fresh_tree)) ''M-1'' ''default'' [later_claim] [] = (vo, ct')"
    by (rule prod.exhaust)
  then have vo: "sample_run (Some fresh_tree) (OpenRoot sample_tree) [later_claim] [] = vo"
    by (simp add: sample_run_def tree_calls_def)
  from held_claims_stay_unknown [OF sample_pass_mono sample_open _ run] vo sample_held show ?thesis by auto
qed

definition claiming_row :: memory_entry where
  "claiming_row = (new_entry ''M-1'' ''note'' 7)\<lparr>assertions := [asserts GlobExists [] ''d.py''],
     verification_status := Some True\<rparr>"

definition claiming_store :: backend where
  "claiming_store = \<lparr>b_db = write_row claiming_row empty_db, b_ledger = None\<rparr>"

definition sample_state :: sweep_state where
  "sample_state = \<lparr>s_store = claiming_store, s_tree = None, s_summary = empty_summary\<rparr>"

lemma claiming_get: "backend_get plain_env claiming_store ''M-1'' ''default'' = Some claiming_row"
  by code_simp

text \<open>An outcome computed with no checkout at all but an anchor score of its own, to have one to write.\<close>

definition scored_outcome :: verification_outcome where
  "scored_outcome = (fresh_outcome ''M-1'' ''default'')\<lparr>o_anchor_validity := Some (1/2), o_checked_at := ''now''\<rparr>"

theorem verdict_write_is_conditional_witness:
  "(\<exists>new. db_get ''M-1'' ''default'' (b_db (fst (persist_verification_outcome plain_env 100 claiming_store
      scored_outcome (Some claiming_row)))) = Some new \<and> rewritten claiming_row new)
   \<and> fst (persist_verification_outcome plain_env 100 claiming_store scored_outcome
      (Some (claiming_row\<lparr>assertions := []\<rparr>))) = claiming_store"
proof -
  have id: "o_id scored_outcome = ''M-1''" "o_namespace scored_outcome = ''default''" by code_simp+
  have old: "db_get ''M-1'' ''default'' (b_db claiming_store) = Some claiming_row" by code_simp
  have landed: "snd (persist_verification_outcome plain_env 100 claiming_store scored_outcome (Some claiming_row)) = Some True"
    "snd (persist_verification_outcome plain_env 100 claiming_store scored_outcome (Some (claiming_row\<lparr>assertions := []\<rparr>))) = None"
    by code_simp+
  from verdict_write_is_conditional [OF prod.collapse [symmetric],
      of plain_env 100 claiming_store scored_outcome claiming_row] landed(1) id old
  have "\<exists>new. db_get ''M-1'' ''default'' (b_db (fst (persist_verification_outcome plain_env 100 claiming_store
      scored_outcome (Some claiming_row)))) = Some new \<and> rewritten claiming_row new" by auto
  with verdict_write_is_conditional [OF prod.collapse [symmetric],
      of plain_env 100 claiming_store scored_outcome "claiming_row\<lparr>assertions := []\<rparr>"] landed(2)
  show ?thesis by simp
qed

theorem positive_verdict_is_current_witness:
  "\<not> (\<exists>e'. db_get ''M-1'' ''default'' (b_db (s_store (verify_entry plain_env sample_pass default_settings 100 NoRoot
        claiming_row sample_state))) = Some e' \<and> verification_status e' = Some True)"
proof -
  obtain vo ct where run: "run_verification_pass sample_pass default_settings 100 NoRoot (s_tree sample_state)
      (eid claiming_row) (namespace claiming_row) (assertions claiming_row) (anchors claiming_row) = (vo, ct)"
    by (rule prod.exhaust)
  then have "vo = sample_run None NoRoot (assertions claiming_row) []"
    by (simp add: sample_run_def sample_state_def claiming_row_def new_entry_def)
  moreover have "o_status (sample_run None NoRoot (assertions claiming_row) []) = None" by code_simp
  ultimately have none: "o_status vo = None" by simp
  have get: "backend_get plain_env (s_store sample_state) (eid claiming_row) (namespace claiming_row) = Some claiming_row"
    using claiming_get by (simp add: sample_state_def claiming_row_def new_entry_def)
  have fine: "failures (verify_entry plain_env sample_pass default_settings 100 NoRoot claiming_row sample_state)
      = failures sample_state" by code_simp
  from positive_verdict_is_current [OF get run] none fine show ?thesis
    by (auto simp: claiming_row_def new_entry_def)
qed

end
