(* ===== verification/MaintainVerify.thy ===== *)
theory MaintainVerify
  imports VerificationPass "HOL-Library.Product_Lexorder"
begin

text \<open>
  The sweep that verifies every claim of a store (\<open>run_maintain_verify\<close> of
  \<^verbatim>\<open>lifecycle/verification_pass.py\<close>) over the query it pages through
  (\<^verbatim>\<open>storage/_assertion_queries.py\<close>). Each visit writes to the store the next page is read from.
\<close>

section \<open>The rows with claims\<close>

definition position :: "memory_entry \<Rightarrow> string \<times> string" where
  "position e = (namespace e, eid e)"

definition has_claims :: "string option \<Rightarrow> memory_entry \<Rightarrow> bool" where
  "has_claims ns e \<longleftrightarrow>
     status e = Active \<and> (assertions e \<noteq> [] \<or> anchors e \<noteq> [])
     \<and> (case ns of None \<Rightarrow> True | Some n \<Rightarrow> namespace e = n)"

definition claim_rows :: "string option \<Rightarrow> backend \<Rightarrow> memory_entry list" where
  "claim_rows ns b = map served_view (sort_key position (filter (has_claims ns) (map snd (rows (b_db b)))))"

definition query_claims ::
  "string option \<Rightarrow> backend \<Rightarrow> (string \<times> string) option \<Rightarrow> nat \<Rightarrow> memory_entry list" where
  "query_claims ns b after limit = take limit (map served_view
     (sort_key position (filter (\<lambda>e. has_claims ns e \<and> beyond after (position e)) (map snd (rows (b_db b))))))"

definition entries_with_assertions ::
  "env \<Rightarrow> string option \<Rightarrow> backend \<Rightarrow> (string \<times> string) option \<Rightarrow> nat \<Rightarrow> memory_entry list option" where
  "entries_with_assertions v ns b after limit =
     quarantine_keyset v b (query_claims ns b) position after limit"

section \<open>The sweep\<close>

text \<open>
  What each visited row meets: its pass, its moment, and the clock read after it. The clock is read
  once more after a page that was consumed whole.
\<close>

record sweep_world =
  w_env :: env
  w_pass :: "nat \<Rightarrow> pass_env"
  w_moment :: "nat \<Rightarrow> int"
  w_clock :: "nat \<Rightarrow> rat"

fun visit_page ::
  "sweep_world \<Rightarrow> verify_settings \<Rightarrow> checkout \<Rightarrow> rat option \<Rightarrow> memory_entry list \<Rightarrow> nat \<Rightarrow> sweep_state
     \<Rightarrow> nat \<times> nat \<times> sweep_state" where
  "visit_page w cfg co ends [] k st = (0, k, st)"
| "visit_page w cfg co ends (e # es) k st =
     (let st1 = verify_entry (w_env w) (w_pass w k) cfg (w_moment w k) co e st
      in if (case ends of None \<Rightarrow> False | Some t \<Rightarrow> t < w_clock w k) then (1, Suc k, st1)
         else (let (c, k', st2) = visit_page w cfg co ends es (Suc k) st1 in (Suc c, k', st2)))"

lemma visit_page_consumes: "visit_page w cfg co ends es k st = (c, k', st') \<Longrightarrow> es \<noteq> [] \<Longrightarrow> 1 \<le> c \<and> c \<le> length es"
proof (induction es arbitrary: k st c k' st')
  case (Cons e es)
  show ?case
  proof (cases es)
    case Nil
    with Cons.prems(1) show ?thesis by (auto simp: Let_def split: if_splits option.splits)
  next
    case (Cons e' es')
    with Cons.prems(1) Cons.IH show ?thesis
      by (simp only: visit_page.simps(2) [of _ _ _ _ e] Let_def) (fastforce split: if_splits prod.splits)
  qed
qed simp

datatype maintain_error = CursorStuck | PageTooLong | BadPage

function maintain_loop ::
  "sweep_world \<Rightarrow> verify_settings \<Rightarrow> checkout \<Rightarrow> string option \<Rightarrow> rat option \<Rightarrow> nat \<Rightarrow> nat \<Rightarrow> nat \<Rightarrow> nat
     \<Rightarrow> (string \<times> string) option \<Rightarrow> sweep_state
     \<Rightarrow> (maintain_error, (string \<times> string) option \<times> sweep_state) result" where
  "maintain_loop w cfg co ns ends page budget k seen cursor st =
     (if seen < budget then
        (let limit = min page (budget - seen);
             batch = the (entries_with_assertions (w_env w) ns (s_store st) cursor limit)
         in if batch = [] then Inr (None, st)
            else if (case cursor of None \<Rightarrow> False | Some p \<Rightarrow> position (last batch) \<le> p) then Inl CursorStuck
            else if limit < length batch then Inl PageTooLong
            else (let (c, k', st') = visit_page w cfg co ends batch k st
                  in if c = 0 then Inl BadPage
                     else if c = length batch \<and> length batch < limit then Inr (None, st')
                     else if c < length batch \<or> (case ends of None \<Rightarrow> False | Some t \<Rightarrow> t \<le> w_clock w k')
                     then Inr (Some (position (batch ! (c - 1))), st')
                     else maintain_loop w cfg co ns ends page budget (Suc k') (seen + c)
                            (Some (position (batch ! (c - 1)))) st'))
      else Inr (cursor, st))"
  by pat_completeness simp
termination
  by (relation "measure (\<lambda>(w, cfg, co, ns, ends, page, budget, k, seen, cursor, st). budget - seen)") auto

declare maintain_loop.simps [simp del]

definition sliced_page_max :: nat where "sliced_page_max = 64"

text \<open>\<open>sys.maxsize\<close>\<close>

definition all_rows :: nat where "all_rows = 2 ^ 63 - 1"

text \<open>\<open>_walkable_root\<close>: a root the walk refuses is swept as no root.\<close>

definition walkable_root :: "checkout \<Rightarrow> checkout" where
  "walkable_root co = (case co of OpenRoot d \<Rightarrow> OpenRoot d | _ \<Rightarrow> NoRoot)"

definition run_maintain_verify ::
  "sweep_world \<Rightarrow> verify_settings \<Rightarrow> checkout \<Rightarrow> string option \<Rightarrow> nat \<Rightarrow> (string \<times> string) option
     \<Rightarrow> rat option \<Rightarrow> nat option \<Rightarrow> claim_tree option \<Rightarrow> backend
     \<Rightarrow> (maintain_error, (string \<times> string) option \<times> sweep_state) result" where
  "run_maintain_verify w cfg co ns batch_limit after seconds max_rows ct b =
     (let co' = walkable_root co;
          tree = (if co' = NoRoot then None else case ct of None \<Rightarrow> Some fresh_tree | Some t \<Rightarrow> Some t);
          st = \<lparr>s_store = b, s_tree = tree, s_summary = empty_summary\<rparr>
      in if batch_limit = 0 then Inr (None, st)
         else maintain_loop w cfg co' ns (map_option (\<lambda>s. w_clock w 0 + s) seconds)
                (case seconds of None \<Rightarrow> batch_limit | Some _ \<Rightarrow> min batch_limit sliced_page_max)
                (case max_rows of None \<Rightarrow> all_rows | Some m \<Rightarrow> max 1 m) 1 0 after st)"

section \<open>The query keeps the keyset contract\<close>

definition claims_ok :: "backend \<Rightarrow> bool" where
  "claims_ok b \<longleftrightarrow> db_ok (b_db b)"

lemma position_key: "position = entry_key"
  by (simp add: fun_eq_iff position_def entry_key_def)

lemma position_served [simp]: "position (served_view e) = position e"
  by (simp add: position_def)

interpretation by_claims: entry_keyset claims_ok "claim_rows ns" position "query_claims ns" for ns
proof
  fix b c n assume ok: "claims_ok b"
  let ?es = "map snd (rows (b_db b))"
  have keys: "map position (map served_view es) = map position es" for es by simp
  have "distinct (map position ?es)" using rows_keys_distinct ok by (simp add: claims_ok_def position_key)
  then show "sorted_wrt (<) (map position (claim_rows ns b))"
    unfolding claim_rows_def keys by (intro strict_sort distinct_map_filter)
  have "filter (\<lambda>e. has_claims ns e \<and> beyond c (position e)) ?es = filter (\<lambda>e. beyond c (position e)) (filter (has_claims ns) ?es)"
    by (simp add: filter_filter conj_commute)
  then show "query_claims ns b c n = take n (filter (\<lambda>e. beyond c (position e)) (claim_rows ns b))"
    by (simp add: query_claims_def claim_rows_def filter_map comp_def filter_sort)
qed

interpretation served_claims: keyset claims_ok "by_claims.admitted ns v" position
    "\<lambda>b c n. the (entries_with_assertions v ns b c n)" for v ns
  unfolding entries_with_assertions_def by (rule by_claims.filtered_keyset)

section \<open>What one visit does to the rows\<close>

lemma dict_set_same: "map_of xs k = Some x \<Longrightarrow> dict_set k x xs = xs"
  by (induction xs) (auto split: if_splits)

lemma dict_set_map:
  "distinct (map fst xs) \<Longrightarrow> map_of xs k = Some x \<Longrightarrow>
    dict_set k y xs = map (\<lambda>(k', z). (k', if k' = k then y else z)) xs"
proof (induction xs)
  case (Cons p xs)
  obtain k' z where p: "p = (k', z)" by (rule prod.exhaust)
  show ?case
  proof (cases "k' = k")
    case True
    with Cons.prems p have "(k'', z') \<in> set xs \<Longrightarrow> k'' \<noteq> k" for k'' z' by force
    then have "map (\<lambda>(k', z). (k', if k' = k then y else z)) xs = xs" by (intro map_idI) auto
    with p True show ?thesis by simp
  qed (use Cons p in auto)
qed simp

lemma verify_loop_length: "length (verify_loop v re as d b) = length as"
  by (induction as arbitrary: b) (auto simp: Let_def split: prod.split simp del: verify_single.simps)

lemma verify_assertions_length [simp]: "length (verify_assertions v re as co) = length as"
  by (auto simp: verify_assertions_def verify_loop_length split: checkout.split)

lemma merge_length:
  assumes "length hs = length as" "length rs = length (filter (\<lambda>(a, h). \<not> h) (zip as hs))"
  shows "length (merge_results ct as hs rs) = length as"
proof -
  have "list_all2 (\<lambda>_ _. True) (map fst (filter (\<lambda>(a, h). \<not> h) (zip as hs))) rs"
    using assms(2) by (simp add: list_all2_conv_all_nth)
  from list_all2_lengthD [OF merged_answers [OF assms(1) this, of ct]] assms(1) show ?thesis by simp
qed

lemma run_pass_updated:
  assumes "run_verification_pass p cfg now co ct i ns as ans = (vo, ct')"
  shows "o_updated vo = [] \<longleftrightarrow> as = []"
proof -
  obtain held t where h: "held_flags (p_git p) co ct as = (held, t)" by (rule prod.exhaust)
  then have len: "length held = length as" using held_flags_length [of "p_git p" co ct as] by simp
  let ?rs = "merge_results t as held (verify_assertions (p_walk p) (p_engine p)
     (map fst (filter (\<lambda>(a, h). \<not> h) (zip as held))) co)"
  have "length ?rs = length as" by (rule merge_length [OF len]) simp
  with assms h len show ?thesis
    by (cases as) (auto simp: run_verification_pass_def Let_def fresh_outcome_def zip_eq_Nil_iff split: if_splits)
qed

lemma held_flags_no_root: "held_flags w NoRoot ct as = (replicate (length as) False, ct)"
  by (induction as) (auto simp: Let_def split: option.split)

lemma merge_none_held: "length rs = length as \<Longrightarrow> merge_results ct as (replicate (length as) False) rs = rs"
proof (induction as arbitrary: rs)
  case (Cons a as)
  then show ?case by (cases rs) auto
qed simp

lemma run_pass_no_root:
  assumes "run_verification_pass p cfg now NoRoot ct i ns as ans = (vo, ct')"
  shows "\<not> o_verifiable vo"
proof (cases "as = []")
  case True
  with assms show ?thesis by (auto simp: run_verification_pass_def Let_def reverify_anchors_def)
next
  case False
  have open_all: "map fst (filter (\<lambda>(a, h). \<not> h) (zip as (replicate (length as) False))) = as"
    by (induction as) auto
  have none: "verify_assertions (p_walk p) (p_engine p) as NoRoot = map (\<lambda>a. result_of a None ''project_root unavailable'') as"
    by (simp add: verify_assertions_def)
  have rs: "merge_results ct as (replicate (length as) False) (map (\<lambda>a. result_of a None ''project_root unavailable'') as)
      = map (\<lambda>a. result_of a None ''project_root unavailable'') as" by (rule merge_none_held) simp
  have "True \<notin> set (replicate (length as) False)" by simp
  with assms False show ?thesis
    unfolding run_verification_pass_def held_flags_no_root Let_def prod.case open_all none rs
    by (auto simp: list_ex_iff fresh_outcome_def)
qed

lemma rewritten_simps:
  assumes "rewritten old new"
  shows "position new = position old" "status new = status old" "anchors new = anchors old" "namespace new = namespace old"
    "quarantine_blocks v b new = quarantine_blocks v b old"
proof -
  from assms obtain a s va c u q h l where "new = old\<lparr>assertions := a, verification_status := s,
       anchor_validity := va, verification_checked_at := c, updated_at := u, sync_seq := q, sync_hash := h,
       last_synced_at := l\<rparr>" unfolding rewritten_def by blast
  then show "position new = position old" "status new = status old" "anchors new = anchors old" "namespace new = namespace old"
    "quarantine_blocks v b new = quarantine_blocks v b old"
    by (simp_all add: position_def quarantine_blocks_def blocks_def entry_identity_keys_def source_of_def split: option.split)
qed

text \<open>\<open>revisited k new b b'\<close>: the row at \<open>k\<close> is now \<open>new\<close>, which still has claims if it had some.\<close>

definition revisited :: "key \<Rightarrow> memory_entry \<Rightarrow> backend \<Rightarrow> backend \<Rightarrow> bool" where
  "revisited k new b b' \<longleftrightarrow>
     (\<exists>old. map_of (rows (b_db b)) k = Some old \<and> rewritten old new \<and> (assertions new = [] \<longleftrightarrow> assertions old = []))
     \<and> rows (b_db b') = dict_set k new (rows (b_db b)) \<and> b_ledger b' = b_ledger b
     \<and> (db_ok (b_db b) \<longrightarrow> db_ok (b_db b'))"

lemma rewritten_refl: "rewritten e e"
  by (simp add: rewritten_def)

lemma revisited_same: "map_of (rows (b_db b)) k = Some old \<Longrightarrow> revisited k old b b"
  by (simp add: revisited_def rewritten_refl dict_set_same)

lemma updated_revisits:
  assumes up: "backend_update v now b i ns us = Inr (b', r)" and here: "backend_get v b i ns \<noteq> None"
    and us: "us = [UVerificationStatus s]
      \<or> (us = update_fields vo \<and> (\<forall>old. map_of (rows (b_db b)) (ns, i) = Some old \<longrightarrow> (o_updated vo = [] \<longleftrightarrow> assertions old = [])))"
  shows "\<exists>new. revisited (ns, i) new b b'"
proof -
  have some: "us \<noteq> []" using us by (elim disjE) simp_all
  from backend_update_row(2) [OF up here some] obtain old
    where old: "map_of (rows (b_db b)) (ns, i) = Some old"
      and new: "db_get i ns (b_db b') = Some (updated_row (env_sha v) (stamped_updates now us) old)"
    by (auto simp: db_get_def)
  let ?new = "updated_row (env_sha v) (stamped_updates now us) old"
  from up some old here have d: "b_ledger b' = b_ledger b" "rows (b_db b') = dict_set (ns, i) ?new (rows (b_db b))"
    by (auto simp: backend_update_def db_update_def bindE_Inr Let_def db_get_def split: if_splits)
  have "db_ok (b_db b) \<longrightarrow> db_ok (b_db b')"
    using up db_update_ok [of "b_db b" "env_utf8 v" "env_sha v" now i ns us]
    by (auto simp: backend_update_def bindE_Inr Let_def split: if_splits)
  moreover have "rewritten old ?new" using us verdict_row(1) [of us vo s] by blast
  moreover have "assertions ?new = [] \<longleftrightarrow> assertions old = []"
    using us
  proof
    assume "us = [UVerificationStatus s]"
    then show ?thesis by (simp add: updated_row_verdict stamped_updates_def)
  next
    assume "us = update_fields vo
      \<and> (\<forall>old. map_of (rows (b_db b)) (ns, i) = Some old \<longrightarrow> (o_updated vo = [] \<longleftrightarrow> assertions old = []))"
    with old verdict_row(2) [of us vo s] show ?thesis by simp
  qed
  ultimately show ?thesis using old d by (auto simp: revisited_def)
qed

lemma verify_entry_revisits:
  assumes here: "backend_get v (s_store st) (eid e) (namespace e) = Some e"
    and some: "assertions e \<noteq> [] \<or> anchors e \<noteq> []"
  shows "\<exists>new. revisited (position e) new (s_store st) (s_store (verify_entry v p cfg now co e st))"
proof -
  obtain vo ct where run: "run_verification_pass p cfg now co (s_tree st) (eid e) (namespace e) (assertions e) (anchors e) = (vo, ct)"
    by (rule prod.exhaust)
  note ve = verify_entry_run [OF some run] and id = run_pass_identity [OF run]
  from backend_get_SomeD [OF here] obtain old
    where old: "map_of (rows (b_db (s_store st))) (position e) = Some old" "served_view old = e"
    by (auto simp: db_get_def position_def)
  from old(2) have claims: "assertions old = [] \<longleftrightarrow> assertions e = []" by auto
  note same = revisited_same [OF old(1)]
  show ?thesis
  proof (cases "s_store (verify_entry v p cfg now co e st) = s_store st")
    case True
    with same show ?thesis by (auto simp only:)
  next
    case False
    then obtain r us where up: "backend_update v now (s_store st) (eid e) (namespace e) us
        = Inr (s_store (verify_entry v p cfg now co e st), r)"
      and us: "us = [UVerificationStatus None] \<or> us = update_fields vo"
      using id by (auto simp: ve persist_verification_outcome_def split: if_splits sum.splits prod.splits)
    have "us = [UVerificationStatus None] \<or> (us = update_fields vo
        \<and> (\<forall>old. map_of (rows (b_db (s_store st))) (namespace e, eid e) = Some old \<longrightarrow> (o_updated vo = [] \<longleftrightarrow> assertions old = [])))"
      using us old(1) claims run_pass_updated [OF run] by (auto simp: position_def)
    from updated_revisits [OF up _ this] here show ?thesis by (simp add: position_def)
  qed
qed

lemma sort_key_map: "(\<And>x. key (f x) = key x) \<Longrightarrow> sort_key key (map f xs) = map f (sort_key key xs)"
proof (induction xs)
  case (Cons x xs)
  have "insort_key key (f x) (map f ys) = map f (insort_key key x ys)" for ys
    by (induction ys) (simp_all add: Cons.prems)
  with Cons show ?case by simp
qed simp

text \<open>Read through the query, a visit replaces the visited row and leaves the others.\<close>

lemma revisited_admitted:
  assumes ok: "db_ok (b_db b)" and vis: "revisited k new b b'"
  shows "\<exists>f. by_claims.admitted ns v b' = map f (by_claims.admitted ns v b)
    \<and> (\<forall>x. position (f x) = position x) \<and> (\<forall>x. position x \<noteq> k \<longrightarrow> f x = x)
    \<and> (\<forall>x. position x = k \<longrightarrow> f x = served_view new)"
proof -
  from vis obtain old where old: "map_of (rows (b_db b)) k = Some old" "rewritten old new"
      "assertions new = [] \<longleftrightarrow> assertions old = []"
    and r: "rows (b_db b') = dict_set k new (rows (b_db b))" "b_ledger b' = b_ledger b"
    by (auto simp: revisited_def)
  have rok: "rows_ok (b_db b)" using ok by (simp add: db_ok_def)
  with old(1) have key: "position old = k" unfolding rows_ok_def position_key by blast
  note new = rewritten_simps [OF old(2)]
  define g where "g = (\<lambda>x. if position x = k then new else x)"
  have pos: "position (g x) = position x" for x by (simp add: g_def new key)
  have mem: "x = old" if "x \<in> snd ` set (rows (b_db b))" "position x = k" for x
  proof -
    from that(1) rok obtain k' where k': "map_of (rows (b_db b)) k' = Some x" by (auto simp: rows_ok_def)
    with rok have "position x = k'" unfolding rows_ok_def position_key by blast
    with k' that(2) old(1) show ?thesis by simp
  qed
  have claims: "has_claims ns (g x) \<longleftrightarrow> has_claims ns x" if "x \<in> snd ` set (rows (b_db b))" for x
  proof -
    have "has_claims ns new \<longleftrightarrow> has_claims ns old" using old(3) by (simp add: has_claims_def new cong: option.case_cong)
    with mem [OF that] show ?thesis by (auto simp: g_def)
  qed
  have blocks: "quarantine_blocks v b (g x) \<longleftrightarrow> quarantine_blocks v b x" if "x \<in> snd ` set (rows (b_db b))" for x
    using mem [OF that] by (auto simp: g_def new)
  have led: "quarantine_blocks v b' x \<longleftrightarrow> quarantine_blocks v b x" for x by (simp add: quarantine_blocks_def r)
  have "position z = k'" if "(k', z) \<in> set (rows (b_db b))" for k' z
    using rok map_of_is_SomeI [OF _ that] unfolding rows_ok_def position_key by blast
  then have "map snd (rows (b_db b')) = map g (map snd (rows (b_db b)))"
    unfolding r using rok old(1) by (subst dict_set_map) (auto simp: rows_ok_def g_def)
  then have rows': "claim_rows ns b' = map served_view (map g (sort_key position (filter (has_claims ns) (map snd (rows (b_db b))))))"
    using claims by (simp add: claim_rows_def filter_map comp_def sort_key_map pos flip: sort_key_map [of position g, OF pos] cong: filter_cong)
  let ?S = "sort_key position (filter (has_claims ns) (map snd (rows (b_db b))))"
  define f where "f = (\<lambda>x. if position x = k then served_view new else x)"
  have f: "served_view (g x) = f (served_view x)" for x by (simp add: f_def g_def)
  have same: "quarantine_blocks v b (f y) \<longleftrightarrow> quarantine_blocks v b y" if "y \<in> set (map served_view ?S)" for y
  proof -
    from that obtain x where "x \<in> snd ` set (rows (b_db b))" "y = served_view x" by auto
    with blocks show ?thesis by (simp flip: f)
  qed
  have "by_claims.admitted ns v b' = map f (filter (\<lambda>x. \<not> quarantine_blocks v b (f x)) (map served_view ?S))"
    unfolding by_claims.admitted_def rows' led by (simp add: filter_map comp_def f)
  also have "\<dots> = map f (by_claims.admitted ns v b)"
    unfolding by_claims.admitted_def claim_rows_def
    by (rule arg_cong [of _ _ "map f"], rule filter_cong [OF refl]) (simp only: same)
  finally have "by_claims.admitted ns v b' = map f (by_claims.admitted ns v b)" .
  moreover have "position (f x) = position x" "position x \<noteq> k \<Longrightarrow> f x = x" "position x = k \<Longrightarrow> f x = served_view new" for x
    by (simp_all add: f_def new key)
  ultimately show ?thesis by blast
qed

lemma admitted_get:
  assumes "db_ok (b_db b)" "e \<in> set (by_claims.admitted ns v b)"
  shows "backend_get v b (eid e) (namespace e) = Some e" "assertions e \<noteq> [] \<or> anchors e \<noteq> []"
proof -
  from assms(2) obtain x k where x: "(k, x) \<in> set (rows (b_db b))" "e = served_view x" "has_claims ns x"
    "\<not> quarantine_blocks v b e" by (auto simp: by_claims.admitted_def claim_rows_def)
  have "rows_ok (b_db b)" using assms(1) by (simp add: db_ok_def)
  with x(1) have r: "map_of (rows (b_db b)) k = Some x" by (simp add: rows_ok_def)
  with \<open>rows_ok (b_db b)\<close> have "entry_key x = k" unfolding rows_ok_def by blast
  with r x show "backend_get v b (eid e) (namespace e) = Some e"
    by (auto simp: backend_get_def db_get_def entry_key_def quarantine_admits_def)
  from x show "assertions e \<noteq> [] \<or> anchors e \<noteq> []" by (auto simp: has_claims_def)
qed

text \<open>The rows a sweep accounts for, and what a stretch of it did to the rows of a query.\<close>

definition accounted :: "sweep_state \<Rightarrow> nat" where
  "accounted st = entries_processed (s_summary st) + entry_failures (s_summary st)"

definition swept :: "env \<Rightarrow> string option \<Rightarrow> checkout \<Rightarrow> memory_entry list \<Rightarrow> sweep_state \<Rightarrow> sweep_state \<Rightarrow> bool" where
  "swept v ns co es st st' \<longleftrightarrow>
     db_ok (b_db (s_store st')) \<and> accounted st' = accounted st + length es \<and> failures st \<le> failures st'
     \<and> (\<exists>f. by_claims.admitted ns v (s_store st') = map f (by_claims.admitted ns v (s_store st))
          \<and> (\<forall>x. position (f x) = position x) \<and> (\<forall>x. position x \<notin> position ` set es \<longrightarrow> f x = x)
          \<and> (co = NoRoot \<and> failures st' = failures st \<longrightarrow>
               (\<forall>x. position x \<in> position ` set es \<longrightarrow> verification_status (f x) \<noteq> Some True)))"

lemma swept_Nil: "db_ok (b_db (s_store st)) \<Longrightarrow> swept v ns co [] st st"
  by (auto simp: swept_def intro!: exI [of _ id])

lemma swept_append:
  assumes "swept v ns co es st st1" "swept v ns co fs st1 st2"
    "position ` set es \<inter> position ` set fs = {}"
  shows "swept v ns co (es @ fs) st st2"
proof -
  from assms(1) obtain f where f: "accounted st1 = accounted st + length es" "failures st \<le> failures st1"
    "by_claims.admitted ns v (s_store st1) = map f (by_claims.admitted ns v (s_store st))"
    "\<forall>x. position (f x) = position x" "\<forall>x. position x \<notin> position ` set es \<longrightarrow> f x = x"
    "co = NoRoot \<and> failures st1 = failures st \<longrightarrow> (\<forall>x. position x \<in> position ` set es \<longrightarrow> verification_status (f x) \<noteq> Some True)"
    unfolding swept_def by blast
  from assms(2) obtain g where g: "db_ok (b_db (s_store st2))" "accounted st2 = accounted st1 + length fs" "failures st1 \<le> failures st2"
    "by_claims.admitted ns v (s_store st2) = map g (by_claims.admitted ns v (s_store st1))"
    "\<forall>x. position (g x) = position x" "\<forall>x. position x \<notin> position ` set fs \<longrightarrow> g x = x"
    "co = NoRoot \<and> failures st2 = failures st1 \<longrightarrow> (\<forall>x. position x \<in> position ` set fs \<longrightarrow> verification_status (g x) \<noteq> Some True)"
    unfolding swept_def by blast
  have "verification_status (g (f x)) \<noteq> Some True"
    if "co = NoRoot" "failures st2 = failures st" "position x \<in> position ` set (es @ fs)" for x
  proof (cases "position x \<in> position ` set fs")
    case True
    then show ?thesis using f(2,4) g(3,7) that(1,2) by simp
  next
    case False
    moreover from False that(3) have "position x \<in> position ` set es" by auto
    moreover from f(2) g(3) that(2) have "failures st1 = failures st" by simp
    ultimately show ?thesis using f(4,6) g(6) that(1) by simp
  qed
  moreover have "g (f x) = x" if "position x \<notin> position ` set (es @ fs)" for x
  proof -
    from that have "position x \<notin> position ` set es" "position x \<notin> position ` set fs" by auto
    with f(5) g(6) show ?thesis by simp
  qed
  ultimately show ?thesis unfolding swept_def
    using f(1-4) g(1-5) by (intro conjI exI [of _ "g \<circ> f"]) auto
qed

lemma verify_entry_accounts:
  assumes "assertions e \<noteq> [] \<or> anchors e \<noteq> []"
  shows "accounted (verify_entry v p cfg now co e st) = Suc (accounted st)"
    and "failures st \<le> failures (verify_entry v p cfg now co e st)"
proof -
  obtain vo ct where run: "run_verification_pass p cfg now co (s_tree st) (eid e) (namespace e) (assertions e) (anchors e) = (vo, ct)"
    by (rule prod.exhaust)
  show "accounted (verify_entry v p cfg now co e st) = Suc (accounted st)"
    "failures st \<le> failures (verify_entry v p cfg now co e st)"
    unfolding verify_entry_run [OF assms run]
    by (auto simp: accounted_def failures_def counted_failure_def split: sum.split prod.split)
qed

lemma verify_entry_swept:
  assumes ok: "db_ok (b_db (s_store st))" and e: "e \<in> set (by_claims.admitted ns v (s_store st))"
  shows "swept v ns co [e] st (verify_entry v p cfg now co e st)"
proof -
  let ?st = "verify_entry v p cfg now co e st"
  note here = admitted_get [OF ok e]
  from verify_entry_revisits [OF here] obtain new where vis: "revisited (position e) new (s_store st) (s_store ?st)" by blast
  from revisited_admitted [OF ok vis] obtain f where f: "by_claims.admitted ns v (s_store ?st) = map f (by_claims.admitted ns v (s_store st))"
    "\<forall>x. position (f x) = position x" "\<forall>x. position x \<noteq> position e \<longrightarrow> f x = x" "\<forall>x. position x = position e \<longrightarrow> f x = served_view new"
    by blast
  have "verification_status new \<noteq> Some True" if "co = NoRoot" "failures ?st = failures st"
  proof -
    obtain vo ct where run: "run_verification_pass p cfg now co (s_tree st) (eid e) (namespace e) (assertions e) (anchors e) = (vo, ct)"
      by (rule prod.exhaust)
    from run that(1) have "\<not> o_verifiable vo" by (auto dest: run_pass_no_root)
    moreover have "db_get (eid e) (namespace e) (b_db (s_store ?st)) = Some new"
      using vis by (auto simp: revisited_def db_get_def position_def map_of_dict_set)
    ultimately show ?thesis using verify_entry_settles [OF here(1) run _ that(2)] by blast
  qed
  moreover have "db_ok (b_db (s_store ?st))" using vis ok by (simp add: revisited_def)
  ultimately show ?thesis unfolding swept_def
    using f verify_entry_accounts [OF here(2)] by (intro conjI exI [of _ f]) auto
qed

lemma visit_page_swept:
  assumes "db_ok (b_db (s_store st))" "set es \<subseteq> set (by_claims.admitted ns (w_env w) (s_store st))" "distinct (map position es)"
  shows "\<exists>st'. visit_page w cfg co None es k st = (length es, k + length es, st') \<and> swept (w_env w) ns co es st st'"
  using assms
proof (induction es arbitrary: k st)
  case Nil
  then show ?case by (simp add: swept_Nil)
next
  case (Cons e es)
  let ?st1 = "verify_entry (w_env w) (w_pass w k) cfg (w_moment w k) co e st"
  have one: "swept (w_env w) ns co [e] st ?st1" by (rule verify_entry_swept) (use Cons.prems in auto)
  then obtain f where ok: "db_ok (b_db (s_store ?st1))"
    and f: "by_claims.admitted ns (w_env w) (s_store ?st1) = map f (by_claims.admitted ns (w_env w) (s_store st))"
      "\<forall>x. position x \<notin> position ` set [e] \<longrightarrow> f x = x" unfolding swept_def by blast
  have "set es \<subseteq> set (by_claims.admitted ns (w_env w) (s_store ?st1))"
  proof
    fix x assume x: "x \<in> set es"
    then have "position x \<in> position ` set es" by blast
    with Cons.prems(3) have "position x \<noteq> position e" by auto
    with f(2) have "f x = x" by simp
    moreover have "x \<in> set (by_claims.admitted ns (w_env w) (s_store st))" using x Cons.prems(2) by auto
    ultimately show "x \<in> set (by_claims.admitted ns (w_env w) (s_store ?st1))" unfolding f(1) set_map by (metis imageI)
  qed
  from Cons.IH [OF ok this, of "Suc k"] Cons.prems(3) obtain st' where
    st': "visit_page w cfg co None es (Suc k) ?st1 = (length es, Suc k + length es, st')" "swept (w_env w) ns co es ?st1 st'" by auto
  from Cons.prems(3) have "position ` set [e] \<inter> position ` set es = {}" by auto
  from swept_append [OF one st'(2) this] st'(1) show ?case by simp
qed

lemma rest_distinct:
  assumes "claims_ok b"
  shows "distinct (map position (served_claims.rest ns v b c))"
proof -
  have "sorted_wrt (<) (map position (by_claims.admitted ns v b))" by (rule served_claims.strict [OF assms])
  then have "distinct (map position (by_claims.admitted ns v b))" by (simp add: strict_sorted_iff)
  then show ?thesis unfolding served_claims.rest_def by (rule distinct_map_filter)
qed

text \<open>After a full page, what is left is what was left behind it: the visits moved nothing.\<close>

lemma rest_after_page:
  assumes ok: "claims_ok (s_store st)" and n: "0 < n" "n \<le> length (served_claims.rest ns v (s_store st) c)"
    and sw: "swept v ns co (take n (served_claims.rest ns v (s_store st) c)) st st1"
  shows "served_claims.rest ns v (s_store st1) (Some (position (served_claims.rest ns v (s_store st) c ! (n - 1))))
      = drop n (served_claims.rest ns v (s_store st) c)"
    and "position ` set (take n (served_claims.rest ns v (s_store st) c))
      \<inter> position ` set (drop n (served_claims.rest ns v (s_store st) c)) = {}"
proof -
  let ?rest = "served_claims.rest ns v (s_store st) c"
  let ?c = "Some (position (?rest ! (n - 1)))"
  have "map position ?rest = map position (take n ?rest) @ map position (drop n ?rest)"
    by (simp only: append_take_drop_id flip: map_append)
  with rest_distinct [OF ok, of ns v c]
  show apart: "position ` set (take n ?rest) \<inter> position ` set (drop n ?rest) = {}"
    by (simp only: distinct_append set_map)
  from sw obtain f where f: "by_claims.admitted ns v (s_store st1) = map f (by_claims.admitted ns v (s_store st))"
    "\<forall>x. position (f x) = position x" "\<forall>x. position x \<notin> position ` set (take n ?rest) \<longrightarrow> f x = x"
    unfolding swept_def by blast
  have "served_claims.rest ns v (s_store st1) ?c = map f (served_claims.rest ns v (s_store st) ?c)"
    by (simp add: served_claims.rest_def f(1,2) filter_map comp_def)
  also have "\<dots> = map f (drop n ?rest)"
    using served_claims.rest_after [OF ok, of "n - 1" ns v c] n by simp
  also have "\<dots> = drop n ?rest"
  proof (rule map_idI)
    fix x assume "x \<in> set (drop n ?rest)"
    then have "position x \<notin> position ` set (take n ?rest)" using apart by blast
    with f(3) show "f x = x" by simp
  qed
  finally show "served_claims.rest ns v (s_store st1) ?c = drop n ?rest" .
qed

text \<open>One page of the loop, with no deadline.\<close>

lemma maintain_page:
  assumes ok: "db_ok (b_db (s_store st))" and page: "0 < page" "seen < budget"
    and rest: "rest = served_claims.rest ns (w_env w) (s_store st) cursor" "rest \<noteq> []"
    and batch: "batch = take (min page (budget - seen)) rest"
  shows "\<exists>st1. swept (w_env w) ns co batch st st1
    \<and> maintain_loop w cfg co ns None page budget k seen cursor st =
       (if length batch < min page (budget - seen) then Inr (None, st1)
        else maintain_loop w cfg co ns None page budget (Suc (k + length batch)) (seen + length batch)
               (Some (position (batch ! (length batch - 1)))) st1)"
proof -
  define limit where "limit = min page (budget - seen)"
  note lim = limit_def [symmetric]
  have fetch: "the (entries_with_assertions (w_env w) ns (s_store st) cursor limit) = batch"
    using served_claims.fetch_rest ok by (simp add: batch rest(1) limit_def claims_ok_def)
  from page rest(2) have some: "batch \<noteq> []" by (simp add: batch)
  have sub: "set batch \<subseteq> set rest" by (auto simp: batch dest: in_set_takeD)
  have "distinct (map position batch)"
    unfolding batch take_map [symmetric] rest(1) by (rule distinct_take, rule rest_distinct) (simp add: claims_ok_def ok)
  moreover have "set batch \<subseteq> set (by_claims.admitted ns (w_env w) (s_store st))"
    using sub by (auto simp: rest(1) served_claims.rest_def)
  ultimately obtain st1 where v: "visit_page w cfg co None batch k st = (length batch, k + length batch, st1)"
    "swept (w_env w) ns co batch st st1" using visit_page_swept [OF ok] by blast
  have "last batch \<in> set rest" using sub some last_in_set by blast
  then have moves: "\<not> (case cursor of None \<Rightarrow> False | Some p \<Rightarrow> position (last batch) \<le> p)"
    by (auto simp: rest(1) served_claims.rest_def beyond_def split: option.splits)
  have "length batch \<le> limit" unfolding batch lim length_take by (rule min.cobounded2)
  with v(2) show ?thesis
    by (intro exI [of _ st1] conjI, simp, subst maintain_loop.simps, unfold Let_def lim fetch v(1) prod.case)
      (use page some moves in \<open>simp add: not_less\<close>)
qed

lemma maintain_loop_swept:
  assumes "db_ok (b_db (s_store st))" "0 < page"
    and "seen + length (served_claims.rest ns (w_env w) (s_store st) cursor) < budget"
  shows "\<exists>st'. maintain_loop w cfg co ns None page budget k seen cursor st = Inr (None, st')
    \<and> swept (w_env w) ns co (served_claims.rest ns (w_env w) (s_store st) cursor) st st'"
  using assms
proof (induction "length (served_claims.rest ns (w_env w) (s_store st) cursor)" arbitrary: k seen cursor st rule: less_induct)
  case less
  define rest where "rest = served_claims.rest ns (w_env w) (s_store st) cursor"
  define limit where "limit = min page (budget - seen)"
  define batch where "batch = take limit rest"
  have ok: "claims_ok (s_store st)" using less.prems(1) by (simp add: claims_ok_def)
  have seen: "seen < budget" and limit: "0 < limit" using less.prems(2,3) by (simp_all add: limit_def)
  show ?case
  proof (cases "rest = []")
    case True
    have "the (entries_with_assertions (w_env w) ns (s_store st) cursor limit) = []"
      using served_claims.fetch_rest [OF ok] True by (simp add: rest_def)
    with True seen less.prems(1) show ?thesis
      by (subst maintain_loop.simps) (simp add: Let_def swept_Nil rest_def limit_def)
  next
    case False
    from maintain_page [OF less.prems(1,2) seen rest_def False batch_def [unfolded limit_def]]
    obtain st1 where v: "swept (w_env w) ns co batch st st1"
      and step: "maintain_loop w cfg co ns None page budget k seen cursor st =
       (if length batch < limit then Inr (None, st1)
        else maintain_loop w cfg co ns None page budget (Suc (k + length batch)) (seen + length batch)
               (Some (position (batch ! (length batch - 1)))) st1)" unfolding limit_def by blast
    show ?thesis
    proof (cases "length batch < limit")
      case True
      then have "batch = rest" by (auto simp: batch_def)
      with True step v show ?thesis by (auto simp: rest_def)
    next
      case full: False
      then have len: "length batch = limit" "limit \<le> length rest" by (auto simp: batch_def)
      have nth: "batch ! (length batch - 1) = rest ! (limit - 1)" using limit len by (simp add: batch_def)
      note after = rest_after_page [OF ok limit len(2) [unfolded rest_def] v [unfolded batch_def rest_def], folded rest_def]
      have ok1: "db_ok (b_db (s_store st1))" using v by (simp add: swept_def)
      have "length (drop limit rest) < length rest" "(seen + length batch) + length (drop limit rest) < budget"
        using limit len less.prems(3) by (simp_all add: rest_def)
      with less.hyps [OF _ ok1 less.prems(2)] after(1) obtain st'
        where st': "maintain_loop w cfg co ns None page budget (Suc (k + length batch)) (seen + length batch)
            (Some (position (rest ! (limit - 1)))) st1 = Inr (None, st')"
          "swept (w_env w) ns co (drop limit rest) st1 st'" unfolding rest_def by metis
      from swept_append [OF v st'(2)] after(2) have "swept (w_env w) ns co rest st st'"
        by (simp add: batch_def)
      with st'(1) step full nth show ?thesis by (simp add: rest_def)
    qed
  qed
qed

text \<open>
  C33: a whole sweep accounts for every claim, and trusts none it could not check. Whatever page size it
  runs with, an unsliced sweep over a well-formed store ends, and counts exactly the admitted active rows
  that carry assertions or anchors, each once, although every visit writes to the store the next page is
  read from. With no checkout it can walk, either it reports a failure or no such row is left ``verified''.
\<close>

theorem sweep_accounts_for_every_claim:
  assumes "db_ok (b_db b)" "0 < batch_limit" "length (claim_rows ns b) < all_rows"
  shows "\<exists>st. run_maintain_verify w cfg co ns batch_limit None None None ct b = Inr (None, st)
    \<and> accounted st = length (filter (\<lambda>e. \<not> quarantine_blocks (w_env w) b e) (claim_rows ns b))
    \<and> ((\<forall>d. co \<noteq> OpenRoot d) \<and> failures st = 0 \<longrightarrow>
         (\<forall>e \<in> set (claim_rows ns (s_store st)). \<not> quarantine_blocks (w_env w) (s_store st) e
            \<longrightarrow> verification_status e \<noteq> Some True))"
proof -
  let ?co = "walkable_root co"
  let ?st = "\<lparr>s_store = b, s_tree = if ?co = NoRoot then None else case ct of None \<Rightarrow> Some fresh_tree | Some t \<Rightarrow> Some t,
    s_summary = empty_summary\<rparr>"
  let ?adm = "by_claims.admitted ns (w_env w)"
  have start: "accounted ?st = 0" "failures ?st = 0" by (simp_all add: accounted_def failures_def empty_summary_def)
  have "0 + length (served_claims.rest ns (w_env w) (s_store ?st) None) < all_rows"
    using assms(3) by (simp add: by_claims.admitted_def le_less_trans [OF length_filter_le])
  from maintain_loop_swept [OF _ assms(2) this, where cfg = cfg and co = ?co and k = 1] assms(1)
  obtain st where run: "maintain_loop w cfg ?co ns None batch_limit all_rows 1 0 None ?st = Inr (None, st)"
    and sw: "swept (w_env w) ns ?co (?adm b) ?st st" by auto
  then have "run_maintain_verify w cfg co ns batch_limit None None None ct b = Inr (None, st)"
    using assms(2) by (simp add: run_maintain_verify_def Let_def)
  moreover have "accounted st = length (filter (\<lambda>e. \<not> quarantine_blocks (w_env w) b e) (claim_rows ns b))"
    using sw start by (simp add: swept_def by_claims.admitted_def)
  moreover have "verification_status e \<noteq> Some True"
    if "\<forall>d. co \<noteq> OpenRoot d" "failures st = 0" "e \<in> set (?adm (s_store st))" for e
  proof -
    from that(1) have "?co = NoRoot" by (simp add: walkable_root_def split: checkout.split)
    with sw start that(2) obtain f where "?adm (s_store st) = map f (?adm b)"
      "\<forall>x. position x \<in> position ` set (?adm b) \<longrightarrow> verification_status (f x) \<noteq> Some True"
      by (auto simp: swept_def)
    with that(3) show ?thesis by auto
  qed
  ultimately show ?thesis by (auto simp: by_claims.admitted_def)
qed

section \<open>A sweep of a store\<close>

definition sample_world :: sweep_world where
  "sample_world = \<lparr>w_env = plain_env, w_pass = (\<lambda>_. sample_pass), w_moment = (\<lambda>_. 100), w_clock = (\<lambda>_. 0)\<rparr>"

lemma claiming_rows: "claim_rows None claiming_store = [claiming_row]"
  by code_simp

theorem sweep_accounts_for_every_claim_witness:
  "\<exists>st. run_maintain_verify sample_world default_settings (RefusedRoot ''link'') None 10 None None None None claiming_store = Inr (None, st)
    \<and> accounted st = 1"
proof -
  have ok: "db_ok (b_db claiming_store)"
    by (simp add: claiming_store_def write_row_ok db_ok_empty)
  have few: "length (claim_rows None claiming_store) < all_rows" by (simp add: claiming_rows all_rows_def)
  have "\<not> quarantine_blocks (w_env sample_world) claiming_store claiming_row"
    by (simp add: quarantine_blocks_def claiming_store_def)
  with sweep_accounts_for_every_claim [OF ok _ few, of 10 sample_world default_settings "RefusedRoot ''link''" None]
  show ?thesis by (auto simp: claiming_rows)
qed

end
