(* ===== verification/Dedup.thy ===== *)
theory Dedup
  imports Labels Evidence "HOL-Library.Sublist" Complex_Main
begin

text \<open>
  Deduplication (\<^verbatim>\<open>lifecycle/dedup.py\<close>): the duplicate check of a new entry, the merge of one entry into
  another, and the batch pass over a list of entries, with the model-aware thresholds of
  \<^verbatim>\<open>embeddings/_similarity_calibration.py\<close> and the cosine of \<^verbatim>\<open>retrieval/dense.py\<close>. The embedding
  provider and the Unicode case folding are parameters.
\<close>

section \<open>Similarity and its thresholds\<close>

definition dot_product :: "rat list \<Rightarrow> rat list \<Rightarrow> rat" where
  "dot_product a b = sum_list (map (\<lambda>(x, y). x * y) (zip a b))"

definition vector_norm :: "rat list \<Rightarrow> real" where
  "vector_norm a = sqrt (of_rat (dot_product a a))"

text \<open>\<open>None\<close> is the dimension mismatch, which the source raises.\<close>

definition cosine_similarity :: "rat list \<Rightarrow> rat list \<Rightarrow> real option" where
  "cosine_similarity a b =
     (if length a \<noteq> length b then None
      else if vector_norm a = 0 \<or> vector_norm b = 0 then Some 0
      else Some (of_rat (dot_product a b) / (vector_norm a * vector_norm b)))"

definition reference_anchors :: "(string \<times> (rat \<times> rat) list) list" where
  "reference_anchors =
     [(''baai/bge-small-en-v1.5'',
       [(-1, -1), (0, 495/1000), (1/2, 745/1000), (3/4, 89/100), (85/100, 89/100), (90/100, 945/1000),
        (92/100, 955/1000), (95/100, 98/100), (1, 1)])]"

definition anchors_of :: "string option \<Rightarrow> (rat \<times> rat) list option" where
  "anchors_of model =
     (case model of
        None \<Rightarrow> None
      | Some m \<Rightarrow>
          if m = [] then None
          else (let k = str_lower (str_strip m)
                in case map_of reference_anchors k of
                     Some xs \<Rightarrow> Some xs
                   | None \<Rightarrow> map_option snd (find (\<lambda>(known, xs). k = last (split_char CHR ''/'' known)) reference_anchors)))"

definition bisect_right :: "rat list \<Rightarrow> rat \<Rightarrow> nat" where
  "bisect_right refs t = length (takeWhile (\<lambda>r. r \<le> t) refs)"

definition interpolated :: "(rat \<times> rat) list \<Rightarrow> rat \<Rightarrow> rat" where
  "interpolated table t =
     (let i = min (bisect_right (map fst table) t - 1) (length table - 2);
          (x0, y0) = table ! i; (x1, y1) = table ! Suc i
      in round_decimals 4 (y0 + (y1 - y0) * (t - x0) / (x1 - x0)))"

definition calibrated_threshold :: "rat \<Rightarrow> string option \<Rightarrow> rat" where
  "calibrated_threshold t model =
     (case anchors_of model of
        None \<Rightarrow> t
      | Some table \<Rightarrow> if \<not> (-1 \<le> t \<and> t \<le> 1) then t else interpolated table t)"

record embedder =
  em_available :: bool
  em_model :: "string option"
  em_embed :: "string \<Rightarrow> rat list option"
  em_batch :: "string list \<Rightarrow> rat list option list"

record dedup_config =
  dedup_skip_threshold :: rat
  dedup_merge_threshold :: rat
  dedup_lexical_fallback :: bool

definition validated_thresholds :: "dedup_config \<Rightarrow> embedder option \<Rightarrow> rat \<times> rat" where
  "validated_thresholds cfg em =
     (let model = Option.bind em em_model;
          (skip, merge) = (if dedup_merge_threshold cfg \<ge> dedup_skip_threshold cfg then (95/100, 85/100)
                           else (dedup_skip_threshold cfg, dedup_merge_threshold cfg))
      in (calibrated_threshold skip model, calibrated_threshold merge model))"

section \<open>The duplicate check\<close>

datatype dedup_action = SkipNew | MergeNew | StoreNew

record dedup_result =
  dr_action :: dedup_action
  dr_existing :: "string option"
  dr_similarity :: real

definition store_new :: "real \<Rightarrow> dedup_result" where
  "store_new sim = \<lparr>dr_action = StoreNew, dr_existing = None, dr_similarity = sim\<rparr>"

definition normalize_text :: "(string \<Rightarrow> string) \<Rightarrow> string \<Rightarrow> string" where
  "normalize_text ufold t =
     (let s = str_join '' '' (str_words t) in if is_ascii s then str_lower s else ufold s)"

definition entry_text :: "memory_entry \<Rightarrow> string" where
  "entry_text e = content e @ '' '' @ detail e"

definition lexical_duplicate :: "(string \<Rightarrow> string) \<Rightarrow> string \<Rightarrow> string \<Rightarrow> memory_entry list \<Rightarrow> dedup_result option" where
  "lexical_duplicate ufold c d es =
     (let target = normalize_text ufold (c @ '' '' @ d)
      in if target = [] then None
         else map_option (\<lambda>e. \<lparr>dr_action = MergeNew, dr_existing = Some (eid e), dr_similarity = 1\<rparr>)
                (find (\<lambda>e. status e = Active \<and> normalize_text ufold (entry_text e) = target) es))"

text \<open>The closest candidate; a candidate without a vector, or of another width, is passed over.\<close>

fun closest :: "rat list \<Rightarrow> (memory_entry \<times> rat list option) list \<Rightarrow> real \<times> string option \<Rightarrow> real \<times> string option" where
  "closest nv [] best = best"
| "closest nv ((e, vec) # rest) best =
     closest nv rest
       (case vec of
          None \<Rightarrow> best
        | Some w \<Rightarrow>
            (case cosine_similarity nv w of
               None \<Rightarrow> best
             | Some sim \<Rightarrow> if fst best < sim then (sim, Some (eid e)) else best))"

datatype dedup_error = UnequalBatch | DimensionMismatch

definition lexical_or_store :: "(string \<Rightarrow> string) \<Rightarrow> dedup_config \<Rightarrow> string \<Rightarrow> string \<Rightarrow> memory_entry list \<Rightarrow> dedup_result" where
  "lexical_or_store ufold cfg c d es =
     (case (if dedup_lexical_fallback cfg then lexical_duplicate ufold c d es else None) of
        Some r \<Rightarrow> r | None \<Rightarrow> store_new 0)"

definition decide :: "rat \<times> rat \<Rightarrow> real \<times> string option \<Rightarrow> dedup_result" where
  "decide limits best =
     (case best of
        (sim, Some i) \<Rightarrow>
          if of_rat (fst limits) \<le> sim then \<lparr>dr_action = SkipNew, dr_existing = Some i, dr_similarity = sim\<rparr>
          else if of_rat (snd limits) \<le> sim then \<lparr>dr_action = MergeNew, dr_existing = Some i, dr_similarity = sim\<rparr>
          else store_new sim
      | (sim, None) \<Rightarrow> store_new sim)"

definition check_duplicate ::
  "(string \<Rightarrow> string) \<Rightarrow> dedup_config \<Rightarrow> embedder option \<Rightarrow> string \<Rightarrow> string \<Rightarrow> memory_entry list
     \<Rightarrow> (dedup_error, dedup_result) result" where
  "check_duplicate ufold cfg em c d es =
     (case em of
        None \<Rightarrow> Inr (lexical_or_store ufold cfg c d es)
      | Some m \<Rightarrow>
          if \<not> em_available m then Inr (lexical_or_store ufold cfg c d es)
          else if es = [] then Inr (store_new 0)
          else (case em_embed m (c @ '' '' @ d) of
                  None \<Rightarrow> Inr (lexical_or_store ufold cfg c d es)
                | Some nv \<Rightarrow>
                    (let active = filter (\<lambda>e. status e = Active) es; vecs = em_batch m (map entry_text active)
                     in if active = [] then Inr (store_new 0)
                        else if length vecs \<noteq> length active then Inl UnequalBatch
                        else Inr (decide (validated_thresholds cfg em) (closest nv (zip active vecs) (0, None))))))"

section \<open>The merge\<close>

fun tier_rank :: "protection_tier_t \<Rightarrow> nat" where
  "tier_rank TierLow = 0"
| "tier_rank TierNormal = 1"
| "tier_rank TierHigh = 2"
| "tier_rank TierCritical = 3"
| "tier_rank TierProtected = 4"
| "tier_rank TierPermanent = 5"

fun confidence_rank :: "confidence_level \<Rightarrow> nat" where
  "confidence_rank Unverified = 0"
| "confidence_rank ConfLow = 1"
| "confidence_rank ConfMedium = 2"
| "confidence_rank ConfHigh = 3"
| "confidence_rank ConfVerified = 4"

definition stronger :: "('a \<Rightarrow> nat) \<Rightarrow> 'a \<Rightarrow> 'a \<Rightarrow> 'a" where
  "stronger rank existing incoming = (if rank existing < rank incoming then incoming else existing)"

definition assertion_key :: "assertion \<Rightarrow> assertion_type \<times> string \<times> string" where
  "assertion_key a = (a_type a, a_pattern a, a_target a)"

fun union_assertions :: "assertion list \<Rightarrow> assertion list \<Rightarrow> assertion list" where
  "union_assertions merged [] = merged"
| "union_assertions merged (a # as) =
     union_assertions (if assertion_key a \<in> set (map assertion_key merged) then merged else merged @ [a]) as"

fun add_ancestors :: "string \<Rightarrow> string list \<Rightarrow> string list \<Rightarrow> string list" where
  "add_ancestors self merged [] = merged"
| "add_ancestors self merged (a # as) =
     add_ancestors self (if a \<noteq> [] \<and> a \<noteq> self \<and> a \<notin> set merged then merged @ [a] else merged) as"

definition plain_words :: "string \<Rightarrow> string" where
  "plain_words s = str_join '' '' (str_words s)"

definition newline :: string where "newline = [CHR 0x0A]"

definition kept_content :: "memory_entry \<Rightarrow> memory_entry \<Rightarrow> string" where
  "kept_content existing incoming =
     (let c = plain_words (content incoming) in if c \<noteq> [] \<and> c \<noteq> plain_words (content existing) then c else [])"

definition merged_detail :: "string \<Rightarrow> memory_entry \<Rightarrow> memory_entry \<Rightarrow> string" where
  "merged_detail today existing incoming =
     (let kept = kept_content existing incoming;
          new = (if detail incoming \<noteq> [] \<and> sublist (detail incoming) (detail existing) then [] else detail incoming);
          header = ''Merged from '' @ eid incoming @ '' on '' @ today @ '':'' @ (if kept \<noteq> [] then '' '' @ kept else []);
          body = (if new \<noteq> [] then header @ newline @ new else header)
      in if new \<noteq> [] \<or> kept \<noteq> [] then
           (if detail existing \<noteq> [] then detail existing @ newline @ ''---'' @ newline @ body
            else if kept \<noteq> [] then body else new)
         else detail existing)"

definition merged_confidence :: "memory_entry \<Rightarrow> memory_entry \<Rightarrow> confidence_level" where
  "merged_confidence existing incoming =
     (let c = stronger confidence_rank (confidence existing) (confidence incoming)
      in if c = ConfVerified \<and> evidence_level existing \<notin> {EvObserved, EvVerified} then confidence existing else c)"

definition merge_entries :: "string \<Rightarrow> int \<Rightarrow> memory_entry \<Rightarrow> memory_entry \<Rightarrow> memory_entry" where
  "merge_entries today now existing incoming =
     existing\<lparr>tags := tags existing @ filter (\<lambda>t. t \<notin> set (tags existing)) (tags incoming),
       evidence := evidence existing @ filter (\<lambda>x. x \<notin> set (evidence existing)) (evidence incoming),
       importance := max (importance existing) (importance incoming),
       recurrence := recurrence existing + 1,
       detail := merged_detail today existing incoming,
       merged_from := add_ancestors (eid existing) (merged_from existing) (eid incoming # merged_from incoming),
       access_count := access_count existing + access_count incoming,
       recall_count := recall_count existing + recall_count incoming,
       protection_tier := stronger tier_rank (protection_tier existing) (protection_tier incoming),
       confidence := merged_confidence existing incoming,
       etype := (if etype incoming = Incident \<and> etype existing \<noteq> Incident then Incident else etype existing),
       assertions := union_assertions (assertions existing) (assertions incoming),
       metadata := joined (metadata existing) (metadata incoming),
       updated_at := now\<rparr>"

section \<open>The batch pass\<close>

text \<open>\<open>f"{sim:.3f}"\<close>\<close>

definition nearest_int :: "real \<Rightarrow> int" where
  "nearest_int x =
     (let f = \<lfloor>x\<rfloor>; d = x - of_int f
      in if d < 1/2 then f else if d > 1/2 then f + 1 else if even f then f else f + 1)"

definition fixed3 :: "real \<Rightarrow> string" where
  "fixed3 x =
     (let n = nat \<bar>nearest_int (x * 1000)\<bar>
      in (if x < 0 then ''-'' else []) @ show_nat (n div 1000) @ ''.'' @ drop 1 (show_nat (1000 + n mod 1000)))"

record batch_clock =
  bc_today :: string
  bc_now :: int

record batch_state =
  bs_updated :: "(string, memory_entry) dict"
  bs_skipped :: "string list"
  bs_merged :: nat

definition obsoleted :: "batch_clock \<Rightarrow> string \<Rightarrow> string \<Rightarrow> real \<Rightarrow> memory_entry \<Rightarrow> memory_entry" where
  "obsoleted bc why survivor sim e =
     e\<lparr>status := Obsolete,
       detail := detail e @ newline @ ''['' @ why @ survivor @ '', similarity='' @ fixed3 sim @ '']'',
       updated_at := bc_now bc\<rparr>"

definition drop_duplicate :: "batch_clock \<Rightarrow> string \<Rightarrow> string \<Rightarrow> real \<Rightarrow> memory_entry \<Rightarrow> batch_state \<Rightarrow> batch_state" where
  "drop_duplicate bc why survivor sim e st =
     st\<lparr>bs_updated := dict_set (eid e) (obsoleted bc why survivor sim e) (bs_updated st),
        bs_skipped := eid e # bs_skipped st, bs_merged := Suc (bs_merged st)\<rparr>"

text \<open>The inner loop, for the entry \<open>i\<close> with its vector, over the entries behind it.\<close>

fun compare_rest ::
  "batch_clock \<Rightarrow> rat \<times> rat \<Rightarrow> string \<Rightarrow> rat list \<Rightarrow> (memory_entry \<times> rat list option) list \<Rightarrow> batch_state
     \<Rightarrow> (dedup_error, batch_state) result" where
  "compare_rest bc limits i vi [] st = Inr st"
| "compare_rest bc limits i vi ((e, vec) # rest) st =
     (case vec of
        None \<Rightarrow> compare_rest bc limits i vi rest st
      | Some vj \<Rightarrow>
          if eid e \<in> set (bs_skipped st) then compare_rest bc limits i vi rest st
          else (case cosine_similarity vi vj of
                  None \<Rightarrow> Inl DimensionMismatch
                | Some sim \<Rightarrow>
                    compare_rest bc limits i vi rest
                      (if of_rat (fst limits) \<le> sim
                       then drop_duplicate bc ''Auto-obsoleted: duplicate of '' i sim e st
                       else if of_rat (snd limits) \<le> sim
                       then (let current = the (map_of (bs_updated st) i);
                                 st1 = st\<lparr>bs_updated := dict_set i (merge_entries (bc_today bc) (bc_now bc) current e) (bs_updated st)\<rparr>
                             in drop_duplicate bc ''Auto-merged into '' i sim e st1)
                       else st)))"

fun compare_all ::
  "batch_clock \<Rightarrow> rat \<times> rat \<Rightarrow> (memory_entry \<times> rat list option) list \<Rightarrow> batch_state
     \<Rightarrow> (dedup_error, batch_state) result" where
  "compare_all bc limits [] st = Inr st"
| "compare_all bc limits ((e, vec) # rest) st =
     (case vec of
        None \<Rightarrow> compare_all bc limits rest st
      | Some vi \<Rightarrow>
          if eid e \<in> set (bs_skipped st) then compare_all bc limits rest st
          else bindE (compare_rest bc limits (eid e) vi rest st) (compare_all bc limits rest))"

record batch_report =
  br_completed :: bool
  br_scanned :: nat
  br_merged :: nat
  br_skipped :: nat
  br_updated :: "memory_entry list"

definition skipped_batch :: batch_report where
  "skipped_batch = \<lparr>br_completed = False, br_scanned = 0, br_merged = 0, br_skipped = 0, br_updated = []\<rparr>"

definition by_id :: "memory_entry list \<Rightarrow> (string, memory_entry) dict" where
  "by_id es = foldl (\<lambda>d e. dict_set (eid e) e d) [] es"

definition batch_dedup ::
  "batch_clock \<Rightarrow> dedup_config \<Rightarrow> embedder option \<Rightarrow> memory_entry list \<Rightarrow> (dedup_error, batch_report) result" where
  "batch_dedup bc cfg em es =
     (case em of
        None \<Rightarrow> Inr skipped_batch
      | Some m \<Rightarrow>
          if es = [] \<or> \<not> em_available m then Inr skipped_batch
          else (let active = filter (\<lambda>e. status e = Active) es;
                    vecs = (if active = [] then [] else em_batch m (map entry_text active))
                in if length vecs \<noteq> length active then Inl UnequalBatch
                   else bindE (compare_all bc (validated_thresholds cfg em) (zip active vecs)
                                \<lparr>bs_updated = by_id active, bs_skipped = [], bs_merged = 0\<rparr>) (\<lambda>st.
                     Inr \<lparr>br_completed = True, br_scanned = length active, br_merged = bs_merged st,
                           br_skipped = length (bs_skipped st),
                           br_updated = map snd (filter (\<lambda>(k, e). map_of (by_id active) k \<noteq> Some e) (bs_updated st))\<rparr>)))"

section \<open>A merge loses nothing\<close>

text \<open>
  An absorbing merge: what one value holds of another is never lost by a further merge, so a value that
  has absorbed a list holds everything in it, in whatever order it came.
\<close>

locale absorption =
  fixes merge :: "'a \<Rightarrow> 'a \<Rightarrow> 'a"
    and holds :: "'a \<Rightarrow> 'a \<Rightarrow> bool"
  assumes own: "holds s s"
    and takes: "holds (merge s x) x"
    and keeps: "holds s x \<Longrightarrow> holds (merge s y) x"
begin

lemma fold_keeps: "holds s x \<Longrightarrow> holds (foldl merge s ys) x"
  by (induction ys arbitrary: s) (simp_all add: keeps)

lemma fold_takes: "y \<in> set (s # ys) \<Longrightarrow> holds (foldl merge s ys) y"
proof (induction ys arbitrary: s)
  case (Cons z zs)
  then consider "y = s" | "y \<in> set (z # zs)" by auto
  then show ?case
  proof cases
    case 1
    then show ?thesis by (simp add: fold_keeps keeps own)
  next
    case 2
    show ?thesis
    proof (cases "y = z")
      case True
      then show ?thesis by (simp add: fold_keeps takes)
    next
      case False
      with 2 Cons.IH [of "merge s z"] show ?thesis by simp
    qed
  qed
qed (simp add: own)

end

definition holds_all :: "memory_entry \<Rightarrow> memory_entry \<Rightarrow> bool" where
  "holds_all s x \<longleftrightarrow>
     set (tags x) \<subseteq> set (tags s) \<and> set (evidence x) \<subseteq> set (evidence s)
     \<and> assertion_key ` set (assertions x) \<subseteq> assertion_key ` set (assertions s)
     \<and> sublist (detail x) (detail s)
     \<and> (plain_words (content x) \<in> {[], plain_words (content s)} \<or> sublist (plain_words (content x)) (detail s))
     \<and> insert (eid x) (set (merged_from x)) \<subseteq> {[], eid s} \<union> set (merged_from s)
     \<and> importance x \<le> importance s \<and> tier_rank (protection_tier x) \<le> tier_rank (protection_tier s)
     \<and> stamp_of (metadata x) \<le> stamp_of (metadata s)"

lemma union_assertions_keys:
  "assertion_key ` set (union_assertions xs ys) = assertion_key ` set xs \<union> assertion_key ` set ys"
  by (induction ys arbitrary: xs) auto

lemma set_add_ancestors:
  "set (add_ancestors self xs ys) = set xs \<union> (set ys - {[], self})"
  by (induction ys arbitrary: xs) auto

lemma detail_kept: "prefix (detail s) (merged_detail today s x)"
  by (auto simp: merged_detail_def Let_def)

definition merge_header :: "string \<Rightarrow> memory_entry \<Rightarrow> memory_entry \<Rightarrow> string" where
  "merge_header today s x = ''Merged from '' @ eid x @ '' on '' @ today @ '':'' @
     (if kept_content s x \<noteq> [] then '' '' @ kept_content s x else [])"

lemma merged_detail_shape:
  "merged_detail today s x =
     (let new = (if detail x \<noteq> [] \<and> sublist (detail x) (detail s) then [] else detail x);
          body = merge_header today s x @ (if new \<noteq> [] then newline @ new else [])
      in if new = [] \<and> kept_content s x = [] then detail s
         else if detail s \<noteq> [] then (detail s @ newline @ ''---'' @ newline) @ body
         else if kept_content s x \<noteq> [] then body else new)"
  by (simp add: merged_detail_def merge_header_def Let_def)

lemma detail_taken: "sublist (detail x) (merged_detail today s x)"
proof (cases "detail x = [] \<or> sublist (detail x) (detail s)")
  case True
  then show ?thesis using sublist_order.order.trans [OF _ prefix_imp_sublist [OF detail_kept]] by auto
next
  case False
  then have "merged_detail today s x =
      (if detail s \<noteq> [] then detail s @ newline @ ''---'' @ newline @ merge_header today s x @ newline
       else if kept_content s x \<noteq> [] then merge_header today s x @ newline else []) @ detail x"
    by (simp add: merged_detail_shape Let_def)
  then have "suffix (detail x) (merged_detail today s x)" by (rule suffixI)
  then show ?thesis by (rule suffix_imp_sublist)
qed

lemma content_taken:
  "plain_words (content x) \<in> {[], plain_words (content s)} \<or> sublist (plain_words (content x)) (merged_detail today s x)"
proof (cases "kept_content s x = []")
  case True
  then show ?thesis by (auto simp: kept_content_def Let_def split: if_splits)
next
  case False
  then have kept: "kept_content s x = plain_words (content x)" by (auto simp: kept_content_def Let_def split: if_splits)
  have "suffix (kept_content s x) (merge_header today s x)"
    using False by (simp add: merge_header_def suffix_ConsI suffix_appendI)
  moreover have "merged_detail today s x =
      (if detail s \<noteq> [] then detail s @ newline @ ''---'' @ newline else []) @ merge_header today s x
      @ (if detail x = [] \<or> sublist (detail x) (detail s) then [] else newline @ detail x)"
    using False by (simp add: merged_detail_shape Let_def)
  then have "sublist (merge_header today s x) (merged_detail today s x)" by (metis sublist_appendI)
  ultimately have "sublist (kept_content s x) (merged_detail today s x)"
    by (rule sublist_order.order.trans [OF suffix_imp_sublist])
  then show ?thesis by (simp add: kept)
qed

lemma stamp_of_joined: "stamp_of (joined a b) = max (stamp_of a) (stamp_of b)"
  by (auto simp: joined_def stamp_of_def Let_def List.map_filter_def max_from_def max_def
      split: option.splits if_splits)

lemma merge_fields [simp]:
  "eid (merge_entries today now s x) = eid s" "namespace (merge_entries today now s x) = namespace s"
  "content (merge_entries today now s x) = content s" "detail (merge_entries today now s x) = merged_detail today s x"
  "status (merge_entries today now s x) = status s" "evidence_level (merge_entries today now s x) = evidence_level s"
  "confidence (merge_entries today now s x) = merged_confidence s x"
  "recurrence (merge_entries today now s x) = recurrence s + 1"
  "access_count (merge_entries today now s x) = access_count s + access_count x"
  "recall_count (merge_entries today now s x) = recall_count s + recall_count x"
  "set (merged_from (merge_entries today now s x)) = set (merged_from s) \<union> (insert (eid x) (set (merged_from x)) - {[], eid s})"
  "anchors (merge_entries today now s x) = anchors s"
  by (auto simp: merge_entries_def set_add_ancestors)

lemma merge_takes: "holds_all (merge_entries today now s x) x"
  using content_taken [of x s today] detail_taken [of x today s]
  unfolding holds_all_def merge_fields
  by (auto simp: merge_entries_def union_assertions_keys stamp_of_joined stronger_def)

lemma merge_keeps:
  assumes "holds_all s x"
  shows "holds_all (merge_entries today now s y) x"
proof -
  have keep: "sublist t (detail s) \<Longrightarrow> sublist t (merged_detail today s y)" for t
    by (rule sublist_order.order.trans [OF _ prefix_imp_sublist [OF detail_kept]])
  have "tier_rank (protection_tier s) \<le> tier_rank (stronger tier_rank (protection_tier s) (protection_tier y))"
    by (simp add: stronger_def)
  with assms keep show ?thesis
    unfolding holds_all_def merge_fields
    by (auto simp: merge_entries_def union_assertions_keys stamp_of_joined max_def)
qed

interpretation merges: absorption "merge_entries today now" holds_all for today now
proof
  show "holds_all s s" for s by (auto simp: holds_all_def)
qed (simp_all add: merge_takes merge_keeps)

lemma merge_never_launders:
  "violates_evidence_invariant (foldl (merge_entries today now) s ys) \<Longrightarrow> violates_evidence_invariant s"
proof (induction ys arbitrary: s)
  case (Cons y ys)
  then have "violates_evidence_invariant (merge_entries today now s y)" by simp
  then show ?case by (auto simp: violates_evidence_invariant_def merged_confidence_def Let_def split: if_splits)
qed simp

lemma foldl_merge_simps:
  "eid (foldl (merge_entries today now) s ys) = eid s" "content (foldl (merge_entries today now) s ys) = content s"
  "recurrence (foldl (merge_entries today now) s ys) = recurrence s + int (length ys)"
  "access_count (foldl (merge_entries today now) s ys) = access_count s + sum_list (map access_count ys)"
  "anchors (foldl (merge_entries today now) s ys) = anchors s"
  by (induction ys arbitrary: s) simp_all

text \<open>
  C34: merges lose nothing they say they keep. Whatever entries are merged into a survivor, one after
  another, it still holds the tags, evidence, assertions, detail, content, ancestry, importance,
  protection tier and confidentiality stamp of every one of them and of itself; it is the same memory with
  every rediscovery counted, and it claims verified confidence without evidence only if it did before.
\<close>

theorem merges_are_lossless:
  "(\<forall>x \<in> set (s # ys). holds_all (foldl (merge_entries today now) s ys) x)
   \<and> eid (foldl (merge_entries today now) s ys) = eid s \<and> content (foldl (merge_entries today now) s ys) = content s
   \<and> recurrence (foldl (merge_entries today now) s ys) = recurrence s + int (length ys)
   \<and> access_count (foldl (merge_entries today now) s ys) = sum_list (map access_count (s # ys))
   \<and> (violates_evidence_invariant (foldl (merge_entries today now) s ys) \<longrightarrow> violates_evidence_invariant s)"
  using merges.fold_takes merge_never_launders by (auto simp: foldl_merge_simps)

section \<open>What a batch pass leaves\<close>

definition alike :: "rat \<times> rat \<Rightarrow> rat list \<Rightarrow> rat list \<Rightarrow> bool" where
  "alike limits v w \<longleftrightarrow>
     (case cosine_similarity v w of None \<Rightarrow> False | Some sim \<Rightarrow> of_rat (fst limits) \<le> sim \<or> of_rat (snd limits) \<le> sim)"

definition identical :: "rat \<times> rat \<Rightarrow> rat list \<Rightarrow> rat list \<Rightarrow> bool" where
  "identical limits v w \<longleftrightarrow>
     (case cosine_similarity v w of None \<Rightarrow> False | Some sim \<Rightarrow> of_rat (fst limits) \<le> sim)"

definition ids_of :: "(memory_entry \<times> 'v) list \<Rightarrow> string set" where
  "ids_of A = (\<lambda>x. eid (fst x)) ` set A"

lemma ids_of_simps [simp]: "ids_of [] = {}" "ids_of ((e, v) # A) = insert (eid e) (ids_of A)"
  by (simp_all add: ids_of_def)

lemma ids_of_in: "(e, v) \<in> set A \<Longrightarrow> eid e \<in> ids_of A"
  unfolding ids_of_def by force

text \<open>The rows and the skipped ids after the loop for \<open>i\<close>: what it took in, and what became of the rest.\<close>

definition compared ::
  "batch_clock \<Rightarrow> rat \<times> rat \<Rightarrow> string \<Rightarrow> rat list \<Rightarrow> (memory_entry \<times> rat list option) list \<Rightarrow> memory_entry
     \<Rightarrow> memory_entry list \<Rightarrow> batch_state \<Rightarrow> batch_state \<Rightarrow> bool" where
  "compared bc limits i vi A s ms st st' \<longleftrightarrow>
     map_of (bs_updated st') i = Some (foldl (merge_entries (bc_today bc) (bc_now bc)) s ms)
     \<and> set (bs_skipped st) \<subseteq> set (bs_skipped st') \<and> set (bs_skipped st') \<subseteq> set (bs_skipped st) \<union> ids_of A
     \<and> (\<forall>k. k \<noteq> i \<and> (k \<in> ids_of A \<longrightarrow> k \<in> set (bs_skipped st) \<or> k \<notin> set (bs_skipped st'))
          \<longrightarrow> map_of (bs_updated st') k = map_of (bs_updated st) k)
     \<and> (\<forall>e v. (e, v) \<in> set A \<and> eid e \<notin> set (bs_skipped st) \<longrightarrow>
          (eid e \<in> set (bs_skipped st') \<longleftrightarrow> (\<exists>w. v = Some w \<and> alike limits vi w))
          \<and> (eid e \<in> set (bs_skipped st') \<longrightarrow>
               (\<exists>why sim. map_of (bs_updated st') (eid e) = Some (obsoleted bc why i sim e))
               \<and> (\<forall>w. v = Some w \<and> \<not> identical limits vi w \<longrightarrow> e \<in> set ms)))
     \<and> set ms \<subseteq> fst ` set A
     \<and> (distinct (bs_skipped st) \<longrightarrow> distinct (bs_skipped st'))
     \<and> bs_merged st' + length (bs_skipped st) = bs_merged st + length (bs_skipped st')"

lemma comparedD:
  assumes "compared bc limits i vi A s ms st st'"
  shows "map_of (bs_updated st') i = Some (foldl (merge_entries (bc_today bc) (bc_now bc)) s ms)"
    "set (bs_skipped st) \<subseteq> set (bs_skipped st')" "set (bs_skipped st') \<subseteq> set (bs_skipped st) \<union> ids_of A"
    "\<And>k. k \<noteq> i \<Longrightarrow> k \<in> ids_of A \<longrightarrow> k \<in> set (bs_skipped st) \<or> k \<notin> set (bs_skipped st') \<Longrightarrow>
       map_of (bs_updated st') k = map_of (bs_updated st) k"
    "\<And>e v. (e, v) \<in> set A \<Longrightarrow> eid e \<notin> set (bs_skipped st) \<Longrightarrow>
       (eid e \<in> set (bs_skipped st') \<longleftrightarrow> (\<exists>w. v = Some w \<and> alike limits vi w))
       \<and> (eid e \<in> set (bs_skipped st') \<longrightarrow>
            (\<exists>why sim. map_of (bs_updated st') (eid e) = Some (obsoleted bc why i sim e))
            \<and> (\<forall>w. v = Some w \<and> \<not> identical limits vi w \<longrightarrow> e \<in> set ms))"
    "set ms \<subseteq> fst ` set A"
    "distinct (bs_skipped st) \<Longrightarrow> distinct (bs_skipped st')"
    "bs_merged st' + length (bs_skipped st) = bs_merged st + length (bs_skipped st')"
  using assms unfolding compared_def by blast+

lemma compared_left:
  assumes c: "compared bc limits i vi A s ms st st'" and fresh: "eid e \<notin> ids_of A" "i \<noteq> eid e"
    and e: "eid e \<in> set (bs_skipped st) \<or> (\<forall>w. v = Some w \<longrightarrow> \<not> alike limits vi w)"
  shows "compared bc limits i vi ((e, v) # A) s ms st st'"
  unfolding compared_def
proof (intro conjI allI impI)
  fix k assume "k \<noteq> i \<and> (k \<in> ids_of ((e, v) # A) \<longrightarrow> k \<in> set (bs_skipped st) \<or> k \<notin> set (bs_skipped st'))"
  then show "map_of (bs_updated st') k = map_of (bs_updated st) k" using comparedD(4) [OF c, of k] by auto
next
  fix f u assume "(f, u) \<in> set ((e, v) # A) \<and> eid f \<notin> set (bs_skipped st)"
  then consider "(f, u) \<in> set A" "eid f \<notin> set (bs_skipped st)" | "f = e" "u = v" "eid e \<notin> set (bs_skipped st)" by auto
  then have "(eid f \<in> set (bs_skipped st') \<longleftrightarrow> (\<exists>w. u = Some w \<and> alike limits vi w))
     \<and> (eid f \<in> set (bs_skipped st') \<longrightarrow>
          (\<exists>why sim. map_of (bs_updated st') (eid f) = Some (obsoleted bc why i sim f))
          \<and> (\<forall>w. u = Some w \<and> \<not> identical limits vi w \<longrightarrow> f \<in> set ms))"
  proof cases
    case 1
    then show ?thesis by (rule comparedD(5) [OF c])
  next
    case 2
    then have "eid f \<notin> set (bs_skipped st')" using comparedD(3) [OF c] fresh(1) by auto
    with 2 e show ?thesis by auto
  qed
  then show "eid f \<in> set (bs_skipped st') \<longleftrightarrow> (\<exists>w. u = Some w \<and> alike limits vi w)"
    "eid f \<in> set (bs_skipped st') \<Longrightarrow> \<exists>why sim. map_of (bs_updated st') (eid f) = Some (obsoleted bc why i sim f)"
    "\<And>w. eid f \<in> set (bs_skipped st') \<Longrightarrow> u = Some w \<and> \<not> identical limits vi w \<Longrightarrow> f \<in> set ms" by blast+
qed (use comparedD [OF c] in auto)

lemma compared_dropped:
  assumes c: "compared bc limits i vi A (foldl (merge_entries (bc_today bc) (bc_now bc)) s ms0) ms st1 st'"
    and fresh: "eid e \<notin> ids_of A" "i \<noteq> eid e" "eid e \<notin> set (bs_skipped st)" "alike limits vi w"
    and st1: "bs_skipped st1 = eid e # bs_skipped st" "bs_merged st1 = Suc (bs_merged st)"
      "map_of (bs_updated st1) (eid e) = Some (obsoleted bc why i sim e)"
      "\<forall>k. k \<noteq> i \<and> k \<noteq> eid e \<longrightarrow> map_of (bs_updated st1) k = map_of (bs_updated st) k"
    and ms0: "ms0 = [e] \<or> (ms0 = [] \<and> identical limits vi w)"
  shows "compared bc limits i vi ((e, Some w) # A) s (ms0 @ ms) st st'"
  unfolding compared_def
proof (intro conjI allI impI)
  have dropped: "eid e \<in> set (bs_skipped st')" using comparedD(2) [OF c] st1(1) by auto
  have row: "map_of (bs_updated st') (eid e) = map_of (bs_updated st1) (eid e)"
    using comparedD(4) [OF c, of "eid e"] fresh by auto
  fix k assume "k \<noteq> i \<and> (k \<in> ids_of ((e, Some w) # A) \<longrightarrow> k \<in> set (bs_skipped st) \<or> k \<notin> set (bs_skipped st'))"
  then show "map_of (bs_updated st') k = map_of (bs_updated st) k"
    using comparedD(4) [OF c, of k] st1(1,4) dropped fresh(3) by auto
next
  fix f u assume f: "(f, u) \<in> set ((e, Some w) # A) \<and> eid f \<notin> set (bs_skipped st)"
  have dropped: "eid e \<in> set (bs_skipped st')" using comparedD(2) [OF c] st1(1) by auto
  have row: "map_of (bs_updated st') (eid e) = Some (obsoleted bc why i sim e)"
    using comparedD(4) [OF c, of "eid e"] fresh st1(3) by auto
  from f consider "(f, u) \<in> set A" "eid f \<notin> set (bs_skipped st1)" | "f = e" "u = Some w"
    using fresh(1) ids_of_in st1(1) by fastforce
  then have "(eid f \<in> set (bs_skipped st') \<longleftrightarrow> (\<exists>w. u = Some w \<and> alike limits vi w))
     \<and> (eid f \<in> set (bs_skipped st') \<longrightarrow>
          (\<exists>why sim. map_of (bs_updated st') (eid f) = Some (obsoleted bc why i sim f))
          \<and> (\<forall>w. u = Some w \<and> \<not> identical limits vi w \<longrightarrow> f \<in> set (ms0 @ ms)))"
  proof cases
    case 1
    from comparedD(5) [OF c this] show ?thesis by auto
  next
    case 2
    with dropped row fresh(4) ms0 show ?thesis by auto
  qed
  then show "eid f \<in> set (bs_skipped st') \<longleftrightarrow> (\<exists>w. u = Some w \<and> alike limits vi w)"
    "eid f \<in> set (bs_skipped st') \<Longrightarrow> \<exists>why sim. map_of (bs_updated st') (eid f) = Some (obsoleted bc why i sim f)"
    "\<And>w. eid f \<in> set (bs_skipped st') \<Longrightarrow> u = Some w \<and> \<not> identical limits vi w \<Longrightarrow> f \<in> set (ms0 @ ms)" by blast+
next
  assume "distinct (bs_skipped st)"
  then show "distinct (bs_skipped st')" using comparedD(7) [OF c] st1(1) fresh(3) by simp
qed (use comparedD(1,2,3,6,8) [OF c] st1(1,2) ms0 in auto)

lemma compare_rest_spec:
  assumes "compare_rest bc limits i vi A st = Inr st'" "distinct (map (\<lambda>x. eid (fst x)) A)" "i \<notin> ids_of A"
    and "map_of (bs_updated st) i = Some s"
  shows "\<exists>ms. compared bc limits i vi A s ms st st'"
  using assms
proof (induction A arbitrary: st s)
  case Nil
  then show ?case by (intro exI [of _ "[]"]) (simp add: compared_def)
next
  case (Cons a A)
  obtain e v where a: "a = (e, v)" by (rule prod.exhaust)
  have fresh: "eid e \<notin> ids_of A" "distinct (map (\<lambda>x. eid (fst x)) A)" "i \<notin> ids_of A" "i \<noteq> eid e"
    using Cons.prems(2,3) a by (auto simp: ids_of_def)
  show ?case
  proof (cases "v = None \<or> eid e \<in> set (bs_skipped st)")
    case True
    then have "compare_rest bc limits i vi A st = Inr st'" using Cons.prems(1) a by (auto split: option.splits)
    from Cons.IH [OF this fresh(2,3) Cons.prems(4)] compared_left [OF _ fresh(1,4)] True show ?thesis
      unfolding a by blast
  next
    case False
    then obtain w where w: "v = Some w" "eid e \<notin> set (bs_skipped st)" by auto
    with Cons.prems(1) a obtain sim where sim: "cosine_similarity vi w = Some sim" by (auto split: option.splits)
    have limits: "alike limits vi w \<longleftrightarrow> of_rat (fst limits) \<le> sim \<or> of_rat (snd limits) \<le> sim"
      "identical limits vi w \<longleftrightarrow> of_rat (fst limits) \<le> sim" by (simp_all add: alike_def identical_def sim)
    show ?thesis
    proof (cases "alike limits vi w")
      case False
      then have "compare_rest bc limits i vi A st = Inr st'" using Cons.prems(1) a w sim limits by simp
      from Cons.IH [OF this fresh(2,3) Cons.prems(4)] compared_left [OF _ fresh(1,4)] False w(1) show ?thesis
        unfolding a by blast
    next
      case True
      define ms0 where "ms0 = (if identical limits vi w then [] else [e])"
      define s1 where "s1 = foldl (merge_entries (bc_today bc) (bc_now bc)) s ms0"
      define why where "why = (if identical limits vi w then ''Auto-obsoleted: duplicate of '' else ''Auto-merged into '')"
      define st1 where "st1 = drop_duplicate bc why i sim e
        (if identical limits vi w then st else st\<lparr>bs_updated := dict_set i s1 (bs_updated st)\<rparr>)"
      have "compare_rest bc limits i vi A st1 = Inr st'"
        using Cons.prems(1,4) a w sim limits True by (auto simp: st1_def s1_def ms0_def why_def Let_def split: if_splits)
      moreover have "map_of (bs_updated st1) i = Some s1"
        using fresh(4) Cons.prems(4) by (auto simp: st1_def drop_duplicate_def map_of_dict_set s1_def ms0_def)
      ultimately obtain ms where c: "compared bc limits i vi A s1 ms st1 st'" using Cons.IH [OF _ fresh(2,3)] by blast
      have "bs_skipped st1 = eid e # bs_skipped st" "bs_merged st1 = Suc (bs_merged st)"
        "map_of (bs_updated st1) (eid e) = Some (obsoleted bc why i sim e)"
        "\<forall>k. k \<noteq> i \<and> k \<noteq> eid e \<longrightarrow> map_of (bs_updated st1) k = map_of (bs_updated st) k"
        by (auto simp: st1_def drop_duplicate_def map_of_dict_set)
      from compared_dropped [OF c [unfolded s1_def] fresh(1,4) w(2) True this] show ?thesis
        unfolding a w(1) ms0_def by (cases "identical limits vi w") auto
    qed
  qed
qed

text \<open>The state after the whole pass: who is left, and what became of the others.\<close>

definition behind_of :: "(memory_entry \<times> 'v) list \<Rightarrow> memory_entry \<Rightarrow> 'v \<Rightarrow> memory_entry \<Rightarrow> 'v \<Rightarrow> bool" where
  "behind_of A e v f u \<longleftrightarrow> (\<exists>xs ys. A = xs @ (e, v) # ys \<and> (f, u) \<in> set ys)"

definition thinned ::
  "batch_clock \<Rightarrow> rat \<times> rat \<Rightarrow> (memory_entry \<times> rat list option) list \<Rightarrow> batch_state \<Rightarrow> batch_state \<Rightarrow> bool" where
  "thinned bc limits A st st' \<longleftrightarrow>
     set (bs_skipped st) \<subseteq> set (bs_skipped st') \<and> set (bs_skipped st') \<subseteq> set (bs_skipped st) \<union> ids_of A
     \<and> (\<forall>k. k \<notin> ids_of A \<or> k \<in> set (bs_skipped st) \<longrightarrow> map_of (bs_updated st') k = map_of (bs_updated st) k)
     \<and> (\<forall>e v f w. behind_of A e (Some v) f (Some w) \<and> eid e \<notin> set (bs_skipped st') \<and> eid f \<notin> set (bs_skipped st')
          \<longrightarrow> \<not> alike limits v w)
     \<and> (\<forall>f u. (f, u) \<in> set A \<and> eid f \<in> set (bs_skipped st') \<and> eid f \<notin> set (bs_skipped st) \<longrightarrow>
          (\<exists>e v w. u = Some w \<and> behind_of A e (Some v) f u \<and> eid e \<notin> set (bs_skipped st') \<and> alike limits v w
             \<and> (\<exists>why sim. map_of (bs_updated st') (eid f) = Some (obsoleted bc why (eid e) sim f))
             \<and> (\<not> identical limits v w \<longrightarrow> (\<exists>s. map_of (bs_updated st') (eid e) = Some s \<and> holds_all s f))))
     \<and> (\<forall>e u. (e, u) \<in> set A \<and> eid e \<notin> set (bs_skipped st') \<longrightarrow>
          (\<exists>ms. map_of (bs_updated st') (eid e) = Some (foldl (merge_entries (bc_today bc) (bc_now bc)) e ms)))
     \<and> (distinct (bs_skipped st) \<longrightarrow> distinct (bs_skipped st'))
     \<and> bs_merged st' + length (bs_skipped st) = bs_merged st + length (bs_skipped st')"

lemma thinnedD:
  assumes "thinned bc limits A st st'"
  shows "set (bs_skipped st) \<subseteq> set (bs_skipped st')" "set (bs_skipped st') \<subseteq> set (bs_skipped st) \<union> ids_of A"
    "\<And>k. k \<notin> ids_of A \<or> k \<in> set (bs_skipped st) \<Longrightarrow> map_of (bs_updated st') k = map_of (bs_updated st) k"
    "\<And>e v f w. behind_of A e (Some v) f (Some w) \<Longrightarrow> eid e \<notin> set (bs_skipped st') \<Longrightarrow> eid f \<notin> set (bs_skipped st')
       \<Longrightarrow> \<not> alike limits v w"
    "\<And>f u. (f, u) \<in> set A \<Longrightarrow> eid f \<in> set (bs_skipped st') \<Longrightarrow> eid f \<notin> set (bs_skipped st) \<Longrightarrow>
       (\<exists>e v w. u = Some w \<and> behind_of A e (Some v) f u \<and> eid e \<notin> set (bs_skipped st') \<and> alike limits v w
             \<and> (\<exists>why sim. map_of (bs_updated st') (eid f) = Some (obsoleted bc why (eid e) sim f))
             \<and> (\<not> identical limits v w \<longrightarrow> (\<exists>s. map_of (bs_updated st') (eid e) = Some s \<and> holds_all s f)))"
    "\<And>e u. (e, u) \<in> set A \<Longrightarrow> eid e \<notin> set (bs_skipped st') \<Longrightarrow>
       (\<exists>ms. map_of (bs_updated st') (eid e) = Some (foldl (merge_entries (bc_today bc) (bc_now bc)) e ms))"
    "distinct (bs_skipped st) \<Longrightarrow> distinct (bs_skipped st')"
    "bs_merged st' + length (bs_skipped st) = bs_merged st + length (bs_skipped st')"
  using assms unfolding thinned_def by blast+

lemma behind_of_Cons:
  "behind_of ((h, x) # A) e v f u \<longleftrightarrow> (h = e \<and> x = v \<and> (f, u) \<in> set A) \<or> behind_of A e v f u"
  unfolding behind_of_def by (auto simp: Cons_eq_append_conv)

lemma behind_of_in: "behind_of A e v f u \<Longrightarrow> (e, v) \<in> set A \<and> (f, u) \<in> set A"
  by (auto simp: behind_of_def)

text \<open>The head is passed over: it has no vector, or is skipped.\<close>

lemma thinned_passed:
  assumes t: "thinned bc limits A st st'" and fresh: "eid h \<notin> ids_of A"
    and h: "eid h \<in> set (bs_skipped st) \<or> (x = None \<and> map_of (bs_updated st) (eid h) = Some h)"
  shows "thinned bc limits ((h, x) # A) st st'"
proof -
  have mine: "eid h \<in> set (bs_skipped st') \<longleftrightarrow> eid h \<in> set (bs_skipped st)"
    using thinnedD(1,2) [OF t] fresh by auto
  show ?thesis
    unfolding thinned_def
  proof (intro conjI allI impI)
    fix e v f w assume "behind_of ((h, x) # A) e (Some v) f (Some w) \<and> eid e \<notin> set (bs_skipped st') \<and> eid f \<notin> set (bs_skipped st')"
    then show "\<not> alike limits v w" using thinnedD(4) [OF t] h mine by (auto simp: behind_of_Cons)
  next
    fix f u assume f: "(f, u) \<in> set ((h, x) # A) \<and> eid f \<in> set (bs_skipped st') \<and> eid f \<notin> set (bs_skipped st)"
    with mine have "(f, u) \<in> set A" by auto
    from thinnedD(5) [OF t this] f show "\<exists>e v w. u = Some w \<and> behind_of ((h, x) # A) e (Some v) f u \<and> eid e \<notin> set (bs_skipped st')
       \<and> alike limits v w \<and> (\<exists>why sim. map_of (bs_updated st') (eid f) = Some (obsoleted bc why (eid e) sim f))
       \<and> (\<not> identical limits v w \<longrightarrow> (\<exists>s. map_of (bs_updated st') (eid e) = Some s \<and> holds_all s f))"
      unfolding behind_of_Cons by blast
  next
    fix e u assume e: "(e, u) \<in> set ((h, x) # A) \<and> eid e \<notin> set (bs_skipped st')"
    show "\<exists>ms. map_of (bs_updated st') (eid e) = Some (foldl (merge_entries (bc_today bc) (bc_now bc)) e ms)"
    proof (cases "(e, u) \<in> set A")
      case True
      with e thinnedD(6) [OF t] show ?thesis by blast
    next
      case False
      with e have "e = h" by auto
      with e h thinnedD(1,3) [OF t] fresh have "map_of (bs_updated st') (eid e) = Some e" by auto
      then show ?thesis by (intro exI [of _ "[]"]) simp
    qed
  next
    fix k assume "k \<notin> ids_of ((h, x) # A) \<or> k \<in> set (bs_skipped st)"
    then show "map_of (bs_updated st') k = map_of (bs_updated st) k" using thinnedD(3) [OF t, of k] by auto
  qed (use thinnedD(1,2,7,8) [OF t] in auto)
qed

text \<open>The head is compared with all that follow it.\<close>

lemma thinned_compared:
  assumes c: "compared bc limits (eid h) vi A h ms st st1" and t: "thinned bc limits A st1 st'"
    and fresh: "eid h \<notin> ids_of A" "eid h \<notin> set (bs_skipped st)"
  shows "thinned bc limits ((h, Some vi) # A) st st'"
proof -
  have out: "eid h \<notin> set (bs_skipped st1)" "eid h \<notin> set (bs_skipped st')"
    using comparedD(3) [OF c] thinnedD(2) [OF t] fresh by auto
  have row: "map_of (bs_updated st') (eid h) = Some (foldl (merge_entries (bc_today bc) (bc_now bc)) h ms)"
    using thinnedD(3) [OF t, of "eid h"] fresh(1) comparedD(1) [OF c] by simp
  show ?thesis
    unfolding thinned_def
  proof (intro conjI allI impI)
    fix e v f w assume b: "behind_of ((h, Some vi) # A) e (Some v) f (Some w) \<and> eid e \<notin> set (bs_skipped st') \<and> eid f \<notin> set (bs_skipped st')"
    then consider "behind_of A e (Some v) f (Some w)" | "v = vi" "(f, Some w) \<in> set A" by (auto simp: behind_of_Cons)
    then show "\<not> alike limits v w"
    proof cases
      case 1
      with b thinnedD(4) [OF t] show ?thesis by blast
    next
      case 2
      have f: "eid f \<notin> set (bs_skipped st1)" using b thinnedD(1) [OF t] by blast
      then have "eid f \<notin> set (bs_skipped st)" using comparedD(2) [OF c] by blast
      from comparedD(5) [OF c 2(2) this] f 2(1) show ?thesis by auto
    qed
  next
    fix f u assume f: "(f, u) \<in> set ((h, Some vi) # A) \<and> eid f \<in> set (bs_skipped st') \<and> eid f \<notin> set (bs_skipped st)"
    with out(2) have fA: "(f, u) \<in> set A" by auto
    show "\<exists>e v w. u = Some w \<and> behind_of ((h, Some vi) # A) e (Some v) f u \<and> eid e \<notin> set (bs_skipped st')
       \<and> alike limits v w \<and> (\<exists>why sim. map_of (bs_updated st') (eid f) = Some (obsoleted bc why (eid e) sim f))
       \<and> (\<not> identical limits v w \<longrightarrow> (\<exists>s. map_of (bs_updated st') (eid e) = Some s \<and> holds_all s f))"
    proof (cases "eid f \<in> set (bs_skipped st1)")
      case True
      with f comparedD(5) [OF c fA] obtain w where w: "u = Some w" "alike limits vi w"
        "\<exists>why sim. map_of (bs_updated st1) (eid f) = Some (obsoleted bc why (eid h) sim f)"
        "\<not> identical limits vi w \<longrightarrow> f \<in> set ms" by blast
      have "map_of (bs_updated st') (eid f) = map_of (bs_updated st1) (eid f)" using thinnedD(3) [OF t] True by simp
      with w have "\<exists>why sim. map_of (bs_updated st') (eid f) = Some (obsoleted bc why (eid h) sim f)" by simp
      moreover have "\<not> identical limits vi w \<longrightarrow>
          holds_all (foldl (merge_entries (bc_today bc) (bc_now bc)) h ms) f"
        using w(4) merges.fold_takes [of f h ms] by simp
      ultimately show ?thesis using w(1,2) fA out(2) row
        by (intro exI [of _ h] exI [of _ vi] exI [of _ w]) (simp add: behind_of_Cons)
    next
      case False
      with thinnedD(5) [OF t fA] f show ?thesis unfolding behind_of_Cons by blast
    qed
  next
    fix e u assume e: "(e, u) \<in> set ((h, Some vi) # A) \<and> eid e \<notin> set (bs_skipped st')"
    then show "\<exists>ms. map_of (bs_updated st') (eid e) = Some (foldl (merge_entries (bc_today bc) (bc_now bc)) e ms)"
      using row thinnedD(6) [OF t] by auto
  next
    fix k assume k: "k \<notin> ids_of ((h, Some vi) # A) \<or> k \<in> set (bs_skipped st)"
    then have "k \<noteq> eid h" using fresh(2) by auto
    moreover have "map_of (bs_updated st') k = map_of (bs_updated st1) k"
      using thinnedD(3) [OF t, of k] k comparedD(2) [OF c] by auto
    ultimately show "map_of (bs_updated st') k = map_of (bs_updated st) k" using comparedD(4) [OF c, of k] k by auto
  next
    show "set (bs_skipped st) \<subseteq> set (bs_skipped st')" using comparedD(2) [OF c] thinnedD(1) [OF t] by blast
    show "set (bs_skipped st') \<subseteq> set (bs_skipped st) \<union> ids_of ((h, Some vi) # A)"
      using comparedD(3) [OF c] thinnedD(2) [OF t] by auto
    show "distinct (bs_skipped st) \<Longrightarrow> distinct (bs_skipped st')" using comparedD(7) [OF c] thinnedD(7) [OF t] by blast
    show "bs_merged st' + length (bs_skipped st) = bs_merged st + length (bs_skipped st')"
      using comparedD(8) [OF c] thinnedD(8) [OF t] by simp
  qed
qed

lemma compare_all_spec:
  assumes "compare_all bc limits A st = Inr st'" "distinct (map (\<lambda>x. eid (fst x)) A)"
    and "\<forall>(e, v) \<in> set A. eid e \<notin> set (bs_skipped st) \<longrightarrow> map_of (bs_updated st) (eid e) = Some e"
  shows "thinned bc limits A st st'"
  using assms
proof (induction A arbitrary: st)
  case Nil
  then show ?case by (simp add: thinned_def behind_of_def)
next
  case (Cons a A)
  obtain h x where a: "a = (h, x)" by (rule prod.exhaust)
  have fresh: "eid h \<notin> ids_of A" "distinct (map (\<lambda>x. eid (fst x)) A)" using Cons.prems(2) a by (auto simp: ids_of_def)
  show ?case
  proof (cases "x = None \<or> eid h \<in> set (bs_skipped st)")
    case True
    then have "compare_all bc limits A st = Inr st'" using Cons.prems(1) a by (auto split: option.splits)
    from Cons.IH [OF this fresh(2)] Cons.prems(3) have "thinned bc limits A st st'" by auto
    from thinned_passed [OF this fresh(1), of x] True Cons.prems(3) show ?thesis unfolding a by auto
  next
    case False
    then obtain vi where vi: "x = Some vi" "eid h \<notin> set (bs_skipped st)" by auto
    with Cons.prems(1) a obtain st1 where st1: "compare_rest bc limits (eid h) vi A st = Inr st1"
      "compare_all bc limits A st1 = Inr st'" by (auto simp: bindE_Inr)
    have "map_of (bs_updated st) (eid h) = Some h" using Cons.prems(3) a vi(2) by auto
    from compare_rest_spec [OF st1(1) fresh(2,1) this] obtain ms where c: "compared bc limits (eid h) vi A h ms st st1" by blast
    have "map_of (bs_updated st1) (eid e) = Some e" if "(e, v) \<in> set A" "eid e \<notin> set (bs_skipped st1)" for e v
    proof -
      have "eid e \<noteq> eid h" using fresh(1) ids_of_in [OF that(1)] by auto
      moreover have "eid e \<notin> set (bs_skipped st)" using comparedD(2) [OF c] that(2) by blast
      ultimately show ?thesis using comparedD(4) [OF c, of "eid e"] that Cons.prems(3) by auto
    qed
    then have "thinned bc limits A st1 st'" using Cons.IH [OF st1(2) fresh(2)] by auto
    from thinned_compared [OF c this fresh(1) vi(2)] show ?thesis unfolding a vi(1) .
  qed
qed

text \<open>The rows of a pass are kept by their own ids.\<close>

definition keyed :: "(string, memory_entry) dict \<Rightarrow> bool" where
  "keyed d \<longleftrightarrow> distinct (map fst d) \<and> (\<forall>(k, x) \<in> set d. eid x = k)"

lemma in_dict_set: "p \<in> set (dict_set k y d) \<Longrightarrow> p = (k, y) \<or> p \<in> set d"
  by (induction d) (auto split: if_splits)

lemma keyed_dict_set: "keyed d \<Longrightarrow> eid y = k \<Longrightarrow> keyed (dict_set k y d)"
  using distinct_dict_set [of d k y] by (auto simp: keyed_def dest: in_dict_set)

lemma keyed_map_of: "keyed d \<Longrightarrow> map_of d k = Some x \<Longrightarrow> eid x = k"
  by (auto simp: keyed_def dest: map_of_SomeD)

lemma keyed_by_id: "keyed (by_id es)"
proof -
  have step: "keyed d \<Longrightarrow> keyed (foldl (\<lambda>d e. dict_set (eid e) e d) d es)" for d
    by (induction es arbitrary: d) (simp_all add: keyed_dict_set)
  have "keyed []" by (simp add: keyed_def)
  from step [OF this] show ?thesis unfolding by_id_def .
qed

lemma by_id_row: "distinct (map eid es) \<Longrightarrow> e \<in> set es \<Longrightarrow> map_of (by_id es) (eid e) = Some e"
proof -
  have "distinct (map eid es) \<Longrightarrow> map_of (foldl (\<lambda>d e. dict_set (eid e) e d) d es) k
      = (case find (\<lambda>e. eid e = k) es of Some e \<Rightarrow> Some e | None \<Rightarrow> map_of d k)" for d k
  proof (induction es arbitrary: d)
    case (Cons x xs)
    have "find (\<lambda>e. eid e = k) xs = None" if "eid x = k" using Cons.prems that by (auto simp: find_None_iff) (metis image_eqI)
    with Cons show ?case by (auto simp: map_of_dict_set split: option.split)
  qed simp
  moreover assume "distinct (map eid es)" "e \<in> set es"
  moreover have "find (\<lambda>x. eid x = eid e) es = Some e" using \<open>distinct (map eid es)\<close> \<open>e \<in> set es\<close>
    by (induction es) force+
  ultimately show ?thesis by (simp add: by_id_def)
qed

lemma keyed_compare_rest:
  assumes "compare_rest bc limits i vi A st = Inr st'" "keyed (bs_updated st)" "map_of (bs_updated st) i \<noteq> None"
  shows "keyed (bs_updated st') \<and> (\<forall>k. map_of (bs_updated st) k \<noteq> None \<longrightarrow> map_of (bs_updated st') k \<noteq> None)"
  using assms
proof (induction A arbitrary: st)
  case (Cons a A)
  obtain e v where a: "a = (e, v)" by (rule prod.exhaust)
  show ?case
  proof (cases "v = None \<or> eid e \<in> set (bs_skipped st)")
    case True
    with Cons a show ?thesis by (auto split: option.splits)
  next
    case False
    then obtain w where w: "v = Some w" "eid e \<notin> set (bs_skipped st)" by auto
    with Cons.prems(1) a obtain sim where sim: "cosine_similarity vi w = Some sim" by (auto split: option.splits)
    define st1 where "st1 = (if of_rat (fst limits) \<le> sim
                       then drop_duplicate bc ''Auto-obsoleted: duplicate of '' i sim e st
                       else if of_rat (snd limits) \<le> sim
                       then (let current = the (map_of (bs_updated st) i);
                                 st1 = st\<lparr>bs_updated := dict_set i (merge_entries (bc_today bc) (bc_now bc) current e) (bs_updated st)\<rparr>
                             in drop_duplicate bc ''Auto-merged into '' i sim e st1)
                       else st)"
    have run: "compare_rest bc limits i vi A st1 = Inr st'" using Cons.prems(1) a w sim by (simp add: st1_def)
    have "keyed (bs_updated st1) \<and> (\<forall>k. map_of (bs_updated st) k \<noteq> None \<longrightarrow> map_of (bs_updated st1) k \<noteq> None)"
      using Cons.prems(2,3) keyed_map_of [OF Cons.prems(2)]
      by (auto simp: st1_def drop_duplicate_def Let_def obsoleted_def map_of_dict_set intro!: keyed_dict_set)
    with Cons.IH [OF run] Cons.prems(3) show ?thesis by blast
  qed
qed simp

lemma keyed_compare_all:
  assumes "compare_all bc limits A st = Inr st'" "keyed (bs_updated st)"
    and "\<forall>(e, v) \<in> set A. map_of (bs_updated st) (eid e) \<noteq> None"
  shows "keyed (bs_updated st')"
  using assms
proof (induction A arbitrary: st)
  case (Cons a A)
  obtain h x where a: "a = (h, x)" by (rule prod.exhaust)
  show ?case
  proof (cases "x = None \<or> eid h \<in> set (bs_skipped st)")
    case True
    with Cons a show ?thesis by (auto split: option.splits)
  next
    case False
    with Cons.prems(1) a obtain vi st1 where st1: "compare_rest bc limits (eid h) vi A st = Inr st1"
      "compare_all bc limits A st1 = Inr st'" by (auto simp: bindE_Inr)
    have "map_of (bs_updated st) (eid h) \<noteq> None" using Cons.prems(3) a by auto
    from keyed_compare_rest [OF st1(1) Cons.prems(2) this] Cons.IH [OF st1(2)] Cons.prems(3) show ?thesis by fastforce
  qed
qed simp

text \<open>The row a caller is left with: the updated one where the report has one.\<close>

definition row_after :: "batch_report \<Rightarrow> memory_entry \<Rightarrow> memory_entry" where
  "row_after r e = (case find (\<lambda>x. eid x = eid e) (br_updated r) of Some x \<Rightarrow> x | None \<Rightarrow> e)"

lemma find_updated:
  "keyed d \<Longrightarrow> find (\<lambda>x. eid x = k) (map snd (filter P d)) =
     (case map_of d k of None \<Rightarrow> None | Some x \<Rightarrow> if P (k, x) then Some x else None)"
proof (induction d)
  case (Cons p d)
  obtain k' x where p: "p = (k', x)" by (rule prod.exhaust)
  from Cons.prems p have d: "keyed d" "eid x = k'" "k' \<notin> fst ` set d" by (auto simp: keyed_def)
  have "map_of d k' = None" using d(3) by (simp add: map_of_eq_None_iff)
  with Cons.IH [OF d(1)] d(2) p show ?case by auto
qed simp

definition active_of :: "memory_entry list \<Rightarrow> memory_entry list" where
  "active_of es = filter (\<lambda>e. status e = Active) es"

definition embedded_active :: "embedder \<Rightarrow> memory_entry list \<Rightarrow> (memory_entry \<times> rat list option) list" where
  "embedded_active m es = zip (active_of es) (em_batch m (map entry_text (active_of es)))"

lemma foldl_merge_status [simp]: "status (foldl (merge_entries today now) s ms) = status s"
  by (induction ms arbitrary: s) simp_all

lemma in_fst_image: "e \<in> fst ` set A \<Longrightarrow> \<exists>v. (e, v) \<in> set A"
  by force

lemma completed_batch:
  assumes "batch_dedup bc cfg (Some m) es = Inr r" "br_completed r" "distinct (map eid (active_of es))"
  obtains st where "thinned bc (validated_thresholds cfg (Some m)) (embedded_active m es)
      \<lparr>bs_updated = by_id (active_of es), bs_skipped = [], bs_merged = 0\<rparr> st"
    "\<And>e. e \<in> set (active_of es) \<Longrightarrow> map_of (bs_updated st) (eid e) = Some (row_after r e)"
    "br_merged r = bs_merged st" "br_skipped r = length (bs_skipped st)" "br_scanned r = length (embedded_active m es)"
    "fst ` set (embedded_active m es) = set (active_of es)" "distinct (map (\<lambda>x. eid (fst x)) (embedded_active m es))"
proof -
  let ?act = "active_of es" let ?A = "embedded_active m es"
  let ?st = "\<lparr>bs_updated = by_id ?act, bs_skipped = [], bs_merged = 0\<rparr>"
  have batch: "length (if ?act = [] then [] else em_batch m (map entry_text ?act)) = length ?act"
    "zip ?act (if ?act = [] then [] else em_batch m (map entry_text ?act)) = ?A"
    using assms(1,2) by (auto simp: batch_dedup_def active_of_def embedded_active_def Let_def skipped_batch_def split: if_splits)
  from assms(1,2) obtain st where run: "compare_all bc (validated_thresholds cfg (Some m)) ?A ?st = Inr st"
    and r: "r = \<lparr>br_completed = True, br_scanned = length ?act, br_merged = bs_merged st,
        br_skipped = length (bs_skipped st),
        br_updated = map snd (filter (\<lambda>(k, e). map_of (by_id ?act) k \<noteq> Some e) (bs_updated st))\<rparr>"
    using batch(2) by (auto simp: batch_dedup_def active_of_def Let_def skipped_batch_def bindE_Inr split: if_splits)
  have fsts: "map fst ?A = ?act" using batch by (metis map_fst_zip)
  then have sets: "fst ` set ?A = set ?act" by (metis list.set_map)
  have "map (\<lambda>x. eid (fst x)) ?A = map eid (map fst ?A)" by simp
  then have dist: "distinct (map (\<lambda>x. eid (fst x)) ?A)" using assms(3) by (simp only: fsts)
  have mem: "e \<in> set ?act" if "(e, v) \<in> set ?A" for e v using that sets by force
  have rows: "\<forall>(e, v) \<in> set ?A. map_of (bs_updated ?st) (eid e) = Some e"
    using by_id_row [OF assms(3)] mem by auto
  then have th: "thinned bc (validated_thresholds cfg (Some m)) ?A ?st st"
    by (intro compare_all_spec [OF run dist]) auto
  have key: "keyed (bs_updated st)" by (rule keyed_compare_all [OF run]) (use rows keyed_by_id in auto)
  have after: "map_of (bs_updated st) (eid e) = Some (row_after r e)" if e: "e \<in> set ?act" for e
  proof -
    from e in_fst_image [of _ "embedded_active m es"] sets obtain v where ev: "(e, v) \<in> set ?A" by blast
    have "map_of (bs_updated st) (eid e) \<noteq> None"
      using thinnedD(5,6) [OF th ev] by (cases "eid e \<in> set (bs_skipped st)") auto
    then obtain x where x: "map_of (bs_updated st) (eid e) = Some x" by auto
    have "row_after r e = x" using x find_updated [OF key, of "eid e"] by_id_row [OF assms(3) e]
      by (auto simp: row_after_def r)
    with x show ?thesis by simp
  qed
  have "length ?act = length ?A" using fsts by (metis length_map)
  with that [OF th after] r sets dist show thesis by simp
qed


section \<open>Concrete passes\<close>

text \<open>
  The thresholds are validated before they are translated, and the translation can make them meet: a
  configuration whose merge threshold is strictly below its skip threshold has no merge band left.
\<close>

lemma calibration_closes_the_merge_band:
  "validated_thresholds \<lparr>dedup_skip_threshold = 85/100, dedup_merge_threshold = 75/100, dedup_lexical_fallback = True\<rparr>
     (Some \<lparr>em_available = True, em_model = Some ''BAAI/bge-small-en-v1.5'', em_embed = e, em_batch = b\<rparr>)
   = (89/100, 89/100)"
  by code_simp

text \<open>A merge takes over nothing of the incoming entry's anchors, whatever they are.\<close>

lemma merge_drops_anchors: "anchors (merge_entries today now s x) = anchors s"
  by (simp add: merge_entries_def)

definition two_words :: embedder where
  "two_words = \<lparr>em_available = True, em_model = None, em_embed = (\<lambda>_. None),
     em_batch = map (\<lambda>t. if prefix ''cat'' t then Some [1, 0] else Some [0, 1])\<rparr>"

definition three_entries :: "memory_entry list" where
  "three_entries = [new_entry ''M-1'' ''cat'' 1, new_entry ''M-2'' ''dog'' 2, new_entry ''M-3'' ''cats'' 3]"

definition default_dedup :: dedup_config where
  "default_dedup = \<lparr>dedup_skip_threshold = 95/100, dedup_merge_threshold = 85/100, dedup_lexical_fallback = True\<rparr>"

lemma three_batch:
  "\<exists>r. batch_dedup \<lparr>bc_today = ''2026-01-01'', bc_now = 9\<rparr> default_dedup (Some two_words) three_entries = Inr r
     \<and> br_completed r \<and> br_merged r = 1"
  by (simp add: batch_dedup_def three_entries_def two_words_def default_dedup_def new_entry_def entry_text_def
      validated_thresholds_def calibrated_threshold_def anchors_of_def cosine_similarity_def vector_norm_def
      dot_product_def drop_duplicate_def Let_def)


theorem merges_are_lossless_witness:
  "holds_all (foldl (merge_entries ''2026-01-01'' 9) (new_entry ''M-1'' ''cat'' 1) [new_entry ''M-2'' ''dog'' 2])
     (new_entry ''M-2'' ''dog'' 2)"
  using merges_are_lossless [of "new_entry ''M-1'' ''cat'' 1" "[new_entry ''M-2'' ''dog'' 2]" "''2026-01-01''" 9] by simp

end
