(* ===== verification/Linkage.thy ===== *)
theory Linkage
  imports Dedup
begin

text \<open>
  The complete-linkage clustering that consolidation rests on (\<open>complete_linkage_cluster\<close> of
  \<^verbatim>\<open>lifecycle/consolidation.py\<close>): the array of cluster ids, the pairwise loop that merges two clusters
  when every pair across them is similar enough, and what the loop arrives at. A similarity that raises
  (vectors of different widths) is \<open>None\<close>.
\<close>

section \<open>The loop\<close>

definition pair_similarity :: "('v \<Rightarrow> 'v \<Rightarrow> real option) \<Rightarrow> 'v \<Rightarrow> 'v \<Rightarrow> real" where
  "pair_similarity f a b = (case f a b of None \<Rightarrow> 0 | Some s \<Rightarrow> s)"

definition near :: "('v \<Rightarrow> 'v \<Rightarrow> real option) \<Rightarrow> real \<Rightarrow> ('t \<times> 'v) list \<Rightarrow> nat \<Rightarrow> nat \<Rightarrow> bool" where
  "near f threshold items a b \<longleftrightarrow> threshold \<le> pair_similarity f (snd (items ! a)) (snd (items ! b))"

definition members_of :: "nat list \<Rightarrow> nat \<Rightarrow> nat list" where
  "members_of ids c = filter (\<lambda>k. ids ! k = c) [0..<length ids]"

definition relabel :: "nat \<Rightarrow> nat \<Rightarrow> nat list \<Rightarrow> nat list" where
  "relabel ci cj ids = map (\<lambda>c. if c = cj then ci else c) ids"

definition link_pair :: "(nat \<Rightarrow> nat \<Rightarrow> bool) \<Rightarrow> nat list \<Rightarrow> nat \<times> nat \<Rightarrow> nat list" where
  "link_pair close ids p =
     (let ci = ids ! fst p; cj = ids ! snd p
      in if close (fst p) (snd p) \<and> ci \<noteq> cj
            \<and> list_all (\<lambda>a. list_all (close a) (members_of ids cj)) (members_of ids ci)
         then relabel ci cj ids else ids)"

definition index_pairs :: "nat \<Rightarrow> (nat \<times> nat) list" where
  "index_pairs n = concat (map (\<lambda>i. map (Pair i) [Suc i..<n]) [0..<n])"

definition linked_ids :: "(nat \<Rightarrow> nat \<Rightarrow> bool) \<Rightarrow> nat \<Rightarrow> nat list" where
  "linked_ids close n = foldl (link_pair close) [0..<n] (index_pairs n)"

text \<open>The clusters in the order their ids first occur, each in the order of its items.\<close>

definition collect_clusters :: "nat list \<Rightarrow> 't list \<Rightarrow> 't list list" where
  "collect_clusters ids xs = map (\<lambda>c. map (\<lambda>k. xs ! k) (members_of ids c)) (uniq ids)"

definition complete_linkage_cluster ::
  "('v \<Rightarrow> 'v \<Rightarrow> real option) \<Rightarrow> ('t \<times> 'v) list \<Rightarrow> real \<Rightarrow> nat \<Rightarrow> 't list list" where
  "complete_linkage_cluster f items threshold min_size =
     filter (\<lambda>c. min_size \<le> length c)
       (collect_clusters (linked_ids (near f threshold items) (length items)) (map fst items))"

section \<open>What the loop arrives at\<close>

text \<open>
  \<open>linked done ids\<close>: the clusters are cliques, and every pair the loop has passed either shares a cluster
  or has two members of its clusters that are too far apart.
\<close>

locale linkage =
  fixes close :: "nat \<Rightarrow> nat \<Rightarrow> bool"
    and n :: nat
  assumes sym: "close a b = close b a"
begin

definition apart :: "nat list \<Rightarrow> nat \<Rightarrow> nat \<Rightarrow> bool" where
  "apart ids c d \<longleftrightarrow> (\<exists>a < n. \<exists>b < n. ids ! a = c \<and> ids ! b = d \<and> \<not> close a b)"

definition linked :: "(nat \<times> nat) set \<Rightarrow> nat list \<Rightarrow> bool" where
  "linked passed ids \<longleftrightarrow>
     length ids = n
     \<and> (\<forall>a < n. \<forall>b < n. a \<noteq> b \<and> ids ! a = ids ! b \<longrightarrow> close a b)
     \<and> (\<forall>(i, j) \<in> passed. i < n \<and> j < n \<and> (ids ! i = ids ! j \<or> apart ids (ids ! i) (ids ! j)))"

lemma members_close:
  assumes "length ids = n"
  shows "list_all (\<lambda>a. list_all (close a) (members_of ids d)) (members_of ids c) \<longleftrightarrow> \<not> apart ids c d"
  using assms by (auto simp: list_all_iff members_of_def apart_def)

lemma linked_start: "linked {} [0..<n]"
  by (simp add: linked_def)

lemma linked_relabel:
  assumes ok: "linked passed ids" and ij: "i < n" "j < n" "ids ! i \<noteq> ids ! j"
    and far: "\<not> apart ids (ids ! i) (ids ! j)"
  shows "linked (insert (i, j) passed) (relabel (ids ! i) (ids ! j) ids)"
proof -
  let ?ids = "relabel (ids ! i) (ids ! j) ids"
  from ok have len: "length ids = n" and clique: "\<And>a b. a < n \<Longrightarrow> b < n \<Longrightarrow> a \<noteq> b \<Longrightarrow> ids ! a = ids ! b \<Longrightarrow> close a b"
    and kept: "\<And>k l. (k, l) \<in> passed \<Longrightarrow> k < n \<and> l < n \<and> (ids ! k = ids ! l \<or> apart ids (ids ! k) (ids ! l))"
    by (auto simp: linked_def)
  have at: "?ids ! k = (if ids ! k = ids ! j then ids ! i else ids ! k)" if "k < n" for k
    using that len by (simp add: relabel_def)
  have across: "close a b" if "a < n" "b < n" "ids ! a = ids ! i" "ids ! b = ids ! j" for a b
    using that far by (auto simp: apart_def)
  have "close a b" if "a < n" "b < n" "a \<noteq> b" "?ids ! a = ?ids ! b" for a b
    using that clique [of a b] across [of a b] across [of b a] sym [of a b] by (auto simp: at split: if_splits)
  moreover have "?ids ! k = ?ids ! l \<or> apart ?ids (?ids ! k) (?ids ! l)" if "(k, l) \<in> insert (i, j) passed" for k l
  proof (cases "ids ! k = ids ! l \<or> (k, l) = (i, j)")
    case True
    then show ?thesis using that kept [of k l] ij by (auto simp: at)
  next
    case False
    with that kept [of k l] have kl: "k < n" "l < n" and "apart ids (ids ! k) (ids ! l)" by auto
    then obtain a b where ab: "a < n" "b < n" "ids ! a = ids ! k" "ids ! b = ids ! l" "\<not> close a b"
      by (auto simp: apart_def)
    then have "?ids ! a = ?ids ! k" "?ids ! b = ?ids ! l" using kl by (simp_all add: at)
    with ab show ?thesis unfolding apart_def by blast
  qed
  moreover have "length ?ids = n" using len by (simp add: relabel_def)
  moreover have "k < n \<and> l < n" if "(k, l) \<in> insert (i, j) passed" for k l
    using that kept [of k l] ij by auto
  ultimately show ?thesis unfolding linked_def by blast
qed

lemma linked_step:
  assumes ok: "linked passed ids" and ij: "i < j" "j < n"
  shows "linked (insert (i, j) passed) (link_pair close ids (i, j))"
proof (cases "close i j \<and> ids ! i \<noteq> ids ! j \<and> \<not> apart ids (ids ! i) (ids ! j)")
  case True
  with ok have "link_pair close ids (i, j) = relabel (ids ! i) (ids ! j) ids"
    by (simp add: link_pair_def Let_def members_close linked_def)
  with True ij linked_relabel [OF ok, of i j] show ?thesis by simp
next
  case False
  with ok have same: "link_pair close ids (i, j) = ids"
    by (auto simp add: link_pair_def Let_def members_close linked_def)
  have "ids ! i = ids ! j \<or> apart ids (ids ! i) (ids ! j)"
    using False less_trans [OF ij] ij(2) unfolding apart_def by blast
  with ok ij show ?thesis unfolding same linked_def by auto
qed

lemma linked_fold:
  "linked passed ids \<Longrightarrow> \<forall>(i, j) \<in> set ps. i < j \<and> j < n \<Longrightarrow>
    linked (passed \<union> set ps) (foldl (link_pair close) ids ps)"
proof (induction ps arbitrary: passed ids)
  case (Cons p ps)
  obtain i j where p: "p = (i, j)" by (cases p)
  with Cons.prems have "linked (insert (i, j) passed) (link_pair close ids (i, j))" by (auto intro: linked_step)
  with Cons.IH [OF this] Cons.prems(2) p show ?case by simp
qed simp

lemma linked_final: "linked (set (index_pairs n)) (linked_ids close n)"
  using linked_fold [OF linked_start, of "index_pairs n"] by (auto simp: linked_ids_def index_pairs_def)

lemma length_linked_ids [simp]: "length (linked_ids close n) = n"
  using linked_final by (simp add: linked_def)

lemma clique: "a < n \<Longrightarrow> b < n \<Longrightarrow> a \<noteq> b \<Longrightarrow> linked_ids close n ! a = linked_ids close n ! b \<Longrightarrow> close a b"
  using linked_final unfolding linked_def by blast

lemma maximal:
  assumes "i < n" "j < n" "linked_ids close n ! i \<noteq> linked_ids close n ! j"
  shows "apart (linked_ids close n) (linked_ids close n ! i) (linked_ids close n ! j)"
proof -
  let ?ids = "linked_ids close n"
  have *: "apart ?ids (?ids ! k) (?ids ! l)" if "k < l" "l < n" "?ids ! k \<noteq> ?ids ! l" for k l
  proof -
    from that have "(k, l) \<in> set (index_pairs n)" by (auto simp: index_pairs_def intro!: bexI [of _ k])
    with linked_final that(3) show ?thesis unfolding linked_def by blast
  qed
  consider "i < j" | "j < i" using assms(3) by (metis nat_neq_iff)
  then show ?thesis
  proof cases
    case 1
    then show ?thesis using * [of i j] assms by simp
  next
    case 2
    with * [of j i] assms have "apart ?ids (?ids ! j) (?ids ! i)" by simp
    then show ?thesis unfolding apart_def by (metis sym)
  qed
qed

end

section \<open>The clusters\<close>

lemma cosine_sym: "cosine_similarity a b = cosine_similarity b a"
proof -
  have "dot_product a b = dot_product b a" for a b :: "rat list"
    unfolding dot_product_def by (subst zip_commute) (simp add: map_map comp_def case_prod_unfold mult.commute)
  then show ?thesis by (simp add: cosine_similarity_def mult.commute)
qed

lemma near_sym: "(\<And>a b. f a b = f b a) \<Longrightarrow> near f t items a b = near f t items b a"
  by (simp add: near_def pair_similarity_def)

interpretation cosine_linkage: linkage "near cosine_similarity t items" n for t items n
  by unfold_locales (rule near_sym [OF cosine_sym])

text \<open>The clusters as lists of positions, before small ones are dropped.\<close>

definition linkage_groups :: "('v \<Rightarrow> 'v \<Rightarrow> real option) \<Rightarrow> real \<Rightarrow> ('t \<times> 'v) list \<Rightarrow> nat list list" where
  "linkage_groups f t items =
     collect_clusters (linked_ids (near f t items) (length items)) [0..<length items]"

lemma members_of_simps:
  "k \<in> set (members_of ids c) \<longleftrightarrow> k < length ids \<and> ids ! k = c" "sorted (members_of ids c)" "distinct (members_of ids c)"
  by (auto simp: members_of_def sorted_wrt_filter)

lemma linkage_groups_members:
  assumes "length (linked_ids (near f t items) (length items)) = length items"
  shows "linkage_groups f t items = map (members_of (linked_ids (near f t items) (length items)))
    (uniq (linked_ids (near f t items) (length items)))"
  using assms by (auto simp: linkage_groups_def collect_clusters_def members_of_simps intro!: map_idI)

lemma distinct_concat_members: "distinct cs \<Longrightarrow> distinct (concat (map (members_of ids) cs))"
  by (induction cs) (auto simp: members_of_simps)

lemma complete_linkage_groups:
  assumes "length (linked_ids (near f t items) (length items)) = length items"
  shows "complete_linkage_cluster f items t m
    = filter (\<lambda>c. m \<le> length c) (map (map (\<lambda>k. fst (items ! k))) (linkage_groups f t items))"
  using assms unfolding complete_linkage_cluster_def linkage_groups_members [OF assms] collect_clusters_def
  by (auto simp: members_of_simps comp_def intro!: arg_cong [where f = "filter _"] map_cong [OF refl])

text \<open>
  C36: For a symmetric similarity, complete linkage splits the positions of its input into groups, each
  position in exactly one and in the order of the input, and returns those that reach the minimal size.
  Within a group every pair reaches the threshold. The groups are maximal: any two of them have a pair
  across them that does not reach it, so no two clusters could have been merged.
\<close>

theorem clusters_are_maximal_cliques:
  fixes f :: "'v \<Rightarrow> 'v \<Rightarrow> real option" and items :: "('t \<times> 'v) list" and t :: real and m :: nat
  assumes "\<And>a b. f a b = f b a"
  defines "groups \<equiv> linkage_groups f t items"
  shows "complete_linkage_cluster f items t m = filter (\<lambda>c. m \<le> length c) (map (map (\<lambda>k. fst (items ! k))) groups)
    \<and> distinct (concat groups) \<and> set (concat groups) = {..<length items}
    \<and> (\<forall>g \<in> set groups. g \<noteq> [] \<and> sorted g \<and> (\<forall>a \<in> set g. \<forall>b \<in> set g. a \<noteq> b \<longrightarrow>
          t \<le> pair_similarity f (snd (items ! a)) (snd (items ! b))))
    \<and> (\<forall>g \<in> set groups. \<forall>h \<in> set groups. g \<noteq> h \<longrightarrow> (\<exists>a \<in> set g. \<exists>b \<in> set h.
          pair_similarity f (snd (items ! a)) (snd (items ! b)) < t))"
proof -
  let ?close = "near f t items" and ?n = "length items"
  let ?ids = "linked_ids ?close ?n"
  have L: "linkage ?close" by unfold_locales (rule near_sym [OF assms(1)])
  note len = linkage.length_linked_ids [OF L, of ?n]
  have groups: "groups = map (members_of ?ids) (uniq ?ids)"
    unfolding groups_def by (rule linkage_groups_members [OF len])
  have grouped: "g \<in> set groups \<longleftrightarrow> (\<exists>a < ?n. g = members_of ?ids (?ids ! a))" for g
  proof -
    have "g \<in> set groups \<longleftrightarrow> g \<in> members_of ?ids ` set ?ids" by (simp add: groups)
    also have "set ?ids = (\<lambda>a. ?ids ! a) ` {..<?n}" by (auto simp: set_conv_nth len)
    finally show ?thesis by auto
  qed
  have "complete_linkage_cluster f items t m = filter (\<lambda>c. m \<le> length c) (map (map (\<lambda>k. fst (items ! k))) groups)"
    unfolding groups_def by (rule complete_linkage_groups [OF len])
  moreover have "distinct (concat groups)" by (simp add: groups distinct_concat_members)
  moreover have "set (concat groups) = {..<?n}" using len by (auto simp: groups members_of_simps)
  moreover have "g \<noteq> [] \<and> sorted g \<and> (\<forall>a \<in> set g. \<forall>b \<in> set g. a \<noteq> b \<longrightarrow> ?close a b)" if "g \<in> set groups" for g
  proof -
    from that obtain c where c: "c < ?n" "g = members_of ?ids (?ids ! c)" by (auto simp: grouped)
    then have "c \<in> set g" by (simp add: members_of_simps len)
    then have "g \<noteq> []" by auto
    moreover have "?close a b" if "a \<in> set g" "b \<in> set g" "a \<noteq> b" for a b
      using that linkage.clique [OF L, of a ?n b] by (simp add: c members_of_simps len)
    ultimately show ?thesis by (simp add: c members_of_simps)
  qed
  moreover have "\<exists>a \<in> set g. \<exists>b \<in> set h. \<not> ?close a b" if gh: "g \<in> set groups" "h \<in> set groups" "g \<noteq> h" for g h
  proof -
    from gh obtain c d where c: "c < ?n" "g = members_of ?ids (?ids ! c)" and d: "d < ?n" "h = members_of ?ids (?ids ! d)"
      by (auto simp: grouped)
    with gh(3) have "?ids ! c \<noteq> ?ids ! d" by auto
    from linkage.maximal [OF L c(1) d(1) this] obtain a b where
      "a < ?n" "b < ?n" "?ids ! a = ?ids ! c" "?ids ! b = ?ids ! d" "\<not> ?close a b"
      unfolding linkage.apart_def [OF L] by blast
    then show ?thesis unfolding c(2) d(2) by (intro bexI [of _ a] bexI [of _ b]) (simp_all add: members_of_simps len)
  qed
  ultimately show ?thesis unfolding near_def not_le by blast
qed

definition four_texts :: "(string \<times> rat list) list" where
  "four_texts = [(''a'', [1, 0]), (''b'', [3/5, 4/5]), (''c'', [0, 1]), (''d'', [1])]"

theorem clusters_are_maximal_cliques_witness:
  "complete_linkage_cluster cosine_similarity four_texts (3/4) 2 = [[''b'', ''c'']]
   \<and> set (concat (linkage_groups cosine_similarity (3/4) four_texts)) = {..<4}"
proof -
  have "complete_linkage_cluster cosine_similarity four_texts (3/4) 2 = [[''b'', ''c'']]"
    by (simp add: complete_linkage_cluster_def collect_clusters_def linked_ids_def index_pairs_def link_pair_def
        members_of_def relabel_def near_def pair_similarity_def cosine_similarity_def vector_norm_def dot_product_def
        four_texts_def upt_rec of_rat_divide of_rat_add)
  then show ?thesis using clusters_are_maximal_cliques [OF cosine_sym, where items = four_texts and t = "3/4" and m = 2]
    by (simp add: four_texts_def)
qed


text \<open>At the legal threshold 0 vectors of different widths do share a cluster.\<close>

lemma mixed_widths_can_cluster:
  "complete_linkage_cluster cosine_similarity [(''a'', [1]), (''b'', [1, 0])] 0 2 = [[''a'', ''b'']]"
  by (simp add: complete_linkage_cluster_def collect_clusters_def linked_ids_def index_pairs_def link_pair_def
      members_of_def relabel_def near_def pair_similarity_def cosine_similarity_def upt_rec)

end
