(* ===== verification/Consolidation.thy ===== *)
theory Consolidation
  imports Linkage Reads Clocks
begin

text \<open>
  Consolidation (\<^verbatim>\<open>lifecycle/consolidation.py\<close>, \<^verbatim>\<open>_consolidation_rollback.py\<close>,
  \<^verbatim>\<open>_consolidated_fields.py\<close>, \<^verbatim>\<open>_consolidation_metrics.py\<close>, \<^verbatim>\<open>protection.py\<close>): finding clusters of
  near-duplicate rows, writing one consolidated entry per cluster and archiving its originals, with the
  rollback of a cluster whose archival fails, and the cycle over all clusters. Other writers of the store
  may commit between the transactions of one cluster, and the archival may be interrupted at any row;
  both are parameters, as are the embedder and the clock.
\<close>

section \<open>Protection tiers\<close>

text \<open>The raw field is \<open>None\<close> when it is missing or no text. \<open>ufold\<close> lowers a text beyond ASCII.\<close>

definition lowered :: "(string \<Rightarrow> string) \<Rightarrow> string \<Rightarrow> string" where
  "lowered ufold s = (if is_ascii s then str_lower s else ufold s)"

definition entry_protection_tier :: "(string \<Rightarrow> string) \<Rightarrow> string option \<Rightarrow> string" where
  "entry_protection_tier ufold raw =
     (case raw of None \<Rightarrow> ''normal'' | Some s \<Rightarrow> if s = [] then ''normal'' else lowered ufold (str_strip s))"

definition is_removal_exempt :: "(string \<Rightarrow> string) \<Rightarrow> string option \<Rightarrow> bool" where
  "is_removal_exempt ufold raw \<longleftrightarrow> entry_protection_tier ufold raw \<in> {''protected'', ''permanent''}"

definition prune_threshold_multiplier ::
  "(string \<Rightarrow> string) \<Rightarrow> string option \<Rightarrow> (string, rat) dict \<Rightarrow> rat option" where
  "prune_threshold_multiplier ufold raw discounts =
     (if is_removal_exempt ufold raw then None
      else Some (dict_get discounts (entry_protection_tier ufold raw) 1))"

section \<open>Finding clusters\<close>

datatype cluster_error = BatchTooLong | MixedDimensions

definition joins_clusters :: "(string \<Rightarrow> string) \<Rightarrow> memory_entry \<Rightarrow> bool" where
  "joins_clusters ufold e \<longleftrightarrow>
     src e \<noteq> SrcConsolidated \<and> consolidated_into e = None
     \<and> \<not> is_removal_exempt ufold (Some (tier_value (protection_tier e)))
     \<and> map_of (metadata e) ''system_canary'' \<noteq> Some ''true''"

text \<open>The admission at the platform sink is \<open>admit\<close> of \<open>Labels\<close> under the current policy.\<close>

record cluster_rules =
  cr_ufold :: "string \<Rightarrow> string"
  cr_label :: "memory_entry \<Rightarrow> level"
  cr_policy :: policy

definition eligible_rows :: "cluster_rules \<Rightarrow> memory_entry list \<Rightarrow> memory_entry list" where
  "eligible_rows cr es =
     ad_admitted (admit (cr_label cr) (cr_policy cr) (filter (joins_clusters (cr_ufold cr)) es) PlatformSink)"

definition active_query :: "string option \<Rightarrow> list_query" where
  "active_query ns = \<lparr>q_status = Some Active, q_namespace = ns, q_min_importance = 0,
     q_exclude_superseded = False, q_tags = [], q_after = None\<rparr>"

definition active_rows :: "env \<Rightarrow> clock_text \<Rightarrow> string option \<Rightarrow> nat \<Rightarrow> backend \<Rightarrow> memory_entry list" where
  "active_rows v ct ns limit b =
     (case list_entries v ct (active_query ns) None None limit b of Inl _ \<Rightarrow> [] | Inr es \<Rightarrow> es)"

definition embedded :: "memory_entry list \<Rightarrow> rat list option list \<Rightarrow> (memory_entry \<times> rat list) list" where
  "embedded es vecs = List.map_filter (\<lambda>(e, vec). map_option (Pair e) vec) (zip es vecs)"

definition find_clusters ::
  "env \<Rightarrow> clock_text \<Rightarrow> cluster_rules \<Rightarrow> embedder option \<Rightarrow> rat \<Rightarrow> nat \<Rightarrow> nat \<Rightarrow> string option \<Rightarrow> backend
     \<Rightarrow> (cluster_error, memory_entry list list) result" where
  "find_clusters v ct cr em threshold min_size limit ns b =
     (case em of
        None \<Rightarrow> Inr []
      | Some m \<Rightarrow>
          if \<not> em_available m then Inr []
          else (let es = eligible_rows cr (active_rows v ct ns limit b);
                    vecs = em_batch m (map entry_text es); pairs = embedded es vecs
                in if length es < min_size then Inr []
                   else if list_ex (\<lambda>x. x \<noteq> None) (drop (length es) vecs) then Inl BatchTooLong
                   else if length pairs < min_size then Inr []
                   else Inr (complete_linkage_cluster cosine_similarity pairs
                          (of_rat (calibrated_threshold threshold (em_model m))) min_size)))"

definition mean_pairwise_similarity :: "embedder \<Rightarrow> memory_entry list \<Rightarrow> (cluster_error, real) result" where
  "mean_pairwise_similarity m cluster =
     (if length cluster < 2 then Inr 0
      else (let valid = List.map_filter (\<lambda>x. x) (em_batch m (map entry_text cluster));
                scores = map (\<lambda>(i, j). cosine_similarity (valid ! i) (valid ! j)) (index_pairs (length valid))
            in if None \<in> set scores then Inl MixedDimensions
               else if scores = [] then Inr 0
               else Inr (sum_list (map the scores) / of_nat (length scores))))"

section \<open>The consolidated entry\<close>

fun first_best :: "('a \<Rightarrow> 'b::linorder) \<Rightarrow> 'a \<Rightarrow> 'a list \<Rightarrow> 'a" where
  "first_best f x [] = x"
| "first_best f x (y # ys) = first_best f (if f x < f y then y else x) ys"

definition tag_count :: "memory_entry list \<Rightarrow> string \<Rightarrow> nat" where
  "tag_count cluster t = length (filter (\<lambda>e. t \<in> set (tags e)) cluster)"

definition consolidation_tags_max :: nat where "consolidation_tags_max = 20"

definition capped_tags :: "memory_entry list \<Rightarrow> string list" where
  "capped_tags cluster =
     sort (take consolidation_tags_max
       (sort_key (\<lambda>t. (- int (tag_count cluster t), t)) (uniq (concat (map tags cluster)))))"

definition unjudged :: "assertion \<Rightarrow> assertion" where
  "unjudged a = a\<lparr>a_last_result := None, a_last_verified_at := None, a_last_evidence := [], a_first_failed_at := None\<rparr>"

definition merged_tier :: "memory_entry list \<Rightarrow> protection_tier_t" where
  "merged_tier cluster =
     foldl (\<lambda>t e. stronger tier_rank t (protection_tier e)) (protection_tier (hd cluster)) (tl cluster)"

definition merged_assertions :: "memory_entry list \<Rightarrow> assertion list" where
  "merged_assertions cluster =
     map unjudged (foldl (\<lambda>as e. union_assertions as (assertions e)) (assertions (hd cluster)) (tl cluster))"

definition merged_entry_fields :: "memory_entry list \<Rightarrow> memory_entry \<Rightarrow> memory_entry" where
  "merged_entry_fields cluster e =
     (let best = first_best importance (hd cluster) (tl cluster)
      in e\<lparr>src := SrcConsolidated, source_identity := source_identity best, client_profile := client_profile best,
           model_id := model_id best, consolidated_from := map eid cluster,
           importance := max_from (importance (hd cluster)) (map importance (tl cluster)),
           tags := capped_tags cluster, evidence := uniq (concat (map evidence cluster)),
           recurrence := int (length cluster), access_count := sum_list (map access_count cluster),
           recall_count := sum_list (map recall_count cluster), protection_tier := merged_tier cluster,
           assertions := merged_assertions cluster, status := Active\<rparr>)"

record chosen_text =
  ch_summary :: string
  ch_detail :: string

definition summarize_cluster_fallback :: "memory_entry list \<Rightarrow> chosen_text" where
  "summarize_cluster_fallback cluster =
     (let best = first_best (\<lambda>e. length (content e) + length (detail e)) (hd cluster) (tl cluster)
      in \<lparr>ch_summary = content best, ch_detail = detail best\<rparr>)"

text \<open>
  One cluster's writer: its fresh id, the instant it starts, the node of the vector clock, the instants of
  the archival updates, what other writers commit between its transactions, which archival update is
  interrupted, and what the storage offers (a transaction that rolls back, a vector store).
\<close>

record writer =
  w_id :: string
  w_now :: int
  w_node :: string
  w_clock :: "nat \<Rightarrow> int"
  w_other :: "nat \<Rightarrow> backend \<Rightarrow> backend"
  w_persist_fails :: bool
  w_archive_fails :: "nat \<Rightarrow> bool"
  w_atomic :: bool
  w_vectors :: bool

datatype write_error = EmbeddingFailed | PersistFailed | ArchiveInterrupted | ArchiveMissed | NotDeleted | Refused schema_error

definition consolidated_entry :: "writer \<Rightarrow> string \<Rightarrow> chosen_text \<Rightarrow> memory_entry list \<Rightarrow> memory_entry" where
  "consolidated_entry w ns ch cluster =
     merged_entry_fields cluster
       ((Entry.new_entry (w_id w) (ch_summary ch) (w_now w))
          \<lparr>namespace := ns, detail := ch_detail ch, vector_clock := init_clock (w_node w)\<rparr>)"

definition entry_vector ::
  "embedder option \<Rightarrow> (string \<Rightarrow> bool) \<Rightarrow> bool \<Rightarrow> string \<Rightarrow> (write_error, rat list option) result" where
  "entry_vector em raises storing txt =
     (case em of
        None \<Rightarrow> Inr None
      | Some m \<Rightarrow> if \<not> em_available m \<or> \<not> storing then Inr None
                  else if raises txt then Inl EmbeddingFailed else Inr (em_embed m txt))"

text \<open>
  The row and its vector in one transaction. A storage without transactions has no vector store, so there
  the creation is a single write. The graph update it schedules afterwards is not modelled.
\<close>

definition create_consolidated_entry ::
  "env \<Rightarrow> writer \<Rightarrow> embedder option \<Rightarrow> (string \<Rightarrow> bool) \<Rightarrow> string \<Rightarrow> chosen_text \<Rightarrow> rat list option
     \<Rightarrow> memory_entry list \<Rightarrow> backend \<Rightarrow> (write_error, backend) result" where
  "create_consolidated_entry v w em raises ns ch vec cluster b =
     (let e = consolidated_entry w ns ch cluster
      in bindE (if vec = None then entry_vector em raises (w_vectors w) (entry_text e) else Inr vec) (\<lambda>vec'.
           if w_persist_fails w then Inl PersistFailed
           else (case backend_store v b e of
                   Inl _ \<Rightarrow> Inl PersistFailed
                 | Inr b' \<Rightarrow> Inr (case vec' of None \<Rightarrow> b' | Some x \<Rightarrow> upsert_vector b' (w_id w) ns x))))"

section \<open>Archival and its rollback\<close>

definition close_fields :: "string \<Rightarrow> int \<Rightarrow> int \<Rightarrow> memory_entry \<Rightarrow> field_update list" where
  "close_fields cid close_at now e =
     [UConsolidatedInto (Some cid), UStatus Archived, UUpdatedAt now]
     @ (if invalid_from e = None then [UInvalidFrom (Some close_at), UInvalidatedBy (Some cid)] else [])"

text \<open>The loop inside the transaction; a failure carries what was written before it.\<close>

fun archive_each ::
  "env \<Rightarrow> writer \<Rightarrow> string \<Rightarrow> int \<Rightarrow> nat \<Rightarrow> memory_entry list \<Rightarrow> backend
     \<Rightarrow> (write_error \<times> backend, backend) result" where
  "archive_each v w cid close_at n [] b = Inr b"
| "archive_each v w cid close_at n (e # es) b =
     (if w_archive_fails w n then Inl (ArchiveInterrupted, b)
      else (case backend_update v (w_clock w n) b (eid e) (namespace e) (close_fields cid close_at (w_clock w n) e) of
              Inl err \<Rightarrow> Inl (Refused err, b)
            | Inr (b', None) \<Rightarrow> Inl (ArchiveMissed, b')
            | Inr (b', Some _) \<Rightarrow> archive_each v w cid close_at (Suc n) es b'))"

definition transacted :: "bool \<Rightarrow> backend \<Rightarrow> ('e \<times> backend, backend) result \<Rightarrow> ('e \<times> backend, backend) result" where
  "transacted atomic b r = (case r of Inl (err, part) \<Rightarrow> Inl (err, if atomic then b else part) | Inr b' \<Rightarrow> Inr b')"

definition archive_originals ::
  "env \<Rightarrow> writer \<Rightarrow> string \<Rightarrow> int \<Rightarrow> memory_entry list \<Rightarrow> backend \<Rightarrow> (write_error \<times> backend, backend) result" where
  "archive_originals v w cid close_at cluster b =
     transacted (w_atomic w) b (archive_each v w cid close_at 0 cluster b)"

definition undo_fields :: "string \<Rightarrow> memory_entry \<Rightarrow> memory_entry \<Rightarrow> field_update list" where
  "undo_fields cid e current =
     (if consolidated_into current = Some cid then [UConsolidatedInto (consolidated_into e)] else [])
     @ (if status current = Archived then [UStatus (status e)] else [])
     @ (if invalidated_by current = Some cid then [UInvalidatedBy (invalidated_by e), UInvalidFrom (invalid_from e)] else [])
     @ (if status current = Archived then [UUpdatedAt (updated_at e)] else [])"

fun restore_each ::
  "env \<Rightarrow> int \<Rightarrow> string \<Rightarrow> memory_entry list \<Rightarrow> backend \<Rightarrow> (write_error \<times> backend, backend) result" where
  "restore_each v now cid [] b = Inr b"
| "restore_each v now cid (e # es) b =
     (case backend_get v b (eid e) (namespace e) of
        None \<Rightarrow> restore_each v now cid es b
      | Some current \<Rightarrow>
          if consolidated_into current = Some cid
          then (case backend_update v now b (eid e) (namespace e) (undo_fields cid e current) of
                  Inl err \<Rightarrow> Inl (Refused err, b)
                | Inr (b', _) \<Rightarrow> restore_each v now cid es b')
          else restore_each v now cid es b)"

definition restore_originals ::
  "env \<Rightarrow> writer \<Rightarrow> string \<Rightarrow> memory_entry list \<Rightarrow> backend \<Rightarrow> (write_error \<times> backend, backend) result" where
  "restore_originals v w cid cluster b = transacted (w_atomic w) b (restore_each v (w_now w) cid cluster b)"

definition rollback_consolidation ::
  "env \<Rightarrow> writer \<Rightarrow> string \<Rightarrow> memory_entry list \<Rightarrow> backend \<Rightarrow> (write_error \<times> backend, backend) result" where
  "rollback_consolidation v w ns cluster b =
     bindE (restore_originals v w (w_id w) cluster b) (\<lambda>b1.
       (let (b2, deleted) = backend_delete (w_other w 2 b1) (w_id w) ns
        in if deleted then Inr b2 else Inl (NotDeleted, b2)))"

section \<open>One cluster's write and the cycle\<close>

datatype write_outcome = Written | WriteSkipped | ClusterFailed write_error | RollbackFailed write_error

definition current_rows :: "env \<Rightarrow> backend \<Rightarrow> memory_entry list \<Rightarrow> memory_entry list" where
  "current_rows v b cluster =
     List.map_filter (\<lambda>e. case backend_get v b (eid e) (namespace e) of
         None \<Rightarrow> None
       | Some x \<Rightarrow> if revision_of v (Some x) = revision_of v (Some e) then Some x else None) cluster"

text \<open>\<open>RollbackFailed\<close> is the exception that leaves the cycle; every other outcome is a value.\<close>

definition write_cluster ::
  "env \<Rightarrow> writer \<Rightarrow> embedder option \<Rightarrow> (string \<Rightarrow> bool) \<Rightarrow> string \<Rightarrow> chosen_text \<Rightarrow> rat list option
     \<Rightarrow> memory_entry list \<Rightarrow> backend \<Rightarrow> backend \<times> write_outcome" where
  "write_cluster v w em raises ns ch vec cluster b =
     (let current = current_rows v b cluster
      in if length current < length cluster then (b, WriteSkipped)
         else (case create_consolidated_entry v w em raises ns ch vec current b of
                 Inl err \<Rightarrow> (b, ClusterFailed err)
               | Inr b1 \<Rightarrow>
                   (case archive_originals v w (w_id w) (w_now w) current (w_other w 0 b1) of
                      Inr b2 \<Rightarrow> (b2, Written)
                    | Inl (err, b2) \<Rightarrow>
                        (case rollback_consolidation v w ns current (w_other w 1 b2) of
                           Inr b3 \<Rightarrow> (b3, ClusterFailed err)
                         | Inl (err', b3) \<Rightarrow> (b3, RollbackFailed err')))))"

definition consolidation_rows_max :: nat where "consolidation_rows_max = 50"
definition consolidation_cluster_max :: nat where "consolidation_cluster_max = 10"

fun write_clusters ::
  "env \<Rightarrow> (nat \<Rightarrow> writer) \<Rightarrow> embedder option \<Rightarrow> (string \<Rightarrow> bool) \<Rightarrow> string \<Rightarrow> nat \<Rightarrow> memory_entry list list
     \<Rightarrow> backend \<Rightarrow> backend \<times> write_outcome list" where
  "write_clusters v ws em raises ns n [] b = (b, [])"
| "write_clusters v ws em raises ns n (cluster # rest) b =
     (if length cluster > consolidation_cluster_max
      then (let (b', outs) = write_clusters v ws em raises ns (Suc n) rest b in (b', WriteSkipped # outs))
      else (let ch = summarize_cluster_fallback cluster
            in case entry_vector em raises (w_vectors (ws n)) (ch_summary ch @ '' '' @ ch_detail ch) of
                 Inl err \<Rightarrow> (let (b', outs) = write_clusters v ws em raises ns (Suc n) rest b
                             in (b', ClusterFailed err # outs))
               | Inr vec \<Rightarrow>
                   (case write_cluster v (ws n) em raises ns ch vec cluster b of
                      (b1, RollbackFailed err) \<Rightarrow> (b1, [RollbackFailed err])
                    | (b1, out) \<Rightarrow> (let (b', outs) = write_clusters v ws em raises ns (Suc n) rest b1
                                    in (b', out # outs)))))"

record cycle_config =
  cy_enabled :: bool
  cy_threshold :: rat
  cy_min_cluster :: nat
  cy_max_per_cycle :: nat

record cluster_preview =
  cp_ids :: "string list"
  cp_count :: nat
  cp_mean :: real

datatype cycle_report =
  NamespacesUnknown | NamespaceRequired nat | ClusteringFailed cluster_error | CycleDisabled
| DryRun "cluster_preview list" | NoClusters
| Completed nat nat nat "write_error list"   \<comment> \<open>found, written, skipped, the failures\<close>
| CycleRaised write_error

definition list_namespaces :: "backend \<Rightarrow> string list" where
  "list_namespaces b = sort (uniq (map fst (dict_keys (rows (b_db b)))))"

definition preview :: "embedder option \<Rightarrow> memory_entry list \<Rightarrow> (cluster_error, cluster_preview) result" where
  "preview em cluster =
     bindE (case em of Some m \<Rightarrow> if em_available m then mean_pairwise_similarity m cluster else Inr 0 | None \<Rightarrow> Inr 0)
       (\<lambda>mean. Inr \<lparr>cp_ids = map eid cluster, cp_count = length cluster,
          cp_mean = of_int (nearest_int (mean * 1000)) / 1000\<rparr>)"

definition failures_of :: "write_outcome list \<Rightarrow> write_error list" where
  "failures_of outs = List.map_filter (\<lambda>x. case x of ClusterFailed err \<Rightarrow> Some err | _ \<Rightarrow> None) outs"

definition completed_report :: "nat \<Rightarrow> write_outcome list \<Rightarrow> cycle_report" where
  "completed_report found outs =
     (case filter (\<lambda>x. case x of RollbackFailed _ \<Rightarrow> True | _ \<Rightarrow> False) outs of
        RollbackFailed err # _ \<Rightarrow> CycleRaised err
      | _ \<Rightarrow> Completed found (length (filter ((=) Written) outs)) (length (filter ((=) WriteSkipped) outs)) (failures_of outs))"

definition target_namespace :: "string option \<Rightarrow> string" where
  "target_namespace ns = (case ns of None \<Rightarrow> ''default'' | Some n \<Rightarrow> if n = [] then ''default'' else n)"

definition consolidate_cycle ::
  "env \<Rightarrow> clock_text \<Rightarrow> cluster_rules \<Rightarrow> (nat \<Rightarrow> writer) \<Rightarrow> embedder option \<Rightarrow> (string \<Rightarrow> bool) \<Rightarrow> bool
     \<Rightarrow> cycle_config \<Rightarrow> nat \<Rightarrow> bool \<Rightarrow> string option \<Rightarrow> backend \<Rightarrow> backend \<times> cycle_report" where
  "consolidate_cycle v ct cr ws em raises enumerable cfg max_entries dry_run ns b =
     (if ns = None \<and> \<not> enumerable then (b, NamespacesUnknown)
      else if ns = None \<and> 1 < length (list_namespaces b) then (b, NamespaceRequired (length (list_namespaces b)))
      else if \<not> cy_enabled cfg \<and> \<not> dry_run then (b, CycleDisabled)
      else (case find_clusters v ct cr em (cy_threshold cfg) (cy_min_cluster cfg) (min max_entries (cy_max_per_cycle cfg)) ns b of
              Inl err \<Rightarrow> (b, ClusteringFailed err)
            | Inr clusters \<Rightarrow>
                if dry_run
                then (b, case mapE (preview em) clusters of Inl err \<Rightarrow> ClusteringFailed err | Inr ps \<Rightarrow> DryRun ps)
                else if clusters = [] then (b, NoClusters)
                else (let (b', outs) = write_clusters v ws em raises (target_namespace ns) 0 clusters b
                      in (b', completed_report (length clusters) outs))))"

end
