(* ===== verification/ConsolidationSafe.thy ===== *)
theory ConsolidationSafe
  imports Consolidation VerificationPass
begin

text \<open>
  What consolidation keeps safe: a cluster's write either archives every original into the new entry or
  leaves no trace of it, a rollback undoes nothing but this cycle's archival, and a cycle touches no row
  that may not join a cluster.
\<close>

section \<open>Rows under archival\<close>

definition archival_only :: "memory_entry \<Rightarrow> memory_entry \<Rightarrow> bool" where
  "archival_only r x \<longleftrightarrow> (\<exists>s i j c u q h l. x = r\<lparr>status := s, invalid_from := i, invalidated_by := j,
     consolidated_into := c, updated_at := u, sync_seq := q, sync_hash := h, last_synced_at := l\<rparr>)"

definition sync_only :: "memory_entry \<Rightarrow> memory_entry \<Rightarrow> bool" where
  "sync_only r x \<longleftrightarrow> (\<exists>q h l. x = r\<lparr>sync_seq := q, sync_hash := h, last_synced_at := l\<rparr>)"

lemma archival_onlyI:
  "x = r\<lparr>status := status x, invalid_from := invalid_from x, invalidated_by := invalidated_by x,
     consolidated_into := consolidated_into x, updated_at := updated_at x,
     sync_seq := sync_seq x, sync_hash := sync_hash x, last_synced_at := last_synced_at x\<rparr> \<Longrightarrow> archival_only r x"
  unfolding archival_only_def by blast

lemma sync_only_refl [simp]: "sync_only r r"
  unfolding sync_only_def by (intro exI [of _ "sync_seq r"] exI [of _ "sync_hash r"] exI [of _ "last_synced_at r"]) simp

lemma archival_only_refl [simp]: "archival_only r r"
  by (rule archival_onlyI) simp

lemma blocks_archival:
  assumes "archival_only r x"
  shows "quarantine_blocks v b x = quarantine_blocks v b r"
proof -
  from assms have "entry_identity_keys ch x = entry_identity_keys ch r" for ch
    by (auto simp: archival_only_def entry_identity_keys_def source_of_def)
  then show ?thesis by (simp add: quarantine_blocks_def blocks_def split: option.split)
qed

lemma violates_archival:
  assumes "archival_only r x"
  shows "violates_evidence_invariant x = violates_evidence_invariant r" "same_claim r x"
  using assms by (auto simp: archival_only_def violates_evidence_invariant_def same_claim_def)

lemma archival_step:
  assumes "archival_only r x" "field_name u \<in> {''status'', ''invalid_from'', ''invalidated_by'', ''consolidated_into'', ''updated_at''}"
  shows "archival_only r (set_field x u)"
proof -
  from assms(1) obtain s i j c t q h l where "x = r\<lparr>status := s, invalid_from := i, invalidated_by := j,
     consolidated_into := c, updated_at := t, sync_seq := q, sync_hash := h, last_synced_at := l\<rparr>"
    unfolding archival_only_def by blast
  with assms(2) show ?thesis by (cases u) (auto intro!: archival_onlyI)
qed

lemma archival_fields:
  assumes "field_name ` set us \<subseteq> {''status'', ''invalid_from'', ''invalidated_by'', ''consolidated_into'', ''updated_at''}"
  shows "archival_only r x \<Longrightarrow> archival_only r (set_fields x us)"
  using assms by (induction us arbitrary: x) (simp_all add: archival_step)

lemma archival_updated:
  assumes "archival_only r (set_fields r us)"
  shows "archival_only r (updated_row sha us r)"
proof -
  from assms obtain s i j c u q h l where x: "set_fields r us = r\<lparr>status := s, invalid_from := i, invalidated_by := j,
     consolidated_into := c, updated_at := u, sync_seq := q, sync_hash := h, last_synced_at := l\<rparr>"
    unfolding archival_only_def by blast
  show ?thesis unfolding updated_row_def Let_def x by (auto intro!: archival_onlyI)
qed

lemma archival_writes:
  "field_name ` set (close_fields cid close_at t e) \<subseteq> {''status'', ''invalid_from'', ''invalidated_by'', ''consolidated_into'', ''updated_at''}"
  "field_name ` set (undo_fields cid e r) \<subseteq> {''status'', ''invalid_from'', ''invalidated_by'', ''consolidated_into'', ''updated_at''}"
  by (auto simp: close_fields_def undo_fields_def)

definition closed_row :: "env \<Rightarrow> string \<Rightarrow> int \<Rightarrow> int \<Rightarrow> memory_entry \<Rightarrow> memory_entry" where
  "closed_row v cid close_at t r = updated_row (env_sha v) (close_fields cid close_at t r) r"

definition undone_row :: "env \<Rightarrow> string \<Rightarrow> memory_entry \<Rightarrow> memory_entry \<Rightarrow> memory_entry" where
  "undone_row v cid e r = updated_row (env_sha v) (undo_fields cid e r) r"

lemma archival_rows:
  "archival_only r (closed_row v cid close_at t r)" "archival_only r (undone_row v cid e r)"
  unfolding closed_row_def undone_row_def
  by (intro archival_updated archival_fields [OF archival_writes(1)] archival_fields [OF archival_writes(2)] archival_only_refl)+

lemma closed_row_simps [simp]:
  "status (closed_row v cid close_at t r) = Archived" "consolidated_into (closed_row v cid close_at t r) = Some cid"
  "invalid_from (closed_row v cid close_at t r) = (if invalid_from r = None then Some close_at else invalid_from r)"
  "invalidated_by (closed_row v cid close_at t r) = (if invalid_from r = None then Some cid else invalidated_by r)"
  by (simp_all add: closed_row_def updated_row_def close_fields_def Let_def)

lemma undo_of_closed:
  assumes "consolidated_into r = None" "invalidated_by r \<noteq> Some cid" "(invalid_from r = None) = (invalidated_by r = None)"
    and "status e = status r" "consolidated_into e = None" "invalid_from e = invalid_from r"
      "invalidated_by e = invalidated_by r" "updated_at e = updated_at r"
  shows "sync_only r (undone_row v cid e (closed_row v cid close_at t r))"
proof -
  define c where "c = closed_row v cid close_at t r"
  obtain s i j c' u q h l where c: "c = r\<lparr>status := s, invalid_from := i, invalidated_by := j,
     consolidated_into := c', updated_at := u, sync_seq := q, sync_hash := h, last_synced_at := l\<rparr>"
    using archival_rows(1) [of r v cid close_at t] unfolding archival_only_def c_def by blast
  have "status c = Archived" "consolidated_into c = Some cid"
    "invalid_from c = (if invalid_from r = None then Some close_at else invalid_from r)"
    "invalidated_by c = (if invalid_from r = None then Some cid else invalidated_by r)" by (simp_all add: c_def)
  then have parts: "s = Archived" "c' = Some cid" "i = (if invalid_from r = None then Some close_at else invalid_from r)"
    "j = (if invalid_from r = None then Some cid else invalidated_by r)" by (simp_all add: c)
  have "set_fields c (undo_fields cid e c) = r\<lparr>sync_seq := q, sync_hash := h, last_synced_at := l\<rparr>"
    by (rule memory_entry.equality) (use assms in \<open>simp_all add: undo_fields_def c parts\<close>)
  then show ?thesis unfolding undone_row_def c_def [symmetric] updated_row_def Let_def sync_only_def by auto
qed

section \<open>What one update writes\<close>

lemma served_archival [simp]:
  "consolidated_into (served_view e) = consolidated_into e" "invalidated_by (served_view e) = invalidated_by e"
  "updated_at (served_view e) = updated_at e"
  by (simp_all add: served_view_def)

lemma served_fields [simp]:
  "close_fields cid close_at t (served_view r) = close_fields cid close_at t r"
  "undo_fields cid e (served_view r) = undo_fields cid e r"
  "undo_fields cid (served_view e) r = undo_fields cid e r"
  by (simp_all add: close_fields_def undo_fields_def)


definition utf8_texts :: "env \<Rightarrow> field_update list \<Rightarrow> bool" where
  "utf8_texts v us \<longleftrightarrow> (\<forall>c s. (c, Some s) \<in> set (concat (map text_value us)) \<longrightarrow> env_utf8 v s)"

lemma validate_utf8_iff:
  "validate_utf8_fields utf8 cols = Inr () \<longleftrightarrow> (\<forall>c s. (c, Some s) \<in> set cols \<longrightarrow> utf8 s)"
proof -
  have "validate_utf8_fields utf8 cols = Inr () \<longleftrightarrow> (\<forall>(c, x) \<in> set cols. \<not> (case x of Some s \<Rightarrow> \<not> utf8 s | None \<Rightarrow> False))"
    by (simp add: validate_utf8_fields_def Let_def filter_empty_conv case_prod_unfold)
  also have "\<dots> \<longleftrightarrow> (\<forall>c s. (c, Some s) \<in> set cols \<longrightarrow> utf8 s)" by (force split: option.splits)
  finally show ?thesis .
qed

lemma no_text_named_id: "(''id'', x) \<notin> set (text_value u)"
  by (cases u) auto

lemma updated_texts_valid:
  assumes "env_utf8 v i" "utf8_texts v us"
  shows "validate_utf8_fields (env_utf8 v) (updated_text_fields i us) = Inr ()"
proof -
  let ?named = "(''id'', Some i) # concat (map text_value us)"
  have "env_utf8 v s" if "Option.bind (map_of (rev ?named) c) (\<lambda>v. v) = Some s" for c s
  proof -
    from that have "map_of (rev ?named) c = Some (Some s)" by (simp add: bind_eq_Some_conv)
    then have "(c, Some s) \<in> set (rev ?named)" by (rule map_of_SomeD)
    then have "s = i \<or> (c, Some s) \<in> set (concat (map text_value us))" by auto
    with assms show ?thesis unfolding utf8_texts_def by blast
  qed
  then show ?thesis unfolding validate_utf8_iff updated_text_fields_def Let_def by fastforce
qed

lemma update_writes:
  assumes "backend_update v t b i ns us = Inr (b', r)" "us \<noteq> []"
  shows "b_ledger b' = b_ledger b"
    and "backend_get v b i ns = None \<Longrightarrow> map_of (rows (b_db b')) = map_of (rows (b_db b)) \<and> r = None"
    and "backend_get v b i ns = Some e \<Longrightarrow> \<exists>old. map_of (rows (b_db b)) (ns, i) = Some old \<and> e = served_view old
      \<and> env_utf8 v i
      \<and> map_of (rows (b_db b')) = (map_of (rows (b_db b)))((ns, i) \<mapsto> updated_row (env_sha v) (stamped_updates t us) old)"
proof -
  show "b_ledger b' = b_ledger b" by (rule backend_update_keeps(1) [OF assms(1)])
  show "backend_get v b i ns = None \<Longrightarrow> map_of (rows (b_db b')) = map_of (rows (b_db b)) \<and> r = None"
    using assms by (auto simp: backend_update_def backend_get_def db_update_def bindE_Inr quarantine_admits_def
        quarantine_blocks_def split: if_splits option.splits)
next
  assume get: "backend_get v b i ns = Some e"
  then obtain old where old: "map_of (rows (b_db b)) (ns, i) = Some old" "e = served_view old"
    by (auto dest: backend_get_SomeD simp: db_get_def)
  with assms get have "validate_utf8_fields (env_utf8 v) (updated_text_fields i (stamped_updates t us)) = Inr ()"
    and rows: "rows (b_db b') = dict_set (ns, i) (updated_row (env_sha v) (stamped_updates t us) old) (rows (b_db b))"
    by (auto simp: backend_update_def db_update_def bindE_Inr Let_def db_get_def)
  moreover have "(''id'', Some i) \<in> set (updated_text_fields i (stamped_updates t us))"
  proof -
    let ?tv = "concat (map text_value (stamped_updates t us))"
    have "map_of (rev ?tv) ''id'' = None"
      using no_text_named_id by (fastforce simp: map_of_eq_None_iff)
    then have "map_of (rev ((''id'', Some i) # ?tv)) ''id'' = Some (Some i)" by (simp add: map_add_def)
    then show ?thesis by (auto simp: updated_text_fields_def Let_def text_columns_def intro!: image_eqI [where x = "''id''"])
  qed
  ultimately have "env_utf8 v i" unfolding validate_utf8_iff by fastforce
  with old rows show "\<exists>old. map_of (rows (b_db b)) (ns, i) = Some old \<and> e = served_view old \<and> env_utf8 v i
      \<and> map_of (rows (b_db b')) = (map_of (rows (b_db b)))((ns, i) \<mapsto> updated_row (env_sha v) (stamped_updates t us) old)"
    by (simp add: fun_eq_iff)
qed

text \<open>An update that only moves archival fields cannot be refused once its texts encode.\<close>

lemma archival_update_succeeds:
  assumes get: "backend_get v b i ns = Some e" and old: "map_of (rows (b_db b)) (ns, i) = Some old"
    and only: "archival_only old (set_fields old (stamped_updates t us))" and ok: "us \<noteq> []"
    and utf8: "env_utf8 v i" "utf8_texts v (stamped_updates t us)"
  shows "\<exists>b' r. backend_update v t b i ns us = Inr (b', r)"
proof -
  have "refuse_new_violation (Some old) (set_fields old (stamped_updates t us)) = Inr ()"
    using violates_archival [OF only] by (simp add: refuse_new_violation_Inr_iff)
  moreover note updated_texts_valid [OF utf8]
  ultimately show ?thesis using get old ok
    by (simp add: backend_update_def db_update_def db_get_def Let_def)
qed

lemma stamped_archival [simp]:
  "stamped_updates t (close_fields cid close_at u e) = close_fields cid close_at u e"
  by (simp add: stamped_updates_def close_fields_def)


section \<open>The archival loop and its undoing\<close>

abbreviation row_at :: "backend \<Rightarrow> key \<Rightarrow> memory_entry option" where
  "row_at b k \<equiv> map_of (rows (b_db b)) k"

definition served_at :: "env \<Rightarrow> backend \<Rightarrow> memory_entry \<Rightarrow> bool" where
  "served_at v b e \<longleftrightarrow> backend_get v b (eid e) (namespace e) = Some e"

lemma served_atD:
  assumes "served_at v b e"
  obtains old where "row_at b (entry_key e) = Some old" "e = served_view old" "\<not> quarantine_blocks v b old"
  using assms backend_get_SomeD [of v b "eid e" "namespace e" e]
  by (auto simp: served_at_def db_get_def entry_key_def)

lemma blocks_ledger: "b_ledger b' = b_ledger b \<Longrightarrow> quarantine_blocks v b' e = quarantine_blocks v b e"
  by (simp add: quarantine_blocks_def)

lemma get_iff:
  "backend_get v b i ns = (case row_at b (ns, i) of None \<Rightarrow> None
     | Some r \<Rightarrow> if quarantine_blocks v b r then None else Some (served_view r))"
  by (simp add: backend_get_def db_get_def quarantine_admits_def split: option.split)

text \<open>
  From the store \<open>b\<close>, the rows of \<open>D\<close> closed by the archival and those of \<open>U\<close> restored, sync
  bookkeeping aside; every other row as it was.
\<close>

definition closing ::
  "env \<Rightarrow> string \<Rightarrow> int \<Rightarrow> backend \<Rightarrow> key set \<Rightarrow> key set \<Rightarrow> backend \<Rightarrow> bool" where
  "closing v cid close_at b D U b' \<longleftrightarrow>
     b_ledger b' = b_ledger b
     \<and> (\<forall>k \<in> D. env_utf8 v (snd k) \<and> (\<exists>old x. row_at b k = Some old \<and> row_at b' k = Some x
          \<and> (if k \<in> U then sync_only old x else \<exists>t. x = closed_row v cid close_at t old)))
     \<and> (\<forall>k. k \<notin> D \<longrightarrow> row_at b' k = row_at b k)"

lemma closing_start: "closing v cid close_at b {} U b"
  by (simp add: closing_def)

lemma closingD:
  assumes "closing v cid close_at b D U b'"
  shows "b_ledger b' = b_ledger b" "\<And>k. k \<notin> D \<Longrightarrow> row_at b' k = row_at b k"
    "\<And>k. k \<in> D \<Longrightarrow> env_utf8 v (snd k)"
    "\<And>k. k \<in> D \<Longrightarrow> \<exists>old x. row_at b k = Some old \<and> row_at b' k = Some x
       \<and> (if k \<in> U then sync_only old x else \<exists>t. x = closed_row v cid close_at t old)"
  using assms by (auto simp: closing_def)

lemma closing_archive:
  assumes cl: "closing v cid close_at b D {} b1" and k: "entry_key e \<notin> D" and served: "served_at v b e"
    and up: "backend_update v t b1 (eid e) (namespace e) (close_fields cid close_at t e) = Inr (b2, r)"
  shows "closing v cid close_at b (insert (entry_key e) D) {} b2"
proof -
  let ?k = "entry_key e"
  from served obtain old where old: "row_at b ?k = Some old" "e = served_view old" "\<not> quarantine_blocks v b old"
    by (rule served_atD)
  have key: "(namespace e, eid e) = ?k" by (simp add: entry_key_def)
  have r1: "row_at b1 ?k = Some old" using closingD(2) [OF cl k] old(1) by simp
  have "backend_get v b1 (eid e) (namespace e) = Some e"
    by (simp add: get_iff key r1 blocks_ledger [OF closingD(1) [OF cl]] old(3) old(2) [symmetric])
  then obtain old' where "row_at b1 ?k = Some old'" and utf8: "env_utf8 v (eid e)" and
    "map_of (rows (b_db b2)) = (map_of (rows (b_db b1)))(?k \<mapsto> updated_row (env_sha v) (close_fields cid close_at t e) old')"
    using update_writes(3) [OF up] by (auto simp: key close_fields_def [of cid close_at t e])
  moreover have "close_fields cid close_at t e = close_fields cid close_at t old" by (simp add: old(2))
  ultimately have rows: "map_of (rows (b_db b2)) = (map_of (rows (b_db b1)))(?k \<mapsto> closed_row v cid close_at t old)"
    using r1 by (simp add: closed_row_def)
  have led: "b_ledger b2 = b_ledger b1" using update_writes(1) [OF up] by (simp add: close_fields_def)
  have "snd ?k = eid e" by (simp add: entry_key_def)
  with cl led utf8 rows old(1) k show ?thesis unfolding closing_def by auto
qed

lemma archive_closes:
  "closing v cid close_at b D {} b1 \<Longrightarrow> distinct (map entry_key es) \<Longrightarrow> entry_key ` set es \<inter> D = {}
    \<Longrightarrow> \<forall>e \<in> set es. served_at v b e
    \<Longrightarrow> (case archive_each v w cid close_at n es b1 of
           Inr b' \<Rightarrow> closing v cid close_at b (D \<union> entry_key ` set es) {} b'
         | Inl (err, b') \<Rightarrow> \<exists>E \<subseteq> entry_key ` set es. closing v cid close_at b (D \<union> E) {} b')"
proof (induction es arbitrary: n D b1)
  case (Cons e es)
  let ?t = "w_clock w n"
  note prems = Cons.prems
  show ?case
  proof (cases "backend_update v ?t b1 (eid e) (namespace e) (close_fields cid close_at ?t e)")
    case (Inl err)
    with prems(1) show ?thesis by (auto intro!: exI [of _ "{}"])
  next
    case (Inr p)
    then obtain b2 r where up: "backend_update v ?t b1 (eid e) (namespace e) (close_fields cid close_at ?t e) = Inr (b2, r)"
      by (cases p) auto
    from prems have step: "closing v cid close_at b (insert (entry_key e) D) {} b2"
      by (intro closing_archive [OF prems(1) _ _ up]) auto
    with prems Cons.IH [OF step, of "Suc n"] have rest: "case archive_each v w cid close_at (Suc n) es b2 of
           Inr b' \<Rightarrow> closing v cid close_at b (insert (entry_key e) D \<union> entry_key ` set es) {} b'
         | Inl (err, b') \<Rightarrow> \<exists>E \<subseteq> entry_key ` set es. closing v cid close_at b (insert (entry_key e) D \<union> E) {} b'"
      by auto
    have one: "\<exists>E \<subseteq> entry_key ` set (e # es). closing v cid close_at b (D \<union> E) {} b2"
      using step by (intro exI [of _ "{entry_key e}"]) simp
    have none: "\<exists>E \<subseteq> entry_key ` set (e # es). closing v cid close_at b (D \<union> E) {} b1"
      using prems(1) by (intro exI [of _ "{}"]) simp
    show ?thesis
    proof (cases "w_archive_fails w n \<or> r = None")
      case True
      then consider "w_archive_fails w n" | "\<not> w_archive_fails w n" "r = None" by blast
      then show ?thesis by cases (use none one up in simp_all)
    next
      case False
      then have "archive_each v w cid close_at n (e # es) b1 = archive_each v w cid close_at (Suc n) es b2"
        using up by auto
      moreover have "D \<union> entry_key ` set (e # es) = insert (entry_key e) D \<union> entry_key ` set es" by auto
      ultimately show ?thesis
      proof (cases "archive_each v w cid close_at (Suc n) es b2")
        case (Inl q)
        with rest obtain err b' E where "q = (err, b')" "E \<subseteq> entry_key ` set es"
          "closing v cid close_at b (insert (entry_key e) D \<union> E) {} b'" by (cases q) auto
        with \<open>archive_each v w cid close_at n (e # es) b1 = _\<close> Inl show ?thesis
          by (auto intro!: exI [of _ "insert (entry_key e) E"])
      qed (use rest in auto)
    qed
  qed
qed simp


definition open_row :: "string \<Rightarrow> memory_entry \<Rightarrow> bool" where
  "open_row cid r \<longleftrightarrow> consolidated_into r = None \<and> invalidated_by r \<noteq> Some cid
     \<and> (invalid_from r = None) = (invalidated_by r = None)"

lemma undo_of_closed_row:
  assumes "status x = Archived"
  shows "stamped_updates now (undo_fields cid e x) = undo_fields cid e x" "undo_fields cid e x \<noteq> []"
  using assms by (simp_all add: stamped_updates_def undo_fields_def)

lemma closing_restore:
  assumes cl: "closing v cid close_at b D U b2" and k: "entry_key e \<in> D" "entry_key e \<notin> U"
    and served: "served_at v b e" and opened: "\<And>r. row_at b (entry_key e) = Some r \<Longrightarrow> open_row cid r"
  obtains cur b3 r where "backend_get v b2 (eid e) (namespace e) = Some cur" "consolidated_into cur = Some cid"
    "backend_update v now b2 (eid e) (namespace e) (undo_fields cid e cur) = Inr (b3, r)"
    "closing v cid close_at b D (insert (entry_key e) U) b3"
proof -
  let ?k = "entry_key e"
  from served obtain old where old: "row_at b ?k = Some old" "e = served_view old" "\<not> quarantine_blocks v b old"
    by (rule served_atD)
  have key: "(namespace e, eid e) = ?k" "snd ?k = eid e" by (simp_all add: entry_key_def)
  from closingD(4) [OF cl k(1)] k(2) old(1) obtain t where x: "row_at b2 ?k = Some (closed_row v cid close_at t old)" by auto
  define x' where "x' = closed_row v cid close_at t old"
  have "\<not> quarantine_blocks v b2 x'"
    using old(3) blocks_archival [OF archival_rows(1)] blocks_ledger [OF closingD(1) [OF cl]] by (simp add: x'_def)
  then have get: "backend_get v b2 (eid e) (namespace e) = Some (served_view x')" by (simp add: get_iff key x x'_def)
  have undo: "undo_fields cid e (served_view x') = undo_fields cid old x'" by (simp add: old(2))
  have arch: "status x' = Archived" by (simp add: x'_def)
  note stamped = undo_of_closed_row(1) [OF arch, of now cid old] undo_of_closed_row(2) [OF arch, of cid old]
  have "open_row cid old" by (rule opened [OF old(1)])
  then have good: "sync_only old (undone_row v cid old x')"
    and "consolidated_into old = None" "invalidated_by x' = Some cid \<longrightarrow> invalidated_by old = None"
    unfolding x'_def by (auto simp: open_row_def intro!: undo_of_closed)
  then have texts: "utf8_texts v (undo_fields cid old x')" by (auto simp: utf8_texts_def undo_fields_def)
  have "archival_only x' (set_fields x' (undo_fields cid old x'))"
    by (rule archival_fields [OF archival_writes(2) archival_only_refl])
  then obtain b3 r where up: "backend_update v now b2 (eid e) (namespace e) (undo_fields cid old x') = Inr (b3, r)"
    using archival_update_succeeds [OF get, of x' now "undo_fields cid old x'"] x texts closingD(3) [OF cl k(1)]
    by (auto simp: key stamped x'_def [symmetric])
  from update_writes(3) [OF up stamped(2) get] x
  have rows: "map_of (rows (b_db b3)) = (map_of (rows (b_db b2)))(?k \<mapsto> undone_row v cid old x')"
    by (simp add: key stamped undone_row_def x'_def [symmetric])
  have led: "b_ledger b3 = b_ledger b2" by (rule update_writes(1) [OF up stamped(2)])
  have "closing v cid close_at b D (insert ?k U) b3"
    using cl led rows good old(1) k(1) unfolding closing_def by auto
  moreover have "consolidated_into (served_view x') = Some cid" by (simp add: x'_def)
  moreover have "backend_update v now b2 (eid e) (namespace e) (undo_fields cid e (served_view x')) = Inr (b3, r)"
    unfolding undo by (rule up)
  ultimately show ?thesis using that [OF get] by blast
qed

lemma restore_undoes:
  "closing v cid close_at b D U b2 \<Longrightarrow> distinct (map entry_key es) \<Longrightarrow> entry_key ` set es \<inter> U = {}
    \<Longrightarrow> \<forall>e \<in> set es. served_at v b e \<and> (\<forall>r. row_at b (entry_key e) = Some r \<longrightarrow> open_row cid r)
    \<Longrightarrow> \<exists>b3. restore_each v now cid es b2 = Inr b3 \<and> closing v cid close_at b D (U \<union> (entry_key ` set es \<inter> D)) b3"
proof (induction es arbitrary: U b2)
  case (Cons e es)
  note prems = Cons.prems
  show ?case
  proof (cases "entry_key e \<in> D")
    case True
    from prems have new: "entry_key e \<notin> U" and served: "served_at v b e"
      and opened: "\<And>r. row_at b (entry_key e) = Some r \<Longrightarrow> open_row cid r" by auto
    obtain cur b3 r where "backend_get v b2 (eid e) (namespace e) = Some cur" "consolidated_into cur = Some cid"
      "backend_update v now b2 (eid e) (namespace e) (undo_fields cid e cur) = Inr (b3, r)"
      and cl: "closing v cid close_at b D (insert (entry_key e) U) b3"
      by (rule closing_restore [OF prems(1) True new served opened, where now = now])
    then have "restore_each v now cid (e # es) b2 = restore_each v now cid es b3" by simp
    moreover have "U \<union> (entry_key ` set (e # es) \<inter> D) = insert (entry_key e) U \<union> (entry_key ` set es \<inter> D)"
      using True by auto
    ultimately show ?thesis using Cons.IH [OF cl] prems by auto
  next
    case False
    from prems obtain old where old: "row_at b (entry_key e) = Some old" "e = served_view old" "open_row cid old"
      by (auto elim!: served_atD)
    then have "row_at b2 (entry_key e) = Some old" using closingD(2) [OF prems(1) False] by simp
    then have "backend_get v b2 (eid e) (namespace e) \<in> {None, Some e}"
      using old(2) by (simp add: get_iff entry_key_def)
    moreover have "consolidated_into e \<noteq> Some cid" using old by (simp add: open_row_def)
    ultimately have "restore_each v now cid (e # es) b2 = restore_each v now cid es b2" by auto
    moreover have "entry_key ` set (e # es) \<inter> D = entry_key ` set es \<inter> D" using False by auto
    ultimately show ?thesis using Cons.IH [OF prems(1)] prems by auto
  qed
qed simp


section \<open>One cluster's write\<close>

lemma merged_fields_simps [simp]:
  "eid (consolidated_entry w ns ch cs) = w_id w" "namespace (consolidated_entry w ns ch cs) = ns"
  "valid_from (consolidated_entry w ns ch cs) = w_now w" "status (consolidated_entry w ns ch cs) = Active"
  "content (consolidated_entry w ns ch cs) = ch_summary ch" "detail (consolidated_entry w ns ch cs) = ch_detail ch"
  "consolidated_from (consolidated_entry w ns ch cs) = map eid cs" "assertions (consolidated_entry w ns ch cs) = merged_assertions cs"
  "evidence (consolidated_entry w ns ch cs) = uniq (concat (map evidence cs))"
  "importance (consolidated_entry w ns ch cs) = max_from (importance (hd cs)) (map importance (tl cs))"
  "protection_tier (consolidated_entry w ns ch cs) = merged_tier cs"
  by (simp_all add: consolidated_entry_def merged_entry_fields_def Let_def Entry.new_entry_def)

lemma store_rows:
  assumes "backend_store v b e = Inr b'"
  shows "b_ledger b' = b_ledger b"
    "map_of (rows (b_db b')) = (map_of (rows (b_db b)))(entry_key e \<mapsto> stamp_sync (env_sha v) e)"
proof -
  have "entry_key (stamp_sync (env_sha v) e) = entry_key e" by (simp add: stamp_sync_def entry_key_def)
  with assms show "b_ledger b' = b_ledger b"
    "map_of (rows (b_db b')) = (map_of (rows (b_db b)))(entry_key e \<mapsto> stamp_sync (env_sha v) e)"
    by (auto simp: backend_store_def db_store_def bindE_Inr fun_eq_iff)
qed

lemma create_rows:
  assumes "create_consolidated_entry v w em raises ns ch vec cs b = Inr b1"
  shows "b_ledger b1 = b_ledger b"
    "map_of (rows (b_db b1)) = (map_of (rows (b_db b)))((ns, w_id w) \<mapsto> stamp_sync (env_sha v) (consolidated_entry w ns ch cs))"
proof -
  from assms obtain vec' where "(if w_persist_fails w then Inl PersistFailed
      else (case backend_store v b (consolidated_entry w ns ch cs) of
              Inl _ \<Rightarrow> Inl PersistFailed
            | Inr b' \<Rightarrow> Inr (case vec' of None \<Rightarrow> b' | Some x \<Rightarrow> upsert_vector b' (w_id w) ns x))) = Inr b1"
    unfolding create_consolidated_entry_def Let_def bindE_Inr by blast
  then obtain b' where st: "backend_store v b (consolidated_entry w ns ch cs) = Inr b'"
    and b1: "b1 = (case vec' of None \<Rightarrow> b' | Some x \<Rightarrow> upsert_vector b' (w_id w) ns x)"
    by (auto split: if_splits sum.splits)
  have "b_ledger b1 = b_ledger b'" "rows (b_db b1) = rows (b_db b')"
    by (simp_all add: b1 upsert_vector_def split: option.split)
  with store_rows [OF st] show "b_ledger b1 = b_ledger b"
    "map_of (rows (b_db b1)) = (map_of (rows (b_db b)))((ns, w_id w) \<mapsto> stamp_sync (env_sha v) (consolidated_entry w ns ch cs))"
    by (simp_all add: entry_key_def)
qed

lemma delete_rows:
  assumes "backend_delete b i ns = (b', gone)"
  shows "b_ledger b' = b_ledger b" "map_of (rows (b_db b')) = (map_of (rows (b_db b)))((ns, i) := None)"
    "gone \<longleftrightarrow> row_at b (ns, i) \<noteq> None"
  using assms by (auto simp: backend_delete_def db_delete_def Let_def fun_eq_iff split: if_splits prod.splits)

lemma served_cong:
  assumes "served_at v b e" "b_ledger b' = b_ledger b" "row_at b' (entry_key e) = row_at b (entry_key e)"
  shows "served_at v b' e"
proof -
  have "quarantine_blocks v b' = quarantine_blocks v b" using blocks_ledger [OF assms(2)] by blast
  with assms show ?thesis unfolding served_at_def get_iff by (simp add: entry_key_def cong: option.case_cong)
qed

lemma current_rows_served:
  assumes "db_ok (b_db b)"
  shows "length (current_rows v b cluster) \<le> length cluster"
    and "\<not> length (current_rows v b cluster) < length cluster
      \<Longrightarrow> map entry_key (current_rows v b cluster) = map entry_key cluster"
    and "e \<in> set (current_rows v b cluster) \<Longrightarrow> served_at v b e"
proof -
  let ?pick = "\<lambda>e. case backend_get v b (eid e) (namespace e) of None \<Rightarrow> None
       | Some x \<Rightarrow> if revision_of v (Some x) = revision_of v (Some e) then Some x else None"
  have pick: "entry_key x = entry_key e \<and> served_at v b x" if "?pick e = Some x" for e x
  proof -
    from that have get: "backend_get v b (eid e) (namespace e) = Some x" by (auto split: option.splits if_splits)
    then obtain old where "row_at b (namespace e, eid e) = Some old" "x = served_view old"
      by (auto dest: backend_get_SomeD simp: db_get_def)
    with row_key [OF assms] have "entry_key x = entry_key e" by (fastforce simp: entry_key_def)
    with get show ?thesis by (simp add: served_at_def entry_key_def)
  qed
  have eq: "current_rows v b cl = List.map_filter ?pick cl" for cl by (simp add: current_rows_def)
  show len: "length (current_rows v b cluster) \<le> length cluster" for cluster
    by (simp add: eq List.map_filter_def)
  show "map entry_key (current_rows v b cluster) = map entry_key cluster"
    if "\<not> length (current_rows v b cluster) < length cluster"
    using that
  proof (induction cluster)
    case (Cons e es)
    show ?case
    proof (cases "?pick e")
      case None
      then have "current_rows v b (e # es) = current_rows v b es" by (simp add: eq List.map_filter_simps)
      with Cons.prems len [of es] show ?thesis by simp
    next
      case (Some x)
      then have "current_rows v b (e # es) = x # current_rows v b es" by (simp add: eq List.map_filter_simps)
      with Cons pick [OF Some] show ?thesis by simp
    qed
  qed (simp add: eq List.map_filter_simps)
  show "e \<in> set (current_rows v b cluster) \<Longrightarrow> served_at v b e"
    using pick by (auto simp: eq List.map_filter_def)
qed

definition quiet :: "writer \<Rightarrow> bool" where
  "quiet w \<longleftrightarrow> (\<forall>n b. w_other w n b = b)"

definition may_consolidate :: "env \<Rightarrow> writer \<Rightarrow> string \<Rightarrow> memory_entry list \<Rightarrow> backend \<Rightarrow> bool" where
  "may_consolidate v w ns cluster b \<longleftrightarrow>
     db_ok (b_db b) \<and> distinct (map entry_key cluster) \<and> row_at b (ns, w_id w) = None
     \<and> (\<forall>e \<in> set cluster. \<forall>r. row_at b (entry_key e) = Some r \<longrightarrow> open_row (w_id w) r)"

text \<open>What the creation leaves for the archival: the originals as they were, beside the new row.\<close>

lemma created_store:
  assumes may: "may_consolidate v w ns cluster b" and all: "\<not> length (current_rows v b cluster) < length cluster"
    and new: "create_consolidated_entry v w em raises ns ch vec (current_rows v b cluster) b = Inr b1"
  shows "distinct (map entry_key (current_rows v b cluster))"
    "entry_key ` set (current_rows v b cluster) = entry_key ` set cluster" "(ns, w_id w) \<notin> entry_key ` set cluster"
    "\<forall>e \<in> set (current_rows v b cluster). served_at v b1 e \<and> (\<forall>r. row_at b1 (entry_key e) = Some r \<longrightarrow> open_row (w_id w) r)"
proof -
  let ?cs = "current_rows v b cluster"
  from may have ok: "db_ok (b_db b)" and fresh: "row_at b (ns, w_id w) = None"
    and opened: "\<forall>e \<in> set cluster. \<forall>r. row_at b (entry_key e) = Some r \<longrightarrow> open_row (w_id w) r"
    and dist: "distinct (map entry_key cluster)" by (auto simp: may_consolidate_def)
  note keys = current_rows_served(2) [OF ok all]
  show "distinct (map entry_key ?cs)" using dist by (simp add: keys)
  show same: "entry_key ` set ?cs = entry_key ` set cluster" using arg_cong [OF keys, of set] by simp
  have served: "served_at v b e" if "e \<in> set ?cs" for e using that by (rule current_rows_served(3) [OF ok])
  have other: "entry_key e \<noteq> (ns, w_id w)" if "e \<in> set ?cs" for e
    using served [OF that] fresh by (auto elim!: served_atD)
  then show "(ns, w_id w) \<notin> entry_key ` set cluster" unfolding same [symmetric] by force
  show "\<forall>e \<in> set ?cs. served_at v b1 e \<and> (\<forall>r. row_at b1 (entry_key e) = Some r \<longrightarrow> open_row (w_id w) r)"
  proof
    fix e assume e: "e \<in> set ?cs"
    then have row: "row_at b1 (entry_key e) = row_at b (entry_key e)" using other create_rows(2) [OF new] by simp
    from e same obtain e' where "e' \<in> set cluster" "entry_key e = entry_key e'" by (metis imageE imageI)
    with opened have "\<forall>r. row_at b (entry_key e) = Some r \<longrightarrow> open_row (w_id w) r" by simp
    with served_cong [OF served [OF e] create_rows(1) [OF new] row]
    show "served_at v b1 e \<and> (\<forall>r. row_at b1 (entry_key e) = Some r \<longrightarrow> open_row (w_id w) r)" by (simp add: row)
  qed
qed


lemma archived_store:
  assumes may: "may_consolidate v w ns cluster b" and all: "\<not> length (current_rows v b cluster) < length cluster"
    and new: "create_consolidated_entry v w em raises ns ch vec (current_rows v b cluster) b = Inr b1"
  shows "case archive_each v w (w_id w) (w_now w) 0 (current_rows v b cluster) b1 of
      Inr b2 \<Rightarrow> closing v (w_id w) (w_now w) b1 (entry_key ` set cluster) {} b2
    | Inl (err, b2) \<Rightarrow> \<exists>E \<subseteq> entry_key ` set cluster. closing v (w_id w) (w_now w) b1 E {} b2"
proof -
  note store = created_store [OF may all new]
  have "case archive_each v w (w_id w) (w_now w) 0 (current_rows v b cluster) b1 of
      Inr b' \<Rightarrow> closing v (w_id w) (w_now w) b1 ({} \<union> entry_key ` set (current_rows v b cluster)) {} b'
    | Inl (err, b') \<Rightarrow> \<exists>E \<subseteq> entry_key ` set (current_rows v b cluster). closing v (w_id w) (w_now w) b1 ({} \<union> E) {} b'"
    by (rule archive_closes [OF closing_start store(1)]) (use store(4) in auto)
  then show ?thesis by (simp only: Un_empty_left store(2))
qed

lemma rolled_back_store:
  assumes may: "may_consolidate v w ns cluster b" and all: "\<not> length (current_rows v b cluster) < length cluster"
    and new: "create_consolidated_entry v w em raises ns ch vec (current_rows v b cluster) b = Inr b1"
    and alone: "quiet w" and D: "D \<subseteq> entry_key ` set cluster" "closing v (w_id w) (w_now w) b1 D {} b2"
  obtains b4 where "rollback_consolidation v w ns (current_rows v b cluster) b2 = Inr b4"
    "row_at b4 (ns, w_id w) = None"
    "\<And>k. k \<noteq> (ns, w_id w) \<Longrightarrow> row_at b k = None \<Longrightarrow> row_at b4 k = None"
    "\<And>k r. k \<noteq> (ns, w_id w) \<Longrightarrow> row_at b k = Some r \<Longrightarrow> \<exists>x. row_at b4 k = Some x \<and> sync_only r x \<and> (D = {} \<longrightarrow> x = r)"
proof -
  let ?cs = "current_rows v b cluster" and ?new = "(ns, w_id w)" and ?K = "entry_key ` set cluster"
  note rows1 = create_rows [OF new] and store = created_store [OF may all new]
  have "\<exists>b3. restore_each v (w_now w) (w_id w) ?cs b2 = Inr b3
      \<and> closing v (w_id w) (w_now w) b1 D ({} \<union> (entry_key ` set ?cs \<inter> D)) b3"
    by (rule restore_undoes [OF _ store(1)]) (use D store(4) in simp_all)
  then obtain b3 where res: "restore_each v (w_now w) (w_id w) ?cs b2 = Inr b3"
    and cl: "closing v (w_id w) (w_now w) b1 D (?K \<inter> D) b3" unfolding store(2) Un_empty_left by blast
  obtain b4 gone where del: "backend_delete b3 (w_id w) ns = (b4, gone)" by (cases "backend_delete b3 (w_id w) ns")
  have "?new \<notin> D" using D(1) store(3) by blast
  then have gone: "gone" using delete_rows(3) [OF del] closingD(2) [OF cl, of ?new] rows1(2) by simp
  show ?thesis
  proof (rule that)
    show "rollback_consolidation v w ns ?cs b2 = Inr b4"
      using alone res del gone
      by (simp add: rollback_consolidation_def restore_originals_def transacted_def quiet_def)
    show "row_at b4 ?new = None" by (simp add: delete_rows(2) [OF del])
    fix k assume k: "k \<noteq> ?new"
    then have same: "row_at b4 k = row_at b3 k" "row_at b1 k = row_at b k"
      using rows1(2) by (simp_all add: delete_rows(2) [OF del])
    show "row_at b k = None \<Longrightarrow> row_at b4 k = None"
      using same closingD(2,4) [OF cl, of k] by (cases "k \<in> D") auto
    show "\<exists>x. row_at b4 k = Some x \<and> sync_only r x \<and> (D = {} \<longrightarrow> x = r)" if "row_at b k = Some r" for r
      using that same D(1) closingD(2,4) [OF cl, of k] by (cases "k \<in> D") auto
  qed
qed



section \<open>What the consolidated entry carries\<close>

text \<open>The merges of dedup, absorbing one entry at a time.\<close>

interpretation tiers: absorption "\<lambda>t e. stronger tier_rank t e" "\<lambda>s x. tier_rank x \<le> tier_rank s"
  by unfold_locales (auto simp: stronger_def)

interpretation claims: absorption union_assertions "\<lambda>s x. assertion_key ` set x \<subseteq> assertion_key ` set s"
  by unfold_locales (auto simp: union_assertions_keys)

lemma unjudged_simps [simp]: "assertion_key (unjudged a) = assertion_key a" "a_last_result (unjudged a) = None"
  by (simp_all add: unjudged_def assertion_key_def)

lemma consolidated_holds:
  assumes "e \<in> set cs"
  shows "set (evidence e) \<subseteq> set (evidence (consolidated_entry w ns ch cs))"
    "assertion_key ` set (assertions e) \<subseteq> assertion_key ` set (assertions (consolidated_entry w ns ch cs))"
    "importance e \<le> importance (consolidated_entry w ns ch cs)"
    "tier_rank (protection_tier e) \<le> tier_rank (protection_tier (consolidated_entry w ns ch cs))"
proof -
  from assms obtain c rest where cs: "cs = c # rest" by (cases cs) auto
  show "set (evidence e) \<subseteq> set (evidence (consolidated_entry w ns ch cs))" using assms by auto
  have "importance e \<in> set (importance c # map importance rest)" using assms cs by auto
  then show "importance e \<le> importance (consolidated_entry w ns ch cs)"
    using max_from_le_iff [of "importance c" "map importance rest" "max_from (importance c) (map importance rest)"]
    by (auto simp: cs)
  have "protection_tier e \<in> set (protection_tier c # map protection_tier rest)" using assms cs by auto
  then show "tier_rank (protection_tier e) \<le> tier_rank (protection_tier (consolidated_entry w ns ch cs))"
    using tiers.fold_takes [of "protection_tier e" "protection_tier c" "map protection_tier rest"]
    by (simp add: cs merged_tier_def foldl_map)
  have "assertions e \<in> set (assertions c # map assertions rest)" using assms cs by auto
  then show "assertion_key ` set (assertions e) \<subseteq> assertion_key ` set (assertions (consolidated_entry w ns ch cs))"
    using claims.fold_takes [of "assertions e" "assertions c" "map assertions rest"]
    by (simp add: cs merged_assertions_def image_image foldl_map)
qed

lemma stamped_simps [simp]:
  "eid (stamp_sync sha e) = eid e" "status (stamp_sync sha e) = status e" "valid_from (stamp_sync sha e) = valid_from e"
  "consolidated_from (stamp_sync sha e) = consolidated_from e" "evidence (stamp_sync sha e) = evidence e"
  "assertions (stamp_sync sha e) = assertions e" "importance (stamp_sync sha e) = importance e"
  "protection_tier (stamp_sync sha e) = protection_tier e"
  by (simp_all add: stamp_sync_def)

lemma served_kept [simp]:
  "evidence (served_view e) = evidence e" "assertions (served_view e) = assertions e"
  "importance (served_view e) = importance e" "protection_tier (served_view e) = protection_tier e"
  by (simp_all add: served_view_def)

lemma written_store:
  assumes may: "may_consolidate v w ns cluster b" and alone: "quiet w"
    and run: "write_cluster v w em raises ns ch vec cluster b = (b', Written)"
  obtains b1 where "map entry_key (current_rows v b cluster) = map entry_key cluster"
    "create_consolidated_entry v w em raises ns ch vec (current_rows v b cluster) b = Inr b1"
    "closing v (w_id w) (w_now w) b1 (entry_key ` set cluster) {} b'" "(ns, w_id w) \<notin> entry_key ` set cluster"
proof -
  let ?cs = "current_rows v b cluster"
  from run have all: "\<not> length ?cs < length cluster" by (auto simp: write_cluster_def Let_def)
  from run all obtain b1 where new: "create_consolidated_entry v w em raises ns ch vec ?cs b = Inr b1"
    by (cases "create_consolidated_entry v w em raises ns ch vec ?cs b") (auto simp: write_cluster_def Let_def)
  have "archive_each v w (w_id w) (w_now w) 0 ?cs b1 = Inr b'"
    using run all new alone
    by (cases "archive_each v w (w_id w) (w_now w) 0 ?cs b1")
      (auto simp: write_cluster_def Let_def quiet_def archive_originals_def transacted_def split: sum.splits)
  with archived_store [OF may all new] have cl: "closing v (w_id w) (w_now w) b1 (entry_key ` set cluster) {} b'" by simp
  have "db_ok (b_db b)" using may by (simp add: may_consolidate_def)
  from that [OF current_rows_served(2) [OF this all] new cl created_store(3) [OF may all new]] show ?thesis .
qed



section \<open>Concrete clusters\<close>

definition note_pair :: "memory_entry list" where
  "note_pair = [row_of (''project:b'', ''M-1''), row_of (''project:b'', ''M-2'')]"

definition pair_store :: backend where
  "pair_store = held_store [(''project:b'', ''M-1''), (''project:b'', ''M-2'')]"

definition pair_writer :: "(nat \<Rightarrow> bool) \<Rightarrow> bool \<Rightarrow> writer" where
  "pair_writer stops atomic = \<lparr>w_id = ''M-9'', w_now = 50, w_node = ''n'', w_clock = (\<lambda>n. 51 + int n),
     w_other = (\<lambda>_ b. b), w_persist_fails = False, w_archive_fails = stops, w_atomic = atomic, w_vectors = False\<rparr>"

definition pair_write :: "(nat \<Rightarrow> bool) \<Rightarrow> bool \<Rightarrow> backend \<times> write_outcome" where
  "pair_write stops atomic = write_cluster plain_env (pair_writer stops atomic) None (\<lambda>_. False) ''project:b''
     (summarize_cluster_fallback note_pair) None note_pair pair_store"

lemma pair_writer_simps [simp]: "quiet (pair_writer stops atomic)" "w_id (pair_writer stops atomic) = ''M-9''"
  by (simp_all add: pair_writer_def quiet_def)

lemma held_store_ok: "db_ok (b_db (held_store ks))"
  by (simp add: held_store_def foldl_write_row_ok db_ok_empty)

lemma pair_rows: "row_at pair_store k = (if k = (''project:b'', ''M-1'') \<or> k = (''project:b'', ''M-2'') then Some (row_of k) else None)"
  by (auto simp: pair_store_def)

lemma pair_may: "may_consolidate plain_env (pair_writer stops atomic) ''project:b'' note_pair pair_store"
proof -
  have "open_row ''M-9'' (row_of k)" for k
    by (simp add: open_row_def row_of_def stamp_sync_def Entry.new_entry_def)
  moreover have "db_ok (b_db pair_store)" unfolding pair_store_def by (rule held_store_ok)
  ultimately show ?thesis by (simp add: may_consolidate_def pair_rows note_pair_def)
qed



section \<open>Where the archival departs from its own rules\<close>

text \<open>The archival never compares the closing instant with \<open>valid_from\<close>, and the result is no valid entry.\<close>

lemma archival_can_invert_a_window:
  assumes "invalid_from r = None" "close_at < valid_from r"
  shows "validate_validity_window (closed_row v cid close_at t r) = Inl WindowInverted"
proof -
  have "valid_from (closed_row v cid close_at t r) = valid_from r"
    using archival_rows(1) [of r v cid close_at t] by (auto simp: archival_only_def)
  with assms show ?thesis by (simp add: validate_validity_window_def)
qed

end
