(* ===== verification/ConsolidationCycle.thy ===== *)
theory ConsolidationCycle
  imports ConsolidationSafe
begin

text \<open>
  The whole cycle, and the rollback, beside other writers: what they may never touch whatever else is
  committed to the store in between.
\<close>

section \<open>Steps that leave a row alone\<close>

text \<open>
  A step spares the keys outside \<open>K\<close>: their rows stay as they are, and every row is still stored under
  its own identity.
\<close>

definition keyed_rows :: "backend \<Rightarrow> bool" where
  "keyed_rows b \<longleftrightarrow> (\<forall>k e. row_at b k = Some e \<longrightarrow> entry_key e = k)"

definition spares :: "key set \<Rightarrow> backend \<Rightarrow> backend \<Rightarrow> bool" where
  "spares K b b' \<longleftrightarrow> (\<forall>k. k \<notin> K \<longrightarrow> row_at b' k = row_at b k) \<and> (keyed_rows b \<longrightarrow> keyed_rows b')"

lemma spares_refl [simp]: "spares K b b"
  by (simp add: spares_def)

lemma sparesD: "spares K b b' \<Longrightarrow> k \<notin> K \<Longrightarrow> row_at b' k = row_at b k"
  unfolding spares_def by blast

lemma spares_trans: "spares K b b1 \<Longrightarrow> spares K b1 b2 \<Longrightarrow> spares K b b2"
  by (simp add: spares_def)

lemma spares_mono: "spares K b b' \<Longrightarrow> K \<subseteq> L \<Longrightarrow> spares L b b'"
  by (auto simp: spares_def)

definition left_in :: "('e \<times> backend, backend) result \<Rightarrow> backend" where
  "left_in r = (case r of Inr b \<Rightarrow> b | Inl (_, b) \<Rightarrow> b)"

lemma left_in_simps [simp]: "left_in (Inr b) = b" "left_in (Inl (e, b)) = b"
  by (simp_all add: left_in_def)

lemma spares_transacted: "spares K b (left_in r) \<Longrightarrow> spares K b (left_in (transacted atomic b r))"
  by (cases r) (auto simp: transacted_def)

lemma spares_update:
  assumes "backend_update v t b i ns us = Inr (b', r)" "(ns, i) \<in> K"
  shows "spares K b b'"
proof -
  have "row_at b' k = row_at b k" if "k \<notin> K" for k
    using backend_update_keeps(2) [OF assms(1), of k] that assms(2) by metis
  moreover have "keyed_rows b'" if "keyed_rows b"
    unfolding keyed_rows_def
  proof (intro allI impI)
    fix k e assume e: "row_at b' k = Some e"
    show "entry_key e = k"
    proof (cases "k = (ns, i)")
      case True
      from backend_update_row(1) [OF assms(1)] that e True show ?thesis
        by (auto simp: keyed_rows_def db_get_def entry_key_def)
    next
      case False
      with backend_update_keeps(2) [OF assms(1) False] e have "row_at b k = Some e" by simp
      with that show ?thesis by (cases k) (simp add: keyed_rows_def)
    qed
  qed
  ultimately show ?thesis by (simp add: spares_def)
qed

lemma spares_delete: "backend_delete b i ns = (b', gone) \<Longrightarrow> (ns, i) \<in> K \<Longrightarrow> spares K b b'"
  using delete_rows(2) by (auto simp: spares_def keyed_rows_def fun_upd_def split: if_splits)

lemma spares_create:
  assumes "create_consolidated_entry v w em raises ns ch vec cs b = Inr b'" "(ns, w_id w) \<in> K"
  shows "spares K b b'"
proof -
  have "entry_key (stamp_sync (env_sha v) (consolidated_entry w ns ch cs)) = (ns, w_id w)"
    by (simp add: entry_key_def stamp_sync_def)
  with create_rows(2) [OF assms(1)] assms(2) show ?thesis by (auto simp: spares_def keyed_rows_def)
qed

lemma spares_archive:
  "entry_key ` set es \<subseteq> K \<Longrightarrow> spares K b (left_in (archive_each v w cid close_at n es b))"
proof (induction es arbitrary: n b)
  case (Cons e es)
  show ?case
  proof (cases "backend_update v (w_clock w n) b (eid e) (namespace e) (close_fields cid close_at (w_clock w n) e)")
    case (Inr p)
    obtain b' r where p: "p = (b', r)" by (cases p)
    have step: "spares K b b'" using Cons.prems by (intro spares_update [OF Inr [unfolded p]]) (auto simp: entry_key_def)
    have "spares K b' (left_in (archive_each v w cid close_at (Suc n) es b'))" by (rule Cons.IH) (use Cons.prems in simp)
    with step Inr p show ?thesis by (auto intro: spares_trans split: option.split)
  qed simp
qed simp

lemma spares_restore:
  "entry_key ` set es \<subseteq> K \<Longrightarrow> spares K b (left_in (restore_each v now cid es b))"
proof (induction es arbitrary: b)
  case (Cons e es)
  have rest: "spares K b' (left_in (restore_each v now cid es b'))" for b' by (rule Cons.IH) (use Cons.prems in simp)
  show ?case
  proof (cases "backend_get v b (eid e) (namespace e)")
    case (Some cur)
    show ?thesis
    proof (cases "backend_update v now b (eid e) (namespace e) (undo_fields cid e cur)")
      case (Inr p)
      obtain b' r where p: "p = (b', r)" by (cases p)
      have step: "spares K b b'" using Cons.prems by (intro spares_update [OF Inr [unfolded p]]) (auto simp: entry_key_def)
      with rest Some Inr p show ?thesis by (auto intro: spares_trans)
    qed (use Some rest in simp)
  qed (use rest in simp)
qed simp

definition respectful :: "key set \<Rightarrow> writer \<Rightarrow> bool" where
  "respectful K w \<longleftrightarrow> (\<forall>n b. spares K b (w_other w n b))"

lemma spares_rollback:
  assumes "entry_key ` set cs \<subseteq> K" "(ns, w_id w) \<in> K" "respectful K w"
  shows "spares K b (left_in (rollback_consolidation v w ns cs b))"
proof -
  have res: "spares K b (left_in (restore_originals v w (w_id w) cs b))"
    unfolding restore_originals_def by (rule spares_transacted [OF spares_restore [OF assms(1)]])
  show ?thesis
  proof (cases "restore_originals v w (w_id w) cs b")
    case (Inl p)
    with res show ?thesis by (cases p) (simp add: rollback_consolidation_def)
  next
    case (Inr b1)
    obtain b2 gone where del: "backend_delete (w_other w 2 b1) (w_id w) ns = (b2, gone)" by (metis surj_pair)
    have "spares K b b2"
      using res Inr assms(3) spares_delete [OF del assms(2)] unfolding respectful_def left_in_simps Inr
      by (blast intro: spares_trans)
    with Inr del show ?thesis by (simp add: rollback_consolidation_def)
  qed
qed

lemma spares_write_cluster:
  assumes "keyed_rows b" "entry_key ` set cluster \<subseteq> K" "(ns, w_id w) \<in> K" "respectful K w"
  shows "spares K b (fst (write_cluster v w em raises ns ch vec cluster b))"
proof -
  let ?cs = "current_rows v b cluster"
  have keys: "entry_key ` set ?cs \<subseteq> K"
  proof
    fix k assume "k \<in> entry_key ` set ?cs"
    then obtain e x where e: "e \<in> set cluster" "backend_get v b (eid e) (namespace e) = Some x" "k = entry_key x"
      by (auto simp: current_rows_def List.map_filter_def split: option.splits if_splits)
    then obtain old where "row_at b (namespace e, eid e) = Some old" "x = served_view old"
      by (auto dest: backend_get_SomeD simp: db_get_def)
    with assms(1) e(3) have "k = (namespace e, eid e)" by (fastforce simp: keyed_rows_def entry_key_def)
    with e(1) assms(2) show "k \<in> K" by (auto simp: entry_key_def)
  qed
  show ?thesis
  proof (cases "create_consolidated_entry v w em raises ns ch vec ?cs b")
    case (Inr b1)
    have b1: "spares K b (w_other w 0 b1)"
      using spares_create [OF Inr assms(3)] assms(4) by (auto simp: respectful_def intro: spares_trans)
    have arch: "spares K b (left_in (archive_originals v w (w_id w) (w_now w) ?cs (w_other w 0 b1)))"
      unfolding archive_originals_def by (rule spares_trans [OF b1 spares_transacted [OF spares_archive [OF keys]]])
    show ?thesis
    proof (cases "archive_originals v w (w_id w) (w_now w) ?cs (w_other w 0 b1)")
      case (Inl p)
      obtain err b2 where p: "p = (err, b2)" by (cases p)
      have "spares K b (w_other w 1 b2)" using arch Inl p assms(4) by (auto simp: respectful_def intro: spares_trans)
      then have "spares K b (left_in (rollback_consolidation v w ns ?cs (w_other w 1 b2)))"
        by (rule spares_trans [OF _ spares_rollback [OF keys assms(3,4)]])
      with Inr Inl p show ?thesis
        by (cases "rollback_consolidation v w ns ?cs (w_other w 1 b2)") (auto simp: write_cluster_def Let_def)
    qed (use Inr arch in \<open>simp add: write_cluster_def Let_def\<close>)
  qed (simp add: write_cluster_def Let_def)
qed

lemma spares_write_clusters:
  "keyed_rows b \<Longrightarrow> \<forall>c \<in> set clusters. entry_key ` set c \<subseteq> K \<Longrightarrow> \<forall>n. (ns, w_id (ws n)) \<in> K \<and> respectful K (ws n)
    \<Longrightarrow> spares K b (fst (write_clusters v ws em raises ns n clusters b))"
proof (induction clusters arbitrary: n b)
  case (Cons c clusters)
  have rest: "keyed_rows b' \<Longrightarrow> spares K b' (fst (write_clusters v ws em raises ns (Suc n) clusters b'))" for b'
    by (rule Cons.IH) (use Cons.prems in simp_all)
  let ?ch = "summarize_cluster_fallback c"
  show ?case
  proof (cases "entry_vector em raises (w_vectors (ws n)) (ch_summary ?ch @ '' '' @ ch_detail ?ch)")
    case (Inl err)
    with rest [OF Cons.prems(1)] show ?thesis by (simp add: Let_def case_prod_unfold)
  next
    case (Inr vec)
    obtain b1 out where w: "write_cluster v (ws n) em raises ns ?ch vec c b = (b1, out)" by (metis surj_pair)
    have "spares K b (fst (write_cluster v (ws n) em raises ns ?ch vec c b))"
      by (rule spares_write_cluster) (use Cons.prems in auto)
    then have one: "spares K b b1" by (simp add: w)
    then have "keyed_rows b1" using Cons.prems(1) by (simp add: spares_def)
    with one have "spares K b (fst (write_clusters v ws em raises ns (Suc n) clusters b1))"
      by (blast intro: spares_trans rest)
    with one rest [OF Cons.prems(1)] Inr w show ?thesis
      by (cases out) (simp_all add: Let_def case_prod_unfold)
  qed
qed simp

section \<open>A cycle touches only rows that may join a cluster\<close>

text \<open>What a stored row must be to join a cluster of a cycle over the namespace \<open>ns\<close> (\<open>None\<close>: all).\<close>

definition may_join :: "env \<Rightarrow> cluster_rules \<Rightarrow> string option \<Rightarrow> backend \<Rightarrow> memory_entry \<Rightarrow> bool" where
  "may_join v cr ns b r \<longleftrightarrow>
     status r = Active \<and> (ns = None \<or> ns = Some (namespace r)) \<and> \<not> quarantine_blocks v b r
     \<and> src r \<noteq> SrcConsolidated \<and> consolidated_into r = None
     \<and> protection_tier r \<notin> {TierProtected, TierPermanent}
     \<and> map_of (metadata r) ''system_canary'' \<noteq> Some ''true''
     \<and> cr_label cr (served_view r) \<le> dict_get (po_clearance (cr_policy cr)) PlatformSink Public"

lemma exempt_tiers: "is_removal_exempt ufold (Some (tier_value t)) \<longleftrightarrow> t \<in> {TierProtected, TierPermanent}"
  by (cases t; hypsubst; code_simp)

lemma active_rows_stored:
  assumes "e \<in> set (active_rows v ct ns limit b)"
  obtains r where "r \<in> set (map snd (rows (b_db b)))" "e = served_view r" "listed (active_query ns) r" "\<not> quarantine_blocks v b r"
proof -
  have "active_rows v ct ns limit b = take limit (temporal_order ct None
      (filter (\<lambda>e. \<not> quarantine_blocks v b e \<and> passes None e) (listing (active_query ns) (b_db b))))"
    unfolding active_rows_def list_entries_def using listed_read.limited_exact by simp
  with assms have "e \<in> set (filter (\<lambda>e. \<not> quarantine_blocks v b e) (listing (active_query ns) (b_db b)))"
    by (auto simp: temporal_order_def dest: in_set_takeD)
  then have "e \<in> served_view ` {r \<in> snd ` set (rows (b_db b)). listed (active_query ns) r \<and> \<not> quarantine_blocks v b r}"
    by (auto simp: listing_def)
  then obtain r where "r \<in> snd ` set (rows (b_db b))" "listed (active_query ns) r" "\<not> quarantine_blocks v b r"
    "e = served_view r" by blast
  then show ?thesis by (intro that [of r]) simp_all
qed

lemma eligible_may_join:
  assumes "e \<in> set (eligible_rows cr (active_rows v ct ns limit b))"
  obtains r where "r \<in> set (map snd (rows (b_db b)))" "e = served_view r" "may_join v cr ns b r"
proof -
  from assms have e: "e \<in> set (active_rows v ct ns limit b)" "joins_clusters (cr_ufold cr) e"
    "cr_label cr e \<le> dict_get (po_clearance (cr_policy cr)) PlatformSink Public"
    by (auto simp: eligible_rows_def admit_def Let_def)
  from e(1) obtain r where r: "r \<in> set (map snd (rows (b_db b)))" "e = served_view r" "listed (active_query ns) r"
    "\<not> quarantine_blocks v b r" by (rule active_rows_stored)
  have "map_of (metadata (served_view r)) ''system_canary'' = map_of (metadata r) ''system_canary''"
    by (simp add: served_view_def demoted_key_def)
  with r e(2,3) have "may_join v cr ns b r"
    by (auto simp: may_join_def joins_clusters_def exempt_tiers listed_def active_query_def served_view_def split: if_splits)
  with r that show ?thesis by blast
qed


lemma clusters_from_items: "c \<in> set (complete_linkage_cluster f items t m) \<Longrightarrow> e \<in> set c \<Longrightarrow>
    length (linked_ids (near f t items) (length items)) = length items \<Longrightarrow> e \<in> fst ` set items"
  by (auto simp: complete_linkage_cluster_def collect_clusters_def members_of_simps)

lemma found_may_join:
  assumes "find_clusters v ct cr em t m limit ns b = Inr clusters" "c \<in> set clusters" "e \<in> set c"
  shows "e \<in> set (eligible_rows cr (active_rows v ct ns limit b))"
proof -
  from assms obtain x where "em = Some x" by (auto simp: find_clusters_def split: option.splits)
  with assms have "clusters \<noteq> []" "clusters = [] \<or> clusters = complete_linkage_cluster cosine_similarity
      (embedded (eligible_rows cr (active_rows v ct ns limit b))
        (em_batch x (map entry_text (eligible_rows cr (active_rows v ct ns limit b)))))
      (of_rat (calibrated_threshold t (em_model x))) m"
    by (auto simp: find_clusters_def Let_def split: if_splits)
  with assms(2,3) have "e \<in> fst ` set (embedded (eligible_rows cr (active_rows v ct ns limit b))
        (em_batch x (map entry_text (eligible_rows cr (active_rows v ct ns limit b)))))"
    by (auto intro: clusters_from_items cosine_linkage.length_linked_ids)
  then show ?thesis by (auto simp: embedded_def List.map_filter_def dest: set_zip_leftD)
qed


section \<open>A rollback beside other writers\<close>

definition rolled :: "string \<Rightarrow> memory_entry \<Rightarrow> memory_entry \<Rightarrow> bool" where
  "rolled cid r x \<longleftrightarrow> archival_only r x \<and> (consolidated_into r \<noteq> Some cid \<longrightarrow> x = r)
     \<and> (status r \<noteq> Archived \<longrightarrow> status x = status r)
     \<and> (invalidated_by r \<noteq> Some cid \<longrightarrow> invalid_from x = invalid_from r \<and> invalidated_by x = invalidated_by r)"

lemma rolled_refl [simp]: "rolled cid r r"
  by (simp add: rolled_def)

lemma rolled_undo:
  assumes "consolidated_into r = Some cid"
  shows "rolled cid r (updated_row sha (stamped_updates now (undo_fields cid e r)) r)"
proof -
  have "field_name ` set (stamped_updates now (undo_fields cid e r))
      \<subseteq> {''status'', ''invalid_from'', ''invalidated_by'', ''consolidated_into'', ''updated_at''}"
    using archival_writes(2) [of cid e r] by (auto simp: stamped_updates_def)
  then have "archival_only r (updated_row sha (stamped_updates now (undo_fields cid e r)) r)"
    by (intro archival_updated archival_fields archival_only_refl)
  moreover have "status r \<noteq> Archived \<Longrightarrow> status (updated_row sha (stamped_updates now (undo_fields cid e r)) r) = status r"
    by (simp add: stamped_updates_def undo_fields_def)
  moreover have "invalidated_by r \<noteq> Some cid \<Longrightarrow>
      invalid_from (updated_row sha (stamped_updates now (undo_fields cid e r)) r) = invalid_from r
      \<and> invalidated_by (updated_row sha (stamped_updates now (undo_fields cid e r)) r) = invalidated_by r"
    by (simp add: stamped_updates_def undo_fields_def updated_row_def Let_def)
  ultimately show ?thesis using assms by (simp add: rolled_def)
qed

lemma restore_rolls:
  "distinct (map entry_key es) \<Longrightarrow> k \<in> entry_key ` set es \<Longrightarrow>
    (case row_at b k of None \<Rightarrow> row_at (left_in (restore_each v now cid es b)) k = None
     | Some r \<Rightarrow> \<exists>x. row_at (left_in (restore_each v now cid es b)) k = Some x \<and> rolled cid r x)"
proof (induction es arbitrary: b)
  case (Cons e es)
  let ?goal = "\<lambda>b'. case row_at b k of None \<Rightarrow> row_at b' k = None | Some r \<Rightarrow> \<exists>x. row_at b' k = Some x \<and> rolled cid r x"
  have tail: "?goal (left_in (restore_each v now cid es b'))"
    if "?goal b'" "entry_key e \<noteq> k \<Longrightarrow> row_at b' k = row_at b k" for b'
  proof (cases "entry_key e = k")
    case True
    then have "k \<notin> entry_key ` set es" using Cons.prems(1) by auto
    then have "row_at (left_in (restore_each v now cid es b')) k = row_at b' k"
      by (rule sparesD [OF spares_restore [OF order_refl]])
    with that(1) show ?thesis by (simp cong: option.case_cong)
  next
    case False
    with that(2) Cons.IH [of b'] Cons.prems show ?thesis by simp
  qed
  have same: "?goal b" by (simp split: option.split)
  show ?case
  proof (cases "\<exists>cur. backend_get v b (eid e) (namespace e) = Some cur \<and> consolidated_into cur = Some cid")
    case False
    then have skip: "restore_each v now cid (e # es) b = restore_each v now cid es b" by (auto split: option.split)
    show ?thesis unfolding skip by (rule tail [OF same]) (rule refl)
  next
    case True
    then obtain cur where cur: "backend_get v b (eid e) (namespace e) = Some cur" "consolidated_into cur = Some cid" by blast
    show ?thesis
    proof (cases "backend_update v now b (eid e) (namespace e) (undo_fields cid e cur)")
      case (Inl err)
      with cur have "left_in (restore_each v now cid (e # es) b) = b" by simp
      with same show ?thesis by (simp cong: option.case_cong)
    next
      case (Inr p)
      then obtain b' r where up: "backend_update v now b (eid e) (namespace e) (undo_fields cid e cur) = Inr (b', r)" by (cases p) auto
      have "undo_fields cid e cur \<noteq> []" using cur(2) by (simp add: undo_fields_def)
      from update_writes(3) [OF up this cur(1)] obtain old where old: "row_at b (entry_key e) = Some old" "cur = served_view old"
        "map_of (rows (b_db b')) = (map_of (rows (b_db b)))(entry_key e \<mapsto> updated_row (env_sha v) (stamped_updates now (undo_fields cid e cur)) old)"
        by (auto simp: entry_key_def)
      have "rolled cid old (updated_row (env_sha v) (stamped_updates now (undo_fields cid e old)) old)"
        by (rule rolled_undo) (use cur(2) old(2) in simp)
      with old have "?goal b'" by (cases "entry_key e = k") (auto split: option.split)
      then have "?goal (left_in (restore_each v now cid es b'))" by (rule tail) (simp add: old(3))
      moreover have step: "restore_each v now cid (e # es) b = restore_each v now cid es b'" using cur up by simp
      ultimately show ?thesis unfolding step by simp
    qed
  qed
qed simp



section \<open>Concrete cycles\<close>

definition kept_row :: memory_entry where
  "kept_row = (row_of (''project:b'', ''M-3''))\<lparr>protection_tier := TierPermanent\<rparr>"

definition with_row :: "memory_entry \<Rightarrow> backend" where
  "with_row e = pair_store\<lparr>b_db := write_row e (b_db pair_store)\<rparr>"

definition plain_rules :: cluster_rules where
  "plain_rules = \<lparr>cr_ufold = (\<lambda>s. s), cr_label = (\<lambda>_. Team), cr_policy = make_policy False None\<rparr>"

definition plain_cycle :: cycle_config where
  "plain_cycle = \<lparr>cy_enabled = True, cy_threshold = 3/4, cy_min_cluster = 2, cy_max_per_cycle = 50\<rparr>"

lemma with_row_simps:
  "db_ok (b_db (with_row e))" "row_at (with_row e) k = (if k = entry_key e then Some e else row_at pair_store k)"
  unfolding with_row_def pair_store_def by (simp_all add: write_row_ok held_store_ok)


definition resolved_row :: memory_entry where
  "resolved_row = (row_of (''project:b'', ''M-1''))\<lparr>status := Resolved, consolidated_into := Some ''M-9''\<rparr>"


section \<open>Where the cycle departs from its own rules\<close>

text \<open>
  Without a namespace the cycle runs on a store of a single one, whatever its name, and writes the new
  entry into \<open>default\<close>.
\<close>

lemma unscoped_cycle_relocates:
  "list_namespaces pair_store = [''project:b''] \<and> target_namespace None = ''default''"
proof
  have "rows (b_db pair_store) = [((''project:b'', ''M-1''), row_of (''project:b'', ''M-1'')), ((''project:b'', ''M-2''), row_of (''project:b'', ''M-2''))]"
    unfolding pair_store_def by simp
  then show "list_namespaces pair_store = [''project:b'']" by (simp add: list_namespaces_def)
qed (simp add: target_namespace_def)

end
