(* ===== verification/Spec2Isabelle.thy ===== *)
theory Spec2Isabelle
  imports Clocks Namespaces Lane Retry Validity Fusion Correction Sources AuditChain Tokens Graph StoreLock LiveStoresKept YamlStore ClaimTree WalkCost MaintainVerify ConsolidationCycle
begin

text \<open>
  A verification development for trw-memory, the engine under \<^verbatim>\<open>src/trw_memory\<close> that stores the
  learnings of coding agents and serves them back. All file names below are relative to that
  directory. This theory imports every other one; each opens with what it holds.

  \<^bold>\<open>The program.\<close> A memory is an entry (\<^verbatim>\<open>models/memory.py\<close>) owned by a namespace. A store keeps
  its entries in SQLite with side indexes (full text, tags, anchors, vectors, graph edges), behind
  a backend that filters what the quarantine ledger blocks; a second backend keeps one YAML file per
  entry. Writes pass the sensitivity labels, the evidence invariant and the injection gate, run one
  at a time on the daemon's lane, and are appended to a hash-chained audit log. Reads list, search,
  traverse the graph and fuse ranked sources under a token budget. A sync pipeline publishes dirty
  rows, applies pulled ones conditionally, resolves conflicts by vector clocks and retries failed
  publishes from a bounded queue. Locks keep a store from being replaced while some process uses it.
  Maintenance checks the claims of entries against a checkout of the code they speak of and writes the
  verdicts back, merges near-duplicates, and consolidates clusters of similar entries into one.

  \<^bold>\<open>Which theory models what.\<close>

  \<^item> \<open>Prelude\<close>: results that may raise, dictionaries in insertion order, string helpers, rounding.
  \<^item> \<open>Entry\<close>, \<open>Evidence\<close>: the entry with its enumerations and validators; the invariant that
    verified confidence needs evidence (\<^verbatim>\<open>security/_evidence_invariant.py\<close>).
  \<^item> \<open>Database\<close>, \<open>DatabaseInv\<close>: the row operations of \<^verbatim>\<open>storage/_crud_ops.py\<close> and its neighbours on a
    record of tables, and what every run of them keeps true (indexes mirror rows, no write
    introduces an unsubstantiated claim, identities do not touch each other).
  \<^item> \<open>Ledger\<close>, \<open>Backend\<close>: \<^verbatim>\<open>security/quarantine_ledger.py\<close>, and the served operations of
    \<^verbatim>\<open>storage/sqlite_backend.py\<close> that combine it with the rows.
  \<^item> \<open>Reads\<close>, \<open>Tokens\<close>: the filtered listings of \<^verbatim>\<open>storage/interface.py\<close> and
    \<^verbatim>\<open>storage/_query_ops.py\<close>, the resumable sweep of \<^verbatim>\<open>_sweep.py\<close> and its cursor tokens.
  \<^item> \<open>YamlStore\<close>: \<^verbatim>\<open>storage/yaml_backend.py\<close>, and in which sense it refines the SQLite rows.
  \<^item> \<open>Clocks\<close>, \<open>Sync\<close>, \<open>Retry\<close>: \<^verbatim>\<open>sync/conflict.py\<close>, \<^verbatim>\<open>sync/delta.py\<close>, \<^verbatim>\<open>sync/retry_queue.py\<close>.
  \<^item> \<open>Labels\<close>, \<open>Namespaces\<close>: the confidentiality labels of \<^verbatim>\<open>labels/\<close>; namespaces, roles and the
    authorised scope (\<^verbatim>\<open>namespaces/\<close>, \<^verbatim>\<open>security/rbac.py\<close>, \<^verbatim>\<open>security/namespace_scope.py\<close>).
  \<^item> \<open>Validity\<close>, \<open>Fusion\<close>, \<open>Sources\<close>, \<open>Graph\<close>: temporal selection, rank fusion and budgets, the
    sources one recall acquires (\<^verbatim>\<open>retrieval/\<close>), and the traversal of the knowledge graph.
  \<^item> \<open>Correction\<close>: \<^verbatim>\<open>lifecycle/correction.py\<close> over the row operations, the gates and the embedder.
  \<^item> \<open>ClaimTree\<close>, \<open>CheckoutWalk\<close>, \<open>WalkCovers\<close>, \<open>WalkCost\<close>: the questions one sweep puts to git about its
    checkout (\<^verbatim>\<open>lifecycle/claim_tree.py\<close>), and the walk that enumerates the files a glob names
    (\<^verbatim>\<open>lifecycle/_checkout_walk.py\<close>): it finds exactly the matches, and its cost is linear.
  \<^item> \<open>Verification\<close>, \<open>VerificationPass\<close>, \<open>MaintainVerify\<close>: the checks of single assertions
    (\<^verbatim>\<open>lifecycle/verification.py\<close>), the pass over one entry with its anchors and its conditional write
    (\<^verbatim>\<open>lifecycle/verification_pass.py\<close>, \<^verbatim>\<open>anchor_validation.py\<close>), and the sweep over a store that it
    writes to (\<^verbatim>\<open>storage/_assertion_queries.py\<close>).
  \<^item> \<open>Dedup\<close>: \<^verbatim>\<open>lifecycle/dedup.py\<close> with the thresholds of \<^verbatim>\<open>embeddings/_similarity_calibration.py\<close>.
  \<^item> \<open>Linkage\<close>, \<open>Consolidation\<close>, \<open>ConsolidationSafe\<close>, \<open>ConsolidationCycle\<close>: the clustering, the write of
    one cluster with its archival and rollback, and the cycle (\<^verbatim>\<open>lifecycle/consolidation.py\<close>,
    \<^verbatim>\<open>_consolidation_rollback.py\<close>, \<^verbatim>\<open>_consolidated_fields.py\<close>, \<^verbatim>\<open>protection.py\<close>).
  \<^item> \<open>AuditChain\<close>: \<^verbatim>\<open>security/audit.py\<close>.
  \<^item> \<open>Lane\<close>: the write lane of \<^verbatim>\<open>daemon/_lane.py\<close> as a step relation.
  \<^item> \<open>StoreLock\<close>: \<^verbatim>\<open>_store_lock.py\<close>, the shared and exclusive lock on a store, for any number of
    processes, with forks, finalizers and process death as steps.
  \<^item> \<open>LiveStores\<close>, \<open>LiveStoresInv\<close>, \<open>LiveStoresKept\<close>: \<^verbatim>\<open>_live_stores.py\<close>, the registry that keeps a
    process from dropping its own POSIX locks by closing a descriptor.

  \<^bold>\<open>How the model reads.\<close> Data keep the source's fields and constructors. An operation takes the
  state and returns the new one; a raised exception is the left side of a sum, and a body inside a
  transaction that raises leaves the old state. Components with several callers or processes (the
  lane, the store lock, the registry, the ledger's rows, the audit log, runs of row operations) have
  an inductive reachability predicate, and their invariants are proved by rule induction on it. A
  body that holds a lock is one step. Interfaces are locales that the components interpret on their
  own definitions: coercion of enumerations, safe views, limited and keyset reads, fetchers,
  raise-only registers, pointwise joins, absorbing merges and complete linkage. Where other writers
  may commit between two steps of an operation (a consolidated cluster), what they commit is a
  parameter, and the theorems say what holds beside it.

  \<^bold>\<open>Numbers.\<close> Scores, weights and importances are exact rationals where Python has floats, so
  statements about order hold for the values the floats denote, not for rounding in sums; the
  cosine of two vectors is the real number. Instants
  are integers (microseconds in UTC, or milliseconds of the monotonic clock for the locks).
  Counters that the code caps are capped here.

  \<^bold>\<open>Termination.\<close> No definition has fuel that the code lacks: loops end structurally or by a proved
  measure. The sweep and the graph walk carry the row and scan budgets of the code itself; their
  theorems say what holds when a budget runs out and that a resumed sweep visits every row once.
  The walk of a checkout carries its own work budget and deadline, and is proved linear in the tree;
  the verification sweep ends by its row budget although every visit writes to the store.

  \<^bold>\<open>Parameters.\<close> Code outside the repository is an argument: SHA-256 and the canonical digests, UTF-8
  encodability, \<open>float()\<close> of a text, SQLite's \<open>LIKE\<close>, Unicode folding, ISO date parsing, the text
  decoding and word test of the file reader, the regular expression engine, git (its answers and the
  time they take), the embedder, what \<open>stat\<close> reports of a file, and the write gate a pulled row passes.
  \<open>fnmatch\<close> is translated for the walk and a parameter of the labels. Where a
  theorem needs something of a parameter (injectivity of a digest, say) it is a named hypothesis,
  and the theorem's witness instantiates it.

  \<^bold>\<open>What is not modelled.\<close> SQL text and SQL errors, schema migration and the repair of damaged files;
  atomic file writes; sockets, discovery and process start; the regular-expression scanners for
  personal data and injection; embedding models and re-rankers; the tools' argument parsing and the
  clients. They are input and output, third-party code, or dispatch to the parts above. Also open:
  utility scoring, the storage tiers, the namespace registry and the promotion between namespaces,
  and the graph's edge creation, clusters and decay.
\<close>

end
